(* ===== verification/Prelude.thy ===== *)
theory Prelude
  imports Main "HOL-Library.Word"
begin

unbundle bit_operations_syntax

text \<open>
  Shared vocabulary of the development: the machine types of \<open>include/univ.i\<close> on a 64-bit
  build, the theorem collections the component theories fill, and the generic facts on words,
  lists and options they share.
\<close>

section \<open>Machine types\<close>

text \<open>
  \<open>ulint\<close> is \<open>unsigned long int\<close> (\<open>include/univ.i\<close>), 64 bits wide on the platforms modelled here;
  \<open>ib_uint64_t\<close> and \<open>ullint\<close> have the same width. A \<open>byte\<close> is an unsigned char.
\<close>

type_synonym ulint = "64 word"
type_synonym byte = "8 word"

text \<open>
  A block of memory, seen through a pointer, is the function from byte offsets to bytes.
  Pointer arithmetic \<open>b + k\<close> is addition of offsets.
\<close>

type_synonym mem = "nat \<Rightarrow> byte"

named_theorems word_val \<open>values of word operations as natural numbers\<close>

section \<open>Generic facts\<close>

lemma unat_le_mono [word_val]: "a \<le> b \<longleftrightarrow> unat a \<le> unat (b :: 'a::len word)"
  by (simp add: word_le_nat_alt)

lemma unat_plus_small:
  fixes a b :: ulint
  assumes "unat a + unat b < 2 ^ 64"
  shows "unat (a + b) = unat a + unat b"
  using assms by (simp add: unat_word_ariths)

lemma unat_minus_small:
  fixes a b :: ulint
  assumes "unat b \<le> unat a"
  shows "unat (a - b) = unat a - unat b"
  using assms by (simp add: unat_sub word_le_nat_alt)

lemma unat_2p:
  assumes "k < 64"
  shows "unat (2 ^ k :: ulint) = 2 ^ k"
proof -
  have "(2::nat) ^ k < 2 ^ 64" using assms by (intro power_strict_increasing) simp_all
  then have "unat (of_nat (2 ^ k) :: ulint) = 2 ^ k"
    by (simp add: unsigned_of_nat take_bit_eq_mod del: of_nat_power)
  then show ?thesis by simp
qed

lemma unat_and_mask:
  fixes n :: ulint
  shows "unat (n AND mask k) = unat n mod 2 ^ k"
  unfolding take_bit_eq_mask [symmetric] unsigned_take_bit_eq by (simp add: take_bit_eq_mod)

lemma unat_and_not_mask:
  fixes n :: ulint
  shows "unat (n AND NOT (mask k)) = unat n div 2 ^ k * 2 ^ k"
proof -
  have e: "n AND NOT (mask k) = push_bit k (drop_bit k n)"
    by (rule bit_eqI) (auto simp: bit_simps)
  have "push_bit k (drop_bit k n) = n - take_bit k n"
    using bits_ident [of k n] by (simp add: eq_diff_eq)
  moreover have t: "unat (take_bit k n) = unat n mod 2 ^ k"
    unfolding unsigned_take_bit_eq by (simp add: take_bit_eq_mod)
  ultimately have "unat (n AND NOT (mask k)) = unat n - unat n mod 2 ^ k"
    using e by (simp add: unat_minus_small)
  then show ?thesis by (simp add: minus_mod_eq_div_mult)
qed

lemma unat_of_nat_small: "n < 2 ^ 64 \<Longrightarrow> unat (of_nat n :: ulint) = n"
  by (simp add: unsigned_of_nat take_bit_nat_eq_self)

lemma sint_of_int_small:
  "- (2 ^ 63) \<le> v \<Longrightarrow> v < 2 ^ 63 \<Longrightarrow> sint (word_of_int v :: ulint) = v"
  by (simp add: signed_of_int signed_take_bit_int_eq_self)

subsection \<open>Bytes of a word\<close>

lemma byte_less: "unat (x :: byte) < 256"
  using unsigned_less [of x] by simp

lemma unat_ucast_byte [word_val]: "unat (ucast (x :: byte) :: ulint) = unat x"
proof -
  have "unat x < 2 ^ 64" by (rule less_trans [OF byte_less]) simp
  then show ?thesis by (simp add: unsigned_ucast_eq take_bit_nat_eq_self)
qed

lemma unat_byte_of [word_val]:
  "unat (ucast (drop_bit k (n :: ulint)) :: byte) = unat n div 2 ^ k mod 256"
proof -
  have "take_bit 64 (unat n) = unat n"
    using unsigned_less [of n] by (intro take_bit_nat_eq_self) simp
  then show ?thesis
    unfolding unsigned_ucast_eq unsigned_drop_bit_eq
    by (simp add: take_bit_eq_mod drop_bit_eq_div)
qed

lemma unat_drop_bit_div [word_val]: "unat (drop_bit k (n :: ulint)) = unat n div 2 ^ k"
  unfolding unsigned_drop_bit_eq
  by (simp add: take_bit_nat_eq_self drop_bit_eq_div unsigned_less [of n, simplified])

lemma unat_take_bit_mod [word_val]: "unat (take_bit k (n :: ulint)) = unat n mod 2 ^ k"
  unfolding unsigned_take_bit_eq by (simp add: take_bit_eq_mod)

lemma unat_ulint_less: "unat (n :: ulint) < 2 ^ 64"
  using unsigned_less [of n, where 'a = nat] by simp

lemma unat_byte_of_0 [word_val]: "unat (ucast (n :: ulint) :: byte) = unat n mod 256"
  by (simp add: unsigned_ucast_eq take_bit_eq_mod)

lemma ulint_length: "LENGTH(64) = 64"
  by simp

lemma unat_shift_byte [word_val]:
  assumes "k \<le> 56"
  shows "unat (push_bit k (ucast (x :: byte)) :: ulint) = unat x * 2 ^ k"
proof -
  have "(2::nat) ^ k \<le> 2 ^ 56" using assms by (intro power_increasing) simp_all
  then have "unat x * 2 ^ k < 256 * 2 ^ 56"
    using byte_less [of x] by (meson le_less_trans less_le_trans mult_less_mono1 mult_le_mono2
      zero_less_power zero_less_numeral)
  then have "unat x * 2 ^ k < 2 ^ 64" by simp
  then show ?thesis
    unfolding unsigned_push_bit_eq unat_ucast_byte
    by (simp only: push_bit_eq_mult take_bit_nat_eq_self ulint_length)
qed

lemma byte_split2: "n < 2 ^ 16 \<Longrightarrow> n div 2 ^ 8 mod 256 * 2 ^ 8 + n mod 256 = (n::nat)"
  by simp

lemma byte_split3:
  assumes "n < 2 ^ 24"
  shows "n div 2 ^ 16 mod 256 * 2 ^ 16 + n div 2 ^ 8 mod 256 * 2 ^ 8 + n mod 256 = (n::nat)"
proof -
  have "n div 2 ^ 8 < 2 ^ 16" using assms by (simp add: less_mult_imp_div_less)
  from byte_split2 [OF this]
  have "n div 2 ^ 16 mod 256 * 2 ^ 8 + n div 2 ^ 8 mod 256 = n div 2 ^ 8"
    by (simp flip: div_mult2_eq del: mod_less)
  moreover have "n = n div 2 ^ 8 * 256 + n mod 256" by simp
  ultimately have "n = (n div 2 ^ 16 mod 256 * 2 ^ 8 + n div 2 ^ 8 mod 256) * 256 + n mod 256"
    by argo
  then show ?thesis by (simp del: mod_less)
qed

lemma byte_split4:
  assumes "n < 2 ^ 32"
  shows "n div 2 ^ 24 mod 256 * 2 ^ 24 + n div 2 ^ 16 mod 256 * 2 ^ 16
    + n div 2 ^ 8 mod 256 * 2 ^ 8 + n mod 256 = (n::nat)"
proof -
  have "n div 2 ^ 8 < 2 ^ 24" using assms by (simp add: less_mult_imp_div_less)
  from byte_split3 [OF this]
  have "n div 2 ^ 24 mod 256 * 2 ^ 16 + n div 2 ^ 16 mod 256 * 2 ^ 8 + n div 2 ^ 8 mod 256 = n div 2 ^ 8"
    unfolding div_mult2_eq [symmetric] power_add [symmetric] by (simp del: mod_less)
  moreover have "n = n div 2 ^ 8 * 256 + n mod 256" by simp
  ultimately have "n = (n div 2 ^ 24 mod 256 * 2 ^ 16 + n div 2 ^ 16 mod 256 * 2 ^ 8
      + n div 2 ^ 8 mod 256) * 256 + n mod 256" by argo
  then show ?thesis by (simp del: mod_less div_less)
qed

lemma lexord_snoc:
  "length xs = length ys \<Longrightarrow> (xs @ [a], ys @ [b]) \<in> lexord r \<longleftrightarrow>
    (xs, ys) \<in> lexord r \<or> xs = ys \<and> (a, b) \<in> r"
  by (induction xs ys rule: list_induct2) auto

text \<open>The result of a run whose first component is known.\<close>

lemma run_result: "map_option fst r = Some e \<Longrightarrow> r = Some (e, snd (the r))"
  by (cases r) auto

end
