(* ===== verification/UtByte.thy ===== *)
theory UtByte
  imports Prelude
begin

text \<open>
  Byte utilities (\<open>include/ut0byte.ic\<close>, \<open>include/ut0byte.h\<close>): the 64-bit integer \<open>dulint\<close> made of two
  32-bit halves held in \<open>ulint\<close>s, its arithmetic and order, the alignment helpers and the
  bit accessors.
\<close>

section \<open>dulint\<close>

record dulint =
  dul_high :: ulint
  dul_low :: ulint

definition ut_dulint_create :: "ulint \<Rightarrow> ulint \<Rightarrow> dulint" where
  "ut_dulint_create high low = \<lparr>dul_high = high, dul_low = low\<rparr>"

definition ut_dulint_get_high :: "dulint \<Rightarrow> ulint" where
  "ut_dulint_get_high d = dul_high d"

definition ut_dulint_get_low :: "dulint \<Rightarrow> ulint" where
  "ut_dulint_get_low d = dul_low d"

definition ut_conv_dulint_to_longlong :: "dulint \<Rightarrow> ulint" where
  "ut_conv_dulint_to_longlong d = dul_low d + push_bit 32 (dul_high d)"

definition ut_dulint_is_zero :: "dulint \<Rightarrow> bool" where
  "ut_dulint_is_zero a = (if dul_low a = 0 \<and> dul_high a = 0 then True else False)"

definition ut_dulint_cmp :: "dulint \<Rightarrow> dulint \<Rightarrow> int" where
  "ut_dulint_cmp a b =
     (if dul_high a > dul_high b then 1
      else if dul_high a < dul_high b then -1
      else if dul_low a > dul_low b then 1
      else if dul_low a < dul_low b then -1
      else 0)"

definition ut_dulint_get_max :: "dulint \<Rightarrow> dulint \<Rightarrow> dulint" where
  "ut_dulint_get_max a b = (if ut_dulint_cmp a b > 0 then a else b)"

definition ut_dulint_get_min :: "dulint \<Rightarrow> dulint \<Rightarrow> dulint" where
  "ut_dulint_get_min a b = (if ut_dulint_cmp a b > 0 then b else a)"

definition ut_dulint_add :: "dulint \<Rightarrow> ulint \<Rightarrow> dulint" where
  "ut_dulint_add a b =
     (if 0xFFFFFFFF - b \<ge> dul_low a then a\<lparr>dul_low := dul_low a + b\<rparr>
      else a\<lparr>dul_low := dul_low a - (0xFFFFFFFF - b) - 1, dul_high := dul_high a + 1\<rparr>)"

definition ut_dulint_subtract :: "dulint \<Rightarrow> ulint \<Rightarrow> dulint" where
  "ut_dulint_subtract a b =
     (if dul_low a \<ge> b then a\<lparr>dul_low := dul_low a - b\<rparr>
      else (let b' = b - (dul_low a + 1)
            in a\<lparr>dul_low := 0xFFFFFFFF - b', dul_high := dul_high a - 1\<rparr>))"

definition ut_dulint_minus :: "dulint \<Rightarrow> dulint \<Rightarrow> ulint" where
  "ut_dulint_minus a b =
     (if dul_high a = dul_high b then dul_low a - dul_low b
      else (let diff = 0xFFFFFFFF - dul_low b in diff + (1 + dul_low a)))"

definition ut_dulint_align_down :: "dulint \<Rightarrow> ulint \<Rightarrow> dulint" where
  "ut_dulint_align_down n align_no =
     (let low = ut_dulint_get_low n;
          high = ut_dulint_get_high n;
          low' = low AND NOT (align_no - 1)
      in ut_dulint_create high low')"

definition ut_dulint_align_up :: "dulint \<Rightarrow> ulint \<Rightarrow> dulint" where
  "ut_dulint_align_up n align_no =
     ut_dulint_align_down (ut_dulint_add n (align_no - 1)) align_no"

section \<open>Alignment and bits of a machine word\<close>

definition ut_uint64_align_down :: "ulint \<Rightarrow> ulint \<Rightarrow> ulint" where
  "ut_uint64_align_down n align_no = n AND NOT (align_no - 1)"

definition ut_uint64_align_up :: "ulint \<Rightarrow> ulint \<Rightarrow> ulint" where
  "ut_uint64_align_up n align_no =
     (let align_1 = align_no - 1 in (n + align_1) AND NOT align_1)"

definition ut_calc_align :: "ulint \<Rightarrow> ulint \<Rightarrow> ulint" where
  "ut_calc_align n align_no = (n + align_no - 1) AND NOT (align_no - 1)"

definition ut_align :: "ulint \<Rightarrow> ulint \<Rightarrow> ulint" where
  "ut_align ptr align_no = (ptr + align_no - 1) AND NOT (align_no - 1)"

definition ut_calc_align_down :: "ulint \<Rightarrow> ulint \<Rightarrow> ulint" where
  "ut_calc_align_down n align_no = n AND NOT (align_no - 1)"

definition ut_align_down :: "ulint \<Rightarrow> ulint \<Rightarrow> ulint" where
  "ut_align_down ptr align_no = ptr AND NOT (align_no - 1)"

definition ut_align_offset :: "ulint \<Rightarrow> ulint \<Rightarrow> ulint" where
  "ut_align_offset ptr align_no = ptr AND (align_no - 1)"

definition ut_bit_get_nth :: "ulint \<Rightarrow> nat \<Rightarrow> bool" where
  "ut_bit_get_nth a n = (1 AND drop_bit n a \<noteq> 0)"

definition ut_bit_set_nth :: "ulint \<Rightarrow> nat \<Rightarrow> bool \<Rightarrow> ulint" where
  "ut_bit_set_nth a n val =
     (if val then push_bit n 1 OR a else NOT (push_bit n 1) AND a)"

section \<open>Properties\<close>

text \<open>The value a \<open>dulint\<close> stands for, and the range its halves are kept in.\<close>

definition dulint_val :: "dulint \<Rightarrow> nat" where
  "dulint_val d = unat (dul_high d) * 2 ^ 32 + unat (dul_low d)"

definition dulint_ok :: "dulint \<Rightarrow> bool" where
  "dulint_ok d \<longleftrightarrow> dul_high d \<le> 0xFFFFFFFF \<and> dul_low d \<le> 0xFFFFFFFF"

lemma dulint_ok_unat:
  "dulint_ok d \<longleftrightarrow> unat (dul_high d) < 2 ^ 32 \<and> unat (dul_low d) < 2 ^ 32"
  by (simp add: dulint_ok_def word_le_nat_alt less_Suc_eq_le [symmetric])

lemma dulint_val_bound: "dulint_ok d \<Longrightarrow> dulint_val d < 2 ^ 64"
  by (simp add: dulint_ok_unat dulint_val_def)

lemma base32_inj:
  fixes a b c d :: nat
  assumes "b < 2 ^ 32" and "d < 2 ^ 32" and "a * 2 ^ 32 + b = c * 2 ^ 32 + d"
  shows "a = c \<and> b = d"
proof -
  have "a = (a * 2 ^ 32 + b) div 2 ^ 32" "c = (c * 2 ^ 32 + d) div 2 ^ 32"
    using assms(1,2) by simp_all
  then have "a = c" using assms(3) by simp
  then show ?thesis using assms(3) by simp
qed

lemma base32_less:
  fixes a b c d :: nat
  assumes "b < 2 ^ 32" and "d < 2 ^ 32"
  shows "a * 2 ^ 32 + b < c * 2 ^ 32 + d \<longleftrightarrow> a < c \<or> a = c \<and> b < d"
proof (cases a c rule: linorder_cases)
  case less
  then have "(a + 1) * 2 ^ 32 \<le> c * 2 ^ 32" by simp
  then show ?thesis using less assms by simp
next
  case greater
  then have "(c + 1) * 2 ^ 32 \<le> a * 2 ^ 32" by simp
  then show ?thesis using greater assms by simp
qed simp

lemma dulint_val_inj:
  assumes "dulint_ok a" and "dulint_ok b" and "dulint_val a = dulint_val b"
  shows "a = b"
proof -
  have "unat (dul_high a) = unat (dul_high b) \<and> unat (dul_low a) = unat (dul_low b)"
    using assms unfolding dulint_ok_unat dulint_val_def by (intro base32_inj) auto
  then show ?thesis by (simp add: word_unat_eq_iff)
qed

lemma dulint_val_less:
  assumes "dulint_ok a" and "dulint_ok b"
  shows "dulint_val a < dulint_val b \<longleftrightarrow>
    dul_high a < dul_high b \<or> dul_high a = dul_high b \<and> dul_low a < dul_low b"
  using assms unfolding dulint_ok_unat dulint_val_def word_less_nat_alt word_unat_eq_iff
  by (intro base32_less) auto

lemma ut_dulint_cmp_val:
  assumes "dulint_ok a" and "dulint_ok b"
  shows "ut_dulint_cmp a b =
    (if dulint_val a > dulint_val b then 1 else if dulint_val a < dulint_val b then -1 else 0)"
  using assms by (auto simp: ut_dulint_cmp_def dulint_val_less)

lemma ut_dulint_add_val:
  assumes "dulint_ok a" and "b \<le> 0xFFFFFFFF" and "dulint_val a + unat b < 2 ^ 64"
  shows "dulint_ok (ut_dulint_add a b) \<and> dulint_val (ut_dulint_add a b) = dulint_val a + unat b"
proof -
  have le: "unat b < 2 ^ 32" "unat (0xFFFFFFFF - b) = 0xFFFFFFFF - unat b"
    using assms(2) by (simp_all add: word_le_nat_alt unat_minus_small)
  have ok: "unat (dul_high a) < 2 ^ 32" "unat (dul_low a) < 2 ^ 32"
    using assms(1) by (simp_all add: dulint_ok_unat)
  show ?thesis
  proof (cases "dul_low a \<le> 0xFFFFFFFF - b")
    case True
    then have s: "unat (dul_low a) + unat b < 2 ^ 32"
      using le by (simp add: word_le_nat_alt)
    then show ?thesis
      using True ok by (simp add: ut_dulint_add_def dulint_ok_unat dulint_val_def unat_plus_small)
  next
    case False
    then have g: "0xFFFFFFFF < unat (dul_low a) + unat b"
      using le by (simp add: word_le_nat_alt)
    have l: "unat (dul_low a - (0xFFFFFFFF - b) - 1) = unat (dul_low a) + unat b - 2 ^ 32"
      using g le ok unat_plus_small [of "dul_low a" b]
        unat_minus_small [of "0x100000000" "dul_low a + b"] by simp
    have "unat (dul_high a) < 0xFFFFFFFF"
      using assms(3) g by (simp add: dulint_val_def)
    then have h: "unat (dul_high a + 1) = unat (dul_high a) + 1"
      by (simp add: unat_plus_small)
    show ?thesis
      using False g ok le h l assms(3)
      by (simp add: ut_dulint_add_def dulint_ok_unat dulint_val_def del: diff_diff_eq2)
  qed
qed

lemma ut_dulint_subtract_val:
  assumes "dulint_ok a" and "b \<le> 0xFFFFFFFF" and "unat b \<le> dulint_val a"
  shows "dulint_ok (ut_dulint_subtract a b) \<and>
    dulint_val (ut_dulint_subtract a b) = dulint_val a - unat b"
proof -
  have b: "unat b \<le> 0xFFFFFFFF" using assms(2) by (simp add: word_le_nat_alt)
  have ok: "unat (dul_high a) < 2 ^ 32" "unat (dul_low a) < 2 ^ 32"
    using assms(1) by (simp_all add: dulint_ok_unat)
  show ?thesis
  proof (cases "b \<le> dul_low a")
    case True
    then show ?thesis
      using ok by (simp add: ut_dulint_subtract_def dulint_ok_unat dulint_val_def
          unat_minus_small word_le_nat_alt)
  next
    case False
    then have lt: "unat (dul_low a) < unat b" by (simp add: word_le_nat_alt)
    then have pos: "0 < unat (dul_high a)"
      using assms(3) by (cases "unat (dul_high a)") (simp_all add: dulint_val_def)
    have l: "unat (0xFFFFFFFF - (b - (dul_low a + 1))) = 2 ^ 32 + unat (dul_low a) - unat b"
      using b lt ok unat_plus_small [of "0x100000000" "dul_low a"]
        unat_minus_small [of b "0x100000000 + dul_low a"] by (simp add: add_diff_eq)
    have h: "unat (dul_high a - 1) = unat (dul_high a) - 1"
      using pos by (simp add: unat_minus_small)
    have "ut_dulint_subtract a b =
        a\<lparr>dul_low := 0xFFFFFFFF - (b - (dul_low a + 1)), dul_high := dul_high a - 1\<rparr>"
      using False by (simp add: ut_dulint_subtract_def Let_def)
    then show ?thesis
      using l h ok lt pos b
      by (cases "unat (dul_high a)") (auto simp: dulint_ok_unat dulint_val_def)
  qed
qed

lemma ut_dulint_minus_val:
  assumes "dulint_ok a" and "dulint_ok b"
    and "dulint_val b \<le> dulint_val a" and "dulint_val a - dulint_val b < 2 ^ 32"
  shows "unat (ut_dulint_minus a b) = dulint_val a - dulint_val b"
proof (cases "dul_high a = dul_high b")
  case True
  then show ?thesis
    using assms by (simp add: ut_dulint_minus_def dulint_val_def unat_minus_small)
next
  case False
  have ok: "unat (dul_low a) < 2 ^ 32" "unat (dul_low b) < 2 ^ 32"
    using assms(1,2) by (simp_all add: dulint_ok_unat)
  have h: "unat (dul_high a) = unat (dul_high b) + 1"
  proof -
    have "unat (dul_high a) \<noteq> unat (dul_high b)" using False by (simp add: word_unat_eq_iff)
    then show ?thesis
      using assms(3,4) ok unfolding dulint_val_def
      by (cases "unat (dul_high a)" "unat (dul_high b) + 1" rule: linorder_cases) simp_all
  qed
  have "unat (0xFFFFFFFF - dul_low b) = 0xFFFFFFFF - unat (dul_low b)"
    using ok by (simp add: unat_minus_small)
  moreover have "unat (1 + dul_low a) = 1 + unat (dul_low a)"
    using ok by (simp add: unat_plus_small)
  ultimately have "unat ((0xFFFFFFFF - dul_low b) + (1 + dul_low a)) =
      (0xFFFFFFFF - unat (dul_low b)) + (1 + unat (dul_low a))"
    using ok unat_plus_small [of "0xFFFFFFFF - dul_low b" "1 + dul_low a"] by simp
  then show ?thesis
    using False h ok assms(4) by (simp add: ut_dulint_minus_def dulint_val_def)
qed

text \<open>The signed 64-bit value is read off the same bits: no carry crosses the halves.\<close>

lemma ut_conv_dulint_to_longlong_val:
  assumes "dulint_ok d"
  shows "unat (ut_conv_dulint_to_longlong d) = dulint_val d"
proof -
  have ok: "unat (dul_high d) < 2 ^ 32" "unat (dul_low d) < 2 ^ 32"
    using assms by (simp_all add: dulint_ok_unat)
  have "unat (push_bit 32 (dul_high d)) = unat (dul_high d) * 2 ^ 32"
    using ok by (simp add: unsigned_push_bit_eq push_bit_eq_mult [where 'a=nat] take_bit_eq_mod
        del: push_bit_eq_mult)
  then show ?thesis
    using ok by (simp add: ut_conv_dulint_to_longlong_def dulint_val_def unat_plus_small)
qed


subsection \<open>Alignment\<close>

text \<open>All the rounding functions are the same two operations on a power of two.\<close>

lemmas align_down_defs =
  ut_uint64_align_down_def ut_calc_align_down_def ut_align_down_def

lemmas align_up_defs =
  ut_uint64_align_up_def ut_calc_align_def ut_align_def

lemma align_down_val:
  fixes n :: ulint
  assumes "k < 64"
  shows "unat (n AND NOT (2 ^ k - 1)) = unat n div 2 ^ k * 2 ^ k"
  using unat_and_not_mask [of n k] by (simp add: mask_eq_exp_minus_1)

lemma align_up_val:
  fixes n :: ulint
  assumes "k < 64" and "unat n + 2 ^ k \<le> 2 ^ 64"
  shows "unat ((n + (2 ^ k - 1)) AND NOT (2 ^ k - 1)) = (unat n + 2 ^ k - 1) div 2 ^ k * 2 ^ k"
proof -
  have p: "unat (2 ^ k - 1 :: ulint) = 2 ^ k - 1"
    using unat_2p [OF assms(1)] by (simp add: unat_minus_small)
  have "(0::nat) < 2 ^ k" by simp
  then have "unat n + unat (2 ^ k - 1 :: ulint) < 2 ^ 64"
    using assms(2) p by linarith
  then have "unat (n + (2 ^ k - 1)) = unat n + 2 ^ k - 1"
    using p by (simp only: unat_plus_small) simp
  then show ?thesis using align_down_val [OF assms(1), of "n + (2 ^ k - 1)"] by simp
qed

lemma ut_dulint_align_down_val:
  assumes "dulint_ok n" and "k \<le> 32"
  shows "dulint_ok (ut_dulint_align_down n (2 ^ k)) \<and>
    dulint_val (ut_dulint_align_down n (2 ^ k)) = dulint_val n div 2 ^ k * 2 ^ k"
proof -
  let ?l = "unat (dul_low n)" and ?h = "unat (dul_high n)"
  have l: "unat (dul_low n AND NOT (2 ^ k - 1)) = ?l div 2 ^ k * 2 ^ k"
    using assms(2) by (intro align_down_val) simp
  have le: "?l div 2 ^ k * 2 ^ k \<le> ?l" by simp
  have e: "(2::nat) ^ 32 = 2 ^ (32 - k) * 2 ^ k"
    using assms(2) by (simp flip: power_add)
  have "(?h * 2 ^ 32 + ?l) div 2 ^ k = ?h * 2 ^ (32 - k) + ?l div 2 ^ k"
    unfolding e by (simp flip: mult.assoc)
  then have "(?h * 2 ^ 32 + ?l) div 2 ^ k * 2 ^ k = ?h * 2 ^ 32 + ?l div 2 ^ k * 2 ^ k"
    unfolding e by (simp add: algebra_simps)
  then show ?thesis
    using assms(1) l le le_less_trans [OF le, of "2 ^ 32"]
    by (simp add: ut_dulint_align_down_def ut_dulint_create_def ut_dulint_get_low_def
        ut_dulint_get_high_def dulint_ok_unat dulint_val_def)
qed

subsection \<open>Bits\<close>

lemma ut_bit_get_nth_bit: "n < 64 \<Longrightarrow> ut_bit_get_nth a n = bit a n"
  by (simp add: ut_bit_get_nth_def one_and_eq bit_iff_odd_drop_bit mod_2_eq_odd)

lemma bit_ut_bit_set_nth:
  "n < 64 \<Longrightarrow> bit (ut_bit_set_nth a n val) m = (if m = n then val else bit a m)"
  by (auto simp: ut_bit_set_nth_def bit_simps dest: bit_imp_le_length)

lemma ut_bit_get_set_nth:
  "n < 64 \<Longrightarrow> m < 64 \<Longrightarrow>
    ut_bit_get_nth (ut_bit_set_nth a n val) m = (if m = n then val else ut_bit_get_nth a m)"
  by (simp add: ut_bit_get_nth_bit bit_ut_bit_set_nth)

section \<open>Increment and order\<close>

definition ut_dulint_zero :: dulint where
  "ut_dulint_zero = ut_dulint_create 0 0"

definition ut_dulint_max :: dulint where
  "ut_dulint_max = ut_dulint_create 0xFFFFFFFF 0xFFFFFFFF"

definition UT_DULINT_INC :: "dulint \<Rightarrow> dulint" where
  "UT_DULINT_INC D =
     (if dul_low D = 0xFFFFFFFF then D\<lparr>dul_high := dul_high D + 1, dul_low := 0\<rparr>
      else D\<lparr>dul_low := dul_low D + 1\<rparr>)"

definition UT_DULINT_EQ :: "dulint \<Rightarrow> dulint \<Rightarrow> bool" where
  "UT_DULINT_EQ D1 D2 \<longleftrightarrow> dul_low D1 = dul_low D2 \<and> dul_high D1 = dul_high D2"

text \<open>
  \<open>ut_dulint_cmp\<close> is the lexicographic order of the halves: declared as the library's \<open>linorder\<close>,
  the order automation applies to transaction ids and numbers.
\<close>

instantiation dulint_ext :: (linorder) linorder
begin

definition less_eq_dulint_ext :: "'a dulint_ext \<Rightarrow> 'a dulint_ext \<Rightarrow> bool" where
  "a \<le> b \<longleftrightarrow> dul_high a < dul_high b \<or> dul_high a = dul_high b \<and>
     (dul_low a < dul_low b \<or> dul_low a = dul_low b \<and> dulint.more a \<le> dulint.more b)"

definition less_dulint_ext :: "'a dulint_ext \<Rightarrow> 'a dulint_ext \<Rightarrow> bool" where
  "a < b \<longleftrightarrow> dul_high a < dul_high b \<or> dul_high a = dul_high b \<and>
     (dul_low a < dul_low b \<or> dul_low a = dul_low b \<and> dulint.more a < dulint.more b)"

instance
  by standard (auto simp: less_eq_dulint_ext_def less_dulint_ext_def intro: dulint.equality)

end

lemma dulint_less_iff:
  "(a :: dulint) < b \<longleftrightarrow> dul_high a < dul_high b \<or> dul_high a = dul_high b \<and> dul_low a < dul_low b"
  by (auto simp: less_dulint_ext_def)

lemma ut_dulint_cmp_order [simp]:
  "ut_dulint_cmp a b > 0 \<longleftrightarrow> a > b"
  "ut_dulint_cmp a b < 0 \<longleftrightarrow> a < b"
  "ut_dulint_cmp a b \<ge> 0 \<longleftrightarrow> a \<ge> b"
  "ut_dulint_cmp a b \<le> 0 \<longleftrightarrow> a \<le> b"
  "ut_dulint_cmp a b = 0 \<longleftrightarrow> a = b"
  "0 = ut_dulint_cmp a b \<longleftrightarrow> a = b"
proof -
  have lt: "ut_dulint_cmp a b < 0 \<longleftrightarrow> a < b" for a b
    by (auto simp: ut_dulint_cmp_def dulint_less_iff)
  have gt: "ut_dulint_cmp a b > 0 \<longleftrightarrow> a > b" for a b
    by (auto simp: ut_dulint_cmp_def dulint_less_iff)
  show "ut_dulint_cmp a b > 0 \<longleftrightarrow> a > b" by (rule gt)
  show "ut_dulint_cmp a b < 0 \<longleftrightarrow> a < b" by (rule lt)
  show "ut_dulint_cmp a b \<ge> 0 \<longleftrightarrow> a \<ge> b" using lt [of a b] by auto
  show "ut_dulint_cmp a b \<le> 0 \<longleftrightarrow> a \<le> b" using gt [of a b] by auto
  show "ut_dulint_cmp a b = 0 \<longleftrightarrow> a = b" using lt [of a b] gt [of a b] by force
  then show "0 = ut_dulint_cmp a b \<longleftrightarrow> a = b" by auto
qed

lemma ut_dulint_is_zero_iff [simp]: "ut_dulint_is_zero a \<longleftrightarrow> a = ut_dulint_zero"
  by (auto simp: ut_dulint_is_zero_def ut_dulint_zero_def ut_dulint_create_def intro: dulint.equality)

lemma UT_DULINT_EQ_iff [simp]: "UT_DULINT_EQ a b \<longleftrightarrow> a = b"
  by (auto simp: UT_DULINT_EQ_def intro: dulint.equality)

lemma dulint_less_val:
  "dulint_ok a \<Longrightarrow> dulint_ok b \<Longrightarrow> a < b \<longleftrightarrow> dulint_val a < dulint_val b"
  by (simp add: dulint_val_less dulint_less_iff)

lemma dulint_ok_const [simp]: "dulint_ok ut_dulint_zero" "dulint_ok ut_dulint_max"
  by (simp_all add: dulint_ok_def ut_dulint_zero_def ut_dulint_max_def ut_dulint_create_def)

lemma dulint_val_const [simp]:
  "dulint_val ut_dulint_zero = 0" "dulint_val ut_dulint_max = 2 ^ 64 - 1"
  by (simp_all add: dulint_val_def ut_dulint_zero_def ut_dulint_max_def ut_dulint_create_def)

lemma ut_dulint_zero_le [simp]: "ut_dulint_zero \<le> a"
  by (simp add: less_eq_dulint_ext_def ut_dulint_zero_def ut_dulint_create_def word_neq_0_conv [symmetric])

lemma dulint_le_max: "dulint_ok a \<Longrightarrow> a \<le> ut_dulint_max"
  using dulint_less_val [of ut_dulint_max a] dulint_val_bound [of a] by (simp add: not_less [symmetric])

lemma UT_DULINT_INC_val:
  assumes "dulint_ok d" and "dulint_val d < 2 ^ 64 - 1"
  shows "dulint_ok (UT_DULINT_INC d) \<and> dulint_val (UT_DULINT_INC d) = dulint_val d + 1"
proof -
  have ok: "unat (dul_high d) < 2 ^ 32" "unat (dul_low d) < 2 ^ 32"
    using assms(1) by (simp_all add: dulint_ok_unat)
  have s: "unat (w + 1) = unat w + 1" if "unat w < 2 ^ 32" for w :: ulint
    using that by (simp add: unat_plus_small)
  show ?thesis
  proof (cases "dul_low d = 0xFFFFFFFF")
    case True
    then have "unat (dul_high d) < 0xFFFFFFFF" using assms(2) by (simp add: dulint_val_def)
    with True ok show ?thesis
      by (simp add: UT_DULINT_INC_def dulint_ok_unat dulint_val_def s)
  next
    case False
    then have "unat (dul_low d) \<noteq> 0xFFFFFFFF" by (simp add: word_unat_eq_iff)
    with False ok show ?thesis
      by (simp add: UT_DULINT_INC_def dulint_ok_unat dulint_val_def s)
  qed
qed

lemma UT_DULINT_INC_greater:
  "dulint_ok d \<Longrightarrow> dulint_val d < 2 ^ 64 - 1 \<Longrightarrow> d < UT_DULINT_INC d"
  by (simp add: dulint_less_val UT_DULINT_INC_val)

section \<open>The arithmetic of dulints\<close>

text \<open>
  C37: on dulints whose halves are 32-bit values, \<open>ut_dulint_add\<close> is exact addition whenever the
  sum fits in 64 bits, its carry included; \<open>ut_dulint_subtract\<close> undoes it, \<open>ut_dulint_minus\<close>
  recovers the increment, and \<open>ut_dulint_cmp\<close> orders the two as their values are.
\<close>

theorem dulint_add_exact:
  assumes "dulint_ok a" and "b \<le> 0xFFFFFFFF" and "dulint_val a + unat b < 2 ^ 64"
  shows "dulint_ok (ut_dulint_add a b) \<and>
    dulint_val (ut_dulint_add a b) = dulint_val a + unat b \<and>
    ut_dulint_subtract (ut_dulint_add a b) b = a \<and>
    ut_dulint_minus (ut_dulint_add a b) a = b \<and>
    ut_dulint_cmp a (ut_dulint_add a b) = (if b = 0 then 0 else -1)"
proof -
  note add = ut_dulint_add_val [OF assms]
  have b: "unat b < 2 ^ 32" using assms(2) by (simp add: word_le_nat_alt)
  note sub = ut_dulint_subtract_val [of "ut_dulint_add a b" b]
  have "ut_dulint_subtract (ut_dulint_add a b) b = a"
    using add sub assms by (intro dulint_val_inj) auto
  moreover have "ut_dulint_minus (ut_dulint_add a b) a = b"
    using ut_dulint_minus_val [of "ut_dulint_add a b" a] add assms(1) b
    by (simp add: word_unat_eq_iff)
  ultimately show ?thesis
    using add assms(1) by (auto simp: ut_dulint_cmp_val word_unat_eq_iff)
qed

theorem dulint_add_exact_witness:
  "ut_dulint_add (ut_dulint_create 6 0xFFFFFFFE) 5 = ut_dulint_create 7 3 \<and>
   ut_dulint_subtract (ut_dulint_create 7 3) 5 = ut_dulint_create 6 0xFFFFFFFE \<and>
   ut_dulint_minus (ut_dulint_create 7 3) (ut_dulint_create 6 0xFFFFFFFE) = 5"
proof -
  have "ut_dulint_add (ut_dulint_create 6 0xFFFFFFFE) 5 = ut_dulint_create 7 3"
    by (simp add: ut_dulint_add_def ut_dulint_create_def)
  then show ?thesis
    using dulint_add_exact [of "ut_dulint_create 6 0xFFFFFFFE" 5]
    by (simp add: dulint_ok_def dulint_val_def ut_dulint_create_def)
qed

lemma ut_dulint_align_up_val:
  assumes "dulint_ok n" and "k < 32" and "dulint_val n + 2 ^ k \<le> 2 ^ 64"
  shows "dulint_ok (ut_dulint_align_up n (2 ^ k)) \<and>
    dulint_val (ut_dulint_align_up n (2 ^ k)) = (dulint_val n + 2 ^ k - 1) div 2 ^ k * 2 ^ k"
proof -
  have k: "(2::nat) ^ k \<le> 2 ^ 31" using assms(2) by (intro power_increasing) auto
  have u: "unat (2 ^ k - 1 :: ulint) = 2 ^ k - 1"
    using unat_2p [of k] assms(2) by (simp add: unat_minus_small)
  have b: "2 ^ k - 1 \<le> (0xFFFFFFFF :: ulint)" using u k by (simp add: word_le_nat_alt)
  have "(0::nat) < 2 ^ k" by simp
  then have "dulint_val n + unat (2 ^ k - 1 :: ulint) < 2 ^ 64" using assms(3) u by linarith
  note add = ut_dulint_add_val [OF assms(1) b this]
  have "dulint_val n + (2 ^ k - 1) = dulint_val n + 2 ^ k - 1" by simp
  then show ?thesis
    using ut_dulint_align_down_val [of "ut_dulint_add n (2 ^ k - 1)" k] add assms(2) u
    by (simp add: ut_dulint_align_up_def)
qed

text \<open>
  Rounding a log sequence number with \<open>ut_dulint_align_down\<close> and \<open>ut_dulint_align_up\<close> gives
  the nearest multiple of the power of two at or below it, and at or above it when that still fits
  in 64 bits; a multiple is left as it is.
\<close>

theorem dulint_align_nearest:
  assumes "dulint_ok n" and "k < 32" and "dulint_val n + 2 ^ k \<le> 2 ^ 64"
  shows "dulint_val (ut_dulint_align_down n (2 ^ k)) \<le> dulint_val n \<and>
    dulint_val n < dulint_val (ut_dulint_align_down n (2 ^ k)) + 2 ^ k \<and>
    2 ^ k dvd dulint_val (ut_dulint_align_down n (2 ^ k)) \<and>
    dulint_val n \<le> dulint_val (ut_dulint_align_up n (2 ^ k)) \<and>
    dulint_val (ut_dulint_align_up n (2 ^ k)) < dulint_val n + 2 ^ k \<and>
    2 ^ k dvd dulint_val (ut_dulint_align_up n (2 ^ k))"
proof -
  let ?v = "dulint_val n" and ?p = "(2::nat) ^ k"
  have p: "0 < ?p" by simp
  have dn: "?v = ?v div ?p * ?p + ?v mod ?p" by (rule div_mult_mod_eq [symmetric])
  have up: "?v + ?p - 1 = (?v + ?p - 1) div ?p * ?p + (?v + ?p - 1) mod ?p"
    by (rule div_mult_mod_eq [symmetric])
  have "?v mod ?p < ?p" "(?v + ?p - 1) mod ?p < ?p" using p by simp_all
  then have "?v div ?p * ?p \<le> ?v \<and> ?v < ?v div ?p * ?p + ?p \<and>
      ?v \<le> (?v + ?p - 1) div ?p * ?p \<and> (?v + ?p - 1) div ?p * ?p < ?v + ?p"
    using dn up p by linarith
  then show ?thesis
    using ut_dulint_align_down_val [of n k] ut_dulint_align_up_val [OF assms] assms(1,2) by simp
qed

theorem dulint_align_nearest_witness:
  "dulint_val (ut_dulint_align_down (ut_dulint_create 1 700) (2 ^ 9)) \<le> 2 ^ 32 + 700 \<and>
   ut_dulint_align_up (ut_dulint_create 1 700) 512 = ut_dulint_create 1 1024"
  using dulint_align_nearest [of "ut_dulint_create 1 700" 9]
  by (simp add: dulint_ok_def dulint_val_def ut_dulint_create_def ut_dulint_align_up_def
      ut_dulint_align_down_def ut_dulint_add_def ut_dulint_get_low_def ut_dulint_get_high_def)

end
