(* ===== verification/UtRnd.thy ===== *)
theory UtRnd imports UtByte begin

text \<open>
  Folding and hashing (include/ut0rnd.ic): the pair, dulint, string and binary folds and the hash
  function the lock system, the adaptive hash and the buffer pool address their tables with.
  All arithmetic wraps at the width of a ulint.
\<close>

definition UT_HASH_RANDOM_MASK :: ulint where
  "UT_HASH_RANDOM_MASK = 1463735687"

definition UT_HASH_RANDOM_MASK2 :: ulint where
  "UT_HASH_RANDOM_MASK2 = 1653893711"

definition ut_hash_ulint :: "ulint \<Rightarrow> ulint \<Rightarrow> ulint" where
  "ut_hash_ulint key table_size = (key XOR UT_HASH_RANDOM_MASK2) mod table_size"

definition ut_fold_ulint_pair :: "ulint \<Rightarrow> ulint \<Rightarrow> ulint" where
  "ut_fold_ulint_pair n1 n2 =
     ((push_bit 8 (n1 XOR n2 XOR UT_HASH_RANDOM_MASK2) + n1) XOR UT_HASH_RANDOM_MASK) + n2"

definition ut_fold_dulint :: "dulint \<Rightarrow> ulint" where
  "ut_fold_dulint d = ut_fold_ulint_pair (ut_dulint_get_low d) (ut_dulint_get_high d)"

text \<open>A C string is the list of its characters before the null; \<open>char\<close> is signed and promoted.\<close>

fun fold_string_loop :: "ulint \<Rightarrow> byte list \<Rightarrow> ulint" where
  "fold_string_loop f [] = f"
| "fold_string_loop f (c # str) = fold_string_loop (ut_fold_ulint_pair f (scast c)) str"

definition ut_fold_string :: "byte list \<Rightarrow> ulint" where
  "ut_fold_string str = fold_string_loop 0 str"

fun fold_binary_loop :: "ulint \<Rightarrow> byte list \<Rightarrow> ulint" where
  "fold_binary_loop f [] = f"
| "fold_binary_loop f (c # str) = fold_binary_loop (ut_fold_ulint_pair f (ucast c)) str"

definition ut_fold_binary :: "byte list \<Rightarrow> ulint" where
  "ut_fold_binary str = fold_binary_loop 0 str"

lemma ut_hash_ulint_less: "0 < table_size \<Longrightarrow> ut_hash_ulint key table_size < table_size"
  by (simp add: ut_hash_ulint_def word_less_nat_alt unat_mod)

text \<open>The folds over a string resume: what a prefix folded to is all that is kept of it.\<close>

lemma fold_binary_append:
  "fold_binary_loop f (xs @ ys) = fold_binary_loop (fold_binary_loop f xs) ys"
  by (induction xs arbitrary: f) auto

section \<open>Random numbers\<close>

definition UT_RND1 :: ulint where "UT_RND1 = 151117737"
definition UT_RND2 :: ulint where "UT_RND2 = 119785373"
definition UT_RND3 :: ulint where "UT_RND3 = 85689495"
definition UT_SUM_RND2 :: ulint where "UT_SUM_RND2 = 98781234"
definition UT_SUM_RND3 :: ulint where "UT_SUM_RND3 = 126792457"
definition UT_SUM_RND4 :: ulint where "UT_SUM_RND4 = 63498502"
definition UT_XOR_RND1 :: ulint where "UT_XOR_RND1 = 187678878"
definition UT_XOR_RND2 :: ulint where "UT_XOR_RND2 = 143537923"

text \<open>The rotation the generator writes as \<open>(rnd << 20) + (rnd >> (n_bits - 20))\<close>.\<close>

definition rnd_rotate :: "ulint \<Rightarrow> ulint" where
  "rnd_rotate rnd = push_bit 20 rnd + drop_bit (64 - 20) rnd"

definition ut_rnd_gen_next_ulint :: "ulint \<Rightarrow> ulint" where
  "ut_rnd_gen_next_ulint rnd0 =
     (let rnd = UT_RND2 * rnd0 + UT_SUM_RND3;
          rnd = UT_XOR_RND1 XOR rnd;
          rnd = rnd_rotate rnd;
          rnd = UT_RND3 * rnd + UT_SUM_RND4;
          rnd = UT_XOR_RND2 XOR rnd;
          rnd = rnd_rotate rnd
      in UT_RND1 * rnd + UT_SUM_RND2)"

text \<open>The generator's state \<open>ut_rnd_ulint_counter\<close> is passed and returned.\<close>

definition ut_rnd_gen_ulint :: "ulint \<Rightarrow> ulint \<times> ulint" where
  "ut_rnd_gen_ulint counter =
     (let counter = UT_RND1 * counter + UT_RND2 in (ut_rnd_gen_next_ulint counter, counter))"

definition ut_rnd_interval :: "ulint \<Rightarrow> ulint \<Rightarrow> ulint \<Rightarrow> ulint \<times> ulint" where
  "ut_rnd_interval low high counter =
     (if low = high then (low, counter)
      else case ut_rnd_gen_ulint counter of (rnd, counter) \<Rightarrow>
        (low + rnd mod (high - low + 1), counter))"

definition ut_rnd_gen_ibool :: "ulint \<Rightarrow> bool \<times> ulint" where
  "ut_rnd_gen_ibool counter =
     (case ut_rnd_gen_ulint counter of (x, counter) \<Rightarrow>
        ((drop_bit 20 x + drop_bit 15 x) AND 1 \<noteq> 0, counter))"

lemma rotate_bit: "bit (rnd_rotate w) n \<longleftrightarrow> n < 64 \<and> bit w ((n + 44) mod 64)"
proof -
  have "push_bit 20 w AND drop_bit 44 w = 0"
    by (rule bit_word_eqI) (auto simp: bit_simps dest: bit_imp_le_length)
  then have r: "rnd_rotate w = push_bit 20 w OR drop_bit 44 w"
    by (simp add: rnd_rotate_def disjunctive_add_eq_or)
  have hi: "bit w k \<Longrightarrow> k < 64" for k using bit_imp_le_length [of w k] by simp
  show ?thesis
  proof (cases "20 \<le> n")
    case True
    then have "(n + 44) mod 64 = n - 20" if "n < 64"
      using that mod_if [of "n + 44" 64] by simp
    then show ?thesis using True hi unfolding r by (fastforce simp: bit_simps add.commute)
  next
    case False
    then show ?thesis unfolding r by (auto simp: bit_simps add.commute)
  qed
qed

lemma rotate_inj: "inj rnd_rotate"
proof (rule injI)
  fix v w assume e: "rnd_rotate v = rnd_rotate w"
  show "v = w"
  proof (rule bit_word_eqI)
    fix n :: nat assume n: "n < LENGTH(64)"
    then have "((n + 20) mod 64 + 44) mod 64 = n" by (simp add: mod_simps)
    then show "bit v n = bit w n"
      using arg_cong [OF e, of "\<lambda>u. bit u ((n + 20) mod 64)"] by (simp add: rotate_bit)
  qed
qed

text \<open>Multiplication by an odd constant is undone by multiplication with its inverse.\<close>

lemma mult_odd_inj:
  fixes a b :: ulint
  assumes "b * a = 1"
  shows "inj (\<lambda>w. a * w + c)"
proof (rule injI)
  fix v w assume "a * v + c = a * w + c"
  then have "a * v = a * w" by (simp only: add_right_cancel)
  then have "b * a * v = b * a * w" by (simp only: mult.assoc)
  then show "v = w" unfolding assms by (simp only: mult_1)
qed

lemma xor_inj: "inj (\<lambda>w :: ulint. c XOR w)"
proof (rule injI)
  fix v w :: ulint assume "c XOR v = c XOR w"
  then have "c XOR (c XOR v) = c XOR (c XOR w)" by simp
  then show "v = w" by (simp only: xor.assoc [symmetric] xor_self_eq xor.left_neutral)
qed

lemma ut_rnd_gen_next_inj: "inj ut_rnd_gen_next_ulint"
proof -
  have m1: "inj (\<lambda>w. UT_RND2 * w + UT_SUM_RND3)"
    by (rule mult_odd_inj [of "0x16fcd76a477ff6b5"]) (simp add: UT_RND2_def)
  have m2: "inj (\<lambda>w. UT_RND3 * w + UT_SUM_RND4)"
    by (rule mult_odd_inj [of "0xf6f720e310c03b27"]) (simp add: UT_RND3_def)
  have m3: "inj (\<lambda>w. UT_RND1 * w + UT_SUM_RND2)"
    by (rule mult_odd_inj [of "0xf11a85227cbb3499"]) (simp add: UT_RND1_def)
  have "ut_rnd_gen_next_ulint = (\<lambda>w. UT_RND1 * w + UT_SUM_RND2) \<circ> rnd_rotate \<circ> (\<lambda>w. UT_XOR_RND2 XOR w) \<circ>
      (\<lambda>w. UT_RND3 * w + UT_SUM_RND4) \<circ> rnd_rotate \<circ> (\<lambda>w. UT_XOR_RND1 XOR w) \<circ> (\<lambda>w. UT_RND2 * w + UT_SUM_RND3)"
    by (simp add: fun_eq_iff ut_rnd_gen_next_ulint_def Let_def)
  moreover have "inj \<dots>"
    by (rule inj_compose)+ (rule m1 m2 m3 rotate_inj xor_inj)+
  ultimately show ?thesis by (simp only:)
qed

text \<open>
  The counter is a linear congruential sequence: after \<open>n\<close> steps it has moved by a geometric sum,
  which two to the \<open>k\<close> divides exactly when it divides \<open>n\<close>.
\<close>

fun geo :: "nat \<Rightarrow> nat \<Rightarrow> nat" where
  "geo a 0 = 0"
| "geo a (Suc n) = a * geo a n + 1"

lemma geo_add: "geo a (m + n) = a ^ n * geo a m + geo a n"
  by (induction n) (simp_all add: algebra_simps)

lemma geo_dvd:
  assumes a: "a mod 4 = 1"
  shows "2 ^ k dvd geo a n \<longleftrightarrow> 2 ^ k dvd n"
proof (induction n arbitrary: k rule: less_induct)
  case (less n)
  have pm: "a ^ m mod 4 = 1" for m
    using a by (induction m) (simp_all add: mod_mult_eq [symmetric, of a])
  show ?case
  proof (cases "even n")
    case False
    then obtain m where m: "n = Suc (m + m)" by (metis oddE mult_2 Suc_eq_plus1)
    have "even (geo a (m + m))"
    proof -
      have "odd a" using a by presburger
      then show ?thesis by (simp add: geo_add)
    qed
    then have "odd (geo a n)" by (simp add: m)
    then show ?thesis using False
      by (cases k) (auto dest: dvd_mult_left simp: power_Suc)
  next
    case True
    then obtain m where m: "n = m + m" by (metis evenE mult_2)
    show ?thesis
    proof (cases m)
      case (Suc j)
      then have lt: "m < n" using m by simp
      obtain q where q: "a ^ m + 1 = 2 * q" and odd: "odd q"
      proof -
        have "(a ^ m + 1) mod 4 = 2" using pm [of m] by presburger
        then have "a ^ m + 1 = 2 * ((a ^ m + 1) div 2)" "odd ((a ^ m + 1) div 2)" by presburger+
      then show ?thesis by (rule that)
      qed
      have "geo a n = (a ^ m + 1) * geo a m" by (simp add: m geo_add algebra_simps)
      then have e: "geo a n = q * (2 * geo a m)" unfolding q by simp
      have "coprime (2 ^ k) q" using odd by (simp add: coprime_power_left_iff)
      then have "2 ^ k dvd geo a n \<longleftrightarrow> 2 ^ k dvd 2 * geo a m"
        unfolding e by (rule coprime_dvd_mult_right_iff)
      also have "\<dots> \<longleftrightarrow> 2 ^ k dvd 2 * m"
        using less [OF lt, of "k - 1"] by (cases k) simp_all
      finally show ?thesis by (simp add: m mult_2)
    qed (simp add: m)
  qed
qed

fun rnd_counter :: "nat \<Rightarrow> ulint \<Rightarrow> ulint" where
  "rnd_counter 0 counter = counter"
| "rnd_counter (Suc n) counter = snd (ut_rnd_gen_ulint (rnd_counter n counter))"

lemma rnd_counter_geo:
  "rnd_counter n c = UT_RND1 ^ n * c + UT_RND2 * of_nat (geo 151117737 n)"
  by (induction n) (simp_all add: ut_rnd_gen_ulint_def Let_def UT_RND1_def algebra_simps)

lemma rnd_counter_add: "rnd_counter (m + n) c = rnd_counter m (rnd_counter n c)"
  by (induction m) simp_all

text \<open>The distance travelled in \<open>n\<close> steps is a multiple of the geometric sum.\<close>

lemma rnd_counter_fixed:
  "rnd_counter n c = c \<longleftrightarrow> 2 ^ 64 dvd n"
proof -
  have g: "UT_RND1 ^ n = 1 + (UT_RND1 - 1) * of_nat (geo 151117737 n)"
    by (induction n) (simp_all add: UT_RND1_def algebra_simps)
  have "rnd_counter n c - c = ((UT_RND1 - 1) * c + UT_RND2) * of_nat (geo 151117737 n)"
    unfolding rnd_counter_geo g by (simp add: algebra_simps)
  moreover have "rnd_counter n c = c \<longleftrightarrow> rnd_counter n c - c = 0" by simp
  moreover have "((UT_RND1 - 1) * c + UT_RND2) * of_nat g = 0 \<longleftrightarrow> 2 ^ 64 dvd g" for g
  proof -
    let ?u = "(UT_RND1 - 1) * c + UT_RND2"
    have "odd ?u" by (simp add: UT_RND1_def UT_RND2_def)
    then have "odd (unat ?u)"
      using bit_unsigned_iff [where ?'a = nat, of ?u 0] by (simp only: bit_0) simp
    then have "coprime (2 ^ 64) (unat ?u)" by (simp only: coprime_power_left_iff coprime_left_2_iff_odd) simp
    moreover have "?u * of_nat g = of_nat (unat ?u * g)" by simp
    then have "?u * of_nat g = 0 \<longleftrightarrow> 2 ^ 64 dvd unat ?u * g"
      using word_of_nat_eq_0_iff [of "unat ?u * g", where 'a = 64] by (simp only:) simp
    ultimately show ?thesis by (simp only: coprime_dvd_mult_right_iff)
  qed
  ultimately show ?thesis using geo_dvd [of 151117737 64 n] by simp
qed

text \<open>
  C38: the random number generator enumerates the whole value space of a ulint: whatever the seed,
  two calls return the same number exactly when they are a multiple of two to the 64 calls apart.
\<close>

theorem rnd_full_period:
  "fst (ut_rnd_gen_ulint (rnd_counter m seed)) = fst (ut_rnd_gen_ulint (rnd_counter n seed)) \<longleftrightarrow>
   m mod 2 ^ 64 = n mod 2 ^ 64"
proof (induction m n rule: linorder_wlog)
  case (le m n)
  have step: "inj (\<lambda>w. UT_RND1 * w + UT_RND2)"
    by (rule mult_odd_inj [of "0xf11a85227cbb3499"]) (simp add: UT_RND1_def)
  have "fst (ut_rnd_gen_ulint c) = fst (ut_rnd_gen_ulint d) \<longleftrightarrow> c = d" for c d
    using ut_rnd_gen_next_inj step by (auto simp: ut_rnd_gen_ulint_def Let_def dest: injD)
  moreover have "rnd_counter n seed = rnd_counter (n - m) (rnd_counter m seed)"
    using rnd_counter_add [of "n - m" m seed] le by simp
  then have "rnd_counter m seed = rnd_counter n seed \<longleftrightarrow> 2 ^ 64 dvd n - m"
    using rnd_counter_fixed [of "n - m" "rnd_counter m seed"] by auto
  moreover have "2 ^ 64 dvd n - m \<longleftrightarrow> n mod 2 ^ 64 = m mod 2 ^ 64"
    using le by (rule mod_eq_dvd_iff_nat [symmetric])
  ultimately show ?case by (simp only: eq_commute)
qed (simp only: eq_commute)

end
