(* ===== verification/MachData.thy ===== *)
theory MachData
  imports UtByte
begin

text \<open>
  Conversion between machine integers and the file format (\<open>include/mach0data.ic\<close>,
  \<open>mach/mach0data.c\<close>): fixed-width big-endian fields, the variable-width compressed forms of the
  redo log, little-endian fields, and the SQL integer format. A pointer into a buffer is a
  memory and an offset; a write returns the memory it leaves.
\<close>

section \<open>Fixed-width fields\<close>

definition mach_write_to_1 :: "mem \<Rightarrow> nat \<Rightarrow> ulint \<Rightarrow> mem" where
  "mach_write_to_1 m b n = m(b := ucast n)"

definition mach_read_from_1 :: "mem \<Rightarrow> nat \<Rightarrow> ulint" where
  "mach_read_from_1 m b = ucast (m b)"

definition mach_write_to_2 :: "mem \<Rightarrow> nat \<Rightarrow> ulint \<Rightarrow> mem" where
  "mach_write_to_2 m b n = m(b := ucast (drop_bit 8 n), b + 1 := ucast n)"

definition mach_read_from_2 :: "mem \<Rightarrow> nat \<Rightarrow> ulint" where
  "mach_read_from_2 m b = push_bit 8 (ucast (m b)) + ucast (m (b + 1))"

text \<open>A \<open>uint16\<close> in canonical format is its memory image: the two bytes in address order.\<close>

definition mach_encode_2 :: "ulint \<Rightarrow> byte \<times> byte" where
  "mach_encode_2 n = (let ret = mach_write_to_2 (\<lambda>_. 0) 0 n in (ret 0, ret 1))"

definition mach_decode_2 :: "byte \<times> byte \<Rightarrow> ulint" where
  "mach_decode_2 n = mach_read_from_2 ((\<lambda>_. 0)(0 := fst n, 1 := snd n)) 0"

definition mach_write_to_3 :: "mem \<Rightarrow> nat \<Rightarrow> ulint \<Rightarrow> mem" where
  "mach_write_to_3 m b n =
     m(b := ucast (drop_bit 16 n), b + 1 := ucast (drop_bit 8 n), b + 2 := ucast n)"

definition mach_read_from_3 :: "mem \<Rightarrow> nat \<Rightarrow> ulint" where
  "mach_read_from_3 m b =
     push_bit 16 (ucast (m b)) + push_bit 8 (ucast (m (b + 1))) + ucast (m (b + 2))"

definition mach_write_to_4 :: "mem \<Rightarrow> nat \<Rightarrow> ulint \<Rightarrow> mem" where
  "mach_write_to_4 m b n =
     m(b := ucast (drop_bit 24 n), b + 1 := ucast (drop_bit 16 n),
       b + 2 := ucast (drop_bit 8 n), b + 3 := ucast n)"

definition mach_read_from_4 :: "mem \<Rightarrow> nat \<Rightarrow> ulint" where
  "mach_read_from_4 m b =
     push_bit 24 (ucast (m b)) + push_bit 16 (ucast (m (b + 1)))
     + push_bit 8 (ucast (m (b + 2))) + ucast (m (b + 3))"

definition mach_write_to_8 :: "mem \<Rightarrow> nat \<Rightarrow> dulint \<Rightarrow> mem" where
  "mach_write_to_8 m b n =
     mach_write_to_4 (mach_write_to_4 m b (ut_dulint_get_high n)) (b + 4) (ut_dulint_get_low n)"

definition mach_write_ull :: "mem \<Rightarrow> nat \<Rightarrow> ulint \<Rightarrow> mem" where
  "mach_write_ull m b n = mach_write_to_4 (mach_write_to_4 m b (drop_bit 32 n)) (b + 4) n"

definition mach_read_from_8 :: "mem \<Rightarrow> nat \<Rightarrow> dulint" where
  "mach_read_from_8 m b = ut_dulint_create (mach_read_from_4 m b) (mach_read_from_4 m (b + 4))"

definition mach_read_ull :: "mem \<Rightarrow> nat \<Rightarrow> ulint" where
  "mach_read_ull m b = push_bit 32 (mach_read_from_4 m b) OR mach_read_from_4 m (b + 4)"

definition mach_write_to_7 :: "mem \<Rightarrow> nat \<Rightarrow> dulint \<Rightarrow> mem" where
  "mach_write_to_7 m b n =
     mach_write_to_4 (mach_write_to_3 m b (ut_dulint_get_high n)) (b + 3) (ut_dulint_get_low n)"

definition mach_read_from_7 :: "mem \<Rightarrow> nat \<Rightarrow> dulint" where
  "mach_read_from_7 m b = ut_dulint_create (mach_read_from_3 m b) (mach_read_from_4 m (b + 3))"

definition mach_write_to_6 :: "mem \<Rightarrow> nat \<Rightarrow> dulint \<Rightarrow> mem" where
  "mach_write_to_6 m b n =
     mach_write_to_4 (mach_write_to_2 m b (ut_dulint_get_high n)) (b + 2) (ut_dulint_get_low n)"

definition mach_read_from_6 :: "mem \<Rightarrow> nat \<Rightarrow> dulint" where
  "mach_read_from_6 m b = ut_dulint_create (mach_read_from_2 m b) (mach_read_from_4 m (b + 2))"

section \<open>Compressed forms\<close>

definition mach_write_compressed :: "mem \<Rightarrow> nat \<Rightarrow> ulint \<Rightarrow> mem \<times> nat" where
  "mach_write_compressed m b n =
     (if n < 0x80 then (mach_write_to_1 m b n, 1)
      else if n < 0x4000 then (mach_write_to_2 m b (n OR 0x8000), 2)
      else if n < 0x200000 then (mach_write_to_3 m b (n OR 0xC00000), 3)
      else if n < 0x10000000 then (mach_write_to_4 m b (n OR 0xE0000000), 4)
      else (mach_write_to_4 (mach_write_to_1 m b 0xF0) (b + 1) n, 5))"

definition mach_get_compressed_size :: "ulint \<Rightarrow> nat" where
  "mach_get_compressed_size n =
     (if n < 0x80 then 1
      else if n < 0x4000 then 2
      else if n < 0x200000 then 3
      else if n < 0x10000000 then 4
      else 5)"

definition mach_read_compressed :: "mem \<Rightarrow> nat \<Rightarrow> ulint" where
  "mach_read_compressed m b =
     (let flag = mach_read_from_1 m b
      in if flag < 0x80 then flag
         else if flag < 0xC0 then mach_read_from_2 m b AND 0x7FFF
         else if flag < 0xE0 then mach_read_from_3 m b AND 0x3FFFFF
         else if flag < 0xF0 then mach_read_from_4 m b AND 0x1FFFFFFF
         else mach_read_from_4 m (b + 1))"

definition mach_dulint_write_compressed :: "mem \<Rightarrow> nat \<Rightarrow> dulint \<Rightarrow> mem \<times> nat" where
  "mach_dulint_write_compressed m b n =
     (case mach_write_compressed m b (ut_dulint_get_high n) of
        (m', sz) \<Rightarrow> (mach_write_to_4 m' (b + sz) (ut_dulint_get_low n), sz + 4))"

definition mach_dulint_get_compressed_size :: "dulint \<Rightarrow> nat" where
  "mach_dulint_get_compressed_size n = 4 + mach_get_compressed_size (ut_dulint_get_high n)"

definition mach_dulint_read_compressed :: "mem \<Rightarrow> nat \<Rightarrow> dulint" where
  "mach_dulint_read_compressed m b =
     (let high = mach_read_compressed m b;
          sz = mach_get_compressed_size high;
          low = mach_read_from_4 m (b + sz)
      in ut_dulint_create high low)"

definition mach_dulint_write_much_compressed :: "mem \<Rightarrow> nat \<Rightarrow> dulint \<Rightarrow> mem \<times> nat" where
  "mach_dulint_write_much_compressed m b n =
     (if ut_dulint_get_high n = 0 then mach_write_compressed m b (ut_dulint_get_low n)
      else (case mach_write_compressed (m(b := 0xFF)) (b + 1) (ut_dulint_get_high n) of
              (m1, s1) \<Rightarrow>
                (case mach_write_compressed m1 (b + (1 + s1)) (ut_dulint_get_low n) of
                   (m2, s2) \<Rightarrow> (m2, 1 + s1 + s2))))"

definition mach_dulint_get_much_compressed_size :: "dulint \<Rightarrow> nat" where
  "mach_dulint_get_much_compressed_size n =
     (if 0 = ut_dulint_get_high n then mach_get_compressed_size (ut_dulint_get_low n)
      else 1 + mach_get_compressed_size (ut_dulint_get_high n)
           + mach_get_compressed_size (ut_dulint_get_low n))"

definition mach_dulint_read_much_compressed :: "mem \<Rightarrow> nat \<Rightarrow> dulint" where
  "mach_dulint_read_much_compressed m b =
     (let (high, sz) =
            (if m b \<noteq> 0xFF then (0, 0)
             else (let high = mach_read_compressed m (b + 1)
                   in (high, 1 + mach_get_compressed_size high)));
          low = mach_read_compressed m (b + sz)
      in ut_dulint_create high low)"

text \<open>
  The parsers of the redo log read a field only if the buffer \<open>[ptr, end_ptr)\<close> holds it whole;
  \<open>None\<close> is the \<open>NULL\<close> they return otherwise.
\<close>

definition mach_parse_compressed :: "mem \<Rightarrow> nat \<Rightarrow> nat \<Rightarrow> (nat \<times> ulint) option" where
  "mach_parse_compressed m ptr end_ptr =
     (if ptr \<ge> end_ptr then None
      else
        (let flag = mach_read_from_1 m ptr
         in if flag < 0x80 then Some (ptr + 1, flag)
            else if flag < 0xC0 then
              (if end_ptr < ptr + 2 then None
               else Some (ptr + 2, mach_read_from_2 m ptr AND 0x7FFF))
            else if flag < 0xE0 then
              (if end_ptr < ptr + 3 then None
               else Some (ptr + 3, mach_read_from_3 m ptr AND 0x3FFFFF))
            else if flag < 0xF0 then
              (if end_ptr < ptr + 4 then None
               else Some (ptr + 4, mach_read_from_4 m ptr AND 0x1FFFFFFF))
            else
              (if end_ptr < ptr + 5 then None
               else Some (ptr + 5, mach_read_from_4 m (ptr + 1)))))"

definition mach_dulint_parse_compressed :: "mem \<Rightarrow> nat \<Rightarrow> nat \<Rightarrow> (nat \<times> dulint) option" where
  "mach_dulint_parse_compressed m ptr end_ptr =
     (if end_ptr < ptr + 5 then None
      else
        (let high = mach_read_compressed m ptr;
             sz = mach_get_compressed_size high;
             ptr' = ptr + sz
         in if end_ptr < ptr' + 4 then None
            else (let low = mach_read_from_4 m ptr'
                  in Some (ptr' + 4, ut_dulint_create high low))))"

section \<open>Floating point, little-endian and SQL integer fields\<close>

text \<open>
  A \<open>double\<close> or \<open>float\<close> is its object representation, the list of its bytes in address order on a
  little-endian host; the loops copy it byte by byte.
\<close>

definition copy_in :: "mem \<Rightarrow> nat \<Rightarrow> nat \<Rightarrow> byte list" where
  "copy_in m b k = map (\<lambda>i. m (b + i)) [0..<k]"

definition copy_out :: "mem \<Rightarrow> nat \<Rightarrow> byte list \<Rightarrow> nat \<Rightarrow> mem" where
  "copy_out m b d k = fold (\<lambda>i m. m(b + i := d ! i)) [0..<k] m"

definition mach_double_read :: "mem \<Rightarrow> nat \<Rightarrow> byte list" where
  "mach_double_read m b = copy_in m b 8"

definition mach_double_write :: "mem \<Rightarrow> nat \<Rightarrow> byte list \<Rightarrow> mem" where
  "mach_double_write m b d = copy_out m b d 8"

definition mach_float_read :: "mem \<Rightarrow> nat \<Rightarrow> byte list" where
  "mach_float_read m b = copy_in m b 4"

definition mach_float_write :: "mem \<Rightarrow> nat \<Rightarrow> byte list \<Rightarrow> mem" where
  "mach_float_write m b d = copy_out m b d 4"

text \<open>
  The loop of \<open>mach_read_from_n_little_endian\<close> starts at the byte before \<open>buf + buf_size\<close> and leaves
  after the byte at \<open>buf\<close>; the argument is \<open>ptr - buf\<close> before the decrement. \<open>buf_size > 0\<close> is
  asserted; \<open>None\<close> is the walk out of the buffer that a zero size would start.
\<close>

fun read_n_le_loop :: "mem \<Rightarrow> nat \<Rightarrow> nat \<Rightarrow> ulint \<Rightarrow> ulint option" where
  "read_n_le_loop m buf 0 n = None"
| "read_n_le_loop m buf (Suc ptr) n =
     (let n' = push_bit 8 n + ucast (m (buf + ptr))
      in if ptr = 0 then Some n' else read_n_le_loop m buf ptr n')"

definition mach_read_from_n_little_endian :: "mem \<Rightarrow> nat \<Rightarrow> nat \<Rightarrow> ulint option" where
  "mach_read_from_n_little_endian m buf buf_size = read_n_le_loop m buf buf_size 0"

fun write_n_le_loop :: "mem \<Rightarrow> nat \<Rightarrow> nat \<Rightarrow> ulint \<Rightarrow> mem option" where
  "write_n_le_loop m dest 0 n = None"
| "write_n_le_loop m dest (Suc k) n =
     (let m' = m(dest := ucast (n AND 0xFF))
      in if k = 0 then Some m' else write_n_le_loop m' (dest + 1) k (drop_bit 8 n))"

definition mach_write_to_n_little_endian :: "mem \<Rightarrow> nat \<Rightarrow> nat \<Rightarrow> ulint \<Rightarrow> mem option" where
  "mach_write_to_n_little_endian m dest dest_size n = write_n_le_loop m dest dest_size n"

definition mach_read_from_2_little_endian :: "mem \<Rightarrow> nat \<Rightarrow> ulint" where
  "mach_read_from_2_little_endian m buf = ucast (m buf) + ucast (m (buf + 1)) * 256"

definition mach_write_to_2_little_endian :: "mem \<Rightarrow> nat \<Rightarrow> ulint \<Rightarrow> mem" where
  "mach_write_to_2_little_endian m dest n =
     (let m1 = m(dest := ucast (n AND 0xFF));
          n1 = drop_bit 8 n
      in m1(dest + 1 := ucast (n1 AND 0xFF)))"

definition mach_read_int_type :: "mem \<Rightarrow> nat \<Rightarrow> nat \<Rightarrow> bool \<Rightarrow> ulint" where
  "mach_read_int_type m src len unsigned_type =
     (let ret0 = (if unsigned_type \<or> m src AND 0x80 \<noteq> 0 then 0 else 0xFFFFFFFFFFFFFF00);
          ret1 = (if unsigned_type then ret0 OR ucast (m src)
                  else ret0 OR (ucast (m src) XOR 0x80))
      in fold (\<lambda>i ret. push_bit 8 ret OR ucast (m (src + i))) [1..<len] ret1)"

section \<open>Interfaces\<close>

locale field_codec =
  fixes put :: "mem \<Rightarrow> nat \<Rightarrow> 'v \<Rightarrow> mem"
    and get :: "mem \<Rightarrow> nat \<Rightarrow> 'v"
    and width :: nat
    and valid :: "'v \<Rightarrow> bool"
  assumes get_put: "valid v \<Longrightarrow> get (put m b v) b = v"
    and put_frame: "a < b \<or> b + width \<le> a \<Longrightarrow> put m b v a = m a"
    and get_cong: "(\<And>i. i < width \<Longrightarrow> m' (b + i) = m (b + i)) \<Longrightarrow> get m' b = get m b"
begin

lemma get_put_other:
  assumes "\<And>a. b \<le> a \<Longrightarrow> a < b + width \<Longrightarrow> m' a = m a"
  shows "get m' b = get m b"
  by (rule get_cong) (simp add: assms)

lemma put_put_frame:
  assumes "b + width \<le> c \<or> c + width \<le> b"
  shows "get (put m c v) b = get m b"
  by (rule get_cong) (use assms in \<open>auto intro!: put_frame\<close>)

end

lemma unat_read_1: "unat (mach_read_from_1 m b) = unat (m b)"
  by (simp add: mach_read_from_1_def word_val)

lemma unat_read_2: "unat (mach_read_from_2 m b) = unat (m b) * 2 ^ 8 + unat (m (b + 1))"
  using byte_less [of "m b"] byte_less [of "m (b + 1)"]
  by (simp add: mach_read_from_2_def unat_plus_small unat_shift_byte unat_ucast_byte)

lemma unat_read_3: "unat (mach_read_from_3 m b) =
  unat (m b) * 2 ^ 16 + unat (m (b + 1)) * 2 ^ 8 + unat (m (b + 2))"
  using byte_less [of "m b"] byte_less [of "m (b + 1)"] byte_less [of "m (b + 2)"]
  by (simp add: mach_read_from_3_def unat_plus_small unat_shift_byte unat_ucast_byte)

lemma unat_read_4: "unat (mach_read_from_4 m b) =
  unat (m b) * 2 ^ 24 + unat (m (b + 1)) * 2 ^ 16 + unat (m (b + 2)) * 2 ^ 8 + unat (m (b + 3))"
  using byte_less [of "m b"] byte_less [of "m (b + 1)"] byte_less [of "m (b + 2)"]
    byte_less [of "m (b + 3)"]
  by (simp add: mach_read_from_4_def unat_plus_small unat_shift_byte unat_ucast_byte)


lemmas unat_reads = unat_read_1 unat_read_2 unat_read_3 unat_read_4

lemma read_write_1: "n \<le> 0xFF \<Longrightarrow> mach_read_from_1 (mach_write_to_1 m b n) b = n"
  by (simp add: word_unat_eq_iff unat_read_1 mach_write_to_1_def unat_byte_of_0 word_le_nat_alt)

lemma read_write_2: "n \<le> 0xFFFF \<Longrightarrow> mach_read_from_2 (mach_write_to_2 m b n) b = n"
  unfolding word_unat_eq_iff unat_read_2 mach_write_to_2_def
  by (simp add: unat_byte_of_0 unat_byte_of unat_drop_bit_div word_le_nat_alt)

lemma read_write_3:
  assumes "n \<le> 0xFFFFFF"
  shows "mach_read_from_3 (mach_write_to_3 m b n) b = n"
proof -
  have "unat n < 2 ^ 24" using assms by (simp add: word_le_nat_alt)
  from byte_split3 [OF this] show ?thesis
    by (simp add: word_unat_eq_iff unat_read_3 mach_write_to_3_def unat_byte_of_0 unat_byte_of unat_drop_bit_div
      del: mod_less div_less)
qed

lemma read_write_4:
  assumes "n \<le> 0xFFFFFFFF"
  shows "mach_read_from_4 (mach_write_to_4 m b n) b = n"
proof -
  have "unat n < 2 ^ 32" using assms by (simp add: word_le_nat_alt)
  from byte_split4 [OF this] show ?thesis
    by (simp add: word_unat_eq_iff unat_read_4 mach_write_to_4_def unat_byte_of_0 unat_byte_of unat_drop_bit_div
      del: mod_less div_less)
qed

lemma reads_cong:
  "m' b = m b \<Longrightarrow> mach_read_from_1 m' b = mach_read_from_1 m b"
  "(\<And>i. i < 2 \<Longrightarrow> m' (b + i) = m (b + i)) \<Longrightarrow> mach_read_from_2 m' b = mach_read_from_2 m b"
  "(\<And>i. i < 3 \<Longrightarrow> m' (b + i) = m (b + i)) \<Longrightarrow> mach_read_from_3 m' b = mach_read_from_3 m b"
  "(\<And>i. i < 4 \<Longrightarrow> m' (b + i) = m (b + i)) \<Longrightarrow> mach_read_from_4 m' b = mach_read_from_4 m b"
proof -
  show "m' b = m b \<Longrightarrow> mach_read_from_1 m' b = mach_read_from_1 m b"
    by (simp add: mach_read_from_1_def)
  show "(\<And>i. i < 2 \<Longrightarrow> m' (b + i) = m (b + i)) \<Longrightarrow> mach_read_from_2 m' b = mach_read_from_2 m b"
    using add_0_right [of b] by (metis mach_read_from_2_def one_less_numeral_iff semiring_norm(76) zero_less_numeral)
  assume a: "\<And>i. i < 3 \<Longrightarrow> m' (b + i) = m (b + i)"
  show "mach_read_from_3 m' b = mach_read_from_3 m b"
    using a [of 0] a [of 1] a [of 2] by (simp add: mach_read_from_3_def)
next
  assume a: "\<And>i. i < 4 \<Longrightarrow> m' (b + i) = m (b + i)"
  show "mach_read_from_4 m' b = mach_read_from_4 m b"
    using a [of 0] a [of 1] a [of 2] a [of 3] by (simp add: mach_read_from_4_def)
qed

interpretation f1: field_codec mach_write_to_1 mach_read_from_1 1 "\<lambda>n. n \<le> 0xFF"
  by unfold_locales (rule read_write_1, assumption, auto simp: mach_write_to_1_def intro: reads_cong)

interpretation f2: field_codec mach_write_to_2 mach_read_from_2 2 "\<lambda>n. n \<le> 0xFFFF"
  by unfold_locales (rule read_write_2, assumption, auto simp: mach_write_to_2_def intro: reads_cong)

interpretation f3: field_codec mach_write_to_3 mach_read_from_3 3 "\<lambda>n. n \<le> 0xFFFFFF"
  by unfold_locales (rule read_write_3, assumption, auto simp: mach_write_to_3_def intro: reads_cong)

interpretation f4: field_codec mach_write_to_4 mach_read_from_4 4 "\<lambda>n. n \<le> 0xFFFFFFFF"
  by unfold_locales (rule read_write_4, assumption, auto simp: mach_write_to_4_def intro: reads_cong)

lemmas dulint_access =
  ut_dulint_create_def ut_dulint_get_high_def ut_dulint_get_low_def dulint_ok_def

locale high_codec = field_codec putH getH wH "\<lambda>n. n \<le> limH"
  for putH :: "mem \<Rightarrow> nat \<Rightarrow> ulint \<Rightarrow> mem" and getH wH limH
begin

lemma dulint_field:
  "field_codec
     (\<lambda>m b n. mach_write_to_4 (putH m b (ut_dulint_get_high n)) (b + wH) (ut_dulint_get_low n))
     (\<lambda>m b. ut_dulint_create (getH m b) (mach_read_from_4 m (b + wH)))
     (wH + 4) (\<lambda>d. dul_high d \<le> limH \<and> dul_low d \<le> 0xFFFFFFFF)"
proof (unfold_locales, goal_cases)
  case (1 v m b)
  have "getH (mach_write_to_4 (putH m b (dul_high v)) (b + wH) (dul_low v)) b
      = getH (putH m b (dul_high v)) b"
    by (rule get_put_other) (simp add: f4.put_frame)
  then have "getH (mach_write_to_4 (putH m b (dul_high v)) (b + wH) (dul_low v)) b = dul_high v"
    using 1 by (simp add: get_put)
  then show ?case using 1 by (simp add: dulint_access f4.get_put)
next
  case (2 a b m v)
  then show ?case by (auto simp: f4.put_frame put_frame)
next
  case (3 m' b m)
  have "getH m' b = getH m b" by (rule get_cong) (rule 3, simp)
  moreover have "mach_read_from_4 m' (b + wH) = mach_read_from_4 m (b + wH)"
  proof (rule f4.get_cong)
    fix i :: nat assume "i < 4"
    then show "m' (b + wH + i) = m (b + wH + i)" using 3 [of "wH + i"] by (simp add: add.assoc)
  qed
  ultimately show ?case by simp
qed

end

interpretation h2: high_codec mach_write_to_2 mach_read_from_2 2 "0xFFFF" by unfold_locales
interpretation h3: high_codec mach_write_to_3 mach_read_from_3 3 "0xFFFFFF" by unfold_locales
interpretation h4: high_codec mach_write_to_4 mach_read_from_4 4 "0xFFFFFFFF" by unfold_locales

interpretation f6: field_codec mach_write_to_6 mach_read_from_6 6
  "\<lambda>d. dul_high d \<le> 0xFFFF \<and> dul_low d \<le> 0xFFFFFFFF"
  using h2.dulint_field by (simp add: mach_write_to_6_def [abs_def] mach_read_from_6_def [abs_def])

interpretation f7: field_codec mach_write_to_7 mach_read_from_7 7
  "\<lambda>d. dul_high d \<le> 0xFFFFFF \<and> dul_low d \<le> 0xFFFFFFFF"
  using h3.dulint_field by (simp add: mach_write_to_7_def [abs_def] mach_read_from_7_def [abs_def])

interpretation f8: field_codec mach_write_to_8 mach_read_from_8 8 dulint_ok
  using h4.dulint_field
  by (simp add: mach_write_to_8_def [abs_def] mach_read_from_8_def [abs_def] dulint_ok_def [abs_def])

subsection \<open>The 64-bit integer\<close>

lemma unat_or_push_bit:
  fixes n c :: ulint
  assumes "unat n < 2 ^ k" and "unat n + unat (push_bit k c) < 2 ^ 64"
  shows "unat (n OR push_bit k c) = unat n + unat (push_bit k c)"
proof -
  have "take_bit k n = n"
    using assms(1) by (simp add: word_unat_eq_iff unsigned_take_bit_eq take_bit_nat_eq_self)
  then have "\<not> bit n j" if "k \<le> j" for j
    using that by (metis bit_take_bit_iff not_le)
  then have "n AND push_bit k c = 0"
    by (intro bit_eqI) (auto simp: bit_simps)
  then have "n OR push_bit k c = n + push_bit k c" by (simp add: disjunctive_add_eq_or)
  then show ?thesis using assms(2) by (simp add: unat_plus_small)
qed

lemma write_4_truncates: "mach_write_to_4 m b n = mach_write_to_4 m b (take_bit 32 n)"
proof -
  have "ucast (drop_bit k n) = (ucast (drop_bit k (take_bit 32 n)) :: byte)" if "k \<le> 24" for k
    using that by (intro bit_word_eqI) (simp add: bit_simps)
  from this [of 24] this [of 16] this [of 8] this [of 0] show ?thesis
    by (simp add: mach_write_to_4_def)
qed

lemma take_bit_32_le: "take_bit 32 n \<le> (0xFFFFFFFF :: ulint)"
  using mod_less_divisor [of "2 ^ 32" "unat n"] by (simp add: word_le_nat_alt unat_take_bit_mod)

lemma drop_bit_32_le: "drop_bit 32 n \<le> (0xFFFFFFFF :: ulint)"
  using unat_ulint_less [of n] by (simp add: word_le_nat_alt unat_drop_bit_div)

lemma read_write_ull: "mach_read_ull (mach_write_ull m b n) b = n"
proof -
  have lo: "mach_read_from_4 (mach_write_ull m b n) (b + 4) = take_bit 32 n"
    unfolding mach_write_ull_def write_4_truncates [of _ _ n]
    by (simp only: f4.get_put take_bit_32_le)
  have hi: "mach_read_from_4 (mach_write_ull m b n) b = drop_bit 32 n"
    by (simp add: mach_write_ull_def f4.put_put_frame f4.get_put drop_bit_32_le del: drop_bit_eq_div)
  show ?thesis
    unfolding mach_read_ull_def lo hi
    by (rule bit_word_eqI) (auto simp: bit_simps)
qed

interpretation full: field_codec mach_write_ull mach_read_ull 8 "\<lambda>_. True"
proof (unfold_locales, goal_cases)
  case (1 v m b)
  show ?case by (rule read_write_ull)
next
  case (2 a b m v)
  then show ?case by (auto simp: mach_write_ull_def f4.put_frame)
next
  case (3 m' b m)
  have "mach_read_from_4 m' b = mach_read_from_4 m b" by (rule f4.get_cong) (rule 3, simp)
  moreover have "mach_read_from_4 m' (b + 4) = mach_read_from_4 m (b + 4)"
  proof (rule f4.get_cong)
    fix i :: nat assume "i < 4"
    then show "m' (b + 4 + i) = m (b + 4 + i)" using 3 [of "4 + i"] by (simp add: add.assoc)
  qed
  ultimately show ?case by (simp add: mach_read_ull_def)
qed

lemma read_write_2_le:
  assumes "n < 256 * 256"
  shows "mach_read_from_2_little_endian (mach_write_to_2_little_endian m b n) b = n"
proof -
  let ?x = "ucast (n AND 0xFF) :: byte" and ?y = "ucast (drop_bit 8 n AND 0xFF) :: byte"
  have a: "w AND 0xFF = take_bit 8 w" for w :: ulint
    by (simp add: take_bit_eq_mask mask_eq_exp_minus_1)
  have x: "unat ?x = unat n mod 256"
    unfolding a unat_byte_of_0 unat_take_bit_mod by simp
  have y: "unat ?y = unat n div 256 mod 256"
    unfolding a unat_byte_of_0 unat_take_bit_mod unat_drop_bit_div by simp
  have "unat ((ucast ?y :: ulint) * 256) = unat ?y * 256"
    using unat_shift_byte [of 8 ?y] unfolding push_bit_eq_mult by simp
  then have "unat (ucast ?x + (ucast ?y :: ulint) * 256) = unat ?x + unat ?y * 256"
    using byte_less [of ?x] byte_less [of ?y] by (simp add: unat_plus_small unat_ucast_byte)
  also have "\<dots> = unat n" using assms x y by (simp add: word_less_nat_alt)
  finally show ?thesis
    by (simp add: mach_read_from_2_little_endian_def mach_write_to_2_little_endian_def Let_def
        word_unat_eq_iff)
qed

interpretation f2le: field_codec mach_write_to_2_little_endian mach_read_from_2_little_endian 2
  "\<lambda>n. n < 256 * 256"
proof (unfold_locales, goal_cases)
  case (3 m' b m)
  from 3 [of 0] 3 [of 1] show ?case by (simp add: mach_read_from_2_little_endian_def)
next
  case (1 v m b)
  then show ?case by (rule read_write_2_le)
qed (auto simp: mach_write_to_2_little_endian_def Let_def)

subsection \<open>Streams of variable-width fields\<close>

fun put_list :: "(mem \<Rightarrow> nat \<Rightarrow> 'v \<Rightarrow> mem \<times> nat) \<Rightarrow> mem \<Rightarrow> nat \<Rightarrow> 'v list \<Rightarrow> mem \<times> nat" where
  "put_list put m b [] = (m, 0)"
| "put_list put m b (v # vs) =
     (case put m b v of (m1, s) \<Rightarrow>
        (case put_list put m1 (b + s) vs of (m2, t) \<Rightarrow> (m2, s + t)))"

fun get_list :: "(mem \<Rightarrow> nat \<Rightarrow> 'v) \<Rightarrow> ('v \<Rightarrow> nat) \<Rightarrow> mem \<Rightarrow> nat \<Rightarrow> nat \<Rightarrow> 'v list" where
  "get_list get len m b 0 = []"
| "get_list get len m b (Suc k) = (let v = get m b in v # get_list get len m (b + len v) k)"

text \<open>
  The contract of a self-delimiting field: the write reports the length the length function
  gives and touches nothing else, and any memory that agrees with the written one on those
  bytes is read back as the value.
\<close>

locale stream_codec =
  fixes put :: "mem \<Rightarrow> nat \<Rightarrow> 'v \<Rightarrow> mem \<times> nat"
    and get :: "mem \<Rightarrow> nat \<Rightarrow> 'v"
    and len :: "'v \<Rightarrow> nat"
    and valid :: "'v \<Rightarrow> bool"
  assumes put_len: "snd (put m b v) = len v"
    and put_frame: "a < b \<or> b + len v \<le> a \<Longrightarrow> fst (put m b v) a = m a"
    and get_prefix: "valid v \<Longrightarrow> (\<And>i. i < len v \<Longrightarrow> m' (b + i) = fst (put m b v) (b + i)) \<Longrightarrow>
      get m' b = v"
begin

lemma get_put: "valid v \<Longrightarrow> get (fst (put m b v)) b = v"
  by (rule get_prefix) auto

lemma put_list_frame: "a < b \<Longrightarrow> fst (put_list put m b vs) a = m a"
proof (induction vs arbitrary: m b)
  case (Cons v vs)
  then show ?case
    using put_frame [of a b v m] by (cases "put m b v") (auto split: prod.split simp: prod_eq_iff)
qed simp

lemma get_put_list:
  assumes "list_all valid vs"
  shows "get_list get len (fst (put_list put m b vs)) b (length vs) = vs"
  using assms
proof (induction vs arbitrary: m b)
  case (Cons v vs)
  obtain m1 where p: "put m b v = (m1, len v)"
    by (metis prod.collapse put_len)
  let ?m2 = "fst (put_list put m1 (b + len v) vs)"
  have e: "fst (put_list put m b (v # vs)) = ?m2"
    by (simp add: p split: prod.split)
  have "get ?m2 b = v"
    using Cons.prems by (intro get_prefix [of _ _ _ m]) (simp_all add: p put_list_frame)
  moreover have "get_list get len ?m2 (b + len v) (length vs) = vs"
    using Cons by simp
  ultimately show ?case unfolding e by simp
qed simp

lemma put_list_size: "snd (put_list put m b vs) = sum_list (map len vs)"
proof (induction vs arbitrary: m b)
  case (Cons v vs)
  show ?case
    using put_len [of m b v] Cons [of "fst (put m b v)" "b + len v"] by (auto split: prod.split)
qed simp

lemma put_list_outside:
  "a < b \<or> b + sum_list (map len vs) \<le> a \<Longrightarrow> fst (put_list put m b vs) a = m a"
proof (induction vs arbitrary: m b)
  case (Cons v vs)
  obtain m1 where p: "put m b v = (m1, len v)" by (metis prod.collapse put_len)
  then have "m1 a = m a" using put_frame [of a b v m] Cons.prems by auto
  moreover have "fst (put_list put m1 (b + len v) vs) a = m1 a"
    using Cons.prems by (intro Cons.IH) auto
  ultimately show ?case by (simp add: p case_prod_beta)
qed simp

end

text \<open>
  A parser of such a field: it returns the value and the end pointer exactly when the buffer
  holds the whole field, and decides that from the bytes before the end of the buffer only.
\<close>

locale parse_codec = stream_codec put get len valid
  for put :: "mem \<Rightarrow> nat \<Rightarrow> 'v \<Rightarrow> mem \<times> nat" and get len valid +
  fixes parse :: "mem \<Rightarrow> nat \<Rightarrow> nat \<Rightarrow> (nat \<times> 'v) option"
  assumes parse_prefix:
    "valid v \<Longrightarrow> (\<And>i. i < len v \<Longrightarrow> b + i < e \<Longrightarrow> m' (b + i) = fst (put m b v) (b + i)) \<Longrightarrow>
      parse m' b e = (if e < b + len v then None else Some (b + len v, v))"
begin

lemma parse_put: "valid v \<Longrightarrow>
    parse (fst (put m b v)) b e = (if e < b + len v then None else Some (b + len v, v))"
  by (rule parse_prefix) auto

end

subsection \<open>The compressed ulint\<close>

lemma flag_of_2: "unat (mach_read_from_1 m b) = unat (mach_read_from_2 m b) div 2 ^ 8"
  using byte_less [of "m (b + 1)"] by (simp add: unat_reads)

lemma flag_of_3: "unat (mach_read_from_1 m b) = unat (mach_read_from_3 m b) div 2 ^ 16"
  using byte_less [of "m (b + 1)"] byte_less [of "m (b + 2)"] by (simp add: unat_reads)

lemma flag_of_4: "unat (mach_read_from_1 m b) = unat (mach_read_from_4 m b) div 2 ^ 24"
  using byte_less [of "m (b + 1)"] byte_less [of "m (b + 2)"] byte_less [of "m (b + 3)"]
  by (simp add: unat_reads)

lemma compressed_tags:
  "unat n < 2 ^ 14 \<Longrightarrow> unat (n OR 0x8000 :: ulint) = unat n + 2 ^ 15"
  "unat n < 2 ^ 21 \<Longrightarrow> unat (n OR 0xC00000 :: ulint) = unat n + 3 * 2 ^ 22"
  "unat n < 2 ^ 28 \<Longrightarrow> unat (n OR 0xE0000000 :: ulint) = unat n + 7 * 2 ^ 29"
  using unat_or_push_bit [of n 15 1] unat_or_push_bit [of n 22 3] unat_or_push_bit [of n 29 7]
  by simp_all

lemma compressed_masks:
  "unat (n AND 0x7FFF :: ulint) = unat n mod 2 ^ 15"
  "unat (n AND 0x3FFFFF :: ulint) = unat n mod 2 ^ 22"
  "unat (n AND 0x1FFFFFFF :: ulint) = unat n mod 2 ^ 29"
  using unat_and_mask [of n 15] unat_and_mask [of n 22] unat_and_mask [of n 29]
  by (simp_all add: mask_eq_exp_minus_1)

lemma mach_write_compressed_len: "snd (mach_write_compressed m b n) = mach_get_compressed_size n"
  by (simp add: mach_write_compressed_def mach_get_compressed_size_def)

lemma mach_write_compressed_frame:
  "a < b \<or> b + mach_get_compressed_size n \<le> a \<Longrightarrow> fst (mach_write_compressed m b n) a = m a"
  by (auto simp: mach_write_compressed_def mach_get_compressed_size_def
      f1.put_frame f2.put_frame f3.put_frame f4.put_frame split: if_splits)

text \<open>What the first byte of a written value says of its class.\<close>

lemma written_value:
  fixes n :: ulint
  defines "M \<equiv> \<lambda>m b. fst (mach_write_compressed m b n)"
  shows "unat n < 2 ^ 7 \<Longrightarrow> mach_read_from_1 (M m b) b = n"
    and "2 ^ 7 \<le> unat n \<Longrightarrow> unat n < 2 ^ 14 \<Longrightarrow> mach_read_from_2 (M m b) b = n OR 0x8000"
    and "2 ^ 14 \<le> unat n \<Longrightarrow> unat n < 2 ^ 21 \<Longrightarrow> mach_read_from_3 (M m b) b = n OR 0xC00000"
    and "2 ^ 21 \<le> unat n \<Longrightarrow> unat n < 2 ^ 28 \<Longrightarrow> mach_read_from_4 (M m b) b = n OR 0xE0000000"
    and "2 ^ 28 \<le> unat n \<Longrightarrow> unat n < 2 ^ 32 \<Longrightarrow> mach_read_from_4 (M m b) (b + 1) = n"
  by (simp_all add: M_def mach_write_compressed_def word_less_nat_alt word_le_nat_alt
      f1.get_put f2.get_put f3.get_put f4.get_put compressed_tags)

lemma written_flag_5:
  "2 ^ 28 \<le> unat n \<Longrightarrow> mach_read_from_1 (fst (mach_write_compressed m b n)) b = 0xF0"
  by (simp add: mach_write_compressed_def word_less_nat_alt mach_read_from_1_def f4.put_frame
      mach_write_to_1_def)

lemma written_flag:
  fixes n :: ulint
  defines "flag \<equiv> \<lambda>m b. unat (mach_read_from_1 (fst (mach_write_compressed m b n)) b)"
  shows "2 ^ 7 \<le> unat n \<Longrightarrow> unat n < 2 ^ 14 \<Longrightarrow> 128 \<le> flag m b \<and> flag m b < 192"
    and "2 ^ 14 \<le> unat n \<Longrightarrow> unat n < 2 ^ 21 \<Longrightarrow> 192 \<le> flag m b \<and> flag m b < 224"
    and "2 ^ 21 \<le> unat n \<Longrightarrow> unat n < 2 ^ 28 \<Longrightarrow> 224 \<le> flag m b \<and> flag m b < 240"
proof -
  show "128 \<le> flag m b \<and> flag m b < 192" if "2 ^ 7 \<le> unat n" "unat n < 2 ^ 14"
    using that unfolding flag_def flag_of_2 written_value(2) [OF that]
    using less_mult_imp_div_less [of "unat n" 64 256] div_mult_self1 [of 256 "unat n" 128]
    by (simp add: compressed_tags)
  show "192 \<le> flag m b \<and> flag m b < 224" if "2 ^ 14 \<le> unat n" "unat n < 2 ^ 21"
    using that unfolding flag_def flag_of_3 written_value(3) [OF that]
    using less_mult_imp_div_less [of "unat n" 32 65536] div_mult_self1 [of 65536 "unat n" 192]
    by (simp add: compressed_tags)
  show "224 \<le> flag m b \<and> flag m b < 240" if "2 ^ 21 \<le> unat n" "unat n < 2 ^ 28"
    using that unfolding flag_def flag_of_4 written_value(4) [OF that]
    using less_mult_imp_div_less [of "unat n" 16 16777216] div_mult_self1 [of 16777216 "unat n" 224]
    by (simp add: compressed_tags)
qed


lemma compressed_class_cases:
  fixes n :: ulint
  assumes "n \<le> 0xFFFFFFFF"
  obtains "unat n < 2 ^ 7" | "2 ^ 7 \<le> unat n" "unat n < 2 ^ 14"
    | "2 ^ 14 \<le> unat n" "unat n < 2 ^ 21" | "2 ^ 21 \<le> unat n" "unat n < 2 ^ 28"
    | "2 ^ 28 \<le> unat n" "unat n < 2 ^ 32"
  using assms by (simp add: word_le_nat_alt) linarith

lemma parse_compressed_prefix:
  assumes n: "n \<le> 0xFFFFFFFF"
    and agree: "\<And>i. i < mach_get_compressed_size n \<Longrightarrow> b + i < e \<Longrightarrow>
      m' (b + i) = fst (mach_write_compressed m b n) (b + i)"
  shows "mach_parse_compressed m' b e =
    (if e < b + mach_get_compressed_size n then None
     else Some (b + mach_get_compressed_size n, n))"
proof (cases "b < e")
  case False
  then show ?thesis by (simp add: mach_parse_compressed_def mach_get_compressed_size_def)
next
  case True
  let ?M = "fst (mach_write_compressed m b n)" and ?s = "mach_get_compressed_size n"
  have flag: "mach_read_from_1 m' b = mach_read_from_1 ?M b"
    using agree [of 0] True
    by (simp add: mach_read_from_1_def mach_get_compressed_size_def split: if_splits)
  have full: "m' (b + i) = ?M (b + i)" if "b + ?s \<le> e" "i < ?s" for i
    using agree that by simp
  from n show ?thesis
  proof (cases rule: compressed_class_cases)
    case 1
    then have "mach_get_compressed_size n = 1" "n < 0x80"
      by (simp_all add: mach_get_compressed_size_def word_less_nat_alt)
    then show ?thesis
      using True flag written_value(1) [OF 1, of m b] by (simp add: mach_parse_compressed_def)
  next
    case 2
    then have s: "?s = 2" by (simp add: mach_get_compressed_size_def word_less_nat_alt)
    have v: "mach_read_from_2 m' b = n OR 0x8000" if "b + 2 \<le> e"
      unfolding written_value(2) [OF 2, of m b, symmetric]
      by (rule f2.get_cong) (use full s that in simp)
    have "(n OR 0x8000) AND 0x7FFF = n"
      using 2 by (simp add: word_unat_eq_iff compressed_tags compressed_masks)
    then show ?thesis
      using True s flag v written_flag(1) [OF 2, of m b]
      by (simp add: mach_parse_compressed_def word_less_nat_alt)
  next
    case 3
    then have s: "?s = 3" by (simp add: mach_get_compressed_size_def word_less_nat_alt)
    have v: "mach_read_from_3 m' b = n OR 0xC00000" if "b + 3 \<le> e"
      unfolding written_value(3) [OF 3, of m b, symmetric]
      by (rule f3.get_cong) (use full s that in simp)
    have "(n OR 0xC00000) AND 0x3FFFFF = n"
      using 3 mod_mult_self1 [of "unat n" 3 4194304] by (simp add: word_unat_eq_iff compressed_tags compressed_masks)
    then show ?thesis
      using True s flag v written_flag(2) [OF 3, of m b]
      by (simp add: mach_parse_compressed_def word_less_nat_alt)
  next
    case 4
    then have s: "?s = 4" by (simp add: mach_get_compressed_size_def word_less_nat_alt)
    have v: "mach_read_from_4 m' b = n OR 0xE0000000" if "b + 4 \<le> e"
      unfolding written_value(4) [OF 4, of m b, symmetric]
      by (rule f4.get_cong) (use full s that in simp)
    have "(n OR 0xE0000000) AND 0x1FFFFFFF = n"
      using 4 mod_mult_self1 [of "unat n" 7 536870912] by (simp add: word_unat_eq_iff compressed_tags compressed_masks)
    then show ?thesis
      using True s flag v written_flag(3) [OF 4, of m b]
      by (simp add: mach_parse_compressed_def word_less_nat_alt)
  next
    case 5
    then have s: "?s = 5" by (simp add: mach_get_compressed_size_def word_less_nat_alt)
    have v: "mach_read_from_4 m' (b + 1) = mach_read_from_4 ?M (b + 1)" if "b + 5 \<le> e"
    proof (rule f4.get_cong)
      fix i :: nat assume "i < 4"
      then show "m' (b + 1 + i) = ?M (b + 1 + i)" using full [of "1 + i"] s that by simp
    qed
    then show ?thesis
      using True s flag written_flag_5 [OF 5(1), of m b] written_value(5) [OF 5, of m b]
      by (simp add: mach_parse_compressed_def word_less_nat_alt)
  qed
qed

text \<open>Reading is parsing in a buffer that is long enough.\<close>

lemma mach_read_parse:
  "mach_read_compressed m b = snd (the (mach_parse_compressed m b (b + 5)))"
  by (simp add: mach_read_compressed_def mach_parse_compressed_def Let_def)

lemma mach_get_compressed_size_bounds: "1 \<le> mach_get_compressed_size n \<and> mach_get_compressed_size n \<le> 5"
  by (simp add: mach_get_compressed_size_def)

interpretation comp: parse_codec mach_write_compressed mach_read_compressed mach_get_compressed_size
  "\<lambda>n. n \<le> 0xFFFFFFFF" mach_parse_compressed
proof (unfold_locales, goal_cases)
  case (1 m b v)
  show ?case by (rule mach_write_compressed_len)
next
  case (2 a b v m)
  then show ?case by (rule mach_write_compressed_frame)
next
  case (3 v m' b m)
  then show ?case
    unfolding mach_read_parse using mach_get_compressed_size_bounds [of v]
    by (subst parse_compressed_prefix [of v b "b + 5" m' m]) auto
next
  case (4 v b e m' m)
  then show ?case by (rule parse_compressed_prefix)
qed

subsection \<open>The compressed dulint\<close>

lemma dulint_write_compressed_eq:
  "mach_dulint_write_compressed m b n =
    (mach_write_to_4 (fst (mach_write_compressed m b (dul_high n)))
       (b + mach_get_compressed_size (dul_high n)) (dul_low n),
     mach_get_compressed_size (dul_high n) + 4)"
  using mach_write_compressed_len [of m b "dul_high n"]
  by (cases "mach_write_compressed m b (dul_high n)")
    (simp add: mach_dulint_write_compressed_def dulint_access)

lemma dulint_parse_compressed_prefix:
  assumes v: "dulint_ok v"
    and agree: "\<And>i. i < mach_dulint_get_compressed_size v \<Longrightarrow> b + i < e \<Longrightarrow>
      m' (b + i) = fst (mach_dulint_write_compressed m b v) (b + i)"
  shows "mach_dulint_parse_compressed m' b e =
    (if e < b + mach_dulint_get_compressed_size v then None
     else Some (b + mach_dulint_get_compressed_size v, v))"
proof -
  let ?h = "dul_high v" and ?l = "dul_low v"
  let ?s = "mach_get_compressed_size ?h"
  let ?M1 = "fst (mach_write_compressed m b ?h)"
  have len: "mach_dulint_get_compressed_size v = ?s + 4"
    by (simp add: mach_dulint_get_compressed_size_def dulint_access)
  note size = mach_get_compressed_size_bounds [of ?h]
  have ok: "?h \<le> 0xFFFFFFFF" "?l \<le> 0xFFFFFFFF" using v by (simp_all add: dulint_ok_def)
  have agree': "m' (b + i) = mach_write_to_4 ?M1 (b + ?s) ?l (b + i)" if "i < ?s + 4" "b + i < e" for i
    using agree [of i] that by (simp add: len dulint_write_compressed_eq)
  have high: "mach_read_compressed m' b = ?h" if "b + 5 \<le> e"
    using ok(1)
  proof (rule comp.get_prefix [of _ _ _ m])
    fix i assume "i < ?s"
    then show "m' (b + i) = ?M1 (b + i)"
      using agree' [of i] that size by (simp add: f4.put_frame)
  qed
  have low: "mach_read_from_4 m' (b + ?s) = ?l" if "b + ?s + 4 \<le> e"
  proof -
    have "mach_read_from_4 m' (b + ?s) = mach_read_from_4 (mach_write_to_4 ?M1 (b + ?s) ?l) (b + ?s)"
    proof (rule f4.get_cong)
      fix i :: nat assume "i < 4"
      then show "m' (b + ?s + i) = mach_write_to_4 ?M1 (b + ?s) ?l (b + ?s + i)"
        using agree' [of "?s + i"] that by (simp add: add.assoc)
    qed
    then show ?thesis using ok(2) by (simp add: f4.get_put)
  qed
  show ?thesis
    using size high low
    by (auto simp: mach_dulint_parse_compressed_def len dulint_access Let_def)
qed

lemma dulint_read_parse:
  "mach_dulint_read_compressed m b = snd (the (mach_dulint_parse_compressed m b (b + 9)))"
  using mach_get_compressed_size_bounds [of "mach_read_compressed m b"]
  by (auto simp: mach_dulint_read_compressed_def mach_dulint_parse_compressed_def Let_def)

interpretation dcomp: parse_codec mach_dulint_write_compressed mach_dulint_read_compressed
  mach_dulint_get_compressed_size dulint_ok mach_dulint_parse_compressed
proof (unfold_locales, goal_cases)
  case (1 m b v)
  show ?case
    by (simp add: dulint_write_compressed_eq mach_dulint_get_compressed_size_def dulint_access)
next
  case (2 a b v m)
  then show ?case
    by (auto simp: dulint_write_compressed_eq mach_dulint_get_compressed_size_def dulint_access
        f4.put_frame comp.put_frame)
next
  case (3 v m' b m)
  have "mach_dulint_get_compressed_size v \<le> 9"
    using mach_get_compressed_size_bounds [of "dul_high v"]
    by (simp add: mach_dulint_get_compressed_size_def dulint_access)
  then show ?case
    unfolding dulint_read_parse using 3
    by (subst dulint_parse_compressed_prefix [of v b "b + 9" m' m]) auto
next
  case (4 v b e m' m)
  then show ?case by (rule dulint_parse_compressed_prefix)
qed

lemma dulint_write_much_compressed_eq:
  "mach_dulint_write_much_compressed m b n =
    (if dul_high n = 0 then mach_write_compressed m b (dul_low n)
     else (fst (mach_write_compressed (fst (mach_write_compressed (m(b := 0xFF)) (b + 1) (dul_high n)))
              (b + (1 + mach_get_compressed_size (dul_high n))) (dul_low n)),
           1 + mach_get_compressed_size (dul_high n) + mach_get_compressed_size (dul_low n)))"
  by (simp add: mach_dulint_write_much_compressed_def dulint_access split: prod.split)
    (metis fst_conv mach_write_compressed_len snd_conv)

lemma much_compressed_size_eq:
  "mach_dulint_get_much_compressed_size v =
    (if dul_high v = 0 then mach_get_compressed_size (dul_low v)
     else 1 + mach_get_compressed_size (dul_high v) + mach_get_compressed_size (dul_low v))"
  by (auto simp: mach_dulint_get_much_compressed_size_def dulint_access)

lemma much_compressed_first_byte:
  assumes "n \<le> 0xFFFFFFFF"
  shows "fst (mach_write_compressed m b n) b \<noteq> 0xFF"
proof -
  let ?M = "fst (mach_write_compressed m b n)"
  have "unat (mach_read_from_1 ?M b) \<le> 240"
    using assms
  proof (cases rule: compressed_class_cases)
    case 1 then show ?thesis using written_value(1) [OF 1, of m b] by simp
  next
    case 2 then show ?thesis using written_flag(1) [OF 2, of m b] by simp
  next
    case 3 then show ?thesis using written_flag(2) [OF 3, of m b] by simp
  next
    case 4 then show ?thesis using written_flag(3) [OF 4, of m b] by simp
  next
    case 5 then show ?thesis using written_flag_5 [OF 5(1), of m b] by simp
  qed
  then show ?thesis by (auto simp: unat_read_1)
qed

interpretation mcomp: stream_codec mach_dulint_write_much_compressed mach_dulint_read_much_compressed
  mach_dulint_get_much_compressed_size dulint_ok
proof (unfold_locales, goal_cases)
  case (1 m b v)
  show ?case
    by (simp add: dulint_write_much_compressed_eq much_compressed_size_eq mach_write_compressed_len)
next
  case (2 a b v m)
  then show ?case
    by (auto simp: dulint_write_much_compressed_eq much_compressed_size_eq comp.put_frame split: if_splits)
next
  case (3 v m' b m)
  let ?h = "dul_high v" and ?l = "dul_low v"
  have ok: "?h \<le> 0xFFFFFFFF" "?l \<le> 0xFFFFFFFF" using 3(1) by (simp_all add: dulint_ok_def)
  show ?case
  proof (cases "?h = 0")
    case True
    then have agree: "m' (b + i) = fst (mach_write_compressed m b ?l) (b + i)"
      if "i < mach_get_compressed_size ?l" for i
      using 3(2) [of i] that by (simp add: dulint_write_much_compressed_eq much_compressed_size_eq)
    have "m' b \<noteq> 0xFF"
      using agree [of 0] mach_get_compressed_size_bounds [of ?l] much_compressed_first_byte [OF ok(2), of m b]
      by simp
    moreover have "mach_read_compressed m' b = ?l"
      using ok(2) agree by (rule comp.get_prefix)
    ultimately show ?thesis using True
      by (simp add: mach_dulint_read_much_compressed_def dulint_access)
  next
    case False
    let ?s = "mach_get_compressed_size ?h" and ?t = "mach_get_compressed_size ?l"
    let ?M1 = "fst (mach_write_compressed (m(b := 0xFF)) (b + 1) ?h)"
    let ?M2 = "fst (mach_write_compressed ?M1 (b + (1 + ?s)) ?l)"
    have agree: "m' (b + i) = ?M2 (b + i)" if "i < 1 + ?s + ?t" for i
      using 3(2) [of i] that False by (simp add: dulint_write_much_compressed_eq much_compressed_size_eq)
    have "m' b = 0xFF"
      using agree [of 0] by (simp add: comp.put_frame)
    moreover have "mach_read_compressed m' (b + 1) = ?h"
    proof (rule comp.get_prefix [OF ok(1)])
      fix i assume "i < ?s"
      then show "m' (b + 1 + i) = ?M1 (b + 1 + i)"
        using agree [of "1 + i"] by (simp add: comp.put_frame)
    qed
    moreover have "mach_read_compressed m' (b + (1 + ?s)) = ?l"
    proof (rule comp.get_prefix [OF ok(2)])
      fix i assume "i < ?t"
      then show "m' (b + (1 + ?s) + i) = ?M2 (b + (1 + ?s) + i)"
        using agree [of "1 + ?s + i"] by (simp add: add.assoc)
    qed
    ultimately show ?thesis
      by (simp add: mach_dulint_read_much_compressed_def dulint_access Let_def)
  qed
qed

subsection \<open>Little-endian and SQL integers\<close>

lemma copy_in_out:
  assumes "length d = k"
  shows "copy_in (copy_out m b d k) b k = d"
proof -
  have "copy_out m b d j (b + i) = (if i < j then d ! i else m (b + i))" for i j
    by (induction j) (auto simp: copy_out_def)
  then show ?thesis using assms by (auto simp: copy_in_def intro: nth_equalityI)
qed

lemma join_byte:
  fixes r :: ulint and x :: byte
  shows "push_bit 8 r OR ucast x = push_bit 8 r + ucast x"
proof -
  have "push_bit 8 r AND ucast x = 0"
    by (rule bit_word_eqI) (auto simp: bit_simps dest: bit_imp_le_length)
  then show ?thesis by (simp add: disjunctive_add_eq_or)
qed

lemma join_split_byte:
  fixes n :: ulint
  shows "push_bit 8 (drop_bit (8 * Suc p) n) + ucast (ucast (drop_bit (8 * p) n) :: byte)
    = drop_bit (8 * p) n"
  unfolding join_byte [symmetric]
  by (rule bit_word_eqI) (auto simp: bit_simps add.commute)

lemma read_n_le_loop_bytes:
  assumes "\<And>i. i \<le> p \<Longrightarrow> m (buf + i) = ucast (drop_bit (8 * i) n)"
  shows "read_n_le_loop m buf (Suc p) (drop_bit (8 * Suc p) n) = Some n"
  using assms
proof (induction p)
  case 0
  then show ?case using join_split_byte [of 0 n] by simp
next
  case (Suc p)
  have "read_n_le_loop m buf (Suc (Suc p)) (drop_bit (8 * Suc (Suc p)) n)
      = read_n_le_loop m buf (Suc p) (drop_bit (8 * Suc p) n)"
    unfolding read_n_le_loop.simps(2) [of m buf "Suc p"] Suc.prems [OF order_refl] join_split_byte
    by simp
  with Suc show ?case by simp
qed

lemma write_n_le_loop_bytes:
  "\<exists>m'. write_n_le_loop m d (Suc k) n = Some m' \<and>
     (\<forall>i \<le> k. m' (d + i) = ucast (drop_bit (8 * i) n)) \<and>
     (\<forall>a. a < d \<or> d + k < a \<longrightarrow> m' a = m a)"
proof (induction k arbitrary: m d n)
  have a: "w AND 0xFF = take_bit 8 w" for w :: ulint
    by (simp add: take_bit_eq_mask mask_eq_exp_minus_1)
  have b: "ucast (w AND 0xFF) = (ucast w :: byte)" for w :: ulint
    unfolding a by (rule bit_word_eqI) (auto simp: bit_simps)
  {
    case 0
    then show ?case by (simp add: b)
  next
    case (Suc k)
    obtain m' where m': "write_n_le_loop (m(d := ucast n)) (d + 1) (Suc k) (drop_bit 8 n) = Some m'"
      "\<And>i. i \<le> k \<Longrightarrow> m' (d + 1 + i) = ucast (drop_bit (8 * i) (drop_bit 8 n))"
      "\<And>a. a < d + 1 \<or> d + 1 + k < a \<Longrightarrow> m' a = (m(d := ucast n)) a"
      using Suc.IH by blast
    have "m' (d + i) = ucast (drop_bit (8 * i) n)" if "i \<le> Suc k" for i
      using m'(2) [of "i - 1"] m'(3) [of d] that by (cases i) (auto simp: add.commute)
    moreover have "write_n_le_loop m d (Suc (Suc k)) n = Some m'"
      using m'(1) by (simp add: b)
    ultimately show ?case using m'(3) by (intro exI [of _ m']) auto
  }
qed

lemma n_little_endian_round_trip:
  assumes "0 < k" and "k \<le> 8" and "unat n < 256 ^ k"
  shows "\<exists>m'. mach_write_to_n_little_endian m d k n = Some m' \<and>
    mach_read_from_n_little_endian m' d k = Some n \<and>
    (\<forall>a. a < d \<or> d + k \<le> a \<longrightarrow> m' a = m a)"
proof -
  obtain j where j: "k = Suc j" using assms(1) by (cases k) auto
  obtain m' where m': "write_n_le_loop m d (Suc j) n = Some m'"
    "\<And>i. i \<le> j \<Longrightarrow> m' (d + i) = ucast (drop_bit (8 * i) n)"
    "\<And>a. a < d \<or> d + j < a \<Longrightarrow> m' a = m a"
    using write_n_le_loop_bytes [of m d j n] by blast
  have "(2::nat) ^ (8 * k) = 256 ^ k" by (simp add: power_mult)
  then have "drop_bit (8 * Suc j) n = 0"
    using assms(3) j by (simp add: word_unat_eq_iff unat_drop_bit_div del: drop_bit_eq_div)
  with read_n_le_loop_bytes [of j m' d n] m'(2)
  have "read_n_le_loop m' d (Suc j) 0 = Some n" by simp
  with m' show ?thesis
    unfolding mach_write_to_n_little_endian_def mach_read_from_n_little_endian_def j
    by (intro exI [of _ m']) auto
qed

text \<open>The unsigned value of a big-endian field of \<open>k\<close> bytes.\<close>

fun be_val :: "mem \<Rightarrow> nat \<Rightarrow> nat \<Rightarrow> nat" where
  "be_val m s 0 = 0"
| "be_val m s (Suc k) = be_val m s k * 256 + unat (m (s + k))"

lemma be_val_bound: "be_val m s k < 256 ^ k"
proof (induction k)
  case (Suc k)
  then have "(be_val m s k + 1) * 256 \<le> 256 ^ k * 256" by (intro mult_right_mono) auto
  then show ?case using byte_less [of "m (s + k)"] by simp
qed simp

lemma int_type_first_byte:
  fixes x :: byte
  defines "r \<equiv> (if x AND 0x80 \<noteq> 0 then 0 else 0xFFFFFFFFFFFFFF00) OR (ucast x XOR 0x80) :: ulint"
  shows "r = ucast x - 0x80"
proof -
  let ?w = "ucast x :: ulint"
  have bit7: "bit ?w 7 = bit x 7" by (simp add: bit_simps)
  have test: "(x AND 0x80 \<noteq> 0) = bit x 7"
    using and_exp_eq_0_iff_not_bit [of x 7] by simp
  have xor: "?w XOR 0x80 = (if bit x 7 then ?w - 0x80 else ?w + 0x80)"
    using flip_bit_eq_if [of 7 ?w] bit7
    by (simp add: flip_bit_eq_xor set_bit_eq unset_bit_eq split: if_splits)
  have or: "0xFFFFFFFFFFFFFF00 OR (?w + 0x80) = 0xFFFFFFFFFFFFFF00 + (?w + 0x80)" if "\<not> bit x 7"
  proof -
    have "unat x < 128"
    proof -
      have "take_bit 7 x = x"
        using that by (intro bit_word_eqI) (auto simp: bit_simps less_Suc_eq numeral_eq_Suc)
      then have "unat x = unat x mod 2 ^ 7"
        by (metis take_bit_eq_mod unsigned_take_bit_eq)
      then show ?thesis using mod_less_divisor [of 128 "unat x"] by simp
    qed
    then have u: "unat (?w + 0x80) < 2 ^ 8" by (simp add: unat_plus_small unat_ucast_byte)
    have "(?w + 0x80) AND NOT (mask 8) = 0"
      using u by (simp only: word_unat_eq_iff unat_and_not_mask) simp
    moreover have "NOT (mask 8) = (0xFFFFFFFFFFFFFF00 :: ulint)"
      by (simp add: mask_eq_exp_minus_1)
    ultimately show ?thesis by (simp add: disjunctive_add_eq_or and.commute)
  qed
  have c: "0xFFFFFFFFFFFFFF00 + (y + 0x80) = y - (0x80 :: ulint)" for y
  proof -
    have "(0xFFFFFFFFFFFFFF00 :: ulint) = - 0x100" by (simp add: word_uint_eq_iff)
    then show ?thesis by simp
  qed
  show ?thesis
    unfolding r_def test xor
    by (cases "bit x 7") (simp_all only: or c if_True if_False simp_thms or.left_neutral)
qed


lemma be_val_split: "1 \<le> k \<Longrightarrow> be_val m s (Suc k) = be_val m s k * 256 + unat (m (s + k))"
  by simp

lemma mach_read_int_type_word:
  "mach_read_int_type m s (Suc k) unsigned_type =
    of_nat (be_val m s (Suc k)) - (if unsigned_type then 0 else 2 ^ (8 * Suc k - 1))"
proof (induction k)
  case 0
  show ?case
    using int_type_first_byte [of "m s"]
    by (auto simp: mach_read_int_type_def Let_def unsigned_ucast_eq split: if_splits)
next
  case (Suc k)
  have "mach_read_int_type m s (Suc (Suc k)) unsigned_type =
      push_bit 8 (mach_read_int_type m s (Suc k) unsigned_type) + ucast (m (s + Suc k))"
    by (simp add: mach_read_int_type_def Let_def join_byte)
  also have "\<dots> = mach_read_int_type m s (Suc k) unsigned_type * 256 + of_nat (unat (m (s + Suc k)))"
    by (simp add: push_bit_eq_mult)
  finally have step: "mach_read_int_type m s (Suc (Suc k)) unsigned_type =
    mach_read_int_type m s (Suc k) unsigned_type * 256 + of_nat (unat (m (s + Suc k)))" .
  have "8 * Suc (Suc k) - 1 = (8 * Suc k - 1) + 8" by simp
  then have "(2::ulint) ^ (8 * Suc (Suc k) - 1) = 2 ^ (8 * Suc k - 1) * 256"
    by (simp only: power_add) simp
  then show ?case
    unfolding step Suc.IH be_val_split [of "Suc k", simplified] by (simp add: algebra_simps)
qed

lemma mach_read_int_type_signed:
  assumes "1 \<le> len" and "len \<le> 8"
  shows "sint (mach_read_int_type m s len False) = int (be_val m s len) - 2 ^ (8 * len - 1)"
proof -
  obtain k where k: "len = Suc k" using assms(1) by (cases len) auto
  let ?v = "int (be_val m s len) - 2 ^ (8 * len - 1)"
  have "(2::int) ^ (8 * len - 1) \<le> 2 ^ 63" using assms by (intro power_increasing) auto
  moreover have "int (be_val m s len) < 2 ^ (8 * len)"
    using be_val_bound [of m s len] by (simp add: power_mult)
  moreover have "(2::int) ^ (8 * len) = 2 * 2 ^ (8 * len - 1)"
    using assms(1) by (simp flip: power_Suc)
  ultimately have r: "- (2 ^ 63) \<le> ?v" "?v < 2 ^ 63" by linarith+
  have "mach_read_int_type m s len False = word_of_int ?v"
    unfolding k mach_read_int_type_word by simp
  then show ?thesis using r by (simp only: sint_of_int_small)
qed

lemma mach_read_int_type_unsigned:
  assumes "1 \<le> len" and "len \<le> 8"
  shows "unat (mach_read_int_type m s len True) = be_val m s len"
proof -
  obtain k where k: "len = Suc k" using assms(1) by (cases len) auto
  have "(256::nat) ^ len \<le> 256 ^ 8" using assms by (intro power_increasing) auto
  then have "be_val m s len < 2 ^ 64" using be_val_bound [of m s len] by simp
  moreover have "mach_read_int_type m s len True = of_nat (be_val m s len)"
    unfolding k mach_read_int_type_word by simp
  ultimately show ?thesis by (simp only: unat_of_nat_small)
qed

section \<open>Properties\<close>

text \<open>
  C28: a sequence of 32-bit numbers written one after the other with \<open>mach_write_compressed\<close>, as
  the mini-transaction log is, is read back whole by \<open>mach_read_compressed\<close>, each read finding
  where the next field starts from the size of the value it returned; nothing before the first
  field or behind the last is touched.
\<close>

theorem compressed_stream_round_trip:
  assumes "list_all (\<lambda>n. n \<le> 0xFFFFFFFF) ns"
  shows "get_list mach_read_compressed mach_get_compressed_size
      (fst (put_list mach_write_compressed m b ns)) b (length ns) = ns \<and>
    snd (put_list mach_write_compressed m b ns) = sum_list (map mach_get_compressed_size ns) \<and>
    (\<forall>a. a < b \<or> b + snd (put_list mach_write_compressed m b ns) \<le> a \<longrightarrow>
      fst (put_list mach_write_compressed m b ns) a = m a)"
  using comp.get_put_list [OF assms, of m b] comp.put_list_size [of m b ns]
    comp.put_list_outside [where m = m and b = b and vs = ns] by simp

theorem compressed_stream_round_trip_witness:
  "get_list mach_read_compressed mach_get_compressed_size
     (fst (put_list mach_write_compressed (\<lambda>_. 7) 3 [0x7F, 0x4000, 0xFFFFFFFF])) 3 3 =
   [0x7F, 0x4000, 0xFFFFFFFF]"
proof -
  show ?thesis
    using compressed_stream_round_trip [of "[0x7F, 0x4000, 0xFFFFFFFF]" "\<lambda>_. 7" 3]
    by (simp add: numeral_3_eq_3 del: put_list.simps get_list.simps)
qed

text \<open>
  C30: parsing a compressed number from a buffer of which only the bytes before \<open>e\<close> have arrived
  yields exactly the number and the pointer behind it when the field is complete, and NULL when
  it is cut off anywhere, whatever lies behind the end of the buffer.
\<close>

theorem parse_compressed_truncated:
  assumes "n \<le> 0xFFFFFFFF"
    and "\<forall>a. b \<le> a \<and> a < e \<longrightarrow> m' a = fst (mach_write_compressed m b n) a"
  shows "mach_parse_compressed m' b e =
    (if e < b + mach_get_compressed_size n then None
     else Some (b + mach_get_compressed_size n, n))"
  using assms by (intro comp.parse_prefix [of _ _ _ _ m]) auto

theorem parse_compressed_truncated_witness:
  "mach_parse_compressed (fst (mach_write_compressed (\<lambda>_. 9) 2 0x12345)) 2 4 = None \<and>
   mach_parse_compressed (fst (mach_write_compressed (\<lambda>_. 9) 2 0x12345)) 2 5 = Some (5, 0x12345)"
  using parse_compressed_truncated [of "0x12345" 2 4 "fst (mach_write_compressed (\<lambda>_. 9) 2 0x12345)" "\<lambda>_. 9"]
    parse_compressed_truncated [of "0x12345" 2 5 "fst (mach_write_compressed (\<lambda>_. 9) 2 0x12345)" "\<lambda>_. 9"]
  by (simp add: mach_get_compressed_size_def)

text \<open>
  C31: the same for the two dulint encodings: \<open>mach_dulint_parse_compressed\<close> returns the dulint
  exactly when the buffer holds all of its bytes, and a sequence written in the much compressed
  form, with its escape byte for a non-zero high half, is read back whole.
\<close>

theorem dulint_encodings_round_trip:
  assumes "dulint_ok d" and "list_all dulint_ok ds"
    and "\<forall>a. b \<le> a \<and> a < e \<longrightarrow> m' a = fst (mach_dulint_write_compressed m b d) a"
  shows "mach_dulint_parse_compressed m' b e =
      (if e < b + mach_dulint_get_compressed_size d then None
       else Some (b + mach_dulint_get_compressed_size d, d)) \<and>
    get_list mach_dulint_read_much_compressed mach_dulint_get_much_compressed_size
      (fst (put_list mach_dulint_write_much_compressed m c ds)) c (length ds) = ds"
  using assms dcomp.parse_prefix [of d b e m' m] mcomp.get_put_list [of ds m c] by simp

theorem dulint_encodings_round_trip_witness:
  "mach_dulint_parse_compressed (fst (mach_dulint_write_compressed (\<lambda>_. 9) 2 (ut_dulint_create 300 70000))) 2 8
     = Some (8, ut_dulint_create 300 70000) \<and>
   get_list mach_dulint_read_much_compressed mach_dulint_get_much_compressed_size
      (fst (put_list mach_dulint_write_much_compressed (\<lambda>_. 9) 5 [ut_dulint_create 0 255, ut_dulint_create 1 2]))
      5 (Suc (Suc 0)) = [ut_dulint_create 0 255, ut_dulint_create 1 2]"
proof -
  show ?thesis
  using dulint_encodings_round_trip [of "ut_dulint_create 300 70000" "[ut_dulint_create 0 255, ut_dulint_create 1 2]" 2 8
    "fst (mach_dulint_write_compressed (\<lambda>_. 9) 2 (ut_dulint_create 300 70000))" "\<lambda>_. 9" 5]
    by (simp add: dulint_ok_def ut_dulint_create_def dulint_access
      mach_dulint_get_compressed_size_def mach_get_compressed_size_def del: put_list.simps get_list.simps)
qed



lemma be_val_lexord:
  "be_val m s k < be_val m' s' k \<longleftrightarrow>
    (map (\<lambda>i. m (s + i)) [0..<k], map (\<lambda>i. m' (s' + i)) [0..<k]) \<in> lexord {(x, y). x < y}"
proof (induction k)
  case (Suc k)
  let ?u = "map (\<lambda>i. m (s + i)) [0..<k]" and ?v = "map (\<lambda>i. m' (s' + i)) [0..<k]"
  have eq: "be_val m s k = be_val m' s' k \<longleftrightarrow> ?u = ?v"
  proof (induction k)
    case (Suc k)
    then show ?case using byte_less [of "m (s + k)"] byte_less [of "m' (s' + k)"]
      by (auto simp: word_unat_eq_iff)
  qed simp
  have lt: "be_val m s (Suc k) < be_val m' s' (Suc k) \<longleftrightarrow>
      be_val m s k < be_val m' s' k \<or> be_val m s k = be_val m' s' k \<and> m (s + k) < m' (s' + k)"
    using byte_less [of "m (s + k)"] byte_less [of "m' (s' + k)"]
    by (auto simp: word_less_nat_alt)
  have "(?u @ [m (s + k)], ?v @ [m' (s' + k)]) \<in> lexord {(x, y). x < y} \<longleftrightarrow>
      (?u, ?v) \<in> lexord {(x, y). x < y} \<or> ?u = ?v \<and> m (s + k) < m' (s' + k)"
    by (simp add: lexord_snoc)
  then show ?case using Suc eq lt by simp
qed simp

text \<open>
  C33: an integer column of 1 to 8 bytes, stored big-endian with its sign bit inverted, is read by
  \<open>mach_read_int_type\<close> as the number it stands for; so signed columns compare as their stored
  bytes do, from the first byte on.
\<close>

theorem int_type_order:
  assumes "1 \<le> len" and "len \<le> 8"
  shows "sint (mach_read_int_type m s len False) = int (be_val m s len) - 2 ^ (8 * len - 1) \<and>
    unat (mach_read_int_type m s len True) = be_val m s len \<and>
    (sint (mach_read_int_type m s len False) < sint (mach_read_int_type m' s' len False) \<longleftrightarrow>
      (map (\<lambda>i. m (s + i)) [0..<len], map (\<lambda>i. m' (s' + i)) [0..<len]) \<in> lexord {(x, y). x < y})"
  using mach_read_int_type_signed [OF assms] mach_read_int_type_unsigned [OF assms]
    be_val_lexord [of m s len m' s'] by simp

theorem int_type_order_witness:
  "sint (mach_read_int_type ((\<lambda>_. 0)(0 := 0x7F, 1 := 0xFE)) 0 2 False) = -2"
proof -
  have "be_val ((\<lambda>_. 0)(0 := 0x7F, 1 := 0xFE)) 0 (Suc (Suc 0)) = 0x7FFE" by simp
  then have "be_val ((\<lambda>_. 0)(0 := 0x7F, 1 := 0xFE)) 0 2 = 0x7FFE" by (simp only: numeral_2_eq_2)
  then show ?thesis
    using int_type_order [of 2 "(\<lambda>_. 0)(0 := 0x7F, 1 := 0xFE)" 0 "\<lambda>_. 0" 0] by simp
qed

end
