(* ===== verification/TrxSys.thy ===== *)
theory TrxSys
  imports UtByte
begin

text \<open>
  The transaction system (\<open>include/trx0sys.h\<close>, \<open>include/trx0sys.ic\<close>, \<open>trx/trx0trx.c\<close>): allocation of
  transaction ids and numbers, the list of transactions, and the start and commit of a
  transaction as far as consistent reads depend on them. Transactions and read views are objects
  behind pointers; the state holds what each pointer refers to and the two lists of pointers, in
  list order (\<open>UT_LIST\<close>).
\<close>

section \<open>State\<close>

datatype conc_state = TRX_NOT_STARTED | TRX_ACTIVE | TRX_COMMITTED_IN_MEMORY | TRX_PREPARED

datatype view_type = VIEW_NORMAL | VIEW_HIGH_GRANULARITY

text \<open>\<open>struct read_view_struct\<close> (\<open>include/read0read.h\<close>); the list node is in \<open>view_list\<close>.\<close>

record read_view =
  vw_type :: view_type
  vw_undo_no :: dulint
  low_limit_no :: dulint
  low_limit_id :: dulint
  up_limit_id :: dulint
  n_trx_ids :: nat
  trx_ids :: "dulint list"
  creator_trx_id :: dulint

type_synonym trx_ptr = nat
type_synonym view_ptr = nat

text \<open>
  The fields of \<open>struct trx_struct\<close> these operations read or write. The undo log objects are
  present or \<open>NULL\<close>; \<open>rseg\<close> is the number of the assigned rollback segment.
\<close>

record trx =
  is_purge :: bool
  conc_state :: conc_state
  trx_id :: dulint
  trx_no :: dulint
  rseg :: "nat option"
  insert_undo :: bool
  update_undo :: bool
  undo_no :: dulint
  least_undo_no :: dulint
  start_time :: int
  n_mysql_tables_in_use :: nat
  global_read_view :: "view_ptr option"
  read_view :: "view_ptr option"

text \<open>
  \<open>struct trx_sys_struct\<close> with the objects its lists link and \<open>stored_trx_id\<close>, the field
  \<open>TRX_SYS_TRX_ID_STORE\<close> of the transaction system page.
\<close>

record trx_sys =
  max_trx_id :: dulint
  stored_trx_id :: dulint
  trx_list :: "trx_ptr list"
  view_list :: "view_ptr list"
  trxs :: "trx_ptr \<Rightarrow> trx"
  views :: "view_ptr \<Rightarrow> read_view"

abbreviation upd_trx :: "trx_ptr \<Rightarrow> (trx \<Rightarrow> trx) \<Rightarrow> trx_sys \<Rightarrow> trx_sys" where
  "upd_trx p f s \<equiv> s\<lparr>trxs := (trxs s)(p := f (trxs s p))\<rparr>"

section \<open>Transaction ids and numbers\<close>

definition TRX_SYS_TRX_ID_WRITE_MARGIN :: ulint where
  "TRX_SYS_TRX_ID_WRITE_MARGIN = 256"

definition trx_sys_flush_max_trx_id :: "trx_sys \<Rightarrow> trx_sys" where
  "trx_sys_flush_max_trx_id s = s\<lparr>stored_trx_id := max_trx_id s\<rparr>"

definition trx_sys_get_new_trx_id :: "trx_sys \<Rightarrow> dulint \<times> trx_sys" where
  "trx_sys_get_new_trx_id s =
     (let s1 = (if ut_dulint_get_low (max_trx_id s) mod TRX_SYS_TRX_ID_WRITE_MARGIN = 0
                then trx_sys_flush_max_trx_id s else s);
          id = max_trx_id s1
      in (id, s1\<lparr>max_trx_id := UT_DULINT_INC (max_trx_id s1)\<rparr>))"

definition trx_sys_get_new_trx_no :: "trx_sys \<Rightarrow> dulint \<times> trx_sys" where
  "trx_sys_get_new_trx_no s = trx_sys_get_new_trx_id s"

text \<open>The first \<open>max_trx_id\<close> of a restarted server, from the field the last one stored.\<close>

definition trx_sys_init_max_trx_id :: "dulint \<Rightarrow> dulint" where
  "trx_sys_init_max_trx_id store =
     ut_dulint_add (ut_dulint_align_up store TRX_SYS_TRX_ID_WRITE_MARGIN)
       (2 * TRX_SYS_TRX_ID_WRITE_MARGIN)"

section \<open>The list of transactions\<close>

text \<open>
  The scan stops at the first transaction with an id not above the new one, and the new one is
  linked before it: after its predecessor, or first, or last when the scan reaches the end.
\<close>

fun trx_list_insert_scan :: "(trx_ptr \<Rightarrow> trx) \<Rightarrow> trx_ptr \<Rightarrow> trx_ptr list \<Rightarrow> trx_ptr list" where
  "trx_list_insert_scan h p [] = [p]"
| "trx_list_insert_scan h p (trx2 # rest) =
     (if ut_dulint_cmp (trx_id (h p)) (trx_id (h trx2)) \<ge> 0 then p # trx2 # rest
      else trx2 # trx_list_insert_scan h p rest)"

definition trx_list_insert_ordered :: "trx_ptr \<Rightarrow> trx_sys \<Rightarrow> trx_sys" where
  "trx_list_insert_ordered p s =
     s\<lparr>trx_list := trx_list_insert_scan (trxs s) p (trx_list s)\<rparr>"

fun trx_get_on_id_scan :: "(trx_ptr \<Rightarrow> trx) \<Rightarrow> dulint \<Rightarrow> trx_ptr list \<Rightarrow> trx_ptr option" where
  "trx_get_on_id_scan h i [] = None"
| "trx_get_on_id_scan h i (p # ps) =
     (if 0 = ut_dulint_cmp i (trx_id (h p)) then Some p else trx_get_on_id_scan h i ps)"

definition trx_get_on_id :: "dulint \<Rightarrow> trx_sys \<Rightarrow> trx_ptr option" where
  "trx_get_on_id i s = trx_get_on_id_scan (trxs s) i (trx_list s)"

definition trx_list_get_min_trx_id :: "trx_sys \<Rightarrow> dulint" where
  "trx_list_get_min_trx_id s =
     (if trx_list s = [] then max_trx_id s else trx_id (trxs s (last (trx_list s))))"

definition trx_is_active :: "dulint \<Rightarrow> trx_sys \<Rightarrow> bool" where
  "trx_is_active i s =
     (if ut_dulint_cmp i (trx_list_get_min_trx_id s) < 0 then False
      else if ut_dulint_cmp i (max_trx_id s) \<ge> 0 then True
      else (case trx_get_on_id i s of
              None \<Rightarrow> False
            | Some p \<Rightarrow> conc_state (trxs s p) = TRX_ACTIVE \<or> conc_state (trxs s p) = TRX_PREPARED))"

section \<open>Start and commit\<close>

text \<open>
  \<open>trx_start_low\<close> with the rollback segment \<open>rseg_id\<close> already chosen and \<open>now\<close> the value of
  \<open>time(NULL)\<close>.
\<close>

definition trx_start_low :: "nat \<Rightarrow> int \<Rightarrow> trx_ptr \<Rightarrow> trx_sys \<Rightarrow> trx_sys" where
  "trx_start_low rseg_id now p s =
     (if is_purge (trxs s p) then
        upd_trx p (\<lambda>t. t\<lparr>trx_id := ut_dulint_zero, conc_state := TRX_ACTIVE, start_time := now\<rparr>) s
      else
        (case trx_sys_get_new_trx_id s of
           (i, s1) \<Rightarrow>
             (let s2 = upd_trx p (\<lambda>t. t\<lparr>trx_id := i, trx_no := ut_dulint_max, rseg := Some rseg_id,
                                       conc_state := TRX_ACTIVE, start_time := now\<rparr>) s1
              in s2\<lparr>trx_list := p # trx_list s2\<rparr>)))"

text \<open>
  \<open>read_view_close\<close> (\<open>read/read0read.c\<close>) unlinks the view; the commit calls it for the view of the
  transaction.
\<close>

definition read_view_close :: "view_ptr \<Rightarrow> trx_sys \<Rightarrow> trx_sys" where
  "read_view_close v s = s\<lparr>view_list := remove1 v (view_list s)\<rparr>"

text \<open>
  \<open>trx_commit_off_kernel\<close> gives up the kernel mutex twice, so other threads see three steps: the
  assignment of the transaction number to a transaction with an update undo log (whose handle
  \<open>trx_undo_update_cleanup\<close> then clears), the switch to committed in memory with the close of its
  read view, and, after \<open>trx_undo_insert_cleanup\<close>, the removal from the list.
\<close>

definition trx_commit_assign_no :: "trx_ptr \<Rightarrow> trx_sys \<Rightarrow> trx_sys" where
  "trx_commit_assign_no p s =
     (if update_undo (trxs s p) then
        (case trx_sys_get_new_trx_no s of
           (n, s1) \<Rightarrow> upd_trx p (\<lambda>t. t\<lparr>trx_no := n, update_undo := False\<rparr>) s1)
      else s)"

definition trx_commit_in_memory :: "trx_ptr \<Rightarrow> trx_sys \<Rightarrow> trx_sys" where
  "trx_commit_in_memory p s =
     (let s1 = upd_trx p (\<lambda>t. t\<lparr>conc_state := TRX_COMMITTED_IN_MEMORY\<rparr>) s;
          s2 = (case global_read_view (trxs s1 p) of
                  None \<Rightarrow> s1
                | Some v \<Rightarrow> upd_trx p (\<lambda>t. t\<lparr>global_read_view := None\<rparr>) (read_view_close v s1))
      in upd_trx p (\<lambda>t. t\<lparr>read_view := None\<rparr>) s2)"

definition trx_commit_finish :: "trx_ptr \<Rightarrow> trx_sys \<Rightarrow> trx_sys" where
  "trx_commit_finish p s =
     (let s1 = upd_trx p (\<lambda>t. t\<lparr>insert_undo := False, conc_state := TRX_NOT_STARTED, rseg := None,
                                undo_no := ut_dulint_zero, least_undo_no := ut_dulint_zero\<rparr>) s
      in s1\<lparr>trx_list := remove1 p (trx_list s1)\<rparr>)"

definition trx_prepare_off_kernel :: "trx_ptr \<Rightarrow> trx_sys \<Rightarrow> trx_sys" where
  "trx_prepare_off_kernel p s = upd_trx p (\<lambda>t. t\<lparr>conc_state := TRX_PREPARED\<rparr>) s"

definition trx_cleanup_at_db_startup :: "trx_ptr \<Rightarrow> trx_sys \<Rightarrow> trx_sys" where
  "trx_cleanup_at_db_startup p s =
     (let s0 = (if insert_undo (trxs s p) then upd_trx p (\<lambda>t. t\<lparr>insert_undo := False\<rparr>) s else s);
          s1 = upd_trx p (\<lambda>t. t\<lparr>conc_state := TRX_NOT_STARTED, rseg := None,
                                undo_no := ut_dulint_zero, least_undo_no := ut_dulint_zero\<rparr>) s0
      in s1\<lparr>trx_list := remove1 p (trx_list s1)\<rparr>)"

section \<open>Transaction ids across restarts\<close>

fun alloc_ids :: "nat \<Rightarrow> trx_sys \<Rightarrow> dulint list \<times> trx_sys" where
  "alloc_ids 0 s = ([], s)"
| "alloc_ids (Suc n) s =
     (case trx_sys_get_new_trx_id s of (i, s1) \<Rightarrow>
        (case alloc_ids n s1 of (ids, s2) \<Rightarrow> (i # ids, s2)))"

lemma mod_256_low: "dulint_val d mod 256 = unat (dul_low d) mod 256"
proof -
  have "unat (dul_high d) * 2 ^ 32 = 256 * (unat (dul_high d) * 2 ^ 24)" by simp
  then show ?thesis unfolding dulint_val_def by (metis mod_mult_self4)
qed

lemma low_mod_margin:
  "dul_low d mod TRX_SYS_TRX_ID_WRITE_MARGIN = 0 \<longleftrightarrow> dulint_val d mod 256 = 0"
  by (simp add: mod_256_low TRX_SYS_TRX_ID_WRITE_MARGIN_def word_unat_eq_iff unat_mod)

lemma init_max_trx_id_val:
  assumes "dulint_ok d" and "dulint_val d < 2 ^ 63"
  shows "dulint_ok (trx_sys_init_max_trx_id d) \<and>
    dulint_val (trx_sys_init_max_trx_id d) = (dulint_val d + 255) div 256 * 256 + 512"
proof -
  have a: "dulint_ok (ut_dulint_add d 255) \<and> dulint_val (ut_dulint_add d 255) = dulint_val d + 255"
    using ut_dulint_add_val [of d 255] assms by simp
  let ?u = "ut_dulint_align_up d TRX_SYS_TRX_ID_WRITE_MARGIN"
  have u: "dulint_ok ?u \<and> dulint_val ?u = (dulint_val d + 255) div 256 * 256"
    using ut_dulint_align_down_val [of "ut_dulint_add d 255" 8] a
    by (simp add: ut_dulint_align_up_def TRX_SYS_TRX_ID_WRITE_MARGIN_def)
  then have "dulint_val ?u \<le> dulint_val d + 255" by simp
  then show ?thesis
    using ut_dulint_add_val [of ?u 512] u assms
    by (simp add: trx_sys_init_max_trx_id_def TRX_SYS_TRX_ID_WRITE_MARGIN_def)
qed

text \<open>
  The id about to be allocated is either a multiple of the margin, and then stored first, or
  less than a margin above the stored multiple.
\<close>

definition id_store_inv :: "trx_sys \<Rightarrow> bool" where
  "id_store_inv s \<longleftrightarrow> dulint_ok (max_trx_id s) \<and> dulint_ok (stored_trx_id s)
     \<and> (let m = dulint_val (max_trx_id s); t = dulint_val (stored_trx_id s)
        in m mod 256 = 0 \<and> t \<le> m \<and> m \<le> (t + 255) div 256 * 256 + 512
           \<or> t mod 256 = 0 \<and> t < m \<and> m \<le> t + 256)"

lemma get_new_trx_id_store:
  assumes inv: "id_store_inv s" and left: "dulint_val (max_trx_id s) < 2 ^ 62"
    and res: "trx_sys_get_new_trx_id s = (i, s1)"
  shows "i = max_trx_id s \<and> id_store_inv s1 \<and> dulint_ok (max_trx_id s1)
    \<and> dulint_val (max_trx_id s1) = dulint_val (max_trx_id s) + 1"
proof -
  have ok: "dulint_ok (max_trx_id s)" using inv by (simp add: id_store_inv_def)
  have inc: "dulint_ok (UT_DULINT_INC (max_trx_id s))"
    "dulint_val (UT_DULINT_INC (max_trx_id s)) = dulint_val (max_trx_id s) + 1"
    using UT_DULINT_INC_val [OF ok] left by simp_all
  show ?thesis
  proof (cases "dulint_val (max_trx_id s) mod 256 = 0")
    case True
    then have s1: "s1 = s\<lparr>stored_trx_id := max_trx_id s, max_trx_id := UT_DULINT_INC (max_trx_id s)\<rparr>"
      and i: "i = max_trx_id s"
      using res by (auto simp: trx_sys_get_new_trx_id_def low_mod_margin trx_sys_flush_max_trx_id_def
          ut_dulint_get_low_def Let_def)
    with True inc ok show ?thesis by (simp add: id_store_inv_def)
  next
    case False
    then have s1: "s1 = s\<lparr>max_trx_id := UT_DULINT_INC (max_trx_id s)\<rparr>" and i: "i = max_trx_id s"
      using res by (auto simp: trx_sys_get_new_trx_id_def low_mod_margin trx_sys_flush_max_trx_id_def
          ut_dulint_get_low_def Let_def)
    have "dulint_val (stored_trx_id s) mod 256 = 0"
      "dulint_val (stored_trx_id s) < dulint_val (max_trx_id s)"
      "dulint_val (max_trx_id s) \<le> dulint_val (stored_trx_id s) + 256"
      using inv False by (auto simp: id_store_inv_def Let_def)
    then have "dulint_val (max_trx_id s) + 1 \<le> dulint_val (stored_trx_id s) + 256"
      using False by (cases "dulint_val (max_trx_id s) = dulint_val (stored_trx_id s) + 256") simp_all
    then show ?thesis using inv inc i s1 False by (auto simp: id_store_inv_def Let_def)
  qed
qed

lemma alloc_ids_store:
  assumes "id_store_inv s" and "dulint_val (max_trx_id s) + n < 2 ^ 62"
    and "alloc_ids n s = (ids, t)"
  shows "id_store_inv t \<and> dulint_val (max_trx_id t) = dulint_val (max_trx_id s) + n
    \<and> map dulint_val ids = [dulint_val (max_trx_id s)..<dulint_val (max_trx_id s) + n]
    \<and> list_all dulint_ok ids"
  using assms
proof (induction n arbitrary: s ids)
  case (Suc n)
  obtain i s1 where g: "trx_sys_get_new_trx_id s = (i, s1)" by fastforce
  obtain ids' where r: "alloc_ids n s1 = (ids', t)" and ids: "ids = i # ids'"
    using Suc.prems(3) g by (auto split: prod.splits)
  have st: "i = max_trx_id s \<and> id_store_inv s1 \<and> dulint_val (max_trx_id s1) = dulint_val (max_trx_id s) + 1"
    using get_new_trx_id_store [OF Suc.prems(1) _ g] Suc.prems(2) by simp
  with Suc.IH [OF _ _ r] Suc.prems ids show ?case
    by (simp add: id_store_inv_def [of s] upt_rec [of "dulint_val (max_trx_id s)"])
qed simp

lemma id_store_inv_init:
  assumes "dulint_ok (stored_trx_id s)" and "dulint_val (stored_trx_id s) < 2 ^ 61"
    and "max_trx_id s = trx_sys_init_max_trx_id (stored_trx_id s)"
  shows "id_store_inv s"
proof -
  have "dulint_ok (max_trx_id s) \<and>
      dulint_val (max_trx_id s) = (dulint_val (stored_trx_id s) + 255) div 256 * 256 + 512"
    using assms init_max_trx_id_val [of "stored_trx_id s"] by simp
  moreover have "((dulint_val (stored_trx_id s) + 255) div 256 * 256 + 512) mod 256 = 0"
    by (simp add: mod_add_eq [symmetric, of _ 512])
  moreover have "dulint_val (stored_trx_id s) \<le> (dulint_val (stored_trx_id s) + 255) div 256 * 256 + 512"
    by linarith
  ultimately show ?thesis using assms(1) by (simp add: id_store_inv_def)
qed

section \<open>Properties\<close>

text \<open>
  C27: no transaction id is given out twice, whenever the server is restarted: after any number of
  allocations since a start, every id given out is below the first id that the next start, from
  what is stored at that moment, will give out.
\<close>

theorem trx_ids_never_reused:
  assumes "dulint_ok (stored_trx_id s)" and "dulint_val (stored_trx_id s) < 2 ^ 60" and "n < 2 ^ 60"
    and "max_trx_id s = trx_sys_init_max_trx_id (stored_trx_id s)"
    and res: "alloc_ids n s = (ids, t)"
  shows "distinct ids \<and> (\<forall>i \<in> set ids. i < trx_sys_init_max_trx_id (stored_trx_id t))"
proof -
  have inv: "id_store_inv s" using assms by (intro id_store_inv_init) simp_all
  have mx: "dulint_val (max_trx_id s) \<le> dulint_val (stored_trx_id s) + 767"
    using init_max_trx_id_val [of "stored_trx_id s"] assms by simp
  have st: "id_store_inv t" "dulint_val (max_trx_id t) = dulint_val (max_trx_id s) + n"
    "map dulint_val ids = [dulint_val (max_trx_id s)..<dulint_val (max_trx_id t)]"
    "list_all dulint_ok ids"
    using alloc_ids_store [OF inv _ res] mx assms(2,3) by simp_all
  have "dulint_val (stored_trx_id t) \<le> dulint_val (max_trx_id t)"
    "dulint_val (max_trx_id t) \<le> (dulint_val (stored_trx_id t) + 255) div 256 * 256 + 512"
    using st(1) by (auto simp: id_store_inv_def Let_def)
  then have "dulint_val (max_trx_id t) \<le> dulint_val (trx_sys_init_max_trx_id (stored_trx_id t))"
    and ok: "dulint_ok (trx_sys_init_max_trx_id (stored_trx_id t))"
    using init_max_trx_id_val [of "stored_trx_id t"] st(1,2) mx assms(2,3)
    by (simp_all add: id_store_inv_def)
  moreover have "dulint_val i < dulint_val (max_trx_id t)" if "i \<in> set ids" for i
  proof -
    have "dulint_val i \<in> set (map dulint_val ids)" using that by simp
    then show ?thesis unfolding st(3) by simp
  qed
  moreover have "dulint_ok i" if "i \<in> set ids" for i using st(4) that by (simp add: list_all_iff)
  moreover have "distinct ids"
    using st(3) distinct_upt [of "dulint_val (max_trx_id s)" "dulint_val (max_trx_id t)"]
    by (metis distinct_map)
  ultimately show ?thesis using ok dulint_less_val by (meson less_le_trans)
qed

text \<open>A server state to evaluate: idle handles, no views, \<open>max_trx_id\<close> as after a first start.\<close>

definition idle_trx :: trx where
  "idle_trx = \<lparr>is_purge = False, conc_state = TRX_NOT_STARTED, trx_id = ut_dulint_zero,
     trx_no = ut_dulint_zero, rseg = None, insert_undo = False, update_undo = False,
     undo_no = ut_dulint_zero, least_undo_no = ut_dulint_zero, start_time = 0,
     n_mysql_tables_in_use = 0, global_read_view = None, read_view = None\<rparr>"

definition blank_view :: read_view where
  "blank_view = \<lparr>vw_type = VIEW_NORMAL, vw_undo_no = ut_dulint_zero, low_limit_no = ut_dulint_zero,
     low_limit_id = ut_dulint_zero, up_limit_id = ut_dulint_zero, n_trx_ids = 0, trx_ids = [],
     creator_trx_id = ut_dulint_zero\<rparr>"

definition first_sys :: trx_sys where
  "first_sys = \<lparr>max_trx_id = ut_dulint_create 0 512, stored_trx_id = ut_dulint_zero, trx_list = [],
     view_list = [], trxs = (\<lambda>_. idle_trx), views = (\<lambda>_. blank_view)\<rparr>"

theorem trx_ids_never_reused_witness:
  "\<exists>i j t. alloc_ids 2 first_sys = ([i, j], t) \<and> i \<noteq> j \<and> j < trx_sys_init_max_trx_id (stored_trx_id t)"
proof -
  have mx: "max_trx_id first_sys = trx_sys_init_max_trx_id (stored_trx_id first_sys)"
    by (simp add: first_sys_def trx_sys_init_max_trx_id_def ut_dulint_align_up_def ut_dulint_zero_def
        ut_dulint_add_def ut_dulint_create_def ut_dulint_align_down_def ut_dulint_get_low_def
        ut_dulint_get_high_def TRX_SYS_TRX_ID_WRITE_MARGIN_def)
  obtain ids t where a: "alloc_ids 2 first_sys = (ids, t)" by fastforce
  then obtain i j where ij: "ids = [i, j]" by (auto simp: numeral_2_eq_2 split: prod.splits)
  have "distinct ids \<and> (\<forall>i \<in> set ids. i < trx_sys_init_max_trx_id (stored_trx_id t))"
    by (rule trx_ids_never_reused [OF _ _ _ mx a]) (simp_all add: first_sys_def)
  then show ?thesis using a ij by auto
qed

end
