(* ===== verification/ReadView.thy ===== *)
theory ReadView
  imports TrxSys
begin

text \<open>
  Consistent read views (\<open>read/read0read.c\<close>, \<open>include/read0read.ic\<close>, \<open>trx_assign_read_view\<close> of
  \<open>trx/trx0trx.c\<close>): opening, copying for purge, closing, the visibility test; the mini-step relation
  of the transaction system under the kernel mutex; and the proof that a view sees exactly the
  transactions that had committed when it was opened, that views are ordered, and that the purge
  view sees nothing an open view does not see.
\<close>

section \<open>Views\<close>

text \<open>
  \<open>read_view_create_low\<close> allocates without clearing: \<open>junk\<close> is what the memory held, and the array
  has \<open>n\<close> cells.
\<close>

definition read_view_create_low :: "read_view \<Rightarrow> nat \<Rightarrow> read_view" where
  "read_view_create_low junk n =
     junk\<lparr>n_trx_ids := n, trx_ids := take n (trx_ids junk @ replicate n ut_dulint_zero)\<rparr>"

definition read_view_get_nth_trx_id :: "read_view \<Rightarrow> nat \<Rightarrow> dulint" where
  "read_view_get_nth_trx_id view n = trx_ids view ! n"

definition read_view_set_nth_trx_id :: "read_view \<Rightarrow> nat \<Rightarrow> dulint \<Rightarrow> read_view" where
  "read_view_set_nth_trx_id view n i = view\<lparr>trx_ids := (trx_ids view)[n := i]\<rparr>"

text \<open>The loop of \<open>read_view_sees_trx_id\<close>; the argument is \<open>n_ids - i\<close>.\<close>

fun sees_scan :: "read_view \<Rightarrow> dulint \<Rightarrow> nat \<Rightarrow> bool" where
  "sees_scan view i 0 = True"
| "sees_scan view i (Suc k) =
     (let cmp = ut_dulint_cmp i (read_view_get_nth_trx_id view k)
      in if cmp \<le> 0 then cmp < 0 else sees_scan view i k)"

definition read_view_sees_trx_id :: "read_view \<Rightarrow> dulint \<Rightarrow> bool" where
  "read_view_sees_trx_id view i =
     (if ut_dulint_cmp i (up_limit_id view) < 0 then True
      else if ut_dulint_cmp i (low_limit_id view) \<ge> 0 then False
      else sees_scan view i (n_trx_ids view))"

section \<open>Opening and closing\<close>

definition live :: "trx \<Rightarrow> bool" where
  "live t \<longleftrightarrow> conc_state t = TRX_ACTIVE \<or> conc_state t = TRX_PREPARED"

text \<open>
  The two scans of the transaction list: \<open>read_view_open_now\<close> leaves out the creator, the cursor
  view does not.
\<close>

definition record_trx :: "trx \<Rightarrow> read_view \<Rightarrow> nat \<Rightarrow> read_view" where
  "record_trx t view n =
     (let v1 = read_view_set_nth_trx_id view n (trx_id t)
      in if ut_dulint_cmp (low_limit_no v1) (trx_no t) > 0
         then v1\<lparr>low_limit_no := trx_no t\<rparr> else v1)"

fun open_now_scan :: "dulint \<Rightarrow> trx list \<Rightarrow> read_view \<Rightarrow> nat \<Rightarrow> read_view \<times> nat" where
  "open_now_scan cr [] view n = (view, n)"
| "open_now_scan cr (t # ts) view n =
     (if ut_dulint_cmp (trx_id t) cr \<noteq> 0
         \<and> (conc_state t = TRX_ACTIVE \<or> conc_state t = TRX_PREPARED)
      then open_now_scan cr ts (record_trx t view n) (n + 1)
      else open_now_scan cr ts view n)"

fun cursor_view_scan :: "trx list \<Rightarrow> read_view \<Rightarrow> nat \<Rightarrow> read_view \<times> nat" where
  "cursor_view_scan [] view n = (view, n)"
| "cursor_view_scan (t # ts) view n =
     (if conc_state t = TRX_ACTIVE \<or> conc_state t = TRX_PREPARED
      then cursor_view_scan ts (record_trx t view n) (n + 1)
      else cursor_view_scan ts view n)"

definition set_limits :: "read_view \<Rightarrow> nat \<Rightarrow> read_view" where
  "set_limits view n =
     (let v1 = view\<lparr>n_trx_ids := n\<rparr>
      in if n > 0 then v1\<lparr>up_limit_id := read_view_get_nth_trx_id v1 (n - 1)\<rparr>
         else v1\<lparr>up_limit_id := low_limit_id v1\<rparr>)"

definition trx_objs :: "trx_sys \<Rightarrow> trx list" where
  "trx_objs s = map (trxs s) (trx_list s)"

definition read_view_open_now_val :: "read_view \<Rightarrow> dulint \<Rightarrow> trx_sys \<Rightarrow> read_view" where
  "read_view_open_now_val junk cr s =
     (let v0 = (read_view_create_low junk (length (trx_list s)))
                 \<lparr>creator_trx_id := cr, vw_type := VIEW_NORMAL, vw_undo_no := ut_dulint_zero,
                  low_limit_no := max_trx_id s, low_limit_id := max_trx_id s\<rparr>;
          (v1, n) = open_now_scan cr (trx_objs s) v0 0
      in set_limits v1 n)"

definition read_view_open_now :: "read_view \<Rightarrow> view_ptr \<Rightarrow> dulint \<Rightarrow> trx_sys \<Rightarrow> trx_sys" where
  "read_view_open_now junk v cr s =
     s\<lparr>views := (views s)(v := read_view_open_now_val junk cr s), view_list := v # view_list s\<rparr>"

text \<open>
  \<open>read_view_oldest_copy_or_open_new\<close>: the loop over the cells of the copy, with \<open>insert_done\<close> as
  the number it is; the argument \<open>k\<close> counts the cells left, \<open>i = n - k\<close>.
\<close>

fun oldest_copy_loop :: "read_view \<Rightarrow> nat \<Rightarrow> nat \<Rightarrow> nat \<Rightarrow> bool \<Rightarrow> nat \<Rightarrow> read_view \<Rightarrow> read_view" where
  "oldest_copy_loop old n 0 i needs_insert insert_done copy = copy"
| "oldest_copy_loop old n (Suc k) i needs_insert insert_done copy =
     (if needs_insert
         \<and> (i \<ge> n_trx_ids old
            \<or> ut_dulint_cmp (creator_trx_id old) (read_view_get_nth_trx_id old i) > 0)
      then oldest_copy_loop old n k (i + 1) False 1
             (read_view_set_nth_trx_id copy i (creator_trx_id old))
      else oldest_copy_loop old n k (i + 1) needs_insert insert_done
             (read_view_set_nth_trx_id copy i (read_view_get_nth_trx_id old (i - insert_done))))"

definition oldest_copy_val :: "read_view \<Rightarrow> dulint \<Rightarrow> read_view \<Rightarrow> read_view" where
  "oldest_copy_val junk cr old =
     (let needs_insert = (\<not> ut_dulint_is_zero (creator_trx_id old));
          n = (if needs_insert then n_trx_ids old + 1 else n_trx_ids old);
          c0 = read_view_create_low junk n;
          c1 = oldest_copy_loop old n n 0 needs_insert 0 c0;
          c2 = c1\<lparr>creator_trx_id := cr, low_limit_no := low_limit_no old,
                  low_limit_id := low_limit_id old\<rparr>
      in if n > 0 then c2\<lparr>up_limit_id := read_view_get_nth_trx_id c2 (n - 1)\<rparr>
         else c2\<lparr>up_limit_id := up_limit_id old\<rparr>)"

definition read_view_oldest_copy_or_open_new ::
  "read_view \<Rightarrow> view_ptr \<Rightarrow> dulint \<Rightarrow> trx_sys \<Rightarrow> trx_sys" where
  "read_view_oldest_copy_or_open_new junk v cr s =
     (if view_list s = [] then read_view_open_now junk v cr s
      else s\<lparr>views := (views s)(v := oldest_copy_val junk cr (views s (last (view_list s)))),
             view_list := view_list s @ [v]\<rparr>)"

definition trx_assign_read_view :: "read_view \<Rightarrow> view_ptr \<Rightarrow> trx_ptr \<Rightarrow> trx_sys \<Rightarrow> trx_sys" where
  "trx_assign_read_view junk v p s =
     (case read_view (trxs s p) of
        Some _ \<Rightarrow> s
      | None \<Rightarrow>
          upd_trx p (\<lambda>t. t\<lparr>read_view := Some v, global_read_view := Some v\<rparr>)
            (read_view_open_now junk v (trx_id (trxs s p)) s))"

text \<open>\<open>None\<close> is the failed assertion \<open>ut_a(trx->global_read_view)\<close>.\<close>

definition read_view_close_for_mysql :: "trx_ptr \<Rightarrow> trx_sys \<Rightarrow> trx_sys option" where
  "read_view_close_for_mysql p s =
     (case global_read_view (trxs s p) of
        None \<Rightarrow> None
      | Some v \<Rightarrow>
          Some (upd_trx p (\<lambda>t. t\<lparr>read_view := None, global_read_view := None\<rparr>) (read_view_close v s)))"

section \<open>Cursor views\<close>

text \<open>\<open>struct cursor_view_struct\<close>, less the heap it lives in.\<close>

record cursor_view =
  cv_read_view :: view_ptr
  cv_n_mysql_tables_in_use :: nat

definition read_cursor_view_val :: "read_view \<Rightarrow> trx \<Rightarrow> trx_sys \<Rightarrow> read_view" where
  "read_cursor_view_val junk cr_trx s =
     (let v0 = (read_view_create_low junk (length (trx_list s)))
                 \<lparr>creator_trx_id := trx_id cr_trx, vw_type := VIEW_HIGH_GRANULARITY,
                  vw_undo_no := undo_no cr_trx,
                  low_limit_no := max_trx_id s, low_limit_id := max_trx_id s\<rparr>;
          (v1, n) = cursor_view_scan (trx_objs s) v0 0
      in set_limits v1 n)"

definition read_cursor_view_create_for_mysql ::
  "read_view \<Rightarrow> view_ptr \<Rightarrow> trx_ptr \<Rightarrow> trx_sys \<Rightarrow> cursor_view \<times> trx_sys" where
  "read_cursor_view_create_for_mysql junk v p s =
     (let n_tables = n_mysql_tables_in_use (trxs s p);
          s1 = upd_trx p (\<lambda>t. t\<lparr>n_mysql_tables_in_use := 0\<rparr>) s
      in (\<lparr>cv_read_view = v, cv_n_mysql_tables_in_use = n_tables\<rparr>,
          s1\<lparr>views := (views s1)(v := read_cursor_view_val junk (trxs s1 p) s1),
             view_list := v # view_list s1\<rparr>))"

definition read_cursor_view_close_for_mysql :: "trx_ptr \<Rightarrow> cursor_view \<Rightarrow> trx_sys \<Rightarrow> trx_sys" where
  "read_cursor_view_close_for_mysql p cv s =
     (let s1 = upd_trx p (\<lambda>t. t\<lparr>n_mysql_tables_in_use :=
                 n_mysql_tables_in_use t + cv_n_mysql_tables_in_use cv\<rparr>) s;
          s2 = read_view_close (cv_read_view cv) s1
      in upd_trx p (\<lambda>t. t\<lparr>read_view := global_read_view t\<rparr>) s2)"

definition read_cursor_set_for_mysql :: "trx_ptr \<Rightarrow> cursor_view option \<Rightarrow> trx_sys \<Rightarrow> trx_sys" where
  "read_cursor_set_for_mysql p curview s =
     (case curview of
        Some cv \<Rightarrow> upd_trx p (\<lambda>t. t\<lparr>read_view := Some (cv_read_view cv)\<rparr>) s
      | None \<Rightarrow> upd_trx p (\<lambda>t. t\<lparr>read_view := global_read_view t\<rparr>) s)"

section \<open>What a view holds\<close>

definition vids :: "read_view \<Rightarrow> dulint list" where
  "vids v = take (n_trx_ids v) (trx_ids v)"

text \<open>
  A well-formed view: its ids are descending and below the low limit, and the up limit is the
  smallest of them, or the low limit if there are none.
\<close>

definition view_wf :: "read_view \<Rightarrow> bool" where
  "view_wf v \<longleftrightarrow> n_trx_ids v \<le> length (trx_ids v) \<and> sorted_wrt (\<ge>) (vids v)
     \<and> (\<forall>i \<in> set (vids v). i < low_limit_id v)
     \<and> up_limit_id v = (if vids v = [] then low_limit_id v else last (vids v))"

lemma sees_scan_iff:
  assumes "k \<le> length (trx_ids v)" and "sorted_wrt (\<ge>) (take k (trx_ids v))"
  shows "sees_scan v i k \<longleftrightarrow> i \<notin> set (take k (trx_ids v))"
  using assms
proof (induction k)
  case (Suc k)
  have t: "take (Suc k) (trx_ids v) = take k (trx_ids v) @ [trx_ids v ! k]"
    using Suc.prems(1) by (simp add: take_Suc_conv_app_nth)
  have "\<forall>x \<in> set (take k (trx_ids v)). trx_ids v ! k \<le> x"
    and s: "sorted_wrt (\<ge>) (take k (trx_ids v))"
    using Suc.prems(2) by (simp_all add: t sorted_wrt_append)
  moreover have "sees_scan v i k \<longleftrightarrow> i \<notin> set (take k (trx_ids v))"
    using Suc.IH Suc.prems(1) s by simp
  ultimately show ?case
    unfolding t by (cases "i \<le> trx_ids v ! k") (auto simp: read_view_get_nth_trx_id_def Let_def)
qed simp

lemma sees_iff:
  assumes "view_wf v"
  shows "read_view_sees_trx_id v i \<longleftrightarrow> i < low_limit_id v \<and> i \<notin> set (vids v)"
proof -
  have scan: "sees_scan v i (n_trx_ids v) \<longleftrightarrow> i \<notin> set (vids v)"
    using assms by (simp add: sees_scan_iff view_wf_def vids_def)
  have up: "up_limit_id v \<le> low_limit_id v" "\<forall>x \<in> set (vids v). up_limit_id v \<le> x"
  proof -
    show "up_limit_id v \<le> low_limit_id v"
      using assms last_in_set [of "vids v"] by (cases "vids v = []") (auto simp: view_wf_def less_imp_le)
    show "\<forall>x \<in> set (vids v). up_limit_id v \<le> x"
    proof (cases "vids v" rule: rev_cases)
      case (snoc xs x)
      then show ?thesis using assms by (auto simp: view_wf_def sorted_wrt_append)
    qed simp
  qed
  show ?thesis
    using up scan by (auto simp: read_view_sees_trx_id_def)
qed

subsection \<open>The scans record a filtered list\<close>

fun record_all :: "trx list \<Rightarrow> read_view \<Rightarrow> nat \<Rightarrow> read_view \<times> nat" where
  "record_all [] view n = (view, n)"
| "record_all (t # ts) view n = record_all ts (record_trx t view n) (n + 1)"

lemma open_now_scan_record:
  "open_now_scan cr ts view n = record_all (filter (\<lambda>t. trx_id t \<noteq> cr \<and> live t) ts) view n"
  by (induction ts arbitrary: view n) (auto simp: live_def)

lemma cursor_view_scan_record: "cursor_view_scan ts view n = record_all (filter live ts) view n"
  by (induction ts arbitrary: view n) (auto simp: live_def)

lemma record_trx_eq:
  "record_trx t view n =
    view\<lparr>trx_ids := (trx_ids view)[n := trx_id t], low_limit_no := min (low_limit_no view) (trx_no t)\<rparr>"
  by (auto simp: record_trx_def read_view_set_nth_trx_id_def Let_def min_def not_less)

lemma record_all_eq:
  assumes "n + length ts \<le> length (trx_ids view)"
  shows "record_all ts view n =
    (view\<lparr>trx_ids := take n (trx_ids view) @ map trx_id ts @ drop (n + length ts) (trx_ids view),
          low_limit_no := fold (\<lambda>t l. min l (trx_no t)) ts (low_limit_no view)\<rparr>, n + length ts)"
  using assms
proof (induction ts arbitrary: view n)
  case (Cons t ts)
  have "take (Suc n) ((trx_ids view)[n := trx_id t]) = take n (trx_ids view) @ [trx_id t]"
    using Cons.prems by (simp add: take_Suc_conv_app_nth)
  with Cons show ?case
    by (simp add: record_trx_eq)
qed simp

lemma fold_min_le:
  fixes l :: "'a::linorder"
  shows "fold (\<lambda>t l. min l (f t)) ts l \<le> l"
    and "t \<in> set ts \<Longrightarrow> fold (\<lambda>t l. min l (f t)) ts l \<le> f t"
    and "(\<And>t. t \<in> set ts \<Longrightarrow> b \<le> f t) \<Longrightarrow> b \<le> l \<Longrightarrow> b \<le> fold (\<lambda>t l. min l (f t)) ts l"
proof -
  have a': "fold (\<lambda>t l. min l (f t)) xs l \<le> l" for l xs
  proof (induction xs arbitrary: l)
    case (Cons t ts)
    show ?case using order_trans [OF Cons [of "min l (f t)"], of l] by simp
  qed simp
  then show "fold (\<lambda>t l. min l (f t)) ts l \<le> l" .
  show "t \<in> set ts \<Longrightarrow> fold (\<lambda>t l. min l (f t)) ts l \<le> f t"
  proof (induction ts arbitrary: l)
    case (Cons x ts)
    then show ?case
      using order_trans [OF a' [where l = "min l (f x)"]] by auto
  qed simp
  show "(\<And>t. t \<in> set ts \<Longrightarrow> b \<le> f t) \<Longrightarrow> b \<le> l \<Longrightarrow> b \<le> fold (\<lambda>t l. min l (f t)) ts l"
    by (induction ts arbitrary: l) auto
qed

text \<open>What the scans leave, for the list \<open>as\<close> of transactions they record.\<close>

definition opened :: "trx list \<Rightarrow> dulint \<Rightarrow> dulint \<Rightarrow> read_view \<Rightarrow> bool" where
  "opened as mx cr v \<longleftrightarrow>
     n_trx_ids v = length as \<and> length as \<le> length (trx_ids v) \<and> vids v = map trx_id as
     \<and> low_limit_id v = mx \<and> low_limit_no v = fold (\<lambda>t l. min l (trx_no t)) as mx
     \<and> up_limit_id v = (if as = [] then mx else trx_id (last as)) \<and> creator_trx_id v = cr"

lemma set_limits_opened:
  assumes "length as \<le> length (trx_ids v0)" "low_limit_id v0 = mx" "low_limit_no v0 = mx"
    "creator_trx_id v0 = cr"
  shows "opened as mx cr (case record_all as v0 0 of (v1, n) \<Rightarrow> set_limits v1 n)"
  using assms
  by (auto simp: opened_def record_all_eq set_limits_def read_view_get_nth_trx_id_def vids_def
      Let_def nth_append last_conv_nth)

lemma open_now_opened:
  "opened (filter (\<lambda>t. trx_id t \<noteq> cr \<and> live t) (trx_objs s)) (max_trx_id s) cr
     (read_view_open_now_val junk cr s)"
  unfolding read_view_open_now_val_def Let_def open_now_scan_record
  by (rule set_limits_opened)
    (simp_all add: read_view_create_low_def trx_objs_def le_trans [OF length_filter_le])

lemma cursor_view_opened:
  "opened (filter live (trx_objs s)) (max_trx_id s) (trx_id t) (read_cursor_view_val junk t s)"
  unfolding read_cursor_view_val_def Let_def cursor_view_scan_record
  by (rule set_limits_opened)
    (simp_all add: read_view_create_low_def trx_objs_def le_trans [OF length_filter_le])


subsection \<open>The copy of the oldest view\<close>

fun ins_desc :: "dulint \<Rightarrow> dulint list \<Rightarrow> dulint list" where
  "ins_desc c [] = [c]"
| "ins_desc c (x # xs) = (if c > x then c # x # xs else x # ins_desc c xs)"

lemma set_ins_desc [simp]: "set (ins_desc c xs) = insert c (set xs)"
  by (induction xs) auto

lemma length_ins_desc [simp]: "length (ins_desc c xs) = Suc (length xs)"
  by (induction xs) auto

lemma sorted_ins_desc: "sorted_wrt (\<ge>) xs \<Longrightarrow> sorted_wrt (\<ge>) (ins_desc c xs)"
  by (induction xs) (auto intro: less_imp_le order_trans)

lemma copy_tail:
  assumes "i + k \<le> length (trx_ids copy)"
  shows "oldest_copy_loop old n k i False d copy =
    copy\<lparr>trx_ids := take i (trx_ids copy) @ map (\<lambda>j. trx_ids old ! (j - d)) [i..<i + k]
           @ drop (i + k) (trx_ids copy)\<rparr>"
  using assms
proof (induction k arbitrary: i copy)
  case (Suc k)
  have "take (Suc i) ((trx_ids copy)[i := x]) = take i (trx_ids copy) @ [x]" for x
    using Suc.prems by (simp add: take_Suc_conv_app_nth)
  with Suc show ?case
    by (simp add: read_view_set_nth_trx_id_def read_view_get_nth_trx_id_def upt_rec [of i])
qed simp

lemma map_nth_shift: "i \<le> length xs \<Longrightarrow> map (\<lambda>j. xs ! (j - 1)) [Suc i..<Suc (length xs)] = drop i xs"
  by (rule nth_equalityI) (auto simp del: upt_Suc)

lemma copy_insert:
  assumes "n_trx_ids old = length (vids old)"
    and "length (trx_ids copy) = Suc (length (vids old))" and "i + k = Suc (length (vids old))"
    and "i \<le> length (vids old)"
  shows "oldest_copy_loop old n k i True 0 copy =
    copy\<lparr>trx_ids := take i (trx_ids copy) @ ins_desc (creator_trx_id old) (drop i (vids old))\<rparr>"
  using assms(2-)
proof (induction k arbitrary: i copy)
  case 0
  then show ?case by simp
next
  case (Suc k)
  let ?c = "creator_trx_id old"
  have nth: "trx_ids old ! j = vids old ! j" if "j < length (vids old)" for j
    using that by (simp add: vids_def)
  have take_upd: "take (Suc i) ((trx_ids copy)[i := x]) = take i (trx_ids copy) @ [x]" for x
    using Suc.prems by (simp add: take_Suc_conv_app_nth)
  show ?case
  proof (cases "i \<ge> n_trx_ids old \<or> ?c > trx_ids old ! i")
    case True
    have "map (\<lambda>j. trx_ids old ! (j - 1)) [Suc i..<Suc (length (vids old))] = drop i (vids old)"
      using Suc.prems(3) nth by (subst map_nth_shift [symmetric]) auto
    moreover have "ins_desc ?c (drop i (vids old)) = ?c # drop i (vids old)"
      using True assms(1) nth
      by (cases "i < length (vids old)") (auto simp: Cons_nth_drop_Suc [symmetric])
    ultimately show ?thesis
      using True Suc.prems
      by (simp add: read_view_set_nth_trx_id_def read_view_get_nth_trx_id_def copy_tail take_upd)
  next
    case False
    then have i: "i < length (vids old)" using assms(1) by simp
    then have "ins_desc ?c (drop i (vids old)) = vids old ! i # ins_desc ?c (drop (Suc i) (vids old))"
      using False nth by (simp add: Cons_nth_drop_Suc [symmetric])
    then show ?thesis
      using False Suc i nth
      by (simp add: read_view_set_nth_trx_id_def read_view_get_nth_trx_id_def take_upd)
  qed
qed

lemma copy_loop_fields:
  "n_trx_ids (oldest_copy_loop old n k i b d copy) = n_trx_ids copy"
  by (induction k arbitrary: i b d copy) (simp_all add: read_view_set_nth_trx_id_def)

declare oldest_copy_loop.simps [simp del]

lemma oldest_copy:
  fixes old junk :: read_view and cr :: dulint
  assumes "view_wf old"
  defines "c \<equiv> creator_trx_id old" and "w \<equiv> oldest_copy_val junk cr old"
  shows "vids w = (if c = ut_dulint_zero then vids old else ins_desc c (vids old))"
    and "n_trx_ids w = length (vids w)" and "length (trx_ids w) = length (vids w)"
    and "low_limit_id w = low_limit_id old" and "low_limit_no w = low_limit_no old"
    and "creator_trx_id w = cr"
    and "up_limit_id w = (if vids w = [] then up_limit_id old else last (vids w))"
proof -
  have n: "n_trx_ids old = length (vids old)"
    using assms(1) by (simp add: view_wf_def vids_def)
  have ids: "trx_ids w = (if c = ut_dulint_zero then vids old else ins_desc c (vids old))"
  proof (cases "c = ut_dulint_zero")
    case True
    have "map (\<lambda>j. trx_ids old ! j) [0..<n_trx_ids old] = vids old"
      using assms(1) by (auto simp: vids_def view_wf_def intro: nth_equalityI)
    then show ?thesis
      using True n unfolding w_def c_def
      by (auto simp: oldest_copy_val_def read_view_create_low_def copy_tail Let_def)
  next
    case False
    then show ?thesis
      using n unfolding w_def c_def
      by (simp add: oldest_copy_val_def read_view_create_low_def copy_insert Let_def)
  qed
  have nw: "n_trx_ids w = length (trx_ids w)"
    unfolding ids unfolding w_def c_def using n
    by (simp add: oldest_copy_val_def read_view_create_low_def copy_loop_fields
        read_view_set_nth_trx_id_def Let_def)
  then have v: "vids w = trx_ids w" by (simp add: vids_def)
  show "vids w = (if c = ut_dulint_zero then vids old else ins_desc c (vids old))"
    using v ids by simp
  show "n_trx_ids w = length (vids w)" "length (trx_ids w) = length (vids w)" using nw v by simp_all
  show "low_limit_id w = low_limit_id old" "low_limit_no w = low_limit_no old" "creator_trx_id w = cr"
    by (simp_all add: w_def oldest_copy_val_def Let_def)
  show "up_limit_id w = (if vids w = [] then up_limit_id old else last (vids w))"
  proof -
    have "up_limit_id w = (if n_trx_ids w > 0 then trx_ids w ! (n_trx_ids w - 1) else up_limit_id old)"
      unfolding w_def
      by (simp add: oldest_copy_val_def read_view_create_low_def copy_loop_fields
          read_view_get_nth_trx_id_def Let_def)
    then show ?thesis using nw v by (simp add: last_conv_nth)
  qed
qed

section \<open>The steps of the transaction system\<close>

text \<open>
  One rule per critical section of the kernel mutex. The guards are what the callers ensure: a
  handle is started only when it is idle, ids fit the six bytes they have on an index page, a
  view object is freshly allocated, and a transaction opens views and modifies rows only before
  its commit has begun (before it has a number).
\<close>

definition uncommitted :: "trx \<Rightarrow> bool" where
  "uncommitted t \<longleftrightarrow> conc_state t = TRX_ACTIVE \<and> trx_no t = ut_dulint_max"

definition ids_left :: "trx_sys \<Rightarrow> bool" where
  "ids_left s \<longleftrightarrow> dulint_val (max_trx_id s) < 2 ^ 48"

inductive mvcc_step :: "trx_sys \<Rightarrow> trx_sys \<Rightarrow> bool" where
  start: "p \<notin> set (trx_list s) \<Longrightarrow> conc_state (trxs s p) = TRX_NOT_STARTED \<Longrightarrow>
    \<not> is_purge (trxs s p) \<Longrightarrow> ids_left s \<Longrightarrow> mvcc_step s (trx_start_low rseg_id now p s)"
| modify: "p \<in> set (trx_list s) \<Longrightarrow> uncommitted (trxs s p) \<Longrightarrow>
    mvcc_step s (upd_trx p (\<lambda>t. t\<lparr>insert_undo := i, update_undo := u, undo_no := k\<rparr>) s)"
| assign_view: "p \<in> set (trx_list s) \<Longrightarrow> uncommitted (trxs s p) \<Longrightarrow> v \<notin> set (view_list s) \<Longrightarrow>
    mvcc_step s (trx_assign_read_view junk v p s)"
| close_view: "p \<in> set (trx_list s) \<Longrightarrow> read_view_close_for_mysql p s = Some s' \<Longrightarrow> mvcc_step s s'"
| cursor_create: "p \<in> set (trx_list s) \<Longrightarrow> uncommitted (trxs s p) \<Longrightarrow> v \<notin> set (view_list s) \<Longrightarrow>
    read_cursor_view_create_for_mysql junk v p s = (cv, s') \<Longrightarrow> mvcc_step s s'"
| cursor_close: "mvcc_step s (read_cursor_view_close_for_mysql p cv s)"
| cursor_set: "mvcc_step s (read_cursor_set_for_mysql p cv s)"
| prepare: "p \<in> set (trx_list s) \<Longrightarrow> uncommitted (trxs s p) \<Longrightarrow>
    mvcc_step s (trx_prepare_off_kernel p s)"
| assign_no: "p \<in> set (trx_list s) \<Longrightarrow> live (trxs s p) \<Longrightarrow> ids_left s \<Longrightarrow>
    mvcc_step s (trx_commit_assign_no p s)"
| in_memory: "p \<in> set (trx_list s) \<Longrightarrow> live (trxs s p) \<Longrightarrow> mvcc_step s (trx_commit_in_memory p s)"
| finish: "p \<in> set (trx_list s) \<Longrightarrow> conc_state (trxs s p) = TRX_COMMITTED_IN_MEMORY \<Longrightarrow>
    mvcc_step s (trx_commit_finish p s)"
| purge_view: "v \<notin> set (view_list s) \<Longrightarrow>
    mvcc_step s (read_view_oldest_copy_or_open_new junk v ut_dulint_zero s)"
| purge_close: "mvcc_step s (read_view_close v s)"

definition mvcc_init :: "trx_sys \<Rightarrow> bool" where
  "mvcc_init s \<longleftrightarrow> dulint_ok (max_trx_id s) \<and> dulint_val (max_trx_id s) \<le> 2 ^ 48
     \<and> ut_dulint_zero < max_trx_id s \<and> trx_list s = [] \<and> view_list s = []"

inductive mvcc_reachable :: "trx_sys \<Rightarrow> bool" where
  init: "mvcc_init s \<Longrightarrow> mvcc_reachable s"
| step: "mvcc_reachable s \<Longrightarrow> mvcc_step s t \<Longrightarrow> mvcc_reachable t"

section \<open>The invariant\<close>

definition trx_inv :: "trx_sys \<Rightarrow> bool" where
  "trx_inv s \<longleftrightarrow> dulint_ok (max_trx_id s) \<and> dulint_val (max_trx_id s) \<le> 2 ^ 48
     \<and> ut_dulint_zero < max_trx_id s \<and> distinct (trx_list s)
     \<and> sorted_wrt (\<lambda>p q. trx_id (trxs s q) < trx_id (trxs s p)) (trx_list s)
     \<and> (\<forall>p \<in> set (trx_list s). ut_dulint_zero < trx_id (trxs s p) \<and> trx_id (trxs s p) < max_trx_id s)"

text \<open>What a view \<open>w\<close> in the list promises of the transactions still live.\<close>

definition view_ok :: "trx_sys \<Rightarrow> read_view \<Rightarrow> bool" where
  "view_ok s w \<longleftrightarrow> view_wf w \<and> low_limit_id w \<le> max_trx_id s \<and> low_limit_no w \<le> low_limit_id w
     \<and> creator_trx_id w < low_limit_id w
     \<and> (\<forall>p \<in> set (trx_list s). live (trxs s p) \<longrightarrow>
          low_limit_no w \<le> trx_no (trxs s p)
          \<and> (read_view_sees_trx_id w (trx_id (trxs s p)) \<longrightarrow> trx_id (trxs s p) = creator_trx_id w))"

text \<open>\<open>w\<close> is not newer than \<open>v\<close>: purging what \<open>w\<close> allows to be purged is safe for \<open>v\<close>.\<close>

definition older :: "read_view \<Rightarrow> read_view \<Rightarrow> bool" where
  "older w v \<longleftrightarrow> low_limit_no w \<le> low_limit_no v
     \<and> (\<forall>i. read_view_sees_trx_id w i \<and> i \<noteq> creator_trx_id w \<longrightarrow> read_view_sees_trx_id v i)"

definition view_inv :: "trx_sys \<Rightarrow> bool" where
  "view_inv s \<longleftrightarrow> distinct (view_list s) \<and> (\<forall>v \<in> set (view_list s). view_ok s (views s v))
     \<and> sorted_wrt (\<lambda>v w. older (views s w) (views s v)) (view_list s)"

definition mvcc_inv :: "trx_sys \<Rightarrow> bool" where
  "mvcc_inv s \<longleftrightarrow> trx_inv s \<and> view_inv s"

text \<open>
  The obligations of a step that opens no view: what it may do to the transactions the views
  already refer to.
\<close>

definition trx_kept :: "trx_sys \<Rightarrow> trx_sys \<Rightarrow> bool" where
  "trx_kept s s' \<longleftrightarrow> max_trx_id s \<le> max_trx_id s'
     \<and> (\<forall>p \<in> set (trx_list s'). live (trxs s' p) \<longrightarrow>
          max_trx_id s \<le> trx_no (trxs s' p) \<and> max_trx_id s \<le> trx_id (trxs s' p)
          \<or> p \<in> set (trx_list s) \<and> live (trxs s p) \<and> trx_id (trxs s' p) = trx_id (trxs s p)
            \<and> (trx_no (trxs s' p) = trx_no (trxs s p) \<or> max_trx_id s \<le> trx_no (trxs s' p)))"

lemma view_ok_kept:
  assumes "view_ok s w" and "trx_kept s s'"
  shows "view_ok s' w"
proof -
  have "low_limit_no w \<le> trx_no (trxs s' p) \<and>
      (read_view_sees_trx_id w (trx_id (trxs s' p)) \<longrightarrow> trx_id (trxs s' p) = creator_trx_id w)"
    if p: "p \<in> set (trx_list s')" "live (trxs s' p)" for p
  proof (cases "max_trx_id s \<le> trx_no (trxs s' p) \<and> max_trx_id s \<le> trx_id (trxs s' p)")
    case True
    then show ?thesis
      using assms(1) sees_iff [of w "trx_id (trxs s' p)"] by (auto simp: view_ok_def)
  next
    case False
    then have "p \<in> set (trx_list s)" "live (trxs s p)" "trx_id (trxs s' p) = trx_id (trxs s p)"
      "trx_no (trxs s' p) = trx_no (trxs s p) \<or> max_trx_id s \<le> trx_no (trxs s' p)"
      using assms(2) p by (auto simp: trx_kept_def)
    then show ?thesis
      using assms(1) by (auto simp: view_ok_def intro: order_trans)
  qed
  then show ?thesis
    using assms by (auto simp: view_ok_def trx_kept_def intro: order_trans)
qed

lemma sorted_wrt_remove1: "sorted_wrt R xs \<Longrightarrow> sorted_wrt R (remove1 x xs)"
  by (induction xs) (auto dest: notin_set_remove1 set_remove1_subset [THEN subsetD])

lemma view_inv_kept:
  assumes "view_inv s" and "trx_kept s s'" and "views s' = views s"
    and "view_list s' = view_list s \<or> (\<exists>v. view_list s' = remove1 v (view_list s))"
  shows "view_inv s'"
proof -
  have sub: "set (view_list s') \<subseteq> set (view_list s)"
    using assms(4) set_remove1_subset by fastforce
  show ?thesis
    using assms sub view_ok_kept [OF _ assms(2)]
    by (auto simp: view_inv_def sorted_wrt_remove1)
qed

subsection \<open>Opening a view\<close>

lemma opened_wf:
  assumes "trx_inv s" and "opened (filter P (trx_objs s)) (max_trx_id s) cr w"
  shows "view_wf w"
    and "read_view_sees_trx_id w i \<longleftrightarrow>
      i < max_trx_id s \<and> \<not> (\<exists>p \<in> set (trx_list s). P (trxs s p) \<and> trx_id (trxs s p) = i)"
proof -
  have "sorted_wrt (\<lambda>a b. trx_id b < trx_id a) (trx_objs s)"
    using assms(1) by (simp add: trx_inv_def trx_objs_def sorted_wrt_map)
  then have "sorted_wrt (\<lambda>a b. trx_id b < trx_id a) (filter P (trx_objs s))"
    by (rule sorted_wrt_filter)
  then have "sorted_wrt (\<ge>) (map trx_id (filter P (trx_objs s)))"
    unfolding sorted_wrt_map by (rule sorted_wrt_mono_rel [rotated]) simp
  moreover have "\<forall>i \<in> set (map trx_id (filter P (trx_objs s))). i < max_trx_id s"
    using assms(1) by (auto simp: trx_inv_def trx_objs_def)
  ultimately show wf: "view_wf w"
    using assms(2) by (simp add: opened_def view_wf_def last_map)
  show "read_view_sees_trx_id w i \<longleftrightarrow>
      i < max_trx_id s \<and> \<not> (\<exists>p \<in> set (trx_list s). P (trxs s p) \<and> trx_id (trxs s p) = i)"
    using assms(2) by (auto simp: sees_iff [OF wf] opened_def trx_objs_def)
qed

lemma opened_low_limit_no:
  assumes "opened (filter P (trx_objs s)) mx cr w"
  shows "low_limit_no w \<le> mx"
    and "p \<in> set (trx_list s) \<Longrightarrow> P (trxs s p) \<Longrightarrow> low_limit_no w \<le> trx_no (trxs s p)"
    and "b \<le> mx \<Longrightarrow> (\<And>p. p \<in> set (trx_list s) \<Longrightarrow> P (trxs s p) \<Longrightarrow> b \<le> trx_no (trxs s p)) \<Longrightarrow>
      b \<le> low_limit_no w"
proof -
  have e: "low_limit_no w = fold (\<lambda>t l. min l (trx_no t)) (filter P (trx_objs s)) mx"
    using assms by (simp add: opened_def)
  show "low_limit_no w \<le> mx" unfolding e by (rule fold_min_le(1))
  show "p \<in> set (trx_list s) \<Longrightarrow> P (trxs s p) \<Longrightarrow> low_limit_no w \<le> trx_no (trxs s p)"
    unfolding e by (rule fold_min_le(2)) (auto simp: trx_objs_def)
  show "b \<le> mx \<Longrightarrow> (\<And>p. p \<in> set (trx_list s) \<Longrightarrow> P (trxs s p) \<Longrightarrow> b \<le> trx_no (trxs s p)) \<Longrightarrow>
      b \<le> low_limit_no w"
    unfolding e by (rule fold_min_le(3)) (auto simp: trx_objs_def)
qed

lemma opened_view_ok:
  assumes "trx_inv s" and op: "opened (filter P (trx_objs s)) (max_trx_id s) cr w"
    and "cr < max_trx_id s"
    and other: "\<And>p. p \<in> set (trx_list s) \<Longrightarrow> live (trxs s p) \<Longrightarrow> \<not> P (trxs s p) \<Longrightarrow>
      trx_id (trxs s p) = cr \<and> trx_no (trxs s p) = ut_dulint_max"
  shows "view_ok s w"
proof -
  have lim: "low_limit_id w = max_trx_id s" "creator_trx_id w = cr" using op by (simp_all add: opened_def)
  have mx: "max_trx_id s \<le> ut_dulint_max" using assms(1) by (simp add: trx_inv_def dulint_le_max)
  have "low_limit_no w \<le> trx_no (trxs s p) \<and>
      (read_view_sees_trx_id w (trx_id (trxs s p)) \<longrightarrow> trx_id (trxs s p) = creator_trx_id w)"
    if "p \<in> set (trx_list s)" "live (trxs s p)" for p
  proof (cases "P (trxs s p)")
    case True
    then show ?thesis
      using that opened_low_limit_no(2) [OF op] by (auto simp: opened_wf(2) [OF assms(1) op])
  next
    case False
    then show ?thesis
      using other [OF that] lim(2) order_trans [OF opened_low_limit_no(1) [OF op] mx] by simp
  qed
  then show ?thesis
    using lim assms(3) opened_low_limit_no(1) [OF op] opened_wf(1) [OF assms(1) op]
    by (simp add: view_ok_def)
qed

lemma opened_newest:
  assumes "trx_inv s" and op: "opened (filter P (trx_objs s)) (max_trx_id s) cr w"
    and live: "\<And>t. P t \<Longrightarrow> live t" and "view_ok s v"
  shows "older v w"
proof -
  have "low_limit_no v \<le> low_limit_no w"
    using assms(4) by (intro opened_low_limit_no(3) [OF op]) (auto simp: view_ok_def dest: live)
  moreover have "read_view_sees_trx_id w i" if "read_view_sees_trx_id v i" "i \<noteq> creator_trx_id v" for i
  proof -
    have "i < max_trx_id s" using assms(4) that(1) by (auto simp: view_ok_def sees_iff)
    then show ?thesis
      using assms(4) that live by (auto simp: opened_wf(2) [OF assms(1) op] view_ok_def)
  qed
  ultimately show ?thesis by (simp add: older_def)
qed

text \<open>Only the list, the ids, numbers and states of the transactions and \<open>max_trx_id\<close> matter.\<close>

lemma view_inv_open:
  assumes inv: "view_inv s" and v: "v \<notin> set (view_list s)" and ok: "view_ok s w"
    and newest: "\<And>u. u \<in> set (view_list s) \<Longrightarrow> older (views s u) w"
  shows "view_inv (s\<lparr>views := (views s)(v := w), view_list := v # view_list s\<rparr>)"
proof -
  let ?s = "s\<lparr>views := (views s)(v := w), view_list := v # view_list s\<rparr>"
  have k: "trx_kept s ?s" by (auto simp: trx_kept_def)
  have same: "views ?s u = views s u" if "u \<in> set (view_list s)" for u using v that by auto
  have "sorted_wrt (\<lambda>v w. older (views ?s w) (views ?s v)) (view_list s)"
    by (rule sorted_wrt_mono_rel [of _ "\<lambda>v w. older (views s w) (views s v)"])
      (use same inv in \<open>simp_all add: view_inv_def del: fun_upd_apply\<close>)
  then show ?thesis
    using inv v ok newest view_ok_kept [OF _ k] by (auto simp: view_inv_def)
qed

lemma ins_desc_nonempty: "ins_desc c xs \<noteq> []"
  by (cases xs) auto

lemma copy_view_ok:
  fixes junk old :: read_view
  assumes "trx_inv s" and "view_ok s old"
  defines "w \<equiv> oldest_copy_val junk ut_dulint_zero old"
  shows "view_ok s w" and "older w old"
    and "\<And>i. read_view_sees_trx_id w i \<longleftrightarrow> read_view_sees_trx_id old i \<and>
      (creator_trx_id old \<noteq> ut_dulint_zero \<longrightarrow> i \<noteq> creator_trx_id old)"
    and "low_limit_no w = low_limit_no old"
proof -
  let ?c = "creator_trx_id old"
  have wf: "view_wf old" using assms(2) by (simp add: view_ok_def)
  note c = oldest_copy [OF wf, of junk ut_dulint_zero, folded w_def]
  have ids: "set (vids w) = (if ?c = ut_dulint_zero then set (vids old) else insert ?c (set (vids old)))"
    using c(1) by simp
  have "sorted_wrt (\<ge>) (vids w)"
    using wf unfolding c(1) by (simp add: sorted_ins_desc view_wf_def)
  moreover have "\<forall>i \<in> set (vids w). i < low_limit_id w"
    using wf assms(2) unfolding ids c(4) by (auto simp: view_wf_def view_ok_def)
  moreover have "up_limit_id w = (if vids w = [] then low_limit_id w else last (vids w))"
    using wf c(1) ins_desc_nonempty [of ?c "vids old"] unfolding c(7) c(4)
    by (auto simp: view_wf_def split: if_splits)
  ultimately have wf': "view_wf w" using c(2,3) by (simp add: view_wf_def)
  show sees: "read_view_sees_trx_id w i \<longleftrightarrow> read_view_sees_trx_id old i \<and>
      (?c \<noteq> ut_dulint_zero \<longrightarrow> i \<noteq> ?c)" for i
    by (auto simp: sees_iff [OF wf'] sees_iff [OF wf] ids c(4))
  show "low_limit_no w = low_limit_no old" by (rule c(5))
  show "older w old" using sees c(5) by (auto simp: older_def)
  have "trx_id (trxs s p) \<noteq> ut_dulint_zero" if "p \<in> set (trx_list s)" for p
    using assms(1) that by (auto simp: trx_inv_def)
  then show "view_ok s w"
    using assms(1,2) wf' sees unfolding view_ok_def c(4,5,6)
    by (auto simp: trx_inv_def intro: le_less_trans [OF ut_dulint_zero_le])
qed

lemma older_trans_copy:
  assumes "older old v" and "\<And>i. read_view_sees_trx_id w i \<Longrightarrow> i \<noteq> creator_trx_id w \<Longrightarrow>
      read_view_sees_trx_id old i \<and> i \<noteq> creator_trx_id old"
    and "low_limit_no w = low_limit_no old"
  shows "older w v"
  using assms by (auto simp: older_def)

section \<open>Every step keeps the invariant\<close>

lemma get_new_trx_id_eq:
  "trx_sys_get_new_trx_id s =
    (max_trx_id s, s\<lparr>max_trx_id := UT_DULINT_INC (max_trx_id s),
       stored_trx_id := (if dul_low (max_trx_id s) mod 256 = 0 then max_trx_id s else stored_trx_id s)\<rparr>)"
  by (simp add: trx_sys_get_new_trx_id_def trx_sys_flush_max_trx_id_def ut_dulint_get_low_def
      TRX_SYS_TRX_ID_WRITE_MARGIN_def)

lemma ids_left_inc:
  assumes "trx_inv s" and "ids_left s"
  shows "dulint_ok (UT_DULINT_INC (max_trx_id s))" "max_trx_id s < UT_DULINT_INC (max_trx_id s)"
    "dulint_val (UT_DULINT_INC (max_trx_id s)) \<le> 2 ^ 48" "max_trx_id s \<le> ut_dulint_max"
  using assms UT_DULINT_INC_val [of "max_trx_id s"] UT_DULINT_INC_greater [of "max_trx_id s"]
  by (simp_all add: trx_inv_def ids_left_def dulint_le_max)

text \<open>A step that changes neither list, ids, states to live ones, nor numbers below the maximum.\<close>

lemma mvcc_inv_kept:
  assumes "mvcc_inv s" and "trx_inv s'" and "trx_kept s s'" and "views s' = views s"
    and "view_list s' = view_list s \<or> (\<exists>v. view_list s' = remove1 v (view_list s))"
  shows "mvcc_inv s'"
  using assms view_inv_kept [OF _ assms(3-5)] by (simp add: mvcc_inv_def)

lemma trx_inv_frame:
  assumes "trx_inv s" and "max_trx_id s' = max_trx_id s" and "trx_list s' = trx_list s"
    and "\<And>p. trx_id (trxs s' p) = trx_id (trxs s p)"
  shows "trx_inv s'"
  using assms by (simp add: trx_inv_def)

lemma start_inv:
  assumes inv: "mvcc_inv s" and p: "p \<notin> set (trx_list s)" "\<not> is_purge (trxs s p)" and left: "ids_left s"
  shows "mvcc_inv (trx_start_low rseg_id now p s)"
proof -
  have tinv: "trx_inv s" using inv by (simp add: mvcc_inv_def)
  note inc = ids_left_inc [OF tinv left]
  let ?s = "trx_start_low rseg_id now p s"
  have same: "trxs ?s q = trxs s q" if "q \<in> set (trx_list s)" for q
    using p that by (auto simp: trx_start_low_def get_new_trx_id_eq)
  have new: "trx_id (trxs ?s p) = max_trx_id s" "trx_no (trxs ?s p) = ut_dulint_max"
    "trx_list ?s = p # trx_list s" "max_trx_id ?s = UT_DULINT_INC (max_trx_id s)"
    "views ?s = views s" "view_list ?s = view_list s"
    using p by (simp_all add: trx_start_low_def get_new_trx_id_eq Let_def)
  have "sorted_wrt (\<lambda>a b. trx_id (trxs ?s b) < trx_id (trxs ?s a)) (trx_list s)"
    by (rule sorted_wrt_mono_rel [of _ "\<lambda>a b. trx_id (trxs s b) < trx_id (trxs s a)"])
      (use tinv same in \<open>simp_all add: trx_inv_def\<close>)
  then have "trx_inv ?s"
    using tinv same inc p(1) unfolding trx_inv_def new
    by (auto simp: new intro: less_trans)
  moreover have "trx_kept s ?s"
    using same inc(2,4) unfolding trx_kept_def new by (auto simp: new)
  ultimately show ?thesis
    using inv new by - (rule mvcc_inv_kept [of s], simp_all)
qed

lemma assign_no_inv:
  assumes inv: "mvcc_inv s" and "p \<in> set (trx_list s)" "live (trxs s p)" and left: "ids_left s"
  shows "mvcc_inv (trx_commit_assign_no p s)"
proof (cases "update_undo (trxs s p)")
  case True
  have tinv: "trx_inv s" using inv by (simp add: mvcc_inv_def)
  note inc = ids_left_inc [OF tinv left]
  let ?s = "trx_commit_assign_no p s"
  have f: "trx_list ?s = trx_list s" "views ?s = views s" "view_list ?s = view_list s"
    "max_trx_id ?s = UT_DULINT_INC (max_trx_id s)" "\<And>q. trx_id (trxs ?s q) = trx_id (trxs s q)"
    "\<And>q. live (trxs ?s q) = live (trxs s q)"
    "\<And>q. trx_no (trxs ?s q) = (if q = p then max_trx_id s else trx_no (trxs s q))"
    using True by (simp_all add: trx_commit_assign_no_def trx_sys_get_new_trx_no_def get_new_trx_id_eq live_def)
  have "trx_inv ?s" using tinv inc f by (auto simp: trx_inv_def intro: less_trans)
  moreover have "trx_kept s ?s" using inc f by (auto simp: trx_kept_def)
  ultimately show ?thesis using inv f by - (rule mvcc_inv_kept [of s], simp_all)
qed (use inv in \<open>simp add: trx_commit_assign_no_def\<close>)

lemma in_memory_inv:
  assumes inv: "mvcc_inv s"
  shows "mvcc_inv (trx_commit_in_memory p s)"
proof -
  let ?s = "trx_commit_in_memory p s"
  have f: "trx_list ?s = trx_list s" "views ?s = views s" "max_trx_id ?s = max_trx_id s"
    "\<And>q. trx_id (trxs ?s q) = trx_id (trxs s q)" "\<And>q. trx_no (trxs ?s q) = trx_no (trxs s q)"
    "\<And>q. live (trxs ?s q) \<Longrightarrow> live (trxs s q)"
    "view_list ?s = view_list s \<or> (\<exists>v. view_list ?s = remove1 v (view_list s))"
    by (auto simp: trx_commit_in_memory_def read_view_close_def live_def Let_def split: option.splits if_splits)
  have "trx_inv ?s" using inv f by - (rule trx_inv_frame [of s], simp_all add: mvcc_inv_def)
  moreover have "trx_kept s ?s" using f by (auto simp: trx_kept_def)
  ultimately show ?thesis using inv f by - (rule mvcc_inv_kept [of s], simp_all)
qed

lemma finish_inv:
  assumes inv: "mvcc_inv s"
  shows "mvcc_inv (trx_commit_finish p s)"
proof -
  let ?s = "trx_commit_finish p s"
  have f: "trx_list ?s = remove1 p (trx_list s)" "views ?s = views s" "view_list ?s = view_list s"
    "max_trx_id ?s = max_trx_id s" "\<And>q. trx_id (trxs ?s q) = trx_id (trxs s q)"
    "\<And>q. trx_no (trxs ?s q) = trx_no (trxs s q)" "\<And>q. live (trxs ?s q) \<Longrightarrow> live (trxs s q)"
    by (auto simp: trx_commit_finish_def live_def Let_def split: if_splits)
  have sub: "set (trx_list ?s) \<subseteq> set (trx_list s)" using f by (simp add: set_remove1_subset)
  have "trx_inv ?s"
    using inv f sub by (auto simp: mvcc_inv_def trx_inv_def sorted_wrt_remove1)
  moreover have "trx_kept s ?s" using f sub by (auto simp: trx_kept_def)
  ultimately show ?thesis using inv f by - (rule mvcc_inv_kept [of s], simp_all)
qed

text \<open>Steps that only set fields of one transaction no view depends on.\<close>

lemma upd_trx_inv:
  assumes inv: "mvcc_inv s" and "trx_id (f (trxs s p)) = trx_id (trxs s p)"
    and "trx_no (f (trxs s p)) = trx_no (trxs s p)" and "live (f (trxs s p)) = live (trxs s p)"
  shows "mvcc_inv (upd_trx p f s)"
proof -
  let ?s = "upd_trx p f s"
  have "trx_inv ?s" using inv assms by - (rule trx_inv_frame [of s], simp_all add: mvcc_inv_def)
  moreover have "trx_kept s ?s" using assms by (auto simp: trx_kept_def)
  ultimately show ?thesis using inv by - (rule mvcc_inv_kept [of s], simp_all)
qed

lemma close_inv:
  assumes "mvcc_inv s"
  shows "mvcc_inv (read_view_close v s)"
proof -
  have "trx_inv (read_view_close v s)"
    using assms by - (rule trx_inv_frame [of s], simp_all add: mvcc_inv_def read_view_close_def)
  moreover have "trx_kept s (read_view_close v s)" by (auto simp: trx_kept_def read_view_close_def)
  ultimately show ?thesis
    using assms by - (rule mvcc_inv_kept [of s], auto simp: read_view_close_def)
qed

lemma open_now_inv:
  assumes inv: "mvcc_inv s" and v: "v \<notin> set (view_list s)" and cr: "cr < max_trx_id s"
    and "\<And>p. p \<in> set (trx_list s) \<Longrightarrow> live (trxs s p) \<Longrightarrow> trx_id (trxs s p) = cr \<Longrightarrow>
      trx_no (trxs s p) = ut_dulint_max"
  shows "mvcc_inv (read_view_open_now junk v cr s)"
proof -
  let ?P = "\<lambda>t. trx_id t \<noteq> cr \<and> live t"
  have tinv: "trx_inv s" and vinv: "view_inv s" using inv by (simp_all add: mvcc_inv_def)
  note op = open_now_opened [of cr s junk]
  have "view_ok s (read_view_open_now_val junk cr s)"
    using assms(4) by (intro opened_view_ok [OF tinv op cr]) auto
  moreover have "older (views s u) (read_view_open_now_val junk cr s)" if "u \<in> set (view_list s)" for u
    using vinv that by (intro opened_newest [OF tinv op]) (auto simp: view_inv_def)
  ultimately have "view_inv (read_view_open_now junk v cr s)"
    unfolding read_view_open_now_def by (intro view_inv_open [OF vinv v])
  moreover have "trx_inv (read_view_open_now junk v cr s)"
    using tinv by (simp add: trx_inv_def read_view_open_now_def)
  ultimately show ?thesis by (simp add: mvcc_inv_def)
qed

lemma listed_id_unique:
  assumes "trx_inv s" and "p \<in> set (trx_list s)" and "q \<in> set (trx_list s)"
    and "trx_id (trxs s p) = trx_id (trxs s q)"
  shows "p = q"
proof -
  obtain i j where "i < length (trx_list s)" "p = trx_list s ! i" "j < length (trx_list s)" "q = trx_list s ! j"
    using assms(2,3) by (auto simp: in_set_conv_nth)
  moreover have "sorted_wrt (\<lambda>p q. trx_id (trxs s q) < trx_id (trxs s p)) (trx_list s)"
    using assms(1) by (simp add: trx_inv_def)
  ultimately show ?thesis
    using assms(4) sorted_wrt_nth_less [of _ "trx_list s" i j] sorted_wrt_nth_less [of _ "trx_list s" j i]
    by (cases i j rule: linorder_cases) force+
qed

lemma assign_view_inv:
  assumes inv: "mvcc_inv s" and "p \<in> set (trx_list s)" "uncommitted (trxs s p)" "v \<notin> set (view_list s)"
  shows "mvcc_inv (trx_assign_read_view junk v p s)"
proof (cases "read_view (trxs s p)")
  case None
  have tinv: "trx_inv s" using inv by (simp add: mvcc_inv_def)
  have "mvcc_inv (read_view_open_now junk v (trx_id (trxs s p)) s)"
  proof (rule open_now_inv [OF inv assms(4)])
    show "trx_id (trxs s p) < max_trx_id s" using tinv assms(2) by (simp add: trx_inv_def)
    fix q assume "q \<in> set (trx_list s)" "trx_id (trxs s q) = trx_id (trxs s p)"
    then have "q = p" using listed_id_unique [OF tinv] assms(2) by simp
    then show "trx_no (trxs s q) = ut_dulint_max" using assms(3) by (simp add: uncommitted_def)
  qed
  then show ?thesis
    using None unfolding trx_assign_read_view_def by (auto intro!: upd_trx_inv simp: live_def)
qed (use inv in \<open>simp add: trx_assign_read_view_def\<close>)

lemma cursor_create_inv:
  assumes inv: "mvcc_inv s" and "p \<in> set (trx_list s)" "v \<notin> set (view_list s)"
    and res: "read_cursor_view_create_for_mysql junk v p s = (cv, s')"
  shows "mvcc_inv s'"
proof -
  let ?s = "upd_trx p (\<lambda>t. t\<lparr>n_mysql_tables_in_use := 0\<rparr>) s"
  let ?w = "read_cursor_view_val junk (trxs ?s p) ?s"
  have inv': "mvcc_inv ?s" using inv by (auto intro!: upd_trx_inv simp: live_def)
  then have tinv: "trx_inv ?s" and vinv: "view_inv ?s" by (simp_all add: mvcc_inv_def)
  note op = cursor_view_opened [of ?s "trxs ?s p" junk]
  have "trx_id (trxs ?s p) < max_trx_id ?s" using inv assms(2) by (simp add: mvcc_inv_def trx_inv_def)
  then have "view_ok ?s ?w" by (intro opened_view_ok [OF tinv op]) auto
  moreover have "older (views ?s u) ?w" if "u \<in> set (view_list ?s)" for u
    using vinv that by (intro opened_newest [OF tinv op]) (auto simp: view_inv_def)
  ultimately have "view_inv (?s\<lparr>views := (views ?s)(v := ?w), view_list := v # view_list ?s\<rparr>)"
    using assms(3) by (intro view_inv_open [OF vinv]) simp_all
  moreover have s': "s' = ?s\<lparr>views := (views ?s)(v := ?w), view_list := v # view_list ?s\<rparr>"
    using res by (simp add: read_cursor_view_create_for_mysql_def Let_def)
  moreover have "trx_inv s'" using tinv unfolding s' by (simp add: trx_inv_def)
  ultimately show ?thesis by (simp add: mvcc_inv_def)
qed

lemma purge_view_inv:
  assumes inv: "mvcc_inv s" and v: "v \<notin> set (view_list s)"
  shows "mvcc_inv (read_view_oldest_copy_or_open_new junk v ut_dulint_zero s)"
proof (cases "view_list s = []")
  case True
  have "ut_dulint_zero < max_trx_id s"
    "\<And>p. p \<in> set (trx_list s) \<Longrightarrow> trx_id (trxs s p) \<noteq> ut_dulint_zero"
    using inv by (auto simp: mvcc_inv_def trx_inv_def)
  then show ?thesis
    using True by (auto simp: read_view_oldest_copy_or_open_new_def intro!: open_now_inv [OF inv v])
next
  case False
  let ?o = "last (view_list s)" and ?old = "views s (last (view_list s))"
  let ?w = "oldest_copy_val junk ut_dulint_zero ?old"
  let ?s = "s\<lparr>views := (views s)(v := ?w), view_list := view_list s @ [v]\<rparr>"
  have tinv: "trx_inv s" and vinv: "view_inv s" using inv by (simp_all add: mvcc_inv_def)
  have k: "trx_kept s ?s" by (auto simp: trx_kept_def)
  have same: "views ?s u = views s u" if "u \<in> set (view_list s)" for u using v that by auto
  have o_in: "?o \<in> set (view_list s)" using False by simp
  then have "view_ok s ?old" using vinv by (simp add: view_inv_def)
  note copy = copy_view_ok [OF tinv this, of junk]
  have to_old: "older ?old (views s u)" if "u \<in> set (view_list s)" "u \<noteq> ?o" for u
  proof -
    obtain xs where xs: "view_list s = xs @ [?o]" using False by (metis append_butlast_last_id)
    then have "u \<in> set xs" using that by (metis Un_iff empty_iff insert_iff list.set set_append)
    moreover have "sorted_wrt (\<lambda>v w. older (views s w) (views s v)) (xs @ [?o])"
      using vinv xs by (simp add: view_inv_def)
    ultimately show ?thesis by (simp add: sorted_wrt_append)
  qed
  have "older ?w (views s u)" if "u \<in> set (view_list s)" for u
  proof (cases "u = ?o")
    case True
    then show ?thesis using copy(2) by simp
  next
    case False
    show ?thesis
    proof (rule older_trans_copy [OF to_old [OF that False]])
      fix i assume "read_view_sees_trx_id ?w i" "i \<noteq> creator_trx_id ?w"
      moreover have "creator_trx_id ?w = ut_dulint_zero"
        by (simp add: oldest_copy_val_def Let_def)
      ultimately show "read_view_sees_trx_id ?old i \<and> i \<noteq> creator_trx_id ?old"
        using copy(3) [of i] by auto
    qed (rule copy(4))
  qed
  moreover have "sorted_wrt (\<lambda>v w. older (views ?s w) (views ?s v)) (view_list s)"
    by (rule sorted_wrt_mono_rel [of _ "\<lambda>v w. older (views s w) (views s v)"])
      (use same vinv in \<open>simp_all add: view_inv_def del: fun_upd_apply\<close>)
  ultimately have "view_inv ?s"
    using vinv v copy(1) view_ok_kept [OF _ k]
    by (auto simp: view_inv_def sorted_wrt_append)
  moreover have "trx_inv ?s" using tinv by (simp add: trx_inv_def)
  ultimately show ?thesis
    using False by (simp add: mvcc_inv_def read_view_oldest_copy_or_open_new_def)
qed

lemma mvcc_step_inv: "mvcc_step s t \<Longrightarrow> mvcc_inv s \<Longrightarrow> mvcc_inv t"
proof (induction rule: mvcc_step.induct)
  case (close_view p s s')
  then show ?case
    by (auto simp: read_view_close_for_mysql_def live_def split: option.splits
        intro!: upd_trx_inv close_inv)
next
  case (cursor_close s p cv)
  then show ?case
    unfolding read_cursor_view_close_for_mysql_def Let_def
    by (intro upd_trx_inv close_inv) (simp_all add: live_def)
next
  case (cursor_set s p cv)
  then show ?case
    by (auto simp: read_cursor_set_for_mysql_def live_def split: option.splits intro!: upd_trx_inv)
next
  case (modify p s i u k)
  then show ?case by (intro upd_trx_inv) (simp_all add: live_def)
next
  case (prepare p s)
  then show ?case
    unfolding trx_prepare_off_kernel_def
    by (intro upd_trx_inv) (simp_all add: live_def uncommitted_def)
qed (blast intro: start_inv assign_view_inv cursor_create_inv assign_no_inv in_memory_inv finish_inv
    purge_view_inv close_inv)+

lemma mvcc_reachable_inv: "mvcc_reachable s \<Longrightarrow> mvcc_inv s"
proof (induction rule: mvcc_reachable.induct)
  case (init s)
  then show ?case by (auto simp: mvcc_init_def mvcc_inv_def trx_inv_def view_inv_def)
qed (rule mvcc_step_inv)

text \<open>A step leaves the contents of the open views alone.\<close>

lemma mvcc_step_views_stable:
  "mvcc_step s t \<Longrightarrow> v \<in> set (view_list s) \<Longrightarrow> views t v = views s v"
proof (induction rule: mvcc_step.induct)
  case (in_memory p s)
  then show ?case by (auto simp: trx_commit_in_memory_def read_view_close_def Let_def split: option.splits)
qed (auto simp: trx_start_low_def get_new_trx_id_eq trx_assign_read_view_def read_view_open_now_def
    read_view_close_for_mysql_def read_view_close_def read_cursor_view_create_for_mysql_def Let_def
    read_cursor_view_close_for_mysql_def read_cursor_set_for_mysql_def trx_prepare_off_kernel_def
    trx_commit_assign_no_def trx_sys_get_new_trx_no_def trx_commit_finish_def
    read_view_oldest_copy_or_open_new_def split: option.splits if_splits)

section \<open>Properties\<close>

subsection \<open>A run to evaluate\<close>

text \<open>Two transactions started, the first with a read view: ids 512 and 513.\<close>

definition demo_1 :: trx_sys where "demo_1 = trx_start_low 0 0 0 first_sys"
definition demo_2 :: trx_sys where "demo_2 = trx_assign_read_view blank_view 7 0 demo_1"
definition demo_3 :: trx_sys where "demo_3 = trx_start_low 0 0 1 demo_2"

lemmas demo_eval =
  demo_1_def demo_2_def demo_3_def first_sys_def idle_trx_def trx_start_low_def get_new_trx_id_eq
  trx_assign_read_view_def read_view_open_now_def

lemma demo_ids_left: "ids_left demo_2" "ids_left first_sys"
  by (simp_all add: demo_eval ids_left_def dulint_val_def ut_dulint_create_def UT_DULINT_INC_def)

lemma demo_reachable: "mvcc_reachable demo_1" "mvcc_reachable demo_2" "mvcc_reachable demo_3"
proof -
  have "mvcc_reachable first_sys"
    by (rule mvcc_reachable.init)
      (simp add: mvcc_init_def first_sys_def dulint_ok_def dulint_val_def ut_dulint_create_def
        dulint_less_iff ut_dulint_zero_def)
  then show 1: "mvcc_reachable demo_1"
    unfolding demo_1_def
    by (rule mvcc_reachable.step, intro mvcc_step.start)
      (simp_all add: demo_ids_left, simp_all add: first_sys_def idle_trx_def)
  then show 2: "mvcc_reachable demo_2"
    unfolding demo_2_def
    by (rule mvcc_reachable.step, intro mvcc_step.assign_view)
      (simp_all add: demo_1_def first_sys_def idle_trx_def trx_start_low_def get_new_trx_id_eq uncommitted_def)
  then show "mvcc_reachable demo_3"
    unfolding demo_3_def
    by (rule mvcc_reachable.step, intro mvcc_step.start)
      (simp_all add: demo_ids_left, simp_all add: demo_eval)
qed

subsection \<open>Claims\<close>

text \<open>
  C2: the snapshot. A view opened now by transaction \<open>cr\<close> sees transaction \<open>i\<close> exactly if \<open>i\<close>
  has been given out and is \<open>cr\<close> itself or is not the id of a transaction still active or
  prepared.
\<close>

theorem read_view_snapshot:
  assumes "mvcc_reachable s"
  shows "read_view_sees_trx_id (views (read_view_open_now junk v cr s) v) i \<longleftrightarrow>
    i < max_trx_id s \<and>
    (i = cr \<or> \<not> (\<exists>p. p \<in> set (trx_list s) \<and> live (trxs s p) \<and> trx_id (trxs s p) = i))"
proof -
  have "trx_inv s" using mvcc_reachable_inv [OF assms] by (simp add: mvcc_inv_def)
  from opened_wf(2) [OF this open_now_opened [where cr = cr and junk = junk and s = s], where i = i] show ?thesis
    by (auto simp: read_view_open_now_def)
qed

theorem read_view_snapshot_witness:
  "read_view_sees_trx_id (views (read_view_open_now blank_view 9 (ut_dulint_create 0 513) demo_3) 9)
     (ut_dulint_create 0 511)"
  unfolding read_view_snapshot [OF demo_reachable(3)]
  by (auto simp: demo_eval ut_dulint_create_def UT_DULINT_INC_def dulint_less_iff)

text \<open>
  C26: no dirty reads at any later time. In every reachable state, no open view sees a transaction
  that is still active or prepared, other than the one that created the view, and no transaction
  that still can commit holds a number below the number up to which the view lets purge go.
\<close>

theorem no_dirty_read:
  assumes "mvcc_reachable s" and "v \<in> set (view_list s)" and "p \<in> set (trx_list s)"
    and "live (trxs s p)" and "trx_id (trxs s p) \<noteq> creator_trx_id (views s v)"
  shows "\<not> read_view_sees_trx_id (views s v) (trx_id (trxs s p))
    \<and> low_limit_no (views s v) \<le> trx_no (trxs s p)"
  using mvcc_reachable_inv [OF assms(1)] assms(2-5)
  by (auto simp: mvcc_inv_def view_inv_def view_ok_def)

theorem no_dirty_read_witness:
  "\<not> read_view_sees_trx_id (views demo_3 7) (ut_dulint_create 0 513)"
proof -
  have "\<not> read_view_sees_trx_id (views demo_3 7) (trx_id (trxs demo_3 1))
      \<and> low_limit_no (views demo_3 7) \<le> trx_no (trxs demo_3 1)"
    by (rule no_dirty_read [OF demo_reachable(3)])
      (simp_all add: demo_eval live_def read_view_open_now_val_def set_limits_def trx_objs_def
        read_view_create_low_def ut_dulint_create_def UT_DULINT_INC_def)
  moreover have "trx_id (trxs demo_3 1) = ut_dulint_create 0 513"
    by (simp add: demo_eval ut_dulint_create_def UT_DULINT_INC_def)
  ultimately show ?thesis by simp
qed

text \<open>
  C25: purge is safe for every open view (the statement the source leaves as FACT C, to be proved).
  The view purge opens lets it go no further than any view in the list allows, and sees no
  transaction that one of them does not see.
\<close>

theorem purge_view_safe:
  assumes "mvcc_reachable s" and "v \<notin> set (view_list s)" and "u \<in> set (view_list s)"
    and t: "t = read_view_oldest_copy_or_open_new junk v ut_dulint_zero s"
  shows "low_limit_no (views t v) \<le> low_limit_no (views t u)
    \<and> (read_view_sees_trx_id (views t v) i \<and> i \<noteq> ut_dulint_zero \<longrightarrow>
       read_view_sees_trx_id (views t u) i)"
proof -
  have inv: "mvcc_inv t" unfolding t
    by (rule purge_view_inv [OF mvcc_reachable_inv [OF assms(1)] assms(2)])
  have l: "view_list t = view_list s @ [v]" and c: "creator_trx_id (views t v) = ut_dulint_zero"
    using assms(3) unfolding t
    by (auto simp: read_view_oldest_copy_or_open_new_def oldest_copy_val_def Let_def)
  from inv have "older (views t v) (views t u)"
    using assms(3) unfolding mvcc_inv_def view_inv_def l by (simp add: sorted_wrt_append)
  then show ?thesis using c by (simp add: older_def)
qed

theorem purge_view_safe_witness:
  "\<exists>t. t = read_view_oldest_copy_or_open_new blank_view 9 ut_dulint_zero demo_3 \<and>
     low_limit_no (views t 9) \<le> low_limit_no (views t 7)"
proof -
  have "9 \<notin> set (view_list demo_3)" "7 \<in> set (view_list demo_3)" by (simp_all add: demo_eval)
  from purge_view_safe [OF demo_reachable(3) this refl] show ?thesis by blast
qed



lemma trx_get_on_id_scan_Some:
  "trx_get_on_id_scan h i ps = Some p \<Longrightarrow> p \<in> set ps \<and> trx_id (h p) = i"
  by (induction ps) (auto split: if_splits)

lemma trx_get_on_id_scan_None:
  "trx_get_on_id_scan h i ps = None \<Longrightarrow> q \<in> set ps \<Longrightarrow> trx_id (h q) \<noteq> i"
  by (induction ps) (auto split: if_splits)

lemma min_trx_id_le:
  assumes "trx_inv s" and "p \<in> set (trx_list s)"
  shows "trx_list_get_min_trx_id s \<le> trx_id (trxs s p)"
proof (cases "trx_list s" rule: rev_cases)
  case (snoc ps q)
  then have "sorted_wrt (\<lambda>p q. trx_id (trxs s q) < trx_id (trxs s p)) (ps @ [q])"
    using assms(1) by (simp add: trx_inv_def)
  then show ?thesis
    using assms(2) snoc by (auto simp: trx_list_get_min_trx_id_def sorted_wrt_append less_imp_le)
qed (use assms in simp)

text \<open>
  C35: \<open>trx_is_active\<close> decides whether a given-out id belongs to an active or prepared
  transaction, although it looks at the smallest listed id first and stops at the first match.
\<close>

theorem trx_is_active_correct:
  assumes "mvcc_reachable s" and "i < max_trx_id s"
  shows "trx_is_active i s \<longleftrightarrow>
    (\<exists>p. p \<in> set (trx_list s) \<and> live (trxs s p) \<and> trx_id (trxs s p) = i)"
proof -
  have inv: "trx_inv s" using mvcc_reachable_inv [OF assms(1)] by (simp add: mvcc_inv_def)
  show ?thesis
  proof (cases "trx_get_on_id i s")
    case None
    then have "trx_id (trxs s p) \<noteq> i" if "p \<in> set (trx_list s)" for p
      using that by (auto simp: trx_get_on_id_def dest: trx_get_on_id_scan_None)
    then show ?thesis using None assms(2) by (auto simp: trx_is_active_def not_le [symmetric])
  next
    case (Some p)
    then have p: "p \<in> set (trx_list s)" "trx_id (trxs s p) = i"
      using trx_get_on_id_scan_Some by (auto simp: trx_get_on_id_def)
    then have "\<not> i < trx_list_get_min_trx_id s" using min_trx_id_le [OF inv] by (auto simp: not_less)
    then have "trx_is_active i s = live (trxs s p)"
      using Some assms(2) by (auto simp: trx_is_active_def live_def)
    moreover have "q = p" if "q \<in> set (trx_list s)" "trx_id (trxs s q) = i" for q
      using listed_id_unique [OF inv that(1) p(1)] that(2) p(2) by simp
    ultimately show ?thesis using p by blast
  qed
qed

theorem trx_is_active_correct_witness: "trx_is_active (ut_dulint_create 0 513) demo_3"
proof -
  have "ut_dulint_create 0 513 < max_trx_id demo_3"
    by (simp add: demo_eval ut_dulint_create_def UT_DULINT_INC_def dulint_less_iff)
  moreover have "1 \<in> set (trx_list demo_3)" "live (trxs demo_3 1)"
    "trx_id (trxs demo_3 1) = ut_dulint_create 0 513"
    by (simp_all add: demo_eval live_def ut_dulint_create_def UT_DULINT_INC_def)
  ultimately show ?thesis using trx_is_active_correct [OF demo_reachable(3)] by blast
qed

end
