(* ===== verification/LockMode.thy ===== *)
theory LockMode imports UtRnd begin

text \<open>
  Lock modes and the \<open>type_mode\<close> word of a lock (include/lock0types.h, include/lock0lock.h,
  lock/lock0lock.c): the compatibility and stronger-or-equal matrices the code packs into one
  integer each, the flag tests, and the rules by which one record lock request has to wait for
  another.
\<close>

unbundle bit_operations_syntax

type_synonym trx_ptr = nat

section \<open>Modes\<close>

text \<open>\<open>enum lock_mode\<close>; a mode is stored in the low bits of a \<open>type_mode\<close> word.\<close>

definition LOCK_IS :: ulint where "LOCK_IS = 0"
definition LOCK_IX :: ulint where "LOCK_IX = 1"
definition LOCK_S :: ulint where "LOCK_S = 2"
definition LOCK_X :: ulint where "LOCK_X = 3"
definition LOCK_AUTO_INC :: ulint where "LOCK_AUTO_INC = 4"
definition LOCK_NONE :: ulint where "LOCK_NONE = 5"
definition LOCK_NUM :: ulint where "LOCK_NUM = LOCK_NONE"

definition LOCK_MODE_MASK :: ulint where "LOCK_MODE_MASK = 0xF"
definition LOCK_TABLE :: ulint where "LOCK_TABLE = 16"
definition LOCK_REC :: ulint where "LOCK_REC = 32"
definition LOCK_TYPE_MASK :: ulint where "LOCK_TYPE_MASK = 0xF0"
definition LOCK_WAIT :: ulint where "LOCK_WAIT = 256"
definition LOCK_ORDINARY :: ulint where "LOCK_ORDINARY = 0"
definition LOCK_GAP :: ulint where "LOCK_GAP = 512"
definition LOCK_REC_NOT_GAP :: ulint where "LOCK_REC_NOT_GAP = 1024"
definition LOCK_INSERT_INTENTION :: ulint where "LOCK_INSERT_INTENTION = 2048"

lemmas lock_mode_consts = LOCK_IS_def LOCK_IX_def LOCK_S_def LOCK_X_def LOCK_AUTO_INC_def
  LOCK_NONE_def LOCK_NUM_def

lemmas lock_flag_consts = LOCK_MODE_MASK_def LOCK_TABLE_def LOCK_REC_def LOCK_TYPE_MASK_def
  LOCK_WAIT_def LOCK_ORDINARY_def LOCK_GAP_def LOCK_REC_NOT_GAP_def LOCK_INSERT_INTENTION_def

section \<open>The matrices\<close>

definition LK :: "ulint \<Rightarrow> ulint \<Rightarrow> ulint" where
  "LK a b = push_bit (unat (a * LOCK_NUM + b)) 1"

definition LKS :: "ulint \<Rightarrow> ulint \<Rightarrow> ulint" where
  "LKS a b = LK a b OR LK b a"

definition LOCK_MODE_COMPATIBILITY :: ulint where
  "LOCK_MODE_COMPATIBILITY = 0
     OR LK LOCK_IS LOCK_IS OR LK LOCK_IX LOCK_IX OR LK LOCK_S LOCK_S
     OR LKS LOCK_IX LOCK_IS OR LKS LOCK_IS LOCK_AUTO_INC
     OR LKS LOCK_S LOCK_IS
     OR LKS LOCK_AUTO_INC LOCK_IS OR LKS LOCK_AUTO_INC LOCK_IX"

definition LOCK_MODE_STRONGER_OR_EQ :: ulint where
  "LOCK_MODE_STRONGER_OR_EQ = 0
     OR LK LOCK_IS LOCK_IS
     OR LK LOCK_IX LOCK_IS OR LK LOCK_IX LOCK_IX
     OR LK LOCK_S LOCK_IS OR LK LOCK_S LOCK_S
     OR LK LOCK_AUTO_INC LOCK_AUTO_INC
     OR LK LOCK_X LOCK_IS OR LK LOCK_X LOCK_IX OR LK LOCK_X LOCK_S
     OR LK LOCK_X LOCK_AUTO_INC OR LK LOCK_X LOCK_X"

definition lock_mode_stronger_or_eq :: "ulint \<Rightarrow> ulint \<Rightarrow> bool" where
  "lock_mode_stronger_or_eq mode1 mode2 \<longleftrightarrow> LOCK_MODE_STRONGER_OR_EQ AND LK mode1 mode2 \<noteq> 0"

definition lock_mode_compatible :: "ulint \<Rightarrow> ulint \<Rightarrow> bool" where
  "lock_mode_compatible mode1 mode2 \<longleftrightarrow> LOCK_MODE_COMPATIBILITY AND LK mode1 mode2 \<noteq> 0"

text \<open>The modes a request can have; the functions assert it.\<close>

definition lock_mode_ok :: "ulint \<Rightarrow> bool" where
  "lock_mode_ok m \<longleftrightarrow> m \<in> {LOCK_IS, LOCK_IX, LOCK_S, LOCK_X, LOCK_AUTO_INC}"

section \<open>The type-mode word\<close>

definition tm_mode :: "ulint \<Rightarrow> ulint" where
  "tm_mode type_mode = type_mode AND LOCK_MODE_MASK"

definition tm_type :: "ulint \<Rightarrow> ulint" where
  "tm_type type_mode = type_mode AND LOCK_TYPE_MASK"

definition tm_wait :: "ulint \<Rightarrow> bool" where
  "tm_wait type_mode \<longleftrightarrow> type_mode AND LOCK_WAIT \<noteq> 0"

definition tm_gap :: "ulint \<Rightarrow> bool" where
  "tm_gap type_mode \<longleftrightarrow> type_mode AND LOCK_GAP \<noteq> 0"

definition tm_rec_not_gap :: "ulint \<Rightarrow> bool" where
  "tm_rec_not_gap type_mode \<longleftrightarrow> type_mode AND LOCK_REC_NOT_GAP \<noteq> 0"

definition tm_insert_intention :: "ulint \<Rightarrow> bool" where
  "tm_insert_intention type_mode \<longleftrightarrow> type_mode AND LOCK_INSERT_INTENTION \<noteq> 0"

text \<open>
  The core of \<open>lock_rec_has_to_wait\<close>: the transaction and \<open>type_mode\<close> of the new request, those
  of the lock in the queue, and whether the record is the supremum.
\<close>

definition rec_has_to_wait :: "trx_ptr \<Rightarrow> ulint \<Rightarrow> trx_ptr \<Rightarrow> ulint \<Rightarrow> bool \<Rightarrow> bool" where
  "rec_has_to_wait trx type_mode trx2 type_mode2 lock_is_on_supremum \<longleftrightarrow>
     (if trx \<noteq> trx2 \<and> \<not> lock_mode_compatible (tm_mode type_mode) (tm_mode type_mode2) then
        if (lock_is_on_supremum \<or> tm_gap type_mode) \<and> \<not> tm_insert_intention type_mode then False
        else if \<not> tm_insert_intention type_mode \<and> tm_gap type_mode2 then False
        else if tm_gap type_mode \<and> tm_rec_not_gap type_mode2 then False
        else if tm_insert_intention type_mode2 then False
        else True
      else False)"

section \<open>Properties of the matrices\<close>

lemma matrix_values:
  "LOCK_MODE_COMPATIBILITY = 0x301677" "LOCK_MODE_STRONGER_OR_EQ = 0x10F9461"
  by (simp_all add: LOCK_MODE_COMPATIBILITY_def LOCK_MODE_STRONGER_OR_EQ_def LKS_def LK_def
      lock_mode_consts)

definition lock_modes :: "ulint list" where
  "lock_modes = [LOCK_IS, LOCK_IX, LOCK_S, LOCK_X, LOCK_AUTO_INC]"

lemma LK_value: "lock_mode_ok a \<Longrightarrow> lock_mode_ok b \<Longrightarrow> LK a b = 2 ^ (unat a * 5 + unat b)"
  by (auto simp: LK_def lock_mode_ok_def lock_mode_consts)

lemma compatible_table:
  "map (\<lambda>a. map (lock_mode_compatible a) lock_modes) lock_modes =
    [[True, True, True, False, True],
     [True, True, False, False, True],
     [True, False, True, False, False],
     [False, False, False, False, False],
     [True, True, False, False, False]]"
  by (simp add: lock_modes_def lock_mode_compatible_def matrix_values LK_def lock_mode_consts)

lemma stronger_table:
  "map (\<lambda>a. map (lock_mode_stronger_or_eq a) lock_modes) lock_modes =
    [[True, False, False, False, False],
     [True, True, False, False, False],
     [True, False, True, False, False],
     [True, True, True, True, True],
     [False, False, False, False, True]]"
  by (simp add: lock_modes_def lock_mode_stronger_or_eq_def matrix_values LK_def lock_mode_consts)

lemma compatible_iff [simp]:
  "lock_mode_compatible LOCK_IS LOCK_IS" "lock_mode_compatible LOCK_IS LOCK_IX"
  "lock_mode_compatible LOCK_IS LOCK_S" "\<not> lock_mode_compatible LOCK_IS LOCK_X"
  "lock_mode_compatible LOCK_IS LOCK_AUTO_INC"
  "lock_mode_compatible LOCK_IX LOCK_IS" "lock_mode_compatible LOCK_IX LOCK_IX"
  "\<not> lock_mode_compatible LOCK_IX LOCK_S" "\<not> lock_mode_compatible LOCK_IX LOCK_X"
  "lock_mode_compatible LOCK_IX LOCK_AUTO_INC"
  "lock_mode_compatible LOCK_S LOCK_IS" "\<not> lock_mode_compatible LOCK_S LOCK_IX"
  "lock_mode_compatible LOCK_S LOCK_S" "\<not> lock_mode_compatible LOCK_S LOCK_X"
  "\<not> lock_mode_compatible LOCK_S LOCK_AUTO_INC"
  "\<not> lock_mode_compatible LOCK_X LOCK_IS" "\<not> lock_mode_compatible LOCK_X LOCK_IX"
  "\<not> lock_mode_compatible LOCK_X LOCK_S" "\<not> lock_mode_compatible LOCK_X LOCK_X"
  "\<not> lock_mode_compatible LOCK_X LOCK_AUTO_INC"
  "lock_mode_compatible LOCK_AUTO_INC LOCK_IS" "lock_mode_compatible LOCK_AUTO_INC LOCK_IX"
  "\<not> lock_mode_compatible LOCK_AUTO_INC LOCK_S" "\<not> lock_mode_compatible LOCK_AUTO_INC LOCK_X"
  "\<not> lock_mode_compatible LOCK_AUTO_INC LOCK_AUTO_INC"
  using compatible_table by (simp_all add: lock_modes_def)

lemma stronger_iff [simp]:
  "lock_mode_stronger_or_eq LOCK_IS LOCK_IS" "\<not> lock_mode_stronger_or_eq LOCK_IS LOCK_IX"
  "\<not> lock_mode_stronger_or_eq LOCK_IS LOCK_S" "\<not> lock_mode_stronger_or_eq LOCK_IS LOCK_X"
  "\<not> lock_mode_stronger_or_eq LOCK_IS LOCK_AUTO_INC"
  "lock_mode_stronger_or_eq LOCK_IX LOCK_IS" "lock_mode_stronger_or_eq LOCK_IX LOCK_IX"
  "\<not> lock_mode_stronger_or_eq LOCK_IX LOCK_S" "\<not> lock_mode_stronger_or_eq LOCK_IX LOCK_X"
  "\<not> lock_mode_stronger_or_eq LOCK_IX LOCK_AUTO_INC"
  "lock_mode_stronger_or_eq LOCK_S LOCK_IS" "\<not> lock_mode_stronger_or_eq LOCK_S LOCK_IX"
  "lock_mode_stronger_or_eq LOCK_S LOCK_S" "\<not> lock_mode_stronger_or_eq LOCK_S LOCK_X"
  "\<not> lock_mode_stronger_or_eq LOCK_S LOCK_AUTO_INC"
  "lock_mode_stronger_or_eq LOCK_X LOCK_IS" "lock_mode_stronger_or_eq LOCK_X LOCK_IX"
  "lock_mode_stronger_or_eq LOCK_X LOCK_S" "lock_mode_stronger_or_eq LOCK_X LOCK_X"
  "lock_mode_stronger_or_eq LOCK_X LOCK_AUTO_INC"
  "\<not> lock_mode_stronger_or_eq LOCK_AUTO_INC LOCK_IS" "\<not> lock_mode_stronger_or_eq LOCK_AUTO_INC LOCK_IX"
  "\<not> lock_mode_stronger_or_eq LOCK_AUTO_INC LOCK_S" "\<not> lock_mode_stronger_or_eq LOCK_AUTO_INC LOCK_X"
  "lock_mode_stronger_or_eq LOCK_AUTO_INC LOCK_AUTO_INC"
  using stronger_table by (simp_all add: lock_modes_def)

lemma lock_modes_distinct [simp]:
  "LOCK_IS \<noteq> LOCK_IX" "LOCK_IS \<noteq> LOCK_S" "LOCK_IS \<noteq> LOCK_X" "LOCK_IS \<noteq> LOCK_AUTO_INC"
  "LOCK_IX \<noteq> LOCK_IS" "LOCK_IX \<noteq> LOCK_S" "LOCK_IX \<noteq> LOCK_X" "LOCK_IX \<noteq> LOCK_AUTO_INC"
  "LOCK_S \<noteq> LOCK_IS" "LOCK_S \<noteq> LOCK_IX" "LOCK_S \<noteq> LOCK_X" "LOCK_S \<noteq> LOCK_AUTO_INC"
  "LOCK_X \<noteq> LOCK_IS" "LOCK_X \<noteq> LOCK_IX" "LOCK_X \<noteq> LOCK_S" "LOCK_X \<noteq> LOCK_AUTO_INC"
  "LOCK_AUTO_INC \<noteq> LOCK_IS" "LOCK_AUTO_INC \<noteq> LOCK_IX" "LOCK_AUTO_INC \<noteq> LOCK_S" "LOCK_AUTO_INC \<noteq> LOCK_X"
  by (simp_all add: lock_mode_consts)

lemma compatible_sym:
  "lock_mode_ok a \<Longrightarrow> lock_mode_ok b \<Longrightarrow> lock_mode_compatible a b = lock_mode_compatible b a"
  by (auto simp: lock_mode_ok_def)

text \<open>
  C36: the lock compatibility matrix packed into an integer is the documented one, and it is
  symmetric; the stronger-or-equal relation is a partial order on the lock modes, and a stronger
  mode conflicts with everything a weaker one conflicts with.
\<close>

theorem lock_mode_matrices:
  assumes "lock_mode_ok a" and "lock_mode_ok b" and "lock_mode_ok c"
  shows "map (\<lambda>m. map (lock_mode_compatible m) lock_modes) lock_modes =
     [[True, True, True, False, True],
      [True, True, False, False, True],
      [True, False, True, False, False],
      [False, False, False, False, False],
      [True, True, False, False, False]] \<and>
    lock_mode_compatible a b = lock_mode_compatible b a \<and>
    lock_mode_stronger_or_eq a a \<and>
    (lock_mode_stronger_or_eq a b \<and> lock_mode_stronger_or_eq b a \<longrightarrow> a = b) \<and>
    (lock_mode_stronger_or_eq a b \<and> lock_mode_stronger_or_eq b c \<longrightarrow> lock_mode_stronger_or_eq a c) \<and>
    (lock_mode_stronger_or_eq a b \<and> lock_mode_compatible a c \<longrightarrow> lock_mode_compatible b c)"
  using assms compatible_table by (simp only: lock_mode_ok_def insert_iff empty_iff) (elim disjE; simp)

theorem lock_mode_matrices_witness:
  "lock_mode_stronger_or_eq LOCK_X LOCK_IS \<and> lock_mode_compatible LOCK_IX LOCK_AUTO_INC"
  using lock_mode_matrices [of LOCK_X LOCK_S LOCK_IS] lock_mode_matrices [of LOCK_IX LOCK_AUTO_INC LOCK_IS]
  by (simp add: lock_mode_ok_def)

section \<open>Rewriting type-mode words\<close>

text \<open>The flags are single bits; every update of the word is a change of those bits only.\<close>

lemma tm_flags_bit:
  "tm_wait t \<longleftrightarrow> bit t 8" "tm_gap t \<longleftrightarrow> bit t 9" "tm_rec_not_gap t \<longleftrightarrow> bit t 10"
  "tm_insert_intention t \<longleftrightarrow> bit t 11"
  using and_exp_eq_0_iff_not_bit [of t 8] and_exp_eq_0_iff_not_bit [of t 9]
    and_exp_eq_0_iff_not_bit [of t 10] and_exp_eq_0_iff_not_bit [of t 11]
  by (simp_all add: tm_wait_def tm_gap_def tm_rec_not_gap_def tm_insert_intention_def lock_flag_consts)

lemma tm_mode_take: "tm_mode t = take_bit 4 t"
  by (simp add: tm_mode_def lock_flag_consts take_bit_eq_mask mask_eq_exp_minus_1)

lemma flag_exps:
  "LOCK_TABLE = 2 ^ 4" "LOCK_REC = 2 ^ 5" "LOCK_WAIT = 2 ^ 8" "LOCK_GAP = 2 ^ 9"
  "LOCK_REC_NOT_GAP = 2 ^ 10" "LOCK_INSERT_INTENTION = 2 ^ 11"
  "LOCK_TYPE_MASK = push_bit 4 (mask 4)" "LOCK_MODE_MASK = mask 4"
  by (simp_all add: lock_flag_consts mask_eq_exp_minus_1)

lemma tm_mode_bit: "bit (tm_mode t) n \<longleftrightarrow> n < 4 \<and> bit t n"
  by (simp add: tm_mode_take bit_simps)

named_theorems tm_simps \<open>how the updates of a type-mode word change its parts\<close>

lemma bit_flag_exp: "n < 64 \<Longrightarrow> bit (2 ^ n :: ulint) m \<longleftrightarrow> m = n"
  by (auto simp: bit_exp_iff)

lemma flag_bits:
  "bit LOCK_TABLE n \<longleftrightarrow> n = 4" "bit LOCK_REC n \<longleftrightarrow> n = 5" "bit LOCK_WAIT n \<longleftrightarrow> n = 8"
  "bit LOCK_GAP n \<longleftrightarrow> n = 9" "bit LOCK_REC_NOT_GAP n \<longleftrightarrow> n = 10"
  "bit LOCK_INSERT_INTENTION n \<longleftrightarrow> n = 11" "bit LOCK_TYPE_MASK n \<longleftrightarrow> 4 \<le> n \<and> n < 8"
  unfolding flag_exps by (rule bit_flag_exp, simp)+ (auto simp: bit_simps)

lemma tm_type_bit: "bit (tm_type t) n \<longleftrightarrow> 4 \<le> n \<and> n < 8 \<and> bit t n"
  by (auto simp: tm_type_def flag_bits bit_simps)

lemma tm_or_wait [tm_simps]:
  "tm_mode (t OR LOCK_WAIT) = tm_mode t" "tm_type (t OR LOCK_WAIT) = tm_type t"
  "tm_wait (t OR LOCK_WAIT)" "tm_gap (t OR LOCK_WAIT) = tm_gap t"
  "tm_rec_not_gap (t OR LOCK_WAIT) = tm_rec_not_gap t"
  "tm_insert_intention (t OR LOCK_WAIT) = tm_insert_intention t"
  by (auto intro!: bit_word_eqI simp: tm_mode_bit tm_type_bit tm_flags_bit flag_bits bit_or_iff bit_flag_exp)

lemma tm_clear_wait [tm_simps]:
  "tm_mode (t AND NOT LOCK_WAIT) = tm_mode t" "tm_type (t AND NOT LOCK_WAIT) = tm_type t"
  "\<not> tm_wait (t AND NOT LOCK_WAIT)" "tm_gap (t AND NOT LOCK_WAIT) = tm_gap t"
  "tm_rec_not_gap (t AND NOT LOCK_WAIT) = tm_rec_not_gap t"
  "tm_insert_intention (t AND NOT LOCK_WAIT) = tm_insert_intention t"
  by (auto intro!: bit_word_eqI simp: tm_mode_bit tm_type_bit tm_flags_bit flag_bits bit_and_iff
      bit_not_iff bit_flag_exp)

lemma tm_or_rec [tm_simps]:
  "tm_mode (t OR LOCK_REC) = tm_mode t"
  "tm_wait (t OR LOCK_REC) = tm_wait t" "tm_gap (t OR LOCK_REC) = tm_gap t"
  "tm_rec_not_gap (t OR LOCK_REC) = tm_rec_not_gap t"
  "tm_insert_intention (t OR LOCK_REC) = tm_insert_intention t"
  "tm_mode (LOCK_REC OR t) = tm_mode t"
  "tm_wait (LOCK_REC OR t) = tm_wait t" "tm_gap (LOCK_REC OR t) = tm_gap t"
  "tm_rec_not_gap (LOCK_REC OR t) = tm_rec_not_gap t"
  "tm_insert_intention (LOCK_REC OR t) = tm_insert_intention t"
  by (auto intro!: bit_word_eqI simp: tm_mode_bit tm_flags_bit flag_bits bit_or_iff bit_flag_exp)

lemma tm_set_type [tm_simps]:
  "tm_mode ((t AND NOT LOCK_TYPE_MASK) OR LOCK_REC) = tm_mode t"
  "tm_type ((t AND NOT LOCK_TYPE_MASK) OR LOCK_REC) = LOCK_REC"
  "tm_wait ((t AND NOT LOCK_TYPE_MASK) OR LOCK_REC) = tm_wait t"
  "tm_gap ((t AND NOT LOCK_TYPE_MASK) OR LOCK_REC) = tm_gap t"
  "tm_rec_not_gap ((t AND NOT LOCK_TYPE_MASK) OR LOCK_REC) = tm_rec_not_gap t"
  "tm_insert_intention ((t AND NOT LOCK_TYPE_MASK) OR LOCK_REC) = tm_insert_intention t"
  by (auto intro!: bit_word_eqI simp: tm_mode_bit tm_type_bit tm_flags_bit flag_bits bit_or_iff bit_and_iff
      bit_not_iff bit_flag_exp )

lemma tm_clear_gaps [tm_simps]:
  "tm_mode (t AND NOT (LOCK_GAP OR LOCK_REC_NOT_GAP)) = tm_mode t"
  "tm_type (t AND NOT (LOCK_GAP OR LOCK_REC_NOT_GAP)) = tm_type t"
  "tm_wait (t AND NOT (LOCK_GAP OR LOCK_REC_NOT_GAP)) = tm_wait t"
  "\<not> tm_gap (t AND NOT (LOCK_GAP OR LOCK_REC_NOT_GAP))"
  "\<not> tm_rec_not_gap (t AND NOT (LOCK_GAP OR LOCK_REC_NOT_GAP))"
  "tm_insert_intention (t AND NOT (LOCK_GAP OR LOCK_REC_NOT_GAP)) = tm_insert_intention t"
  by (auto intro!: bit_word_eqI simp: tm_mode_bit tm_type_bit tm_flags_bit flag_bits bit_or_iff bit_and_iff
      bit_not_iff bit_flag_exp)

lemma tm_clear_gaps_simp [tm_simps]:
  "tm_mode (t AND NOT LOCK_GAP AND NOT LOCK_REC_NOT_GAP) = tm_mode t"
  "tm_wait (t AND NOT LOCK_GAP AND NOT LOCK_REC_NOT_GAP) = tm_wait t"
  "\<not> tm_gap (t AND NOT LOCK_GAP AND NOT LOCK_REC_NOT_GAP)"
  "\<not> tm_rec_not_gap (t AND NOT LOCK_GAP AND NOT LOCK_REC_NOT_GAP)"
  "tm_insert_intention (t AND NOT LOCK_GAP AND NOT LOCK_REC_NOT_GAP) = tm_insert_intention t"
  by (auto intro!: bit_word_eqI simp: tm_mode_bit tm_flags_bit flag_bits bit_and_iff
      bit_not_iff bit_flag_exp)

lemma tm_clear_type [tm_simps]:
  "tm_mode (t AND NOT LOCK_TYPE_MASK) = tm_mode t" "tm_wait (t AND NOT LOCK_TYPE_MASK) = tm_wait t"
  "tm_gap (t AND NOT LOCK_TYPE_MASK) = tm_gap t"
  "tm_rec_not_gap (t AND NOT LOCK_TYPE_MASK) = tm_rec_not_gap t"
  "tm_insert_intention (t AND NOT LOCK_TYPE_MASK) = tm_insert_intention t"
  by (auto intro!: bit_word_eqI simp: tm_mode_bit tm_flags_bit flag_bits bit_and_iff
      bit_not_iff bit_flag_exp)

lemma tm_or_gap [tm_simps]:
  "tm_mode (t OR LOCK_GAP) = tm_mode t" "tm_wait (t OR LOCK_GAP) = tm_wait t" "tm_gap (t OR LOCK_GAP)"
  "tm_rec_not_gap (t OR LOCK_GAP) = tm_rec_not_gap t"
  "tm_insert_intention (t OR LOCK_GAP) = tm_insert_intention t"
  "tm_mode (LOCK_GAP OR t) = tm_mode t" "tm_wait (LOCK_GAP OR t) = tm_wait t" "tm_gap (LOCK_GAP OR t)"
  "tm_rec_not_gap (LOCK_GAP OR t) = tm_rec_not_gap t"
  "tm_insert_intention (LOCK_GAP OR t) = tm_insert_intention t"
  by (auto intro!: bit_word_eqI simp: tm_mode_bit tm_flags_bit flag_bits bit_or_iff bit_flag_exp)

lemma tm_or_not_gap [tm_simps]:
  "tm_mode (t OR LOCK_REC_NOT_GAP) = tm_mode t" "tm_wait (t OR LOCK_REC_NOT_GAP) = tm_wait t"
  "tm_gap (t OR LOCK_REC_NOT_GAP) = tm_gap t" "tm_rec_not_gap (t OR LOCK_REC_NOT_GAP)"
  "tm_insert_intention (t OR LOCK_REC_NOT_GAP) = tm_insert_intention t"
  by (auto intro!: bit_word_eqI simp: tm_mode_bit tm_flags_bit flag_bits bit_or_iff bit_flag_exp)

lemma tm_or_insert [tm_simps]:
  "tm_mode (t OR LOCK_INSERT_INTENTION) = tm_mode t"
  "tm_wait (t OR LOCK_INSERT_INTENTION) = tm_wait t"
  "tm_gap (t OR LOCK_INSERT_INTENTION) = tm_gap t"
  "tm_rec_not_gap (t OR LOCK_INSERT_INTENTION) = tm_rec_not_gap t"
  "tm_insert_intention (t OR LOCK_INSERT_INTENTION)"
  by (auto intro!: bit_word_eqI simp: tm_mode_bit tm_flags_bit flag_bits bit_or_iff bit_flag_exp)

lemma tm_or_table [tm_simps]:
  "tm_mode (t OR LOCK_TABLE) = tm_mode t" "tm_wait (t OR LOCK_TABLE) = tm_wait t"
  by (auto intro!: bit_word_eqI simp: tm_mode_bit tm_flags_bit flag_bits bit_or_iff bit_flag_exp)

text \<open>A bare mode has no flags, and reading the mode twice changes nothing.\<close>

lemma tm_of_mode [tm_simps]:
  "tm_mode (tm_mode t) = tm_mode t" "\<not> tm_wait (tm_mode t)" "\<not> tm_gap (tm_mode t)"
  "\<not> tm_rec_not_gap (tm_mode t)" "\<not> tm_insert_intention (tm_mode t)"
  by (auto intro!: bit_word_eqI simp: tm_mode_bit tm_flags_bit)

lemma lock_mode_ok_less: "lock_mode_ok m \<Longrightarrow> unat m < 16"
  by (auto simp: lock_mode_ok_def lock_mode_consts)

lemma tm_mode_idem [simp]: "lock_mode_ok m \<Longrightarrow> tm_mode m = m"
  by (auto simp: tm_mode_def lock_mode_ok_def lock_mode_consts lock_flag_consts)

lemma tm_of_const [simp]:
  "tm_mode LOCK_X = LOCK_X" "tm_mode LOCK_S = LOCK_S" "tm_mode LOCK_IX = LOCK_IX"
  "tm_mode LOCK_IS = LOCK_IS" "tm_mode LOCK_AUTO_INC = LOCK_AUTO_INC"
  by (simp_all add: lock_mode_ok_def)

lemma tm_flags_of_mode:
  assumes "lock_mode_ok m"
  shows "\<not> tm_wait m" "\<not> tm_gap m" "\<not> tm_rec_not_gap m" "\<not> tm_insert_intention m"
  using tm_of_mode(2-5) [of m] assms by simp_all

text \<open>The rule for waiting, in words: a conflict in mode matters unless one of the exceptions holds.\<close>

lemma rec_has_to_wait_iff:
  "rec_has_to_wait trx t trx2 t2 supremum \<longleftrightarrow>
     trx \<noteq> trx2 \<and> \<not> lock_mode_compatible (tm_mode t) (tm_mode t2) \<and>
     \<not> tm_insert_intention t2 \<and>
     (if tm_insert_intention t then \<not> (tm_gap t \<and> tm_rec_not_gap t2)
      else \<not> supremum \<and> \<not> tm_gap t \<and> \<not> tm_gap t2)"
  by (auto simp: rec_has_to_wait_def)

end
