(* ===== verification/LockSys.thy ===== *)
theory LockSys imports LockMode begin

text \<open>
  The lock system's data (include/lock0priv.h, include/lock0lock.h and the locking fields of
  \<open>trx_struct\<close>, \<open>dict_table_struct\<close> and \<open>que_thr_struct\<close>) and its basic functions
  (lock/lock0lock.c): the bitmap of a record lock, the walks along the hash chains, creation of
  locks, and the bookkeeping of waiting.

  Locks are objects in a store, named by pointers; the hash cells, the transactions' lock lists
  and the tables' lock queues are lists of pointers in the order the code keeps them. A function
  that runs under the kernel mutex is a function of the whole state. \<open>None\<close> is a failed
  assertion (\<open>ut_a\<close>, \<open>ut_error\<close>).
\<close>

type_synonym lock_ptr = nat
type_synonym index_ptr = nat
type_synonym table_ptr = nat
type_synonym thr_ptr = nat

section \<open>Data\<close>

text \<open>
  \<open>lock_struct\<close>; the members of the union are side by side (a table lock uses \<open>lk_table\<close>, a record
  lock the others), the bitmap behind the struct is a list of bytes.
\<close>

record lock =
  lk_trx :: trx_ptr
  type_mode :: ulint
  lk_index :: index_ptr
  lk_table :: table_ptr
  lk_space :: ulint
  lk_page_no :: ulint
  lk_n_bits :: nat
  lk_bitmap :: "byte list"

datatype que_state = TRX_QUE_RUNNING | TRX_QUE_LOCK_WAIT | TRX_QUE_ROLLING_BACK | TRX_QUE_COMMITTING

datatype iso_level = TRX_ISO_READ_UNCOMMITTED | TRX_ISO_READ_COMMITTED | TRX_ISO_REPEATABLE_READ
  | TRX_ISO_SERIALIZABLE

text \<open>
  The fields of \<open>trx_struct\<close> the lock system reads and writes. \<open>notrans_edit\<close> is what
  \<open>thd_has_edited_nontrans_tables\<close> says of its MySQL thread (false without one); \<open>trx_error\<close>
  says whether \<open>error_state\<close> is one that stops a query thread, \<open>trx_n_signals\<close> the length of its
  signal list.
\<close>

record ltrx =
  ltrx_id :: dulint
  trx_locks :: "lock_ptr list"
  wait_lock :: "lock_ptr option"
  trx_que_state :: que_state
  auto_inc_lock :: "lock_ptr option"
  deadlock_mark :: bool
  was_chosen_as_deadlock_victim :: bool
  trx_isolation :: iso_level
  trx_undo_no :: dulint
  notrans_edit :: bool
  new_rec_locks :: "index_ptr option \<times> index_ptr option"
  wait_thrs :: "thr_ptr list"
  trx_error :: bool
  trx_n_signals :: nat

record dict_table =
  tab_locks :: "lock_ptr list"
  tab_auto_inc_buf :: lock_ptr
  n_waiting_or_granted_auto_inc_locks :: ulint
  query_cache_inv_trx_id :: dulint

datatype thr_state = QUE_THR_RUNNING | QUE_THR_COMPLETED | QUE_THR_LOCK_WAIT | QUE_THR_SUSPENDED

record que_thr =
  thr_trx :: trx_ptr
  thr_status :: thr_state
  graph_command_wait :: bool
  fork_is_rollback :: bool

text \<open>A buffer block: its page address and the heap top of the page (\<open>page_dir_get_n_heap\<close>).\<close>

record buf_block =
  blk_space :: ulint
  blk_page_no :: ulint
  blk_n_heap :: nat

record lock_sys =
  n_cells :: ulint
  rec_hash :: "ulint \<Rightarrow> lock_ptr list"
  lock_at :: "lock_ptr \<Rightarrow> lock"
  lock_brk :: nat
  trxs :: "trx_ptr \<Rightarrow> ltrx"
  tabs :: "table_ptr \<Rightarrow> dict_table"
  index_table :: "index_ptr \<Rightarrow> table_ptr"
  thrs :: "thr_ptr \<Rightarrow> que_thr"
  ls_trx_list :: "trx_ptr list"
  ls_max_trx_id :: dulint
  page_max_trx_id :: "ulint \<Rightarrow> ulint \<Rightarrow> dulint"
  srv_locks_unsafe_for_binlog :: bool

abbreviation upd_lock :: "lock_ptr \<Rightarrow> (lock \<Rightarrow> lock) \<Rightarrow> lock_sys \<Rightarrow> lock_sys" where
  "upd_lock l f s \<equiv> s\<lparr>lock_at := (lock_at s)(l := f (lock_at s l))\<rparr>"

abbreviation upd_ltrx :: "trx_ptr \<Rightarrow> (ltrx \<Rightarrow> ltrx) \<Rightarrow> lock_sys \<Rightarrow> lock_sys" where
  "upd_ltrx t f s \<equiv> s\<lparr>trxs := (trxs s)(t := f (trxs s t))\<rparr>"

abbreviation upd_tab :: "table_ptr \<Rightarrow> (dict_table \<Rightarrow> dict_table) \<Rightarrow> lock_sys \<Rightarrow> lock_sys" where
  "upd_tab t f s \<equiv> s\<lparr>tabs := (tabs s)(t := f (tabs s t))\<rparr>"

definition LOCK_PAGE_BITMAP_MARGIN :: nat where "LOCK_PAGE_BITMAP_MARGIN = 64"
definition PAGE_HEAP_NO_INFIMUM :: nat where "PAGE_HEAP_NO_INFIMUM = 0"
definition PAGE_HEAP_NO_SUPREMUM :: nat where "PAGE_HEAP_NO_SUPREMUM = 1"

section \<open>Reading a lock\<close>

definition lock_get_type_low :: "lock \<Rightarrow> ulint" where
  "lock_get_type_low lock = tm_type (type_mode lock)"

definition lock_get_mode :: "lock \<Rightarrow> ulint" where
  "lock_get_mode lock = tm_mode (type_mode lock)"

definition lock_get_wait :: "lock \<Rightarrow> bool" where
  "lock_get_wait lock \<longleftrightarrow> tm_wait (type_mode lock)"

definition lock_rec_get_gap :: "lock \<Rightarrow> bool" where
  "lock_rec_get_gap lock \<longleftrightarrow> tm_gap (type_mode lock)"

definition lock_rec_get_rec_not_gap :: "lock \<Rightarrow> bool" where
  "lock_rec_get_rec_not_gap lock \<longleftrightarrow> tm_rec_not_gap (type_mode lock)"

definition lock_rec_get_insert_intention :: "lock \<Rightarrow> bool" where
  "lock_rec_get_insert_intention lock \<longleftrightarrow> tm_insert_intention (type_mode lock)"

definition lock_rec_get_n_bits :: "lock \<Rightarrow> nat" where
  "lock_rec_get_n_bits lock = lk_n_bits lock"

subsection \<open>The bitmap\<close>

definition lock_rec_get_nth_bit :: "lock \<Rightarrow> nat \<Rightarrow> bool" where
  "lock_rec_get_nth_bit lock i \<longleftrightarrow>
     (if lk_n_bits lock \<le> i then False
      else 1 AND drop_bit (i mod 8) (lk_bitmap lock ! (i div 8)) \<noteq> 0)"

definition lock_rec_set_nth_bit :: "nat \<Rightarrow> lock \<Rightarrow> lock" where
  "lock_rec_set_nth_bit i lock =
     lock\<lparr>lk_bitmap := (lk_bitmap lock)[i div 8 := lk_bitmap lock ! (i div 8) OR push_bit (i mod 8) 1]\<rparr>"

definition lock_rec_reset_nth_bit :: "nat \<Rightarrow> lock \<Rightarrow> lock" where
  "lock_rec_reset_nth_bit i lock =
     lock\<lparr>lk_bitmap := (lk_bitmap lock)[i div 8 := lk_bitmap lock ! (i div 8) AND NOT (push_bit (i mod 8) 1)]\<rparr>"

fun find_bit_from :: "lock \<Rightarrow> nat list \<Rightarrow> nat option" where
  "find_bit_from lock [] = None"
| "find_bit_from lock (i # is) =
     (if lock_rec_get_nth_bit lock i then Some i else find_bit_from lock is)"

text \<open>\<open>ULINT_UNDEFINED\<close> is \<open>None\<close>.\<close>

definition lock_rec_find_set_bit :: "lock \<Rightarrow> nat option" where
  "lock_rec_find_set_bit lock = find_bit_from lock [0..<lock_rec_get_n_bits lock]"

definition lock_rec_bitmap_reset :: "lock \<Rightarrow> lock" where
  "lock_rec_bitmap_reset lock = lock\<lparr>lk_bitmap := replicate (lock_rec_get_n_bits lock div 8) 0\<rparr>"

subsection \<open>Waiting for another lock\<close>

definition lock_rec_has_to_wait :: "trx_ptr \<Rightarrow> ulint \<Rightarrow> lock \<Rightarrow> bool \<Rightarrow> bool" where
  "lock_rec_has_to_wait trx tm lock2 lock_is_on_supremum =
     rec_has_to_wait trx tm (lk_trx lock2) (type_mode lock2) lock_is_on_supremum"

definition lock_has_to_wait :: "lock \<Rightarrow> lock \<Rightarrow> bool" where
  "lock_has_to_wait lock1 lock2 \<longleftrightarrow>
     (if lk_trx lock1 \<noteq> lk_trx lock2 \<and>
         \<not> lock_mode_compatible (lock_get_mode lock1) (lock_get_mode lock2)
      then if lock_get_type_low lock1 = LOCK_REC
           then lock_rec_has_to_wait (lk_trx lock1) (type_mode lock1) lock2 (lock_rec_get_nth_bit lock1 1)
           else True
      else False)"

section \<open>The hash chains\<close>

definition lock_rec_fold :: "ulint \<Rightarrow> ulint \<Rightarrow> ulint" where
  "lock_rec_fold space page_no = ut_fold_ulint_pair space page_no"

definition hash_calc_hash :: "ulint \<Rightarrow> lock_sys \<Rightarrow> ulint" where
  "hash_calc_hash fd s = ut_hash_ulint fd (n_cells s)"

definition lock_rec_hash :: "ulint \<Rightarrow> ulint \<Rightarrow> lock_sys \<Rightarrow> ulint" where
  "lock_rec_hash space page_no s = hash_calc_hash (lock_rec_fold space page_no) s"

definition chain :: "ulint \<Rightarrow> ulint \<Rightarrow> lock_sys \<Rightarrow> lock_ptr list" where
  "chain space page_no s = rec_hash s (lock_rec_hash space page_no s)"

text \<open>\<open>HASH_INSERT\<close> appends to the chain, \<open>HASH_DELETE\<close> unlinks and asserts that it finds the node.\<close>

definition HASH_INSERT :: "ulint \<Rightarrow> lock_ptr \<Rightarrow> lock_sys \<Rightarrow> lock_sys" where
  "HASH_INSERT fd l s =
     (let c = hash_calc_hash fd s in s\<lparr>rec_hash := (rec_hash s)(c := rec_hash s c @ [l])\<rparr>)"

definition HASH_DELETE :: "ulint \<Rightarrow> lock_ptr \<Rightarrow> lock_sys \<Rightarrow> lock_sys option" where
  "HASH_DELETE fd l s =
     (let c = hash_calc_hash fd s in
      if l \<in> set (rec_hash s c) then Some (s\<lparr>rec_hash := (rec_hash s)(c := remove1 l (rec_hash s c))\<rparr>)
      else None)"

definition on_page :: "lock_sys \<Rightarrow> ulint \<Rightarrow> ulint \<Rightarrow> lock_ptr \<Rightarrow> bool" where
  "on_page s space page_no l \<longleftrightarrow>
     lk_space (lock_at s l) = space \<and> lk_page_no (lock_at s l) = page_no"

text \<open>The nodes behind \<open>l\<close> in a chain (\<open>HASH_GET_NEXT\<close>, again and again).\<close>

fun nodes_after :: "lock_ptr \<Rightarrow> lock_ptr list \<Rightarrow> lock_ptr list" where
  "nodes_after l [] = []"
| "nodes_after l (x # xs) = (if x = l then xs else nodes_after l xs)"

fun first_on_page :: "lock_sys \<Rightarrow> ulint \<Rightarrow> ulint \<Rightarrow> lock_ptr list \<Rightarrow> lock_ptr option" where
  "first_on_page s space page_no [] = None"
| "first_on_page s space page_no (l # ls) =
     (if on_page s space page_no l then Some l else first_on_page s space page_no ls)"

definition lock_rec_get_next_on_page :: "lock_sys \<Rightarrow> lock_ptr \<Rightarrow> lock_ptr option" where
  "lock_rec_get_next_on_page s l =
     (let space = lk_space (lock_at s l); page_no = lk_page_no (lock_at s l)
      in first_on_page s space page_no (nodes_after l (chain space page_no s)))"

definition lock_rec_get_first_on_page_addr :: "ulint \<Rightarrow> ulint \<Rightarrow> lock_sys \<Rightarrow> lock_ptr option" where
  "lock_rec_get_first_on_page_addr space page_no s =
     first_on_page s space page_no (chain space page_no s)"

definition lock_rec_expl_exist_on_page :: "ulint \<Rightarrow> ulint \<Rightarrow> lock_sys \<Rightarrow> bool" where
  "lock_rec_expl_exist_on_page space page_no s \<longleftrightarrow>
     lock_rec_get_first_on_page_addr space page_no s \<noteq> None"

text \<open>The block caches the hash value of its page address (\<open>buf_block_get_lock_hash_val\<close>).\<close>

definition lock_rec_get_first_on_page :: "buf_block \<Rightarrow> lock_sys \<Rightarrow> lock_ptr option" where
  "lock_rec_get_first_on_page block s =
     lock_rec_get_first_on_page_addr (blk_space block) (blk_page_no block) s"

text \<open>The loops that go on to a lock with the record's bit, over the rest of the chain.\<close>

fun first_on_rec :: "lock_sys \<Rightarrow> ulint \<Rightarrow> ulint \<Rightarrow> nat \<Rightarrow> lock_ptr list \<Rightarrow> lock_ptr option" where
  "first_on_rec s space page_no heap_no [] = None"
| "first_on_rec s space page_no heap_no (l # ls) =
     (if on_page s space page_no l \<and> lock_rec_get_nth_bit (lock_at s l) heap_no then Some l
      else first_on_rec s space page_no heap_no ls)"

definition lock_rec_get_next :: "nat \<Rightarrow> lock_sys \<Rightarrow> lock_ptr \<Rightarrow> lock_ptr option" where
  "lock_rec_get_next heap_no s l =
     (let space = lk_space (lock_at s l); page_no = lk_page_no (lock_at s l)
      in first_on_rec s space page_no heap_no (nodes_after l (chain space page_no s)))"

definition lock_rec_get_first :: "buf_block \<Rightarrow> nat \<Rightarrow> lock_sys \<Rightarrow> lock_ptr option" where
  "lock_rec_get_first block heap_no s =
     first_on_rec s (blk_space block) (blk_page_no block) heap_no
       (chain (blk_space block) (blk_page_no block) s)"

fun prev_on_rec :: "lock_sys \<Rightarrow> ulint \<Rightarrow> ulint \<Rightarrow> nat \<Rightarrow> lock_ptr \<Rightarrow> lock_ptr option \<Rightarrow> lock_ptr list
    \<Rightarrow> lock_ptr option" where
  "prev_on_rec s space page_no heap_no in_lock found_lock [] = None"
| "prev_on_rec s space page_no heap_no in_lock found_lock (l # ls) =
     (if \<not> on_page s space page_no l then prev_on_rec s space page_no heap_no in_lock found_lock ls
      else if l = in_lock then found_lock
      else prev_on_rec s space page_no heap_no in_lock
        (if lock_rec_get_nth_bit (lock_at s l) heap_no then Some l else found_lock) ls)"

definition lock_rec_get_prev :: "lock_sys \<Rightarrow> lock_ptr \<Rightarrow> nat \<Rightarrow> lock_ptr option" where
  "lock_rec_get_prev s in_lock heap_no =
     (let space = lk_space (lock_at s in_lock); page_no = lk_page_no (lock_at s in_lock)
      in prev_on_rec s space page_no heap_no in_lock None (chain space page_no s))"

section \<open>Waiting\<close>

definition lock_set_lock_and_trx_wait :: "lock_ptr \<Rightarrow> trx_ptr \<Rightarrow> lock_sys \<Rightarrow> lock_sys" where
  "lock_set_lock_and_trx_wait l trx s =
     upd_lock l (\<lambda>k. k\<lparr>type_mode := type_mode k OR LOCK_WAIT\<rparr>)
       (upd_ltrx trx (\<lambda>t. t\<lparr>wait_lock := Some l\<rparr>) s)"

definition lock_reset_lock_and_trx_wait :: "lock_ptr \<Rightarrow> lock_sys \<Rightarrow> lock_sys" where
  "lock_reset_lock_and_trx_wait l s =
     upd_lock l (\<lambda>k. k\<lparr>type_mode := type_mode k AND NOT LOCK_WAIT\<rparr>)
       (upd_ltrx (lk_trx (lock_at s l)) (\<lambda>t. t\<lparr>wait_lock := None\<rparr>) s)"

text \<open>\<open>que_thr_stop\<close>: whether the query thread has a reason to stop, and the state it then gets.\<close>

definition que_thr_stop :: "thr_ptr \<Rightarrow> lock_sys \<Rightarrow> bool \<times> lock_sys" where
  "que_thr_stop p s =
     (let thr = thrs s p; trx = thr_trx thr;
          set_state = (\<lambda>st s. s\<lparr>thrs := (thrs s)(p := thr\<lparr>thr_status := st\<rparr>)\<rparr>)
      in if graph_command_wait thr then (True, set_state QUE_THR_SUSPENDED s)
         else if trx_que_state (trxs s trx) = TRX_QUE_LOCK_WAIT then
           (True, set_state QUE_THR_LOCK_WAIT (upd_ltrx trx (\<lambda>t. t\<lparr>wait_thrs := p # wait_thrs t\<rparr>) s))
         else if trx_error (trxs s trx) then (True, set_state QUE_THR_COMPLETED s)
         else if 0 < trx_n_signals (trxs s trx) \<and> \<not> fork_is_rollback thr then
           (True, set_state QUE_THR_SUSPENDED s)
         else (False, s))"

text \<open>
  \<open>trx_end_lock_wait\<close>: every waiting thread of the transaction must be in the lock wait state, is
  put back to running (\<open>que_thr_end_wait_no_next_thr\<close>, which then sets the event its MySQL thread
  waits on) and leaves the list.
\<close>

definition que_thr_end_wait_no_next_thr :: "thr_ptr \<Rightarrow> lock_sys \<Rightarrow> lock_sys option" where
  "que_thr_end_wait_no_next_thr p s =
     (if thr_status (thrs s p) = QUE_THR_LOCK_WAIT
      then Some (s\<lparr>thrs := (thrs s)(p := (thrs s p)\<lparr>thr_status := QUE_THR_RUNNING\<rparr>)\<rparr>)
      else None)"

fun end_wait_loop :: "trx_ptr \<Rightarrow> thr_ptr list \<Rightarrow> lock_sys \<Rightarrow> lock_sys option" where
  "end_wait_loop trx [] s = Some s"
| "end_wait_loop trx (p # ps) s =
     (case que_thr_end_wait_no_next_thr p s of
        None \<Rightarrow> None
      | Some s1 \<Rightarrow> end_wait_loop trx ps (upd_ltrx trx (\<lambda>t. t\<lparr>wait_thrs := ps\<rparr>) s1))"

definition trx_end_lock_wait :: "trx_ptr \<Rightarrow> lock_sys \<Rightarrow> lock_sys option" where
  "trx_end_lock_wait trx s =
     map_option (upd_ltrx trx (\<lambda>t. t\<lparr>trx_que_state := TRX_QUE_RUNNING\<rparr>))
       (end_wait_loop trx (wait_thrs (trxs s trx)) s)"

definition trx_register_new_rec_lock :: "trx_ptr \<Rightarrow> index_ptr \<Rightarrow> lock_sys \<Rightarrow> lock_sys" where
  "trx_register_new_rec_lock trx index s =
     (case new_rec_locks (trxs s trx) of
        (None, b) \<Rightarrow> upd_ltrx trx (\<lambda>t. t\<lparr>new_rec_locks := (Some index, b)\<rparr>) s
      | (Some a, b) \<Rightarrow>
          if a = index then s
          else if b \<noteq> None then s
          else upd_ltrx trx (\<lambda>t. t\<lparr>new_rec_locks := (Some a, Some index)\<rparr>) s)"

definition TRX_WEIGHT :: "ltrx \<Rightarrow> dulint" where
  "TRX_WEIGHT t = ut_dulint_add (trx_undo_no t) (of_nat (length (trx_locks t)))"

definition trx_weight_cmp :: "ltrx \<Rightarrow> ltrx \<Rightarrow> int" where
  "trx_weight_cmp a b =
     (if notrans_edit a \<and> \<not> notrans_edit b then 1
      else if \<not> notrans_edit a \<and> notrans_edit b then -1
      else ut_dulint_cmp (TRX_WEIGHT a) (TRX_WEIGHT b))"

section \<open>Queues\<close>

text \<open>
  The locks that \<open>lock_rec_get_first\<close> and \<open>lock_rec_get_next\<close> walk through, and those that
  \<open>lock_rec_get_first_on_page\<close> and \<open>lock_rec_get_next_on_page\<close> do.
\<close>

definition page_queue :: "ulint \<Rightarrow> ulint \<Rightarrow> lock_sys \<Rightarrow> lock_ptr list" where
  "page_queue space page_no s = filter (on_page s space page_no) (chain space page_no s)"

definition rec_queue :: "ulint \<Rightarrow> ulint \<Rightarrow> nat \<Rightarrow> lock_sys \<Rightarrow> lock_ptr list" where
  "rec_queue space page_no heap_no s =
     filter (\<lambda>l. lock_rec_get_nth_bit (lock_at s l) heap_no) (page_queue space page_no s)"

text \<open>
  A \<open>while (lock != NULL)\<close> loop whose body may change the state: the next lock is looked up in the
  state the body leaves. In the second form it is looked up before the body.
\<close>

partial_function (option) each_lock ::
    "(lock_sys \<Rightarrow> lock_ptr \<Rightarrow> lock_ptr option) \<Rightarrow> (lock_ptr \<Rightarrow> lock_sys \<Rightarrow> lock_sys option) \<Rightarrow>
     lock_ptr option \<Rightarrow> lock_sys \<Rightarrow> lock_sys option" where
  [code]: "each_lock nxt body cur s =
     (case cur of
        None \<Rightarrow> Some s
      | Some l \<Rightarrow> Option.bind (body l s) (\<lambda>s1. each_lock nxt body (nxt s1 l) s1))"

partial_function (option) each_lock_safe ::
    "(lock_sys \<Rightarrow> lock_ptr \<Rightarrow> lock_ptr option) \<Rightarrow> (lock_ptr \<Rightarrow> lock_sys \<Rightarrow> lock_sys option) \<Rightarrow>
     lock_ptr option \<Rightarrow> lock_sys \<Rightarrow> lock_sys option" where
  [code]: "each_lock_safe nxt body cur s =
     (case cur of
        None \<Rightarrow> Some s
      | Some l \<Rightarrow> (let next_lock = nxt s l
                   in Option.bind (body l s) (\<lambda>s1. each_lock_safe nxt body next_lock s1)))"

subsection \<open>Looking at a record's queue\<close>

definition blk_queue :: "buf_block \<Rightarrow> nat \<Rightarrow> lock_sys \<Rightarrow> lock_ptr list" where
  "blk_queue block heap_no s = rec_queue (blk_space block) (blk_page_no block) heap_no s"

definition lock_rec_has_expl :: "ulint \<Rightarrow> buf_block \<Rightarrow> nat \<Rightarrow> trx_ptr \<Rightarrow> lock_sys \<Rightarrow> lock_ptr option" where
  "lock_rec_has_expl precise_mode block heap_no trx s =
     find (\<lambda>l. let lock = lock_at s l in
         lk_trx lock = trx
         \<and> lock_mode_stronger_or_eq (lock_get_mode lock) (tm_mode precise_mode)
         \<and> \<not> lock_get_wait lock
         \<and> (\<not> lock_rec_get_rec_not_gap lock \<or> tm_rec_not_gap precise_mode
            \<or> heap_no = PAGE_HEAP_NO_SUPREMUM)
         \<and> (\<not> lock_rec_get_gap lock \<or> tm_gap precise_mode \<or> heap_no = PAGE_HEAP_NO_SUPREMUM)
         \<and> \<not> lock_rec_get_insert_intention lock)
       (blk_queue block heap_no s)"

definition lock_rec_other_has_expl_req ::
    "ulint \<Rightarrow> bool \<Rightarrow> bool \<Rightarrow> buf_block \<Rightarrow> nat \<Rightarrow> trx_ptr option \<Rightarrow> lock_sys \<Rightarrow> lock_ptr option" where
  "lock_rec_other_has_expl_req mode gap wait block heap_no trx s =
     find (\<lambda>l. let lock = lock_at s l in
         Some (lk_trx lock) \<noteq> trx
         \<and> (gap \<or> \<not> (lock_rec_get_gap lock \<or> heap_no = PAGE_HEAP_NO_SUPREMUM))
         \<and> (wait \<or> \<not> lock_get_wait lock)
         \<and> lock_mode_stronger_or_eq (lock_get_mode lock) mode)
       (blk_queue block heap_no s)"

definition lock_rec_other_has_conflicting ::
    "ulint \<Rightarrow> buf_block \<Rightarrow> nat \<Rightarrow> trx_ptr \<Rightarrow> lock_sys \<Rightarrow> lock_ptr option" where
  "lock_rec_other_has_conflicting mode block heap_no trx s =
     find (\<lambda>l. lock_rec_has_to_wait trx mode (lock_at s l) (heap_no = PAGE_HEAP_NO_SUPREMUM))
       (blk_queue block heap_no s)"

text \<open>The search starts at the lock it is given: the first on the page.\<close>

definition lock_rec_find_similar_on_page ::
    "ulint \<Rightarrow> nat \<Rightarrow> buf_block \<Rightarrow> trx_ptr \<Rightarrow> lock_sys \<Rightarrow> lock_ptr option" where
  "lock_rec_find_similar_on_page tm heap_no block trx s =
     find (\<lambda>l. let lock = lock_at s l in
         lk_trx lock = trx \<and> type_mode lock = tm \<and> heap_no < lock_rec_get_n_bits lock)
       (page_queue (blk_space block) (blk_page_no block) s)"

section \<open>Creating record locks\<close>

definition new_rec_lock :: "ulint \<Rightarrow> buf_block \<Rightarrow> nat \<Rightarrow> index_ptr \<Rightarrow> trx_ptr \<Rightarrow> lock" where
  "new_rec_lock tm block heap_no index trx =
     (let n_bits = blk_n_heap block + LOCK_PAGE_BITMAP_MARGIN;
          n_bytes = 1 + n_bits div 8
      in lock_rec_set_nth_bit heap_no (lock_rec_bitmap_reset
        \<lparr>lk_trx = trx, type_mode = (tm AND NOT LOCK_TYPE_MASK) OR LOCK_REC, lk_index = index, lk_table = 0,
         lk_space = blk_space block, lk_page_no = blk_page_no block, lk_n_bits = n_bytes * 8,
         lk_bitmap = []\<rparr>))"

definition lock_rec_create ::
    "ulint \<Rightarrow> buf_block \<Rightarrow> nat \<Rightarrow> index_ptr \<Rightarrow> trx_ptr \<Rightarrow> lock_sys \<Rightarrow> lock_ptr \<times> lock_sys" where
  "lock_rec_create tm0 block heap_no index trx s =
     (let tm = (if heap_no = PAGE_HEAP_NO_SUPREMUM then tm0 AND NOT (LOCK_GAP OR LOCK_REC_NOT_GAP) else tm0);
          l = lock_brk s;
          s1 = s\<lparr>lock_brk := Suc l, lock_at := (lock_at s)(l := new_rec_lock tm block heap_no index trx)\<rparr>;
          s2 = upd_ltrx trx (\<lambda>t. t\<lparr>trx_locks := trx_locks t @ [l]\<rparr>) s1;
          s3 = HASH_INSERT (lock_rec_fold (blk_space block) (blk_page_no block)) l s2
      in (l, if tm_wait tm then lock_set_lock_and_trx_wait l trx s3 else s3))"

definition lock_rec_add_to_queue ::
    "ulint \<Rightarrow> buf_block \<Rightarrow> nat \<Rightarrow> index_ptr \<Rightarrow> trx_ptr \<Rightarrow> lock_sys \<Rightarrow> lock_ptr \<times> lock_sys" where
  "lock_rec_add_to_queue tm0 block heap_no index trx s =
     (let tm1 = tm0 OR LOCK_REC;
          tm = (if heap_no = PAGE_HEAP_NO_SUPREMUM then tm1 AND NOT (LOCK_GAP OR LOCK_REC_NOT_GAP) else tm1);
          somebody_waits = (\<exists>l \<in> set (page_queue (blk_space block) (blk_page_no block) s).
            lock_get_wait (lock_at s l) \<and> lock_rec_get_nth_bit (lock_at s l) heap_no)
      in if \<not> somebody_waits \<and> \<not> tm_wait tm then
           (case lock_rec_find_similar_on_page tm heap_no block trx s of
              Some l \<Rightarrow> (l, upd_lock l (lock_rec_set_nth_bit heap_no) s)
            | None \<Rightarrow> lock_rec_create tm block heap_no index trx s)
         else lock_rec_create tm block heap_no index trx s)"

end
