(* ===== verification/LockQueue.thy ===== *)
theory LockQueue imports LockSys begin

text \<open>
  Lock queues (lock/lock0lock.c): granting, cancelling and dequeueing of record and table locks,
  the release of a transaction's locks, the deadlock search with its victims, and the enqueueing
  of waiting requests. Searches return what they changed together with their result; \<open>None\<close> is a
  failed assertion or a loop that does not end.
\<close>

section \<open>Granting and dequeueing\<close>

fun ahead_conflict :: "lock_sys \<Rightarrow> ulint \<Rightarrow> ulint \<Rightarrow> lock_ptr \<Rightarrow> nat \<Rightarrow> lock_ptr list \<Rightarrow> bool" where
  "ahead_conflict s space page_no w heap_no [] = False"
| "ahead_conflict s space page_no w heap_no (l # ls) =
     (if \<not> on_page s space page_no l then ahead_conflict s space page_no w heap_no ls
      else if l = w then False
      else if lock_rec_get_nth_bit (lock_at s l) heap_no \<and> lock_has_to_wait (lock_at s w) (lock_at s l)
      then True
      else ahead_conflict s space page_no w heap_no ls)"

definition lock_rec_has_to_wait_in_queue :: "lock_ptr \<Rightarrow> lock_sys \<Rightarrow> bool" where
  "lock_rec_has_to_wait_in_queue w s =
     (let space = lk_space (lock_at s w); page_no = lk_page_no (lock_at s w)
      in case lock_rec_find_set_bit (lock_at s w) of
           None \<Rightarrow> False
         | Some heap_no \<Rightarrow> ahead_conflict s space page_no w heap_no (chain space page_no s))"

definition lock_grant :: "lock_ptr \<Rightarrow> lock_sys \<Rightarrow> lock_sys option" where
  "lock_grant l s =
     (let trx = lk_trx (lock_at s l);
          s1 = lock_reset_lock_and_trx_wait l s;
          s2 = (if lock_get_mode (lock_at s1 l) = LOCK_AUTO_INC
                then upd_ltrx trx (\<lambda>t. t\<lparr>auto_inc_lock := Some l\<rparr>) s1 else s1)
      in if trx_que_state (trxs s2 trx) = TRX_QUE_LOCK_WAIT then trx_end_lock_wait trx s2 else Some s2)"

definition lock_rec_cancel :: "lock_ptr \<Rightarrow> lock_sys \<Rightarrow> lock_sys option" where
  "lock_rec_cancel l s =
     (case lock_rec_find_set_bit (lock_at s l) of
        None \<Rightarrow> None
      | Some i \<Rightarrow>
          trx_end_lock_wait (lk_trx (lock_at s l))
            (lock_reset_lock_and_trx_wait l (upd_lock l (lock_rec_reset_nth_bit i) s)))"

text \<open>The body of the loops that grant what can be granted.\<close>

definition grant_if_free :: "lock_ptr \<Rightarrow> lock_sys \<Rightarrow> lock_sys option" where
  "grant_if_free l s =
     (if lock_get_wait (lock_at s l) \<and> \<not> lock_rec_has_to_wait_in_queue l s then lock_grant l s
      else Some s)"

definition lock_rec_discard :: "lock_ptr \<Rightarrow> lock_sys \<Rightarrow> lock_sys option" where
  "lock_rec_discard l s =
     (let lock = lock_at s l in
      map_option (upd_ltrx (lk_trx lock) (\<lambda>t. t\<lparr>trx_locks := remove1 l (trx_locks t)\<rparr>))
        (HASH_DELETE (lock_rec_fold (lk_space lock) (lk_page_no lock)) l s))"

definition lock_rec_dequeue_from_page :: "lock_ptr \<Rightarrow> lock_sys \<Rightarrow> lock_sys option" where
  "lock_rec_dequeue_from_page in_lock s =
     (let lock = lock_at s in_lock; space = lk_space lock; page_no = lk_page_no lock in
      case HASH_DELETE (lock_rec_fold space page_no) in_lock s of
        None \<Rightarrow> None
      | Some s1 \<Rightarrow>
          let s2 = upd_ltrx (lk_trx lock) (\<lambda>t. t\<lparr>trx_locks := remove1 in_lock (trx_locks t)\<rparr>) s1
          in each_lock lock_rec_get_next_on_page grant_if_free
               (lock_rec_get_first_on_page_addr space page_no s2) s2)"

definition lock_rec_free_all_from_discard_page :: "buf_block \<Rightarrow> lock_sys \<Rightarrow> lock_sys option" where
  "lock_rec_free_all_from_discard_page block s =
     each_lock_safe lock_rec_get_next_on_page lock_rec_discard
       (lock_rec_get_first_on_page_addr (blk_space block) (blk_page_no block) s) s"

section \<open>Table queues\<close>

definition lock_table_has :: "trx_ptr \<Rightarrow> table_ptr \<Rightarrow> ulint \<Rightarrow> lock_sys \<Rightarrow> lock_ptr option" where
  "lock_table_has trx table mode s =
     find (\<lambda>l. lk_trx (lock_at s l) = trx \<and> lock_mode_stronger_or_eq (lock_get_mode (lock_at s l)) mode)
       (rev (tab_locks (tabs s table)))"

definition lock_table_other_has_incompatible ::
    "trx_ptr option \<Rightarrow> bool \<Rightarrow> table_ptr \<Rightarrow> ulint \<Rightarrow> lock_sys \<Rightarrow> bool" where
  "lock_table_other_has_incompatible trx wait table mode s \<longleftrightarrow>
     (\<exists>l \<in> set (rev (tab_locks (tabs s table))).
        Some (lk_trx (lock_at s l)) \<noteq> trx
        \<and> \<not> lock_mode_compatible (lock_get_mode (lock_at s l)) mode
        \<and> (wait \<or> \<not> lock_get_wait (lock_at s l)))"

text \<open>
  \<open>lock_table_create\<close>: a granted AUTO-INC lock lives in the table's preallocated buffer, any other
  in the transaction's lock heap.
\<close>

definition lock_table_create :: "table_ptr \<Rightarrow> ulint \<Rightarrow> trx_ptr \<Rightarrow> lock_sys \<Rightarrow> (lock_ptr \<times> lock_sys) option" where
  "lock_table_create table tm trx s =
     (let s1 = (if tm_mode tm = LOCK_AUTO_INC
                then upd_tab table (\<lambda>t. t\<lparr>n_waiting_or_granted_auto_inc_locks :=
                       n_waiting_or_granted_auto_inc_locks t + 1\<rparr>) s
                else s);
          alloc = (if tm = LOCK_AUTO_INC then
                     let l = tab_auto_inc_buf (tabs s1 table) in
                     if auto_inc_lock (trxs s1 trx) = None
                     then Some (l, upd_ltrx trx (\<lambda>t. t\<lparr>auto_inc_lock := Some l\<rparr>) s1)
                     else None
                   else Some (lock_brk s1, s1\<lparr>lock_brk := Suc (lock_brk s1)\<rparr>))
      in case alloc of
           None \<Rightarrow> None
         | Some (l, s2) \<Rightarrow>
             let s3 = upd_ltrx trx (\<lambda>t. t\<lparr>trx_locks := trx_locks t @ [l]\<rparr>) s2;
                 s4 = upd_lock l (\<lambda>k. k\<lparr>type_mode := tm OR LOCK_TABLE, lk_trx := trx, lk_table := table\<rparr>) s3;
                 s5 = upd_tab table (\<lambda>t. t\<lparr>tab_locks := tab_locks t @ [l]\<rparr>) s4
             in Some (l, if tm_wait tm then lock_set_lock_and_trx_wait l trx s5 else s5))"

definition lock_table_remove_low :: "lock_ptr \<Rightarrow> lock_sys \<Rightarrow> lock_sys option" where
  "lock_table_remove_low l s =
     (let table = lk_table (lock_at s l); trx = lk_trx (lock_at s l);
          counted = (if Some l = auto_inc_lock (trxs s trx) then
              let s1 = upd_ltrx trx (\<lambda>t. t\<lparr>auto_inc_lock := None\<rparr>) s in
              if n_waiting_or_granted_auto_inc_locks (tabs s1 table) > 0
              then Some (upd_tab table (\<lambda>t. t\<lparr>n_waiting_or_granted_auto_inc_locks :=
                     n_waiting_or_granted_auto_inc_locks t - 1\<rparr>) s1)
              else None
            else Some s)
      in map_option (\<lambda>s1. upd_tab table (\<lambda>t. t\<lparr>tab_locks := remove1 l (tab_locks t)\<rparr>)
           (upd_ltrx trx (\<lambda>t. t\<lparr>trx_locks := remove1 l (trx_locks t)\<rparr>) s1)) counted)"

fun table_ahead_conflict :: "lock_sys \<Rightarrow> lock_ptr \<Rightarrow> lock_ptr list \<Rightarrow> bool" where
  "table_ahead_conflict s w [] = False"
| "table_ahead_conflict s w (l # ls) =
     (if l = w then False
      else if lock_has_to_wait (lock_at s w) (lock_at s l) then True
      else table_ahead_conflict s w ls)"

definition lock_table_has_to_wait_in_queue :: "lock_ptr \<Rightarrow> lock_sys \<Rightarrow> bool" where
  "lock_table_has_to_wait_in_queue w s =
     table_ahead_conflict s w (tab_locks (tabs s (lk_table (lock_at s w))))"

definition table_next :: "lock_sys \<Rightarrow> lock_ptr \<Rightarrow> lock_ptr option" where
  "table_next s l =
     (case nodes_after l (tab_locks (tabs s (lk_table (lock_at s l)))) of
        [] \<Rightarrow> None | n # ns \<Rightarrow> Some n)"

definition table_grant_if_free :: "lock_ptr \<Rightarrow> lock_sys \<Rightarrow> lock_sys option" where
  "table_grant_if_free l s =
     (if lock_get_wait (lock_at s l) \<and> \<not> lock_table_has_to_wait_in_queue l s then lock_grant l s
      else Some s)"

definition lock_table_dequeue :: "lock_ptr \<Rightarrow> lock_sys \<Rightarrow> lock_sys option" where
  "lock_table_dequeue in_lock s =
     (if lock_get_type_low (lock_at s in_lock) = LOCK_TABLE then
        let lock = table_next s in_lock
        in Option.bind (lock_table_remove_low in_lock s) (each_lock table_next table_grant_if_free lock)
      else None)"

section \<open>Release\<close>

text \<open>
  \<open>lock_rec_unlock\<close>: the last lock of that mode the transaction has on the record; none of its
  locks of the mode may be waiting. Without one an error is printed and nothing changes.
\<close>

definition lock_rec_unlock :: "trx_ptr \<Rightarrow> buf_block \<Rightarrow> nat \<Rightarrow> ulint \<Rightarrow> lock_sys \<Rightarrow> lock_sys option" where
  "lock_rec_unlock trx block heap_no mode s =
     (let mine = filter (\<lambda>l. lk_trx (lock_at s l) = trx \<and> lock_get_mode (lock_at s l) = mode)
                   (blk_queue block heap_no s)
      in if \<exists>l \<in> set mine. lock_get_wait (lock_at s l) then None
         else if mine = [] then Some s
         else let s1 = upd_lock (last mine) (lock_rec_reset_nth_bit heap_no) s
              in each_lock (lock_rec_get_next heap_no) grant_if_free (lock_rec_get_first block heap_no s1) s1)"

definition lock_table_unlock :: "lock_ptr \<Rightarrow> lock_sys \<Rightarrow> lock_sys option" where
  "lock_table_unlock l s = lock_table_dequeue l s"

definition lock_table_unlock_auto_inc :: "trx_ptr \<Rightarrow> lock_sys \<Rightarrow> lock_sys option" where
  "lock_table_unlock_auto_inc trx s =
     (case auto_inc_lock (trxs s trx) of None \<Rightarrow> Some s | Some l \<Rightarrow> lock_table_dequeue l s)"

text \<open>One lock of \<open>lock_release_off_kernel\<close>'s loop, which takes the last of the list each time.\<close>

definition release_one :: "trx_ptr \<Rightarrow> lock_ptr \<Rightarrow> lock_sys \<Rightarrow> lock_sys option" where
  "release_one trx l s =
     (if lock_get_type_low (lock_at s l) = LOCK_REC then lock_rec_dequeue_from_page l s
      else let s1 = (if lock_get_mode (lock_at s l) \<noteq> LOCK_IS
                        \<and> \<not> ut_dulint_is_zero (trx_undo_no (trxs s trx))
                     then upd_tab (lk_table (lock_at s l))
                            (\<lambda>t. t\<lparr>query_cache_inv_trx_id := ls_max_trx_id s\<rparr>) s
                     else s)
           in lock_table_dequeue l s1)"

partial_function (option) release_loop :: "trx_ptr \<Rightarrow> lock_sys \<Rightarrow> lock_sys option" where
  [code]: "release_loop trx s =
     (if trx_locks (trxs s trx) = [] then Some s
      else Option.bind (release_one trx (last (trx_locks (trxs s trx))) s) (release_loop trx))"

definition lock_release_off_kernel :: "trx_ptr \<Rightarrow> lock_sys \<Rightarrow> lock_sys option" where
  "lock_release_off_kernel trx s =
     Option.bind (release_loop trx s)
       (\<lambda>s1. if auto_inc_lock (trxs s1 trx) = None then Some s1 else None)"

definition lock_cancel_waiting_and_release :: "lock_ptr \<Rightarrow> lock_sys \<Rightarrow> lock_sys option" where
  "lock_cancel_waiting_and_release l s =
     Option.bind
       (if lock_get_type_low (lock_at s l) = LOCK_REC then lock_rec_dequeue_from_page l s
        else lock_table_dequeue l s)
       (\<lambda>s1. trx_end_lock_wait (lk_trx (lock_at s1 l)) (lock_reset_lock_and_trx_wait l s1))"

text \<open>\<open>lock_reset_all_on_table_for_trx\<close> takes the previous lock of the list before it removes one.\<close>

fun reset_all_loop :: "table_ptr \<Rightarrow> lock_ptr list \<Rightarrow> lock_sys \<Rightarrow> lock_sys option" where
  "reset_all_loop table [] s = Some s"
| "reset_all_loop table (l # ls) s =
     (let lock = lock_at s l in
      if lock_get_type_low lock = LOCK_REC \<and> index_table s (lk_index lock) = table then
        (if lock_get_wait lock then None
         else Option.bind (lock_rec_discard l s) (reset_all_loop table ls))
      else if lock_get_type_low lock AND LOCK_TABLE \<noteq> 0 \<and> lk_table lock = table then
        (if lock_get_wait lock then None
         else Option.bind (lock_table_remove_low l s) (reset_all_loop table ls))
      else reset_all_loop table ls s)"

definition lock_reset_all_on_table_for_trx :: "table_ptr \<Rightarrow> trx_ptr \<Rightarrow> lock_sys \<Rightarrow> lock_sys option" where
  "lock_reset_all_on_table_for_trx table trx s = reset_all_loop table (rev (trx_locks (trxs s trx))) s"

partial_function (option) lock_reset_all_on_table :: "table_ptr \<Rightarrow> lock_sys \<Rightarrow> lock_sys option" where
  [code]: "lock_reset_all_on_table table s =
     (case tab_locks (tabs s table) of
        [] \<Rightarrow> Some s
      | l # ls \<Rightarrow>
          if lock_get_wait (lock_at s l) then None
          else Option.bind (lock_reset_all_on_table_for_trx table (lk_trx (lock_at s l)) s)
                 (lock_reset_all_on_table table))"

section \<open>The deadlock search\<close>

datatype deadlock_ret = NO_DEADLOCK | LOCK_VICTIM_IS_START | LOCK_VICTIM_IS_OTHER

definition LOCK_MAX_N_STEPS_IN_DEADLOCK_CHECK :: nat where "LOCK_MAX_N_STEPS_IN_DEADLOCK_CHECK = 1000000"
definition LOCK_MAX_DEPTH_IN_DEADLOCK_CHECK :: nat where "LOCK_MAX_DEPTH_IN_DEADLOCK_CHECK = 200"

text \<open>
  The locks the search looks at: those ahead of a lock in its queue, nearest first, which is the
  order \<open>lock_rec_get_prev\<close> and \<open>UT_LIST_GET_PREV\<close> give. The search changes only marks and its
  cost until it returns a victim, so the list is taken once.
\<close>

definition locks_ahead :: "lock_sys \<Rightarrow> lock_ptr \<Rightarrow> lock_ptr list" where
  "locks_ahead s w =
     (let lock = lock_at s w in
      if lock_get_type_low lock AND LOCK_TABLE \<noteq> 0 then
        rev (takeWhile (\<lambda>l. l \<noteq> w) (tab_locks (tabs s (lk_table lock))))
      else case lock_rec_find_set_bit lock of
             None \<Rightarrow> []
           | Some bit_no \<Rightarrow>
               rev (filter (\<lambda>l. lock_rec_get_nth_bit (lock_at s l) bit_no)
                 (takeWhile (\<lambda>l. l \<noteq> w) (page_queue (lk_space lock) (lk_page_no lock) s))))"

text \<open>
  \<open>lock_deadlock_recursive\<close> and its loop over the locks ahead. Past the depth limit the loop
  returns without recursing, which bounds the recursion.
\<close>

function (sequential) lock_deadlock_recursive ::
    "trx_ptr \<Rightarrow> trx_ptr \<Rightarrow> lock_ptr option \<Rightarrow> nat \<Rightarrow> nat \<Rightarrow> lock_sys \<Rightarrow> (deadlock_ret \<times> nat \<times> lock_sys) option"
  and deadlock_scan ::
    "trx_ptr \<Rightarrow> trx_ptr \<Rightarrow> lock_ptr \<Rightarrow> lock_ptr list \<Rightarrow> nat \<Rightarrow> nat \<Rightarrow> lock_sys \<Rightarrow> (deadlock_ret \<times> nat \<times> lock_sys) option"
where
  "lock_deadlock_recursive start trx None cost depth s = None"
| "lock_deadlock_recursive start trx (Some wl) cost depth s =
     (if deadlock_mark (trxs s trx) then Some (NO_DEADLOCK, cost, s)
      else if lock_get_type_low (lock_at s wl) = LOCK_REC \<and> lock_rec_find_set_bit (lock_at s wl) = None
      then None
      else deadlock_scan start trx wl (locks_ahead s wl) (cost + 1) depth s)"
| "deadlock_scan start trx wl [] cost depth s =
     Some (NO_DEADLOCK, cost, upd_ltrx trx (\<lambda>t. t\<lparr>deadlock_mark := True\<rparr>) s)"
| "deadlock_scan start trx wl (l # ls) cost depth s =
     (if lock_has_to_wait (lock_at s wl) (lock_at s l) then
        let too_far = (depth > LOCK_MAX_DEPTH_IN_DEADLOCK_CHECK \<or> cost > LOCK_MAX_N_STEPS_IN_DEADLOCK_CHECK);
            lock_trx = lk_trx (lock_at s l);
            victim = lk_trx (lock_at s wl)
        in if lock_trx = start \<or> too_far then
             if too_far then Some (LOCK_VICTIM_IS_START, cost, s)
             else if trx_weight_cmp (trxs s victim) (trxs s start) \<ge> 0 then Some (LOCK_VICTIM_IS_START, cost, s)
             else map_option (\<lambda>s1. (LOCK_VICTIM_IS_OTHER, cost, s1))
                    (lock_cancel_waiting_and_release wl
                      (upd_ltrx victim (\<lambda>t. t\<lparr>was_chosen_as_deadlock_victim := True\<rparr>) s))
           else if trx_que_state (trxs s lock_trx) = TRX_QUE_LOCK_WAIT then
             (case lock_deadlock_recursive start lock_trx (wait_lock (trxs s lock_trx)) cost (depth + 1) s of
                None \<Rightarrow> None
              | Some (ret, cost1, s1) \<Rightarrow>
                  if ret \<noteq> NO_DEADLOCK then Some (ret, cost1, s1)
                  else deadlock_scan start trx wl ls cost1 depth s1)
           else deadlock_scan start trx wl ls cost depth s
      else deadlock_scan start trx wl ls cost depth s)"
  by pat_completeness auto

termination
proof (relation "measures
    [\<lambda>x. case x of Inl (_, _, _, _, depth, _) \<Rightarrow> 202 - depth | Inr (_, _, _, _, _, depth, _) \<Rightarrow> 202 - depth,
     \<lambda>x. case x of Inl _ \<Rightarrow> 1 | Inr _ \<Rightarrow> 0,
     \<lambda>x. case x of Inl _ \<Rightarrow> 0 | Inr (_, _, _, ls, _, _, _) \<Rightarrow> length ls]", goal_cases)
qed (auto simp: LOCK_MAX_DEPTH_IN_DEADLOCK_CHECK_def)

fun reset_marks :: "trx_ptr list \<Rightarrow> lock_sys \<Rightarrow> lock_sys" where
  "reset_marks [] s = s"
| "reset_marks (t # ts) s = reset_marks ts (upd_ltrx t (\<lambda>k. k\<lparr>deadlock_mark := False\<rparr>) s)"

text \<open>The search is repeated while it chose another victim; its cost is not reset.\<close>

partial_function (option) deadlock_retry ::
    "lock_ptr \<Rightarrow> trx_ptr \<Rightarrow> nat \<Rightarrow> lock_sys \<Rightarrow> (bool \<times> lock_sys) option" where
  [code]: "deadlock_retry l trx cost s =
     Option.bind (lock_deadlock_recursive trx trx (Some l) cost 0 (reset_marks (ls_trx_list s) s))
       (\<lambda>(ret, cost1, s1).
          if ret = LOCK_VICTIM_IS_OTHER then deadlock_retry l trx cost1 s1
          else Some (ret = LOCK_VICTIM_IS_START, s1))"

definition lock_deadlock_occurs :: "lock_ptr \<Rightarrow> trx_ptr \<Rightarrow> lock_sys \<Rightarrow> (bool \<times> lock_sys) option" where
  "lock_deadlock_occurs l trx s = deadlock_retry l trx 0 s"

section \<open>Enqueueing a waiting request\<close>

datatype db_err = DB_SUCCESS | DB_LOCK_WAIT | DB_DEADLOCK | DB_QUE_THR_SUSPENDED

text \<open>
  The tail the two enqueue functions share: the request was taken away as a deadlock victim, was
  granted while another victim was rolled back, or now waits.
\<close>

definition suspend_for_lock :: "thr_ptr \<Rightarrow> lock_sys \<Rightarrow> (db_err \<times> lock_sys) option" where
  "suspend_for_lock thr s =
     (let trx = thr_trx (thrs s thr) in
      if wait_lock (trxs s trx) = None then Some (DB_SUCCESS, s)
      else let s1 = upd_ltrx trx (\<lambda>t. t\<lparr>trx_que_state := TRX_QUE_LOCK_WAIT,
                          was_chosen_as_deadlock_victim := False\<rparr>) s
           in case que_thr_stop thr s1 of (stopped, s2) \<Rightarrow> if stopped then Some (DB_LOCK_WAIT, s2) else None)"

definition lock_rec_enqueue_waiting ::
    "ulint \<Rightarrow> buf_block \<Rightarrow> nat \<Rightarrow> index_ptr \<Rightarrow> thr_ptr \<Rightarrow> lock_sys \<Rightarrow> (db_err \<times> lock_sys) option" where
  "lock_rec_enqueue_waiting tm block heap_no index thr s =
     (if fst (que_thr_stop thr s) then None
      else let trx = thr_trx (thrs s thr) in
        case lock_rec_create (tm OR LOCK_WAIT) block heap_no index trx s of (l, s1) \<Rightarrow>
          (case lock_deadlock_occurs l trx s1 of
             None \<Rightarrow> None
           | Some (deadlock, s2) \<Rightarrow>
               if deadlock then
                 Some (DB_DEADLOCK, upd_lock l (lock_rec_reset_nth_bit heap_no) (lock_reset_lock_and_trx_wait l s2))
               else suspend_for_lock thr s2))"

definition lock_table_enqueue_waiting ::
    "ulint \<Rightarrow> table_ptr \<Rightarrow> thr_ptr \<Rightarrow> lock_sys \<Rightarrow> (db_err \<times> lock_sys) option" where
  "lock_table_enqueue_waiting mode table thr s =
     (if fst (que_thr_stop thr s) then None
      else let trx = thr_trx (thrs s thr) in
        case lock_table_create table (mode OR LOCK_WAIT) trx s of
          None \<Rightarrow> None
        | Some (l, s1) \<Rightarrow>
          (case lock_deadlock_occurs l trx s1 of
             None \<Rightarrow> None
           | Some (deadlock, s2) \<Rightarrow>
               if deadlock then
                 map_option (\<lambda>s3. (DB_DEADLOCK, s3)) (lock_table_remove_low l (lock_reset_lock_and_trx_wait l s2))
               else suspend_for_lock thr s2))"

text \<open>\<open>lock_table\<close>; the flags may only be the one that turns locking off.\<close>

definition lock_table :: "bool \<Rightarrow> table_ptr \<Rightarrow> ulint \<Rightarrow> thr_ptr \<Rightarrow> lock_sys \<Rightarrow> (db_err \<times> lock_sys) option" where
  "lock_table no_locking table mode thr s =
     (if no_locking then Some (DB_SUCCESS, s)
      else let trx = thr_trx (thrs s thr) in
        if lock_table_has trx table mode s \<noteq> None then Some (DB_SUCCESS, s)
        else if lock_table_other_has_incompatible (Some trx) True table mode s
        then lock_table_enqueue_waiting mode table thr s
        else map_option (\<lambda>(l, s1). (DB_SUCCESS, s1)) (lock_table_create table mode trx s))"

end
