(* ===== verification/LockRec.thy ===== *)
theory LockRec imports LockQueue begin

text \<open>
  Locking records (lock/lock0lock.c): the fast and the general path of \<open>lock_rec_lock\<close>, the
  checks the row operations call, and the moving and inheriting of locks when records and pages
  move. What the page layer provides comes in as arguments: heap numbers of records, the record
  list of a page as a list of heap numbers, and the transaction that holds an implicit lock.
\<close>

section \<open>Locking a record\<close>

definition unsafe_or_read_committed :: "trx_ptr \<Rightarrow> lock_sys \<Rightarrow> bool" where
  "unsafe_or_read_committed trx s \<longleftrightarrow>
     srv_locks_unsafe_for_binlog s \<or> trx_isolation (trxs s trx) = TRX_ISO_READ_COMMITTED"

definition register_if_unsafe :: "trx_ptr \<Rightarrow> index_ptr \<Rightarrow> lock_sys \<Rightarrow> lock_sys" where
  "register_if_unsafe trx index s =
     (if unsafe_or_read_committed trx s then trx_register_new_rec_lock trx index s else s)"

definition lock_rec_lock_fast ::
    "bool \<Rightarrow> ulint \<Rightarrow> buf_block \<Rightarrow> nat \<Rightarrow> index_ptr \<Rightarrow> thr_ptr \<Rightarrow> lock_sys \<Rightarrow> bool \<times> lock_sys" where
  "lock_rec_lock_fast impl mode block heap_no index thr s =
     (let trx = thr_trx (thrs s thr) in
      case lock_rec_get_first_on_page block s of
        None \<Rightarrow>
          (True, if impl then s
                 else register_if_unsafe trx index (snd (lock_rec_create mode block heap_no index trx s)))
      | Some l \<Rightarrow>
          if lock_rec_get_next_on_page s l \<noteq> None then (False, s)
          else if lk_trx (lock_at s l) \<noteq> trx \<or> type_mode (lock_at s l) \<noteq> (mode OR LOCK_REC)
               \<or> lock_rec_get_n_bits (lock_at s l) \<le> heap_no then (False, s)
          else (True, if impl then s
                      else if lock_rec_get_nth_bit (lock_at s l) heap_no then s
                      else register_if_unsafe trx index (upd_lock l (lock_rec_set_nth_bit heap_no) s)))"

definition lock_rec_lock_slow ::
    "bool \<Rightarrow> ulint \<Rightarrow> buf_block \<Rightarrow> nat \<Rightarrow> index_ptr \<Rightarrow> thr_ptr \<Rightarrow> lock_sys \<Rightarrow> (db_err \<times> lock_sys) option" where
  "lock_rec_lock_slow impl mode block heap_no index thr s =
     (let trx = thr_trx (thrs s thr) in
      if lock_rec_has_expl mode block heap_no trx s \<noteq> None then Some (DB_SUCCESS, s)
      else if lock_rec_other_has_conflicting mode block heap_no trx s \<noteq> None then
        map_option (\<lambda>(err, s1). (err, register_if_unsafe trx index s1))
          (lock_rec_enqueue_waiting mode block heap_no index thr s)
      else Some (DB_SUCCESS,
        if impl then s
        else register_if_unsafe trx index
               (snd (lock_rec_add_to_queue (LOCK_REC OR mode) block heap_no index trx s))))"

definition lock_rec_lock ::
    "bool \<Rightarrow> ulint \<Rightarrow> buf_block \<Rightarrow> nat \<Rightarrow> index_ptr \<Rightarrow> thr_ptr \<Rightarrow> lock_sys \<Rightarrow> (db_err \<times> lock_sys) option" where
  "lock_rec_lock impl mode block heap_no index thr s =
     (case lock_rec_lock_fast impl mode block heap_no index thr s of
        (True, s1) \<Rightarrow> Some (DB_SUCCESS, s1)
      | (False, s1) \<Rightarrow> lock_rec_lock_slow impl mode block heap_no index thr s1)"

section \<open>Checks for row operations\<close>

definition page_update_max_trx_id :: "buf_block \<Rightarrow> dulint \<Rightarrow> lock_sys \<Rightarrow> lock_sys" where
  "page_update_max_trx_id block trx_id s =
     (if ut_dulint_cmp (page_max_trx_id s (blk_space block) (blk_page_no block)) trx_id < 0
      then s\<lparr>page_max_trx_id := (page_max_trx_id s)(blk_space block :=
               (page_max_trx_id s (blk_space block))(blk_page_no block := trx_id))\<rparr>
      else s)"

text \<open>
  \<open>lock_rec_insert_check_and_lock\<close>, given the heap number of the record behind the insert
  position; its second result is the \<open>inherit\<close> flag, unchanged when locking is off.
\<close>

definition lock_rec_insert_check_and_lock ::
    "bool \<Rightarrow> buf_block \<Rightarrow> nat \<Rightarrow> index_ptr \<Rightarrow> bool \<Rightarrow> thr_ptr \<Rightarrow> bool \<Rightarrow> lock_sys \<Rightarrow>
     (db_err \<times> bool \<times> lock_sys) option" where
  "lock_rec_insert_check_and_lock no_locking block next_rec_heap_no index is_clust thr inherit s =
     (if no_locking then Some (DB_SUCCESS, inherit, s)
      else let trx = thr_trx (thrs s thr);
               note_max = (\<lambda>err s. if err = DB_SUCCESS \<and> \<not> is_clust
                             then page_update_max_trx_id block (ltrx_id (trxs s trx)) s else s)
      in case lock_rec_get_first block next_rec_heap_no s of
           None \<Rightarrow> Some (DB_SUCCESS, False, note_max DB_SUCCESS s)
         | Some l \<Rightarrow>
             map_option (\<lambda>(err, s1). (err, True, note_max err s1))
               (if lock_rec_other_has_conflicting (LOCK_X OR LOCK_GAP OR LOCK_INSERT_INTENTION)
                     block next_rec_heap_no trx s \<noteq> None
                then lock_rec_enqueue_waiting (LOCK_X OR LOCK_GAP OR LOCK_INSERT_INTENTION)
                       block next_rec_heap_no index thr s
                else Some (DB_SUCCESS, s)))"

definition lock_rec_convert_impl_to_expl ::
    "buf_block \<Rightarrow> nat \<Rightarrow> index_ptr \<Rightarrow> trx_ptr option \<Rightarrow> lock_sys \<Rightarrow> lock_sys" where
  "lock_rec_convert_impl_to_expl block heap_no index impl_trx s =
     (case impl_trx of
        None \<Rightarrow> s
      | Some trx \<Rightarrow>
          if lock_rec_has_expl (LOCK_X OR LOCK_REC_NOT_GAP) block heap_no trx s = None
          then snd (lock_rec_add_to_queue (LOCK_REC OR LOCK_X OR LOCK_REC_NOT_GAP) block heap_no index trx s)
          else s)"

definition lock_clust_rec_modify_check_and_lock ::
    "bool \<Rightarrow> buf_block \<Rightarrow> nat \<Rightarrow> index_ptr \<Rightarrow> trx_ptr option \<Rightarrow> thr_ptr \<Rightarrow> lock_sys \<Rightarrow>
     (db_err \<times> lock_sys) option" where
  "lock_clust_rec_modify_check_and_lock no_locking block heap_no index impl_trx thr s =
     (if no_locking then Some (DB_SUCCESS, s)
      else lock_rec_lock True (LOCK_X OR LOCK_REC_NOT_GAP) block heap_no index thr
             (lock_rec_convert_impl_to_expl block heap_no index impl_trx s))"

definition lock_sec_rec_modify_check_and_lock ::
    "bool \<Rightarrow> buf_block \<Rightarrow> nat \<Rightarrow> index_ptr \<Rightarrow> thr_ptr \<Rightarrow> lock_sys \<Rightarrow> (db_err \<times> lock_sys) option" where
  "lock_sec_rec_modify_check_and_lock no_locking block heap_no index thr s =
     (if no_locking then Some (DB_SUCCESS, s)
      else map_option (\<lambda>(err, s1). (err, if err = DB_SUCCESS
               then page_update_max_trx_id block (ltrx_id (trxs s1 (thr_trx (thrs s1 thr)))) s1 else s1))
             (lock_rec_lock True (LOCK_X OR LOCK_REC_NOT_GAP) block heap_no index thr s))"

text \<open>\<open>min_trx_id\<close> is \<open>trx_list_get_min_trx_id()\<close>, \<open>recovery\<close> is \<open>recv_recovery_is_on()\<close>.\<close>

definition lock_sec_rec_read_check_and_lock ::
    "bool \<Rightarrow> buf_block \<Rightarrow> nat \<Rightarrow> index_ptr \<Rightarrow> ulint \<Rightarrow> ulint \<Rightarrow> dulint \<Rightarrow> bool \<Rightarrow> trx_ptr option \<Rightarrow> thr_ptr \<Rightarrow>
     lock_sys \<Rightarrow> (db_err \<times> lock_sys) option" where
  "lock_sec_rec_read_check_and_lock no_locking block heap_no index mode gap_mode min_trx_id recovery impl_trx thr s =
     (if no_locking then Some (DB_SUCCESS, s)
      else lock_rec_lock False (mode OR gap_mode) block heap_no index thr
             (if (ut_dulint_cmp (page_max_trx_id s (blk_space block) (blk_page_no block)) min_trx_id \<ge> 0
                  \<or> recovery) \<and> heap_no \<noteq> PAGE_HEAP_NO_SUPREMUM
              then lock_rec_convert_impl_to_expl block heap_no index impl_trx s else s))"

definition lock_clust_rec_read_check_and_lock ::
    "bool \<Rightarrow> buf_block \<Rightarrow> nat \<Rightarrow> index_ptr \<Rightarrow> ulint \<Rightarrow> ulint \<Rightarrow> trx_ptr option \<Rightarrow> thr_ptr \<Rightarrow> lock_sys \<Rightarrow>
     (db_err \<times> lock_sys) option" where
  "lock_clust_rec_read_check_and_lock no_locking block heap_no index mode gap_mode impl_trx thr s =
     (if no_locking then Some (DB_SUCCESS, s)
      else lock_rec_lock False (mode OR gap_mode) block heap_no index thr
             (if heap_no \<noteq> PAGE_HEAP_NO_SUPREMUM
              then lock_rec_convert_impl_to_expl block heap_no index impl_trx s else s))"

section \<open>Moving and inheriting\<close>

definition lock_rec_reset_and_release_wait :: "buf_block \<Rightarrow> nat \<Rightarrow> lock_sys \<Rightarrow> lock_sys option" where
  "lock_rec_reset_and_release_wait block heap_no s =
     each_lock (lock_rec_get_next heap_no)
       (\<lambda>l s. if lock_get_wait (lock_at s l) then lock_rec_cancel l s
              else Some (upd_lock l (lock_rec_reset_nth_bit heap_no) s))
       (lock_rec_get_first block heap_no s) s"

definition lock_rec_inherit_to_gap :: "buf_block \<Rightarrow> buf_block \<Rightarrow> nat \<Rightarrow> nat \<Rightarrow> lock_sys \<Rightarrow> lock_sys option" where
  "lock_rec_inherit_to_gap heir_block block heir_heap_no heap_no s =
     each_lock (lock_rec_get_next heap_no)
       (\<lambda>l s. let lock = lock_at s l in
          if \<not> lock_rec_get_insert_intention lock
             \<and> \<not> (unsafe_or_read_committed (lk_trx lock) s \<and> lock_get_mode lock = LOCK_X)
          then Some (snd (lock_rec_add_to_queue (LOCK_REC OR LOCK_GAP OR lock_get_mode lock)
                 heir_block heir_heap_no (lk_index lock) (lk_trx lock) s))
          else Some s)
       (lock_rec_get_first block heap_no s) s"

definition lock_rec_inherit_to_gap_if_gap_lock :: "buf_block \<Rightarrow> nat \<Rightarrow> nat \<Rightarrow> lock_sys \<Rightarrow> lock_sys option" where
  "lock_rec_inherit_to_gap_if_gap_lock block heir_heap_no heap_no s =
     each_lock (lock_rec_get_next heap_no)
       (\<lambda>l s. let lock = lock_at s l in
          if \<not> lock_rec_get_insert_intention lock
             \<and> (heap_no = PAGE_HEAP_NO_SUPREMUM \<or> \<not> lock_rec_get_rec_not_gap lock)
          then Some (snd (lock_rec_add_to_queue (LOCK_REC OR LOCK_GAP OR lock_get_mode lock)
                 block heir_heap_no (lk_index lock) (lk_trx lock) s))
          else Some s)
       (lock_rec_get_first block heap_no s) s"

definition lock_rec_move :: "buf_block \<Rightarrow> buf_block \<Rightarrow> nat \<Rightarrow> nat \<Rightarrow> lock_sys \<Rightarrow> lock_sys option" where
  "lock_rec_move receiver donator receiver_heap_no donator_heap_no s =
     each_lock (lock_rec_get_next donator_heap_no)
       (\<lambda>l s. let tm = type_mode (lock_at s l);
                  s1 = upd_lock l (lock_rec_reset_nth_bit donator_heap_no) s;
                  s2 = (if tm_wait tm then lock_reset_lock_and_trx_wait l s1 else s1)
              in Some (snd (lock_rec_add_to_queue tm receiver receiver_heap_no
                   (lk_index (lock_at s2 l)) (lk_trx (lock_at s2 l)) s2)))
       (lock_rec_get_first donator donator_heap_no s) s"

text \<open>
  The record lists of two pages are walked side by side: pairs of an old and a new heap number.
  First for one lock, then for all locks on the page.
\<close>

fun move_bits :: "buf_block \<Rightarrow> lock_ptr \<Rightarrow> ulint \<Rightarrow> (nat \<times> nat) list \<Rightarrow> lock_sys \<Rightarrow> lock_sys" where
  "move_bits new_block l tm [] s = s"
| "move_bits new_block l tm ((old_heap, new_heap) # hs) s =
     (if lock_rec_get_nth_bit (lock_at s l) old_heap then
        let s1 = upd_lock l (lock_rec_reset_nth_bit old_heap) s;
            s2 = (if tm_wait tm then lock_reset_lock_and_trx_wait l s1 else s1)
        in move_bits new_block l tm hs (snd (lock_rec_add_to_queue tm new_block new_heap
             (lk_index (lock_at s2 l)) (lk_trx (lock_at s2 l)) s2))
      else move_bits new_block l tm hs s)"

text \<open>
  \<open>lock_move_rec_list_end\<close> and \<open>lock_move_rec_list_start\<close> differ in the records they walk: the user
  records from \<open>rec\<close> to the end with the first records of the new page, and those before \<open>rec\<close>
  with the records behind the old end of the new page.
\<close>

definition lock_move_rec_list_end ::
    "buf_block \<Rightarrow> buf_block \<Rightarrow> nat list \<Rightarrow> nat list \<Rightarrow> lock_sys \<Rightarrow> lock_sys option" where
  "lock_move_rec_list_end new_block block moved_heap_nos new_heap_nos s =
     each_lock lock_rec_get_next_on_page
       (\<lambda>l s. Some (move_bits new_block l (type_mode (lock_at s l)) (zip moved_heap_nos new_heap_nos) s))
       (lock_rec_get_first_on_page block s) s"

definition lock_move_rec_list_start ::
    "buf_block \<Rightarrow> buf_block \<Rightarrow> nat list \<Rightarrow> nat list \<Rightarrow> lock_sys \<Rightarrow> lock_sys option" where
  "lock_move_rec_list_start new_block block moved_heap_nos new_heap_nos s =
     each_lock lock_rec_get_next_on_page
       (\<lambda>l s. Some (move_bits new_block l (type_mode (lock_at s l)) (zip moved_heap_nos new_heap_nos) s))
       (lock_rec_get_first_on_page block s) s"

text \<open>\<open>lock_move_reorganize_page\<close> copies the locks, clears the originals, then sets them anew.\<close>

fun clear_locks :: "lock_ptr list \<Rightarrow> lock_sys \<Rightarrow> lock_sys" where
  "clear_locks [] s = s"
| "clear_locks (l # ls) s =
     (let s1 = upd_lock l lock_rec_bitmap_reset s
      in clear_locks ls (if lock_get_wait (lock_at s1 l) then lock_reset_lock_and_trx_wait l s1 else s1))"

fun set_as_old :: "buf_block \<Rightarrow> lock \<Rightarrow> (nat \<times> nat) list \<Rightarrow> lock_sys \<Rightarrow> lock_sys" where
  "set_as_old block old [] s = s"
| "set_as_old block old ((old_heap, new_heap) # hs) s =
     set_as_old block old hs
       (if lock_rec_get_nth_bit old old_heap
        then snd (lock_rec_add_to_queue (type_mode old) block new_heap (lk_index old) (lk_trx old) s)
        else s)"

definition lock_move_reorganize_page :: "buf_block \<Rightarrow> (nat \<times> nat) list \<Rightarrow> lock_sys \<Rightarrow> lock_sys" where
  "lock_move_reorganize_page block heap_nos s =
     (let ls = page_queue (blk_space block) (blk_page_no block) s;
          old_locks = map (lock_at s) ls
      in fold (\<lambda>old. set_as_old block old heap_nos) old_locks (clear_locks ls s))"

section \<open>Page operations\<close>

definition lock_update_split_right :: "buf_block \<Rightarrow> buf_block \<Rightarrow> nat \<Rightarrow> lock_sys \<Rightarrow> lock_sys option" where
  "lock_update_split_right right_block left_block right_min_heap_no s =
     Option.bind (lock_rec_move right_block left_block PAGE_HEAP_NO_SUPREMUM PAGE_HEAP_NO_SUPREMUM s)
       (lock_rec_inherit_to_gap left_block right_block PAGE_HEAP_NO_SUPREMUM right_min_heap_no)"

definition lock_update_merge_right :: "buf_block \<Rightarrow> nat \<Rightarrow> buf_block \<Rightarrow> lock_sys \<Rightarrow> lock_sys option" where
  "lock_update_merge_right right_block orig_succ_heap_no left_block s =
     Option.bind (lock_rec_inherit_to_gap right_block left_block orig_succ_heap_no PAGE_HEAP_NO_SUPREMUM s)
       (\<lambda>s1. Option.bind (lock_rec_reset_and_release_wait left_block PAGE_HEAP_NO_SUPREMUM s1)
         (lock_rec_free_all_from_discard_page left_block))"

definition lock_update_root_raise :: "buf_block \<Rightarrow> buf_block \<Rightarrow> lock_sys \<Rightarrow> lock_sys option" where
  "lock_update_root_raise block root s =
     lock_rec_move block root PAGE_HEAP_NO_SUPREMUM PAGE_HEAP_NO_SUPREMUM s"

definition lock_update_copy_and_discard :: "buf_block \<Rightarrow> buf_block \<Rightarrow> lock_sys \<Rightarrow> lock_sys option" where
  "lock_update_copy_and_discard new_block block s =
     Option.bind (lock_rec_move new_block block PAGE_HEAP_NO_SUPREMUM PAGE_HEAP_NO_SUPREMUM s)
       (lock_rec_free_all_from_discard_page block)"

definition lock_update_split_left :: "buf_block \<Rightarrow> buf_block \<Rightarrow> nat \<Rightarrow> lock_sys \<Rightarrow> lock_sys option" where
  "lock_update_split_left right_block left_block right_min_heap_no s =
     lock_rec_inherit_to_gap left_block right_block PAGE_HEAP_NO_SUPREMUM right_min_heap_no s"

definition lock_update_merge_left :: "buf_block \<Rightarrow> nat \<Rightarrow> buf_block \<Rightarrow> lock_sys \<Rightarrow> lock_sys option" where
  "lock_update_merge_left left_block left_next_heap_no right_block s =
     Option.bind
       (if left_next_heap_no \<noteq> PAGE_HEAP_NO_SUPREMUM then
          Option.bind (lock_rec_inherit_to_gap left_block left_block left_next_heap_no PAGE_HEAP_NO_SUPREMUM s)
            (lock_rec_reset_and_release_wait left_block PAGE_HEAP_NO_SUPREMUM)
        else Some s)
       (\<lambda>s1. Option.bind (lock_rec_move left_block right_block PAGE_HEAP_NO_SUPREMUM PAGE_HEAP_NO_SUPREMUM s1)
         (lock_rec_free_all_from_discard_page right_block))"

definition lock_rec_reset_and_inherit_gap_locks ::
    "buf_block \<Rightarrow> buf_block \<Rightarrow> nat \<Rightarrow> nat \<Rightarrow> lock_sys \<Rightarrow> lock_sys option" where
  "lock_rec_reset_and_inherit_gap_locks heir_block block heir_heap_no heap_no s =
     Option.bind (lock_rec_reset_and_release_wait heir_block heir_heap_no s)
       (lock_rec_inherit_to_gap heir_block block heir_heap_no heap_no)"

text \<open>The heap numbers of the records of the page, from the infimum to the supremum.\<close>

fun discard_loop :: "buf_block \<Rightarrow> nat \<Rightarrow> buf_block \<Rightarrow> nat list \<Rightarrow> lock_sys \<Rightarrow> lock_sys option" where
  "discard_loop heir_block heir_heap_no block [] s = Some s"
| "discard_loop heir_block heir_heap_no block (h # hs) s =
     Option.bind (lock_rec_inherit_to_gap heir_block block heir_heap_no h s)
       (\<lambda>s1. Option.bind (lock_rec_reset_and_release_wait block h s1)
         (discard_loop heir_block heir_heap_no block hs))"

definition lock_update_discard :: "buf_block \<Rightarrow> nat \<Rightarrow> buf_block \<Rightarrow> nat list \<Rightarrow> lock_sys \<Rightarrow> lock_sys option" where
  "lock_update_discard heir_block heir_heap_no block heap_nos s =
     (if lock_rec_get_first_on_page block s = None then Some s
      else Option.bind (discard_loop heir_block heir_heap_no block heap_nos s)
             (lock_rec_free_all_from_discard_page block))"

definition lock_update_insert :: "buf_block \<Rightarrow> nat \<Rightarrow> nat \<Rightarrow> lock_sys \<Rightarrow> lock_sys option" where
  "lock_update_insert block receiver_heap_no donator_heap_no s =
     lock_rec_inherit_to_gap_if_gap_lock block receiver_heap_no donator_heap_no s"

definition lock_update_delete :: "buf_block \<Rightarrow> nat \<Rightarrow> nat \<Rightarrow> lock_sys \<Rightarrow> lock_sys option" where
  "lock_update_delete block heap_no next_heap_no s =
     Option.bind (lock_rec_inherit_to_gap block block next_heap_no heap_no s)
       (lock_rec_reset_and_release_wait block heap_no)"

definition lock_rec_store_on_page_infimum :: "buf_block \<Rightarrow> nat \<Rightarrow> lock_sys \<Rightarrow> lock_sys option" where
  "lock_rec_store_on_page_infimum block heap_no s =
     lock_rec_move block block PAGE_HEAP_NO_INFIMUM heap_no s"

definition lock_rec_restore_from_page_infimum :: "buf_block \<Rightarrow> nat \<Rightarrow> buf_block \<Rightarrow> lock_sys \<Rightarrow> lock_sys option" where
  "lock_rec_restore_from_page_infimum block heap_no donator s =
     lock_rec_move block donator heap_no PAGE_HEAP_NO_INFIMUM s"

end
