(* ===== verification/LockInv.thy ===== *)
theory LockInv imports LockRec begin

text \<open>
  Invariants of the record lock table: the well-formedness of the hash chains and bitmaps, and
  RULE 3 of lock0lock.c, that different transactions never hold conflicting granted non-gap locks
  on a record. Each primitive change of the lock table is shown to keep them; the operations are
  compositions of those changes.
\<close>

section \<open>Bitmaps\<close>

definition lock_ok :: "lock \<Rightarrow> bool" where
  "lock_ok lock \<longleftrightarrow> lk_n_bits lock = 8 * length (lk_bitmap lock)"

lemma nth_bit_iff:
  "lock_rec_get_nth_bit lock i \<longleftrightarrow> i < lk_n_bits lock \<and> bit (lk_bitmap lock ! (i div 8)) (i mod 8)"
  by (simp add: lock_rec_get_nth_bit_def one_and_eq bit_iff_odd_drop_bit mod_2_eq_odd not_le)

lemma lock_ok_set [simp]: "lock_ok (lock_rec_set_nth_bit i lock) = lock_ok lock"
  by (simp add: lock_ok_def lock_rec_set_nth_bit_def)

lemma lock_ok_reset [simp]: "lock_ok (lock_rec_reset_nth_bit i lock) = lock_ok lock"
  by (simp add: lock_ok_def lock_rec_reset_nth_bit_def)

lemma div_mod_eq: "(i :: nat) div 8 = j div 8 \<Longrightarrow> i mod 8 = j mod 8 \<Longrightarrow> i = j"
  by (metis div_mult_mod_eq)

lemma nth_bit_set:
  assumes "lock_ok lock" and "i < lk_n_bits lock"
  shows "lock_rec_get_nth_bit (lock_rec_set_nth_bit i lock) j \<longleftrightarrow> j = i \<or> lock_rec_get_nth_bit lock j"
proof -
  have "i div 8 < length (lk_bitmap lock)" using assms by (simp add: lock_ok_def)
  moreover have "bit (push_bit n 1 :: byte) m \<longleftrightarrow> m = n" if "n < 8" for n m
    using that by (auto simp: bit_simps)
  ultimately show ?thesis
    using assms by (auto simp: nth_bit_iff lock_rec_set_nth_bit_def nth_list_update bit_or_iff dest: div_mod_eq)
qed

lemma nth_bit_reset:
  assumes "lock_ok lock"
  shows "lock_rec_get_nth_bit (lock_rec_reset_nth_bit i lock) j \<longleftrightarrow> j \<noteq> i \<and> lock_rec_get_nth_bit lock j"
proof (cases "i < lk_n_bits lock")
  case True
  have "i div 8 < length (lk_bitmap lock)" using assms True by (simp add: lock_ok_def)
  moreover have "bit (NOT (push_bit n 1) :: byte) m \<longleftrightarrow> m < 8 \<and> m \<noteq> n" if "n < 8" for n m
    using that by (auto simp: bit_simps)
  ultimately show ?thesis
    by (auto simp: nth_bit_iff lock_rec_reset_nth_bit_def nth_list_update bit_and_iff dest: div_mod_eq)
next
  case False
  then have "length (lk_bitmap lock) \<le> i div 8" using assms by (simp add: lock_ok_def)
  then show ?thesis using False by (auto simp: nth_bit_iff lock_rec_reset_nth_bit_def list_update_beyond)
qed

lemma nth_bit_bitmap_reset:
  assumes "8 dvd lk_n_bits lock"
  shows "\<not> lock_rec_get_nth_bit (lock_rec_bitmap_reset lock) j"
    and "lock_ok (lock_rec_bitmap_reset lock)"
proof -
  obtain k where "lk_n_bits lock = 8 * k" using assms by (auto elim: dvdE)
  then show "\<not> lock_rec_get_nth_bit (lock_rec_bitmap_reset lock) j" "lock_ok (lock_rec_bitmap_reset lock)"
    by (auto simp: nth_bit_iff lock_rec_bitmap_reset_def lock_rec_get_n_bits_def lock_ok_def)
qed

lemma find_bit_from_Some: "find_bit_from lock is = Some i \<Longrightarrow> lock_rec_get_nth_bit lock i"
  by (induction "is") (auto split: if_splits)

lemma find_bit_from_None: "find_bit_from lock is = None \<longleftrightarrow> (\<forall>i \<in> set is. \<not> lock_rec_get_nth_bit lock i)"
  by (induction "is") auto

lemma find_set_bit_Some: "lock_rec_find_set_bit lock = Some i \<Longrightarrow> lock_rec_get_nth_bit lock i"
  by (auto simp: lock_rec_find_set_bit_def dest: find_bit_from_Some)

lemma find_set_bit_None: "lock_rec_find_set_bit lock = None \<longleftrightarrow> (\<forall>i. \<not> lock_rec_get_nth_bit lock i)"
  by (auto simp: lock_rec_find_set_bit_def find_bit_from_None lock_rec_get_n_bits_def nth_bit_iff)

section \<open>The fields that never change\<close>

lemma static_fields [simp]:
  "lk_trx (lock_rec_set_nth_bit i k) = lk_trx k" "type_mode (lock_rec_set_nth_bit i k) = type_mode k"
  "lk_space (lock_rec_set_nth_bit i k) = lk_space k" "lk_page_no (lock_rec_set_nth_bit i k) = lk_page_no k"
  "lk_index (lock_rec_set_nth_bit i k) = lk_index k" "lk_n_bits (lock_rec_set_nth_bit i k) = lk_n_bits k"
  "lk_trx (lock_rec_reset_nth_bit i k) = lk_trx k" "type_mode (lock_rec_reset_nth_bit i k) = type_mode k"
  "lk_space (lock_rec_reset_nth_bit i k) = lk_space k" "lk_page_no (lock_rec_reset_nth_bit i k) = lk_page_no k"
  "lk_index (lock_rec_reset_nth_bit i k) = lk_index k" "lk_n_bits (lock_rec_reset_nth_bit i k) = lk_n_bits k"
  "lk_table (lock_rec_set_nth_bit i k) = lk_table k" "lk_table (lock_rec_reset_nth_bit i k) = lk_table k"
  "lk_table (lock_rec_bitmap_reset k) = lk_table k"
  "lk_trx (lock_rec_bitmap_reset k) = lk_trx k" "type_mode (lock_rec_bitmap_reset k) = type_mode k"
  "lk_space (lock_rec_bitmap_reset k) = lk_space k" "lk_page_no (lock_rec_bitmap_reset k) = lk_page_no k"
  "lk_index (lock_rec_bitmap_reset k) = lk_index k" "lk_n_bits (lock_rec_bitmap_reset k) = lk_n_bits k"
  by (simp_all add: lock_rec_set_nth_bit_def lock_rec_reset_nth_bit_def lock_rec_bitmap_reset_def)

section \<open>The invariant\<close>

text \<open>Two requests on a record that cannot both be granted: both lock the record itself.\<close>

definition tm_conflict :: "trx_ptr \<Rightarrow> ulint \<Rightarrow> trx_ptr \<Rightarrow> ulint \<Rightarrow> bool" where
  "tm_conflict trx tm trx2 tm2 \<longleftrightarrow>
     trx \<noteq> trx2 \<and> \<not> lock_mode_compatible (tm_mode tm) (tm_mode tm2) \<and>
     \<not> tm_gap tm \<and> \<not> tm_gap tm2 \<and> \<not> tm_insert_intention tm \<and> \<not> tm_insert_intention tm2"

definition rec_conflict :: "lock_sys \<Rightarrow> lock_ptr \<Rightarrow> lock_ptr \<Rightarrow> bool" where
  "rec_conflict s a b \<longleftrightarrow>
     tm_conflict (lk_trx (lock_at s a)) (type_mode (lock_at s a)) (lk_trx (lock_at s b)) (type_mode (lock_at s b))"

definition waiting :: "lock_sys \<Rightarrow> lock_ptr \<Rightarrow> bool" where
  "waiting s l \<longleftrightarrow> lock_get_wait (lock_at s l)"

definition has_bit :: "lock_sys \<Rightarrow> nat \<Rightarrow> lock_ptr \<Rightarrow> bool" where
  "has_bit s h l \<longleftrightarrow> lock_rec_get_nth_bit (lock_at s l) h"

text \<open>
  Each lock in a chain is a record lock below the allocation mark, in the chain its page hashes
  to, with a full bitmap; a waiting one has exactly one bit set.
\<close>

definition lock_wf :: "lock_sys \<Rightarrow> ulint \<Rightarrow> lock_ptr \<Rightarrow> bool" where
  "lock_wf s c l \<longleftrightarrow>
     l < lock_brk s \<and> lock_get_type_low (lock_at s l) = LOCK_REC \<and>
     lock_rec_hash (lk_space (lock_at s l)) (lk_page_no (lock_at s l)) s = c \<and>
     lock_ok (lock_at s l) \<and> lock_get_mode (lock_at s l) \<in> {LOCK_S, LOCK_X} \<and>
     (waiting s l \<longrightarrow> (\<exists>h. \<forall>i. has_bit s i l \<longrightarrow> i = h))"

definition chains_wf :: "lock_sys \<Rightarrow> bool" where
  "chains_wf s \<longleftrightarrow> (\<forall>c. distinct (rec_hash s c) \<and> (\<forall>l \<in> set (rec_hash s c). lock_wf s c l))"

text \<open>
  RULE 3, in the form that is kept by every step: a granted request does not conflict with any
  request ahead of it in the record's queue, granted or waiting.
\<close>

definition rule3 :: "lock_sys \<Rightarrow> bool" where
  "rule3 s \<longleftrightarrow> (\<forall>space page_no heap_no. heap_no \<noteq> PAGE_HEAP_NO_SUPREMUM \<longrightarrow>
     sorted_wrt (\<lambda>a b. waiting s b \<or> \<not> rec_conflict s a b) (rec_queue space page_no heap_no s))"

definition lock_inv :: "lock_sys \<Rightarrow> bool" where
  "lock_inv s \<longleftrightarrow> chains_wf s \<and> rule3 s"

lemma lock_invD: "lock_inv s \<Longrightarrow> chains_wf s" "lock_inv s \<Longrightarrow> rule3 s"
  by (simp_all add: lock_inv_def)

lemma chains_wfD:
  assumes "chains_wf s"
  shows "distinct (rec_hash s c)" and "l \<in> set (rec_hash s c) \<Longrightarrow> lock_wf s c l"
  using assms by (simp_all add: chains_wf_def)

lemma in_chain_eq:
  "chains_wf s \<Longrightarrow> l \<in> set (rec_hash s c) \<Longrightarrow> l \<in> set (rec_hash s d) \<Longrightarrow> c = d"
  using chains_wfD(2) [of s l c] chains_wfD(2) [of s l d] by (simp add: lock_wf_def)

lemma tm_conflict_sym:
  assumes "tm_mode a \<in> {LOCK_S, LOCK_X}" and "tm_mode b \<in> {LOCK_S, LOCK_X}"
  shows "tm_conflict t a u b = tm_conflict u b t a"
  using assms compatible_sym [of "tm_mode a" "tm_mode b"] by (auto simp: tm_conflict_def lock_mode_ok_def)

lemma rec_conflict_sym:
  assumes "chains_wf s" and "a \<in> set (rec_hash s c)" and "b \<in> set (rec_hash s d)"
  shows "rec_conflict s a b = rec_conflict s b a"
  using assms chains_wfD(2) [of s a c] chains_wfD(2) [of s b d]
  by (simp add: rec_conflict_def lock_wf_def lock_get_mode_def tm_conflict_sym)

lemma rec_queue_eq:
  "rec_queue space page_no h s =
    filter (\<lambda>l. on_page s space page_no l \<and> has_bit s h l) (chain space page_no s)"
  by (simp add: rec_queue_def page_queue_def has_bit_def conj_commute)

lemma rec_queue_distinct: "chains_wf s \<Longrightarrow> distinct (rec_queue space page_no h s)"
  by (simp add: rec_queue_eq chain_def chains_wfD)

lemma rec_queue_chain: "l \<in> set (rec_queue sp pg h s) \<Longrightarrow> l \<in> set (chain sp pg s)"
  by (simp add: rec_queue_eq)

lemma in_rec_queue:
  assumes "chains_wf s" and "l \<in> set (rec_hash s c)"
  shows "l \<in> set (rec_queue sp pg h s) \<longleftrightarrow> on_page s sp pg l \<and> has_bit s h l"
  using assms chains_wfD(2) [OF assms] by (auto simp: rec_queue_eq chain_def lock_wf_def on_page_def)

text \<open>The rule in its familiar form, for any two granted locks on a user record.\<close>

lemma rule3_granted:
  assumes inv: "lock_inv s" and h: "heap_no \<noteq> PAGE_HEAP_NO_SUPREMUM"
    and a: "a \<in> set (rec_queue space page_no heap_no s)" "\<not> waiting s a"
    and b: "b \<in> set (rec_queue space page_no heap_no s)" "\<not> waiting s b"
  shows "\<not> rec_conflict s a b"
proof -
  let ?q = "rec_queue space page_no heap_no s"
  have wf: "chains_wf s" using inv by (rule lock_invD)
  have r: "sorted_wrt (\<lambda>a b. waiting s b \<or> \<not> rec_conflict s a b) ?q"
    using inv h by (simp add: lock_inv_def rule3_def)
  have sym: "rec_conflict s a b = rec_conflict s b a"
    using a b wf by (intro rec_conflict_sym) (auto simp: rec_queue_eq chain_def)
  obtain i j where "i < length ?q" "?q ! i = a" "j < length ?q" "?q ! j = b"
    using a(1) b(1) by (auto simp: in_set_conv_nth)
  then show ?thesis
    using sorted_wrt_nth_less [OF r, of i j] sorted_wrt_nth_less [OF r, of j i] a(2) b(2) sym
    by (cases i j rule: linorder_cases) (auto simp: rec_conflict_def tm_conflict_def)
qed

section \<open>Ahead in a queue\<close>

definition ahead :: "'a \<Rightarrow> 'a list \<Rightarrow> 'a list" where
  "ahead l xs = takeWhile (\<lambda>x. x \<noteq> l) xs"

lemma ahead_subset: "a \<in> set (ahead l xs) \<Longrightarrow> a \<in> set xs \<and> a \<noteq> l"
  by (auto simp: ahead_def dest: set_takeWhileD)

lemma ahead_filter: "P l \<Longrightarrow> ahead l (filter P xs) = filter P (ahead l xs)"
  by (induction xs) (auto simp: ahead_def)

lemma ahead_append:
  "ahead l (xs @ ys) = (if l \<in> set xs then ahead l xs else xs @ ahead l ys)"
  by (auto simp: ahead_def takeWhile_append)

lemma ahead_Cons: "ahead l (x # xs) = (if x = l then [] else x # ahead l xs)" "ahead l [] = []"
  by (simp_all add: ahead_def)

lemma sorted_wrt_ahead:
  "distinct xs \<Longrightarrow> sorted_wrt R xs \<longleftrightarrow> (\<forall>l \<in> set xs. \<forall>a \<in> set (ahead l xs). R a l)"
proof (induction xs rule: rev_induct)
  case (snoc x xs)
  then show ?case by (auto simp: sorted_wrt_append ahead_append ahead_Cons)
qed simp

lemma rule3_ahead:
  assumes "chains_wf s"
  shows "rule3 s \<longleftrightarrow> (\<forall>space page_no heap_no l. heap_no \<noteq> PAGE_HEAP_NO_SUPREMUM \<longrightarrow>
    l \<in> set (rec_queue space page_no heap_no s) \<longrightarrow> \<not> waiting s l \<longrightarrow>
    (\<forall>a \<in> set (ahead l (rec_queue space page_no heap_no s)). \<not> rec_conflict s a l))"
  unfolding rule3_def by (simp add: sorted_wrt_ahead [OF rec_queue_distinct [OF assms]]) blast

section \<open>Changes that only take away\<close>

text \<open>
  \<open>taken s t\<close>: from \<open>s\<close> to \<open>t\<close> chains lost nodes, bitmaps lost bits, requests stopped waiting, and
  nothing else changed that the lock table depends on.
\<close>

definition same_lock :: "lock \<Rightarrow> lock \<Rightarrow> bool" where
  "same_lock k j \<longleftrightarrow> lk_trx k = lk_trx j \<and> lk_space k = lk_space j \<and> lk_page_no k = lk_page_no j \<and>
     lk_index k = lk_index j \<and> lk_table k = lk_table j \<and>
     lock_get_mode k = lock_get_mode j \<and> lock_get_type_low k = lock_get_type_low j \<and>
     tm_gap (type_mode k) = tm_gap (type_mode j) \<and>
     tm_rec_not_gap (type_mode k) = tm_rec_not_gap (type_mode j) \<and>
     tm_insert_intention (type_mode k) = tm_insert_intention (type_mode j)"

definition taken :: "lock_sys \<Rightarrow> lock_sys \<Rightarrow> bool" where
  "taken s t \<longleftrightarrow> n_cells t = n_cells s \<and> lock_brk t = lock_brk s \<and>
     (\<forall>c. distinct (rec_hash s c) \<longrightarrow> (\<exists>P. rec_hash t c = filter P (rec_hash s c))) \<and>
     (\<forall>l. same_lock (lock_at s l) (lock_at t l) \<and>
       (lock_ok (lock_at s l) \<longrightarrow> lock_ok (lock_at t l)) \<and>
       (lock_ok (lock_at s l) \<longrightarrow> (\<forall>h. has_bit t h l \<longrightarrow> has_bit s h l)) \<and>
       (waiting t l \<longrightarrow> waiting s l))"

lemma same_lock_trans: "same_lock i j \<Longrightarrow> same_lock j k \<Longrightarrow> same_lock i k"
  by (simp add: same_lock_def)

lemma taken_trans:
  assumes "taken s t" and "taken t u"
  shows "taken s u"
proof -
  have "\<exists>P. rec_hash u c = filter P (rec_hash s c)" if d: "distinct (rec_hash s c)" for c
  proof -
    obtain P where P: "rec_hash t c = filter P (rec_hash s c)"
      using assms(1) d unfolding taken_def by blast
    then have "distinct (rec_hash t c)" using d by simp
    then obtain Q where "rec_hash u c = filter Q (rec_hash t c)"
      using assms(2) unfolding taken_def by blast
    then show ?thesis using P by auto
  qed
  moreover have "same_lock (lock_at s l) (lock_at u l)" for l
    using assms same_lock_trans unfolding taken_def by blast
  ultimately show ?thesis using assms unfolding taken_def by auto
qed

lemma taken_chain:
  assumes "taken s t"
  shows "chain sp pg t = rec_hash t (lock_rec_hash sp pg s)"
    and "on_page t sp pg l = on_page s sp pg l"
    and "rec_conflict t a l = rec_conflict s a l"
  using assms unfolding taken_def same_lock_def
  by (simp_all add: chain_def lock_rec_hash_def hash_calc_hash_def on_page_def rec_conflict_def
      tm_conflict_def lock_get_mode_def)

lemma taken_wf:
  assumes tk: "taken s t" and wf: "chains_wf s"
  shows "chains_wf t"
proof -
  have "lock_wf t c l \<and> distinct (rec_hash t c)" if "l \<in> set (rec_hash t c)" for c l
  proof -
    obtain P where P: "rec_hash t c = filter P (rec_hash s c)"
      using tk chains_wfD(1) [OF wf] unfolding taken_def by blast
    then have "lock_wf s c l" using that chains_wfD(2) [OF wf, of l c] by auto
    moreover have "same_lock (lock_at s l) (lock_at t l)" using tk unfolding taken_def by blast
    moreover have "waiting t l \<longrightarrow> waiting s l" "lock_ok (lock_at s l) \<longrightarrow> lock_ok (lock_at t l)"
      "lock_ok (lock_at s l) \<longrightarrow> (\<forall>h. has_bit t h l \<longrightarrow> has_bit s h l)"
      "lock_brk t = lock_brk s" "n_cells t = n_cells s"
      using tk unfolding taken_def by blast+
    ultimately have "lock_wf t c l"
      unfolding lock_wf_def same_lock_def lock_rec_hash_def hash_calc_hash_def by metis
    then show ?thesis using P chains_wfD(1) [OF wf, of c] by simp
  qed
  moreover have "distinct (rec_hash t c)" for c
  proof -
    obtain P where "rec_hash t c = filter P (rec_hash s c)"
      using tk chains_wfD(1) [OF wf] unfolding taken_def by blast
    then show ?thesis using chains_wfD(1) [OF wf, of c] by simp
  qed
  ultimately show ?thesis unfolding chains_wf_def by blast
qed

lemma taken_queue:
  assumes tk: "taken s t" and wf: "chains_wf s"
  shows "\<exists>P. rec_queue sp pg h t = filter P (rec_queue sp pg h s)"
proof -
  obtain P where P: "chain sp pg t = filter P (chain sp pg s)"
    using tk taken_chain(1) [OF tk] chains_wfD(1) [OF wf] unfolding taken_def chain_def by metis
  let ?P = "\<lambda>l. P l \<and> has_bit t h l"
  have "has_bit s h l" if "l \<in> set (chain sp pg s)" "has_bit t h l" for l
    using tk that wf unfolding taken_def chains_wf_def lock_wf_def chain_def by blast
  then have "rec_queue sp pg h t = filter ?P (rec_queue sp pg h s)"
    unfolding rec_queue_eq P taken_chain(2) [OF tk] by (auto intro: filter_cong)
  then show ?thesis by blast
qed

text \<open>
  Such a change keeps RULE 3 if each request it grants has no conflicting request ahead of it.
\<close>

lemma taken_inv:
  assumes tk: "taken s t" and inv: "lock_inv s"
    and granted: "\<And>sp pg h l a. h \<noteq> PAGE_HEAP_NO_SUPREMUM \<Longrightarrow> waiting s l \<Longrightarrow> \<not> waiting t l \<Longrightarrow>
      l \<in> set (rec_queue sp pg h t) \<Longrightarrow> a \<in> set (ahead l (rec_queue sp pg h s)) \<Longrightarrow>
      a \<in> set (rec_queue sp pg h t) \<Longrightarrow> \<not> rec_conflict s a l"
  shows "lock_inv t"
proof -
  have wf: "chains_wf s" "chains_wf t"
    using inv taken_wf [OF tk] by (simp_all add: lock_inv_def)
  have r: "rule3 s" using inv by (rule lock_invD)
  have "\<not> rec_conflict t a l"
    if h: "h \<noteq> PAGE_HEAP_NO_SUPREMUM" and l: "l \<in> set (rec_queue sp pg h t)" "\<not> waiting t l"
      and a: "a \<in> set (ahead l (rec_queue sp pg h t))" for sp pg h l a
  proof -
    obtain P where P: "rec_queue sp pg h t = filter P (rec_queue sp pg h s)"
      using taken_queue [OF tk wf(1)] by blast
    have Pl: "P l" "l \<in> set (rec_queue sp pg h s)" using l(1) by (simp_all add: P)
    have as: "a \<in> set (ahead l (rec_queue sp pg h s))" "a \<in> set (rec_queue sp pg h t)"
      using a ahead_subset [OF a] Pl(1) by (simp_all add: P ahead_filter)
    show ?thesis
    proof (cases "waiting s l")
      case True
      then show ?thesis using granted [OF h True l(2) l(1) as] by (simp add: taken_chain(3) [OF tk])
    next
      case False
      then show ?thesis
        using r h Pl(2) as(1) by (auto simp: rule3_ahead [OF wf(1)] taken_chain(3) [OF tk])
    qed
  qed
  then show ?thesis using wf(2) by (auto simp: lock_inv_def rule3_ahead)
qed

lemma taken_inv_simple:
  "taken s t \<Longrightarrow> lock_inv s \<Longrightarrow> (\<And>l. waiting t l = waiting s l) \<Longrightarrow> lock_inv t"
  by (erule taken_inv) auto

text \<open>Nothing the lock table depends on changed.\<close>

definition lock_core :: "lock_sys \<Rightarrow> ulint \<times> (ulint \<Rightarrow> lock_ptr list) \<times> (lock_ptr \<Rightarrow> lock) \<times> nat" where
  "lock_core s = (n_cells s, rec_hash s, lock_at s, lock_brk s)"

lemma lock_core_taken: "lock_core s = lock_core t \<Longrightarrow> taken s t"
  by (auto simp: lock_core_def taken_def same_lock_def has_bit_def waiting_def intro: exI [of _ "\<lambda>_. True"])

lemma lock_core_inv: "lock_core s = lock_core t \<Longrightarrow> lock_inv s = lock_inv t"
  using taken_inv_simple [OF lock_core_taken [of s t]] taken_inv_simple [OF lock_core_taken [of t s]]
  by (auto simp: lock_core_def waiting_def)

section \<open>The primitives take away\<close>

named_theorems taken_intros \<open>primitive steps that only take away\<close>

lemma core_updates [simp]:
  "lock_core (s\<lparr>trxs := x\<rparr>) = lock_core s" "lock_core (s\<lparr>thrs := y\<rparr>) = lock_core s"
  "lock_core (s\<lparr>tabs := z\<rparr>) = lock_core s" "lock_core (s\<lparr>page_max_trx_id := w\<rparr>) = lock_core s"
  by (simp_all add: lock_core_def)

lemma core_end_wait_loop: "end_wait_loop trx ps s = Some t \<Longrightarrow> lock_core t = lock_core s"
  by (induction ps arbitrary: s)
    (auto simp: que_thr_end_wait_no_next_thr_def split: option.splits if_splits)

lemma core_trx_end_lock_wait: "trx_end_lock_wait trx s = Some t \<Longrightarrow> lock_core t = lock_core s"
  by (auto simp: trx_end_lock_wait_def dest: core_end_wait_loop)

lemma core_que_thr_stop: "lock_core (snd (que_thr_stop p s)) = lock_core s"
  by (simp add: que_thr_stop_def Let_def)

lemma core_register: "lock_core (register_if_unsafe trx index s) = lock_core s"
  by (auto simp: register_if_unsafe_def trx_register_new_rec_lock_def split: prod.split option.split)

lemma core_page_update: "lock_core (page_update_max_trx_id block i s) = lock_core s"
  by (simp add: page_update_max_trx_id_def)

lemma core_reset_marks: "lock_core (reset_marks ts s) = lock_core s"
  by (induction ts arbitrary: s) simp_all

lemma core_suspend: "suspend_for_lock thr s = Some (err, t) \<Longrightarrow> lock_core t = lock_core s"
  using core_que_thr_stop
  by (auto simp: suspend_for_lock_def Let_def split: if_splits prod.splits) (metis core_updates(1) snd_conv)

lemma waiting_core: "lock_core s = lock_core t \<Longrightarrow> waiting s l = waiting t l"
  by (simp add: lock_core_def waiting_def)

text \<open>A change of one lock.\<close>

lemma taken_upd_lock:
  assumes "same_lock (lock_at s l) (f (lock_at s l))"
    and "lock_ok (lock_at s l) \<Longrightarrow> lock_ok (f (lock_at s l))"
    and "\<And>h. lock_ok (lock_at s l) \<Longrightarrow> lock_rec_get_nth_bit (f (lock_at s l)) h \<Longrightarrow>
      lock_rec_get_nth_bit (lock_at s l) h"
    and "lock_get_wait (f (lock_at s l)) \<Longrightarrow> lock_get_wait (lock_at s l)"
  shows "taken s (upd_lock l f s)"
proof -
  have "\<exists>P. rec_hash s c = filter P (rec_hash s c)" for c by (rule exI [of _ "\<lambda>_. True"]) simp
  then show ?thesis
    using assms unfolding taken_def by (auto simp: has_bit_def waiting_def same_lock_def)
qed

lemma same_lock_bits [simp]:
  "same_lock k (lock_rec_reset_nth_bit i k)" "same_lock k (lock_rec_set_nth_bit i k)"
  "same_lock k (lock_rec_bitmap_reset k)"
  "same_lock k (k\<lparr>type_mode := type_mode k AND NOT LOCK_WAIT\<rparr>)"
  by (simp_all add: same_lock_def lock_get_mode_def lock_get_type_low_def tm_simps)

lemma taken_reset_bit [taken_intros]: "taken s (upd_lock l (lock_rec_reset_nth_bit i) s)"
  by (rule taken_upd_lock) (simp_all add: nth_bit_reset lock_get_wait_def)

lemma taken_bitmap_reset [taken_intros]: "taken s (upd_lock l lock_rec_bitmap_reset s)"
proof (rule taken_upd_lock)
  have d: "lock_ok k \<Longrightarrow> 8 dvd lk_n_bits k" for k by (simp add: lock_ok_def)
  show "lock_ok (lock_at s l) \<Longrightarrow> lock_ok (lock_rec_bitmap_reset (lock_at s l))"
    by (rule nth_bit_bitmap_reset(2) [OF d])
  show "\<And>h. lock_ok (lock_at s l) \<Longrightarrow> lock_rec_get_nth_bit (lock_rec_bitmap_reset (lock_at s l)) h \<Longrightarrow>
      lock_rec_get_nth_bit (lock_at s l) h"
    using nth_bit_bitmap_reset(1) [OF d] by blast
qed (simp_all add: lock_get_wait_def)

lemma taken_clear_wait [taken_intros]: "taken s (lock_reset_lock_and_trx_wait l s)"
proof -
  let ?s = "upd_ltrx (lk_trx (lock_at s l)) (\<lambda>t. t\<lparr>wait_lock := None\<rparr>) s"
  have "taken ?s (lock_reset_lock_and_trx_wait l s)"
    unfolding lock_reset_lock_and_trx_wait_def
    by (rule taken_upd_lock) (simp_all add: lock_get_wait_def tm_simps lock_ok_def nth_bit_iff)
  moreover have "taken s ?s" by (rule lock_core_taken) simp
  ultimately show ?thesis by (rule taken_trans [rotated])
qed

lemma waiting_clear_wait: "waiting (lock_reset_lock_and_trx_wait l s) x \<longleftrightarrow> x \<noteq> l \<and> waiting s x"
  by (auto simp: waiting_def lock_reset_lock_and_trx_wait_def lock_get_wait_def tm_simps)

lemma has_bit_clear_wait: "has_bit (lock_reset_lock_and_trx_wait l s) h x = has_bit s h x"
  by (simp add: has_bit_def lock_reset_lock_and_trx_wait_def nth_bit_iff)

lemma hash_delete_Some:
  "HASH_DELETE fd l s = Some t \<longleftrightarrow> l \<in> set (rec_hash s (hash_calc_hash fd s)) \<and>
    t = s\<lparr>rec_hash := (rec_hash s)(hash_calc_hash fd s := remove1 l (rec_hash s (hash_calc_hash fd s)))\<rparr>"
  by (auto simp: HASH_DELETE_def Let_def)

lemma filter_True_ex: "\<exists>P. xs = filter P xs"
  by (rule exI [of _ "\<lambda>_. True"]) simp

lemma remove1_filter_ex: "distinct xs \<Longrightarrow> \<exists>P. remove1 l xs = filter P xs"
  by (metis distinct_remove1_removeAll removeAll_filter_not_eq)

lemma taken_hash_delete: "HASH_DELETE fd l s = Some t \<Longrightarrow> taken s t"
  unfolding hash_delete_Some taken_def
  by (auto simp: same_lock_def has_bit_def waiting_def filter_True_ex remove1_filter_ex)

lemma waiting_hash_delete: "HASH_DELETE fd l s = Some t \<Longrightarrow> waiting t x = waiting s x"
  by (auto simp: hash_delete_Some waiting_def)

text \<open>Granting and cancelling.\<close>

lemma core_lock_grant:
  assumes "lock_grant l s = Some t"
  shows "lock_core t = lock_core (lock_reset_lock_and_trx_wait l s)"
proof -
  have "lock_core (if b then upd_ltrx x f u else u) = lock_core u" for b x f u by simp
  then show ?thesis
    using assms by (auto simp: lock_grant_def Let_def split: if_splits dest!: core_trx_end_lock_wait)
qed

lemma taken_core_right: "taken s t \<Longrightarrow> lock_core u = lock_core t \<Longrightarrow> taken s u"
  by (rule taken_trans [OF _ lock_core_taken]) simp_all

lemma taken_lock_grant: "lock_grant l s = Some t \<Longrightarrow> taken s t"
  by (rule taken_core_right [OF taken_clear_wait core_lock_grant])

lemma waiting_lock_grant: "lock_grant l s = Some t \<Longrightarrow> waiting t x \<longleftrightarrow> x \<noteq> l \<and> waiting s x"
  using waiting_core [OF core_lock_grant] waiting_clear_wait by blast

section \<open>Loops\<close>

lemma each_lock_inv:
  assumes run: "each_lock nxt body cur s = Some t" and inv: "I s"
    and step: "\<And>l s u. I s \<Longrightarrow> body l s = Some u \<Longrightarrow> I u"
  shows "I t"
proof -
  let ?P = "\<lambda>nxt body (cur :: lock_ptr option) s t.
    (\<forall>l s u. I s \<longrightarrow> body l s = Some u \<longrightarrow> I u) \<longrightarrow> I s \<longrightarrow> I t"
  have "?P nxt body cur s t"
  proof (rule each_lock.raw_induct [where P = ?P, OF _ run], goal_cases)
    case (1 f nxt body cur s t)
    show ?case
    proof (cases cur)
      case None
      then show ?thesis using 1(2) by simp
    next
      case (Some l)
      then obtain u n where "body l s = Some u" "f nxt body n u = Some t"
        using 1(2) by (auto simp: bind_eq_Some_conv)
      then show ?thesis using 1(1) by blast
    qed
  qed
  with inv step show ?thesis by blast
qed

lemma each_lock_safe_inv:
  assumes run: "each_lock_safe nxt body cur s = Some t" and inv: "I s"
    and step: "\<And>l s u. I s \<Longrightarrow> body l s = Some u \<Longrightarrow> I u"
  shows "I t"
proof -
  let ?P = "\<lambda>nxt body (cur :: lock_ptr option) s t.
    (\<forall>l s u. I s \<longrightarrow> body l s = Some u \<longrightarrow> I u) \<longrightarrow> I s \<longrightarrow> I t"
  have "?P nxt body cur s t"
  proof (rule each_lock_safe.raw_induct [where P = ?P, OF _ run], goal_cases)
    case (1 f nxt body cur s t)
    show ?case
    proof (cases cur)
      case None
      then show ?thesis using 1(2) by simp
    next
      case (Some l)
      then obtain u n where "body l s = Some u" "f nxt body n u = Some t"
        using 1(2) by (auto simp: bind_eq_Some_conv Let_def)
      then show ?thesis using 1(1) by blast
    qed
  qed
  with inv step show ?thesis by blast
qed

section \<open>Granting keeps the invariant\<close>

lemma ahead_conflict_iff:
  "ahead_conflict s sp pg w h xs \<longleftrightarrow>
    (\<exists>a \<in> set (ahead w (filter (on_page s sp pg) xs)). has_bit s h a \<and> lock_has_to_wait (lock_at s w) (lock_at s a))"
  by (induction xs) (auto simp: ahead_Cons has_bit_def)

lemma conflict_has_to_wait:
  assumes wf: "chains_wf s" and w: "w \<in> set (rec_hash s c)" and a: "a \<in> set (rec_hash s d)"
    and sup: "\<not> has_bit s PAGE_HEAP_NO_SUPREMUM w" and conf: "rec_conflict s a w"
  shows "lock_has_to_wait (lock_at s w) (lock_at s a)"
proof -
  have k: "lock_get_type_low (lock_at s w) = LOCK_REC" using chains_wfD(2) [OF wf w] by (simp add: lock_wf_def)
  have "rec_conflict s w a" using conf rec_conflict_sym [OF wf a w] by simp
  then show ?thesis
    using k sup by (auto simp: lock_has_to_wait_def lock_rec_has_to_wait_def rec_has_to_wait_iff rec_conflict_def
        tm_conflict_def has_bit_def lock_get_mode_def PAGE_HEAP_NO_SUPREMUM_def)
qed

lemma waiting_bit_unique:
  assumes "lock_wf s c l" and "waiting s l" and "has_bit s h l"
  shows "has_bit s i l \<longleftrightarrow> i = h" and "lock_rec_find_set_bit (lock_at s l) = Some h"
proof -
  obtain h' where u: "\<And>i. has_bit s i l \<Longrightarrow> i = h'" using assms(1,2) unfolding lock_wf_def by blast
  show "has_bit s i l \<longleftrightarrow> i = h" using u [of i] u [of h] assms(3) by auto
  show "lock_rec_find_set_bit (lock_at s l) = Some h"
  proof (cases "lock_rec_find_set_bit (lock_at s l)")
    case None
    then show ?thesis using assms(3) by (simp add: find_set_bit_None has_bit_def)
  next
    case (Some i)
    then have "has_bit s i l" by (simp add: has_bit_def find_set_bit_Some)
    then show ?thesis using u [of i] u [of h] assms(3) Some by simp
  qed
qed

lemma ahead_rec_queue:
  assumes "has_bit s h l"
  shows "a \<in> set (ahead l (rec_queue sp pg h s)) \<longleftrightarrow> a \<in> set (ahead l (page_queue sp pg s)) \<and> has_bit s h a"
proof -
  have "rec_queue sp pg h s = filter (has_bit s h) (page_queue sp pg s)"
    by (simp add: rec_queue_def has_bit_def [abs_def])
  then show ?thesis using ahead_filter [of "has_bit s h", OF assms] by simp
qed

lemma has_to_wait_in_queue_iff:
  assumes wf: "chains_wf s" and l: "l \<in> set (rec_queue sp pg h s)" and w: "waiting s l"
  shows "lock_rec_has_to_wait_in_queue l s \<longleftrightarrow>
    (\<exists>a \<in> set (ahead l (rec_queue sp pg h s)). lock_has_to_wait (lock_at s l) (lock_at s a))"
proof -
  have wfl: "lock_wf s (lock_rec_hash sp pg s) l"
    using chains_wfD(2) [OF wf] l by (simp add: rec_queue_eq chain_def)
  have b: "has_bit s h l" "on_page s sp pg l" using l by (simp_all add: rec_queue_eq)
  note u = waiting_bit_unique(2) [OF wfl w b(1)]
  have "lk_space (lock_at s l) = sp" "lk_page_no (lock_at s l) = pg" using b(2) by (simp_all add: on_page_def)
  then have "lock_rec_has_to_wait_in_queue l s \<longleftrightarrow> ahead_conflict s sp pg l h (chain sp pg s)"
    by (simp add: lock_rec_has_to_wait_in_queue_def u Let_def)
  then show ?thesis
    by (auto simp: ahead_conflict_iff ahead_rec_queue [OF b(1)] page_queue_def)
qed

lemma grant_if_free_taken: "grant_if_free l s = Some t \<Longrightarrow> taken s t"
  by (auto simp: grant_if_free_def intro: taken_lock_grant lock_core_taken split: if_splits)

lemma grant_if_free_inv:
  assumes inv: "lock_inv s" and run: "grant_if_free l s = Some t"
  shows "lock_inv t"
proof (rule taken_inv [OF grant_if_free_taken [OF run] inv])
  have wf: "chains_wf s" using inv by (rule lock_invD)
  fix sp pg h x a
  assume h: "h \<noteq> PAGE_HEAP_NO_SUPREMUM" and x: "waiting s x" "\<not> waiting t x" "x \<in> set (rec_queue sp pg h t)"
    and a: "a \<in> set (ahead x (rec_queue sp pg h s))"
  have xl: "x = l" "\<not> lock_rec_has_to_wait_in_queue l s"
    using x(1,2) run waiting_lock_grant [of l s t x]
    by (auto simp: grant_if_free_def waiting_def split: if_splits)
  have xs: "x \<in> set (rec_queue sp pg h s)"
    using x(3) taken_queue [OF grant_if_free_taken [OF run] wf, of sp pg h] by auto
  have no: "\<not> lock_has_to_wait (lock_at s x) (lock_at s a)"
    using xl has_to_wait_in_queue_iff [OF wf xs x(1)] a by auto
  have "\<not> has_bit s PAGE_HEAP_NO_SUPREMUM x"
    using waiting_bit_unique(1) [OF _ x(1), of "lock_rec_hash sp pg s" h PAGE_HEAP_NO_SUPREMUM]
      chains_wfD(2) [OF wf, of x "lock_rec_hash sp pg s"] xs h
    by (auto simp: rec_queue_eq chain_def)
  moreover have "x \<in> set (rec_hash s (lock_rec_hash sp pg s))" "a \<in> set (rec_hash s (lock_rec_hash sp pg s))"
    using xs a ahead_subset [OF a] by (auto simp: rec_queue_eq chain_def)
  ultimately show "\<not> rec_conflict s a x"
    using no conflict_has_to_wait [OF wf, of x _ a] by blast
qed

text \<open>A request that has left every queue, or has no bit left, may stop waiting.\<close>

lemma clear_wait_inv:
  assumes "lock_inv s" and "\<And>sp pg h. l \<notin> set (rec_queue sp pg h s)"
  shows "lock_inv (lock_reset_lock_and_trx_wait l s)"
proof (rule taken_inv [OF taken_clear_wait assms(1)])
  fix sp pg h x
  assume x: "waiting s x" "\<not> waiting (lock_reset_lock_and_trx_wait l s) x"
    "x \<in> set (rec_queue sp pg h (lock_reset_lock_and_trx_wait l s))"
  have "x \<in> set (rec_queue sp pg h s)"
    using x(3) taken_queue [OF taken_clear_wait lock_invD(1) [OF assms(1)], of sp pg h l] by auto
  moreover have "x = l" using x by (simp add: waiting_clear_wait)
  ultimately show "\<not> rec_conflict s a x" for a using assms(2) by blast
qed

lemma reset_bit_inv: "lock_inv s \<Longrightarrow> lock_inv (upd_lock l (lock_rec_reset_nth_bit i) s)"
  by (rule taken_inv_simple [OF taken_reset_bit]) (auto simp: waiting_def lock_get_wait_def)

lemma hash_delete_inv: "lock_inv s \<Longrightarrow> HASH_DELETE fd l s = Some t \<Longrightarrow> lock_inv t"
  by (rule taken_inv_simple [OF taken_hash_delete]) (auto simp: waiting_hash_delete)

lemma trx_inv_free: "lock_inv (s\<lparr>trxs := x\<rparr>) = lock_inv s" "lock_inv (s\<lparr>tabs := y\<rparr>) = lock_inv s"
  "lock_inv (s\<lparr>page_max_trx_id := z\<rparr>) = lock_inv s"
  by (rule lock_core_inv, simp)+

lemma discard_inv: "lock_inv s \<Longrightarrow> lock_rec_discard l s = Some t \<Longrightarrow> lock_inv t"
  by (auto simp: lock_rec_discard_def Let_def trx_inv_free dest: hash_delete_inv)

lemma dequeue_inv:
  assumes inv: "lock_inv s" and run: "lock_rec_dequeue_from_page l s = Some t"
  shows "lock_inv t"
proof -
  let ?k = "lock_at s l"
  obtain s1 where s1: "HASH_DELETE (lock_rec_fold (lk_space ?k) (lk_page_no ?k)) l s = Some s1"
    and loop: "\<exists>cur. each_lock lock_rec_get_next_on_page grant_if_free cur
      (upd_ltrx (lk_trx ?k) (\<lambda>t. t\<lparr>trx_locks := remove1 l (trx_locks t)\<rparr>) s1) = Some t"
    using run by (auto simp: lock_rec_dequeue_from_page_def Let_def split: option.splits)
  have "lock_inv (upd_ltrx (lk_trx ?k) (\<lambda>t. t\<lparr>trx_locks := remove1 l (trx_locks t)\<rparr>) s1)"
    using hash_delete_inv [OF inv s1] by (simp add: trx_inv_free)
  then show ?thesis
    using loop each_lock_inv [where I = lock_inv and body = grant_if_free] grant_if_free_inv by blast
qed

section \<open>Adding requests\<close>

text \<open>The bits a lock created for a page of this height has; every record of the page is among them.\<close>

definition blk_bits :: "buf_block \<Rightarrow> nat" where
  "blk_bits block = (1 + (blk_n_heap block + LOCK_PAGE_BITMAP_MARGIN) div 8) * 8"

lemma blk_bits_margin: "h < blk_n_heap block + LOCK_PAGE_BITMAP_MARGIN \<Longrightarrow> h < blk_bits block"
  by (simp add: blk_bits_def)

definition sup_tm :: "nat \<Rightarrow> ulint \<Rightarrow> ulint" where
  "sup_tm heap_no tm = (if heap_no = PAGE_HEAP_NO_SUPREMUM then tm AND NOT (LOCK_GAP OR LOCK_REC_NOT_GAP) else tm)"

definition created :: "ulint \<Rightarrow> buf_block \<Rightarrow> nat \<Rightarrow> index_ptr \<Rightarrow> trx_ptr \<Rightarrow> lock" where
  "created tm0 block heap_no index trx =
     (let tm = sup_tm heap_no tm0; k = new_rec_lock tm block heap_no index trx
      in if tm_wait tm then k\<lparr>type_mode := type_mode k OR LOCK_WAIT\<rparr> else k)"

lemma new_rec_lock_fields:
  defines "k tm block h index trx \<equiv> new_rec_lock tm block h index trx"
  shows "lk_trx (k tm block h index trx) = trx" "lk_space (k tm block h index trx) = blk_space block"
    "lk_page_no (k tm block h index trx) = blk_page_no block" "lk_index (k tm block h index trx) = index"
    "type_mode (k tm block h index trx) = (tm AND NOT LOCK_TYPE_MASK) OR LOCK_REC"
    "lk_n_bits (k tm block h index trx) = blk_bits block"
    "lock_ok (k tm block h index trx)"
  by (simp_all add: k_def new_rec_lock_def Let_def blk_bits_def nth_bit_bitmap_reset)

lemma new_rec_lock_bit:
  assumes "h < blk_bits block"
  shows "lock_rec_get_nth_bit (new_rec_lock tm block h index trx) i \<longleftrightarrow> i = h"
  using assms unfolding new_rec_lock_def Let_def
  by (subst nth_bit_set) (simp_all add: nth_bit_bitmap_reset blk_bits_def)

lemma sup_tm_simps [tm_simps]:
  "tm_mode (sup_tm h tm) = tm_mode tm" "tm_wait (sup_tm h tm) = tm_wait tm"
  "tm_insert_intention (sup_tm h tm) = tm_insert_intention tm"
  "tm_gap (sup_tm h tm) \<longleftrightarrow> h \<noteq> PAGE_HEAP_NO_SUPREMUM \<and> tm_gap tm"
  "tm_rec_not_gap (sup_tm h tm) \<longleftrightarrow> h \<noteq> PAGE_HEAP_NO_SUPREMUM \<and> tm_rec_not_gap tm"
  by (simp_all add: sup_tm_def tm_simps)

lemma created_fields:
  defines "k tm block h index trx \<equiv> created tm block h index trx"
  shows "lk_trx (k tm block h index trx) = trx" "lk_space (k tm block h index trx) = blk_space block"
    "lk_page_no (k tm block h index trx) = blk_page_no block" "lk_index (k tm block h index trx) = index"
    "lock_get_type_low (k tm block h index trx) = LOCK_REC"
    "lock_get_mode (k tm block h index trx) = tm_mode tm"
    "tm_mode (type_mode (k tm block h index trx)) = tm_mode tm"
    "lock_get_wait (k tm block h index trx) = tm_wait tm"
    "tm_insert_intention (type_mode (k tm block h index trx)) = tm_insert_intention tm"
    "tm_gap (type_mode (k tm block h index trx)) \<longleftrightarrow> h \<noteq> PAGE_HEAP_NO_SUPREMUM \<and> tm_gap tm"
    "tm_rec_not_gap (type_mode (k tm block h index trx)) \<longleftrightarrow> h \<noteq> PAGE_HEAP_NO_SUPREMUM \<and> tm_rec_not_gap tm"
    "lock_ok (k tm block h index trx)"
  using new_rec_lock_fields [of "sup_tm h tm" block h index trx]
  by (auto simp: k_def created_def Let_def new_rec_lock_fields lock_get_type_low_def lock_get_mode_def
      lock_get_wait_def tm_simps lock_ok_def)

lemma created_bit:
  assumes "h < blk_bits block"
  shows "lock_rec_get_nth_bit (created tm block h index trx) i \<longleftrightarrow> i = h"
proof -
  have "lock_rec_get_nth_bit (k\<lparr>type_mode := w\<rparr>) i = lock_rec_get_nth_bit k i" for k w
    by (simp add: nth_bit_iff)
  then show ?thesis using new_rec_lock_bit [OF assms] by (simp add: created_def Let_def)
qed

lemma create_core:
  "fst (lock_rec_create tm block h index trx s) = lock_brk s"
  "lock_core (snd (lock_rec_create tm block h index trx s)) =
    (n_cells s,
     (rec_hash s)(lock_rec_hash (blk_space block) (blk_page_no block) s :=
        chain (blk_space block) (blk_page_no block) s @ [lock_brk s]),
     (lock_at s)(lock_brk s := created tm block h index trx),
     Suc (lock_brk s))"
  by (simp_all add: lock_rec_create_def Let_def lock_core_def HASH_INSERT_def lock_set_lock_and_trx_wait_def
      created_def sup_tm_def chain_def lock_rec_hash_def hash_calc_hash_def)

text \<open>A state that differs from another by one created lock.\<close>

lemma created_state:
  assumes core: "lock_core t = (n_cells s,
     (rec_hash s)(lock_rec_hash (blk_space block) (blk_page_no block) s :=
        chain (blk_space block) (blk_page_no block) s @ [lock_brk s]),
     (lock_at s)(lock_brk s := created tm block h index trx), Suc (lock_brk s))"
    and wf: "chains_wf s" and h: "h < blk_bits block"
  shows "rec_queue sp pg i t = rec_queue sp pg i s @
      (if sp = blk_space block \<and> pg = blk_page_no block \<and> i = h then [lock_brk s] else [])"
    and "lock_at t (lock_brk s) = created tm block h index trx"
    and "x \<noteq> lock_brk s \<Longrightarrow> lock_at t x = lock_at s x"
    and "x \<in> set (rec_queue sp pg i s) \<Longrightarrow> x \<noteq> lock_brk s"
    and "tm_mode tm \<in> {LOCK_S, LOCK_X} \<Longrightarrow> chains_wf t"
proof -
  let ?l = "lock_brk s" and ?c = "lock_rec_hash (blk_space block) (blk_page_no block) s"
  have n: "n_cells t = n_cells s" "lock_brk t = Suc ?l"
    and r: "rec_hash t = (rec_hash s)(?c := chain (blk_space block) (blk_page_no block) s @ [?l])"
    and a: "lock_at t = (lock_at s)(?l := created tm block h index trx)"
    using core by (simp_all add: lock_core_def)
  show l: "lock_at t ?l = created tm block h index trx" by (simp add: a)
  show o: "lock_at t x = lock_at s x" if "x \<noteq> lock_brk s" for x using that by (simp add: a)
  have fresh: "x \<noteq> ?l" if "x \<in> set (rec_hash s c)" for x c
    using chains_wfD(2) [OF wf that] by (auto simp: lock_wf_def)
  then show "x \<in> set (rec_queue sp pg i s) \<Longrightarrow> x \<noteq> ?l" by (auto simp: rec_queue_eq chain_def)
  have hash: "lock_rec_hash u v t = lock_rec_hash u v s" for u v
    by (simp add: lock_rec_hash_def hash_calc_hash_def n)
  have new: "on_page t sp pg ?l \<and> has_bit t i ?l \<longleftrightarrow> sp = blk_space block \<and> pg = blk_page_no block \<and> i = h"
    for sp pg i
    by (auto simp: on_page_def has_bit_def l created_fields created_bit [OF h])
  have old: "filter (\<lambda>x. on_page t sp pg x \<and> has_bit t i x) (rec_hash s c) =
      filter (\<lambda>x. on_page s sp pg x \<and> has_bit s i x) (rec_hash s c)" for sp pg i c
    by (rule filter_cong) (auto simp: on_page_def has_bit_def o dest: fresh)
  show "rec_queue sp pg i t = rec_queue sp pg i s @
      (if sp = blk_space block \<and> pg = blk_page_no block \<and> i = h then [?l] else [])" for sp pg i
    using new [of sp pg i] old [of sp pg i]
    by (auto simp: rec_queue_eq chain_def hash r)
  show "chains_wf t" if m: "tm_mode tm \<in> {LOCK_S, LOCK_X}"
  proof -
    have "lock_wf t c x" if x: "x \<in> set (rec_hash s c)" for c x
      using chains_wfD(2) [OF wf x] fresh [OF x] n
      by (auto simp: lock_wf_def hash o waiting_def has_bit_def)
    moreover have "lock_wf t ?c ?l"
      using m by (auto simp: lock_wf_def l hash n created_fields has_bit_def created_bit [OF h])
    moreover have "distinct (rec_hash t c)" for c
      using chains_wfD(1) [OF wf, of c] fresh [of _ c] by (auto simp: r chain_def)
    ultimately show ?thesis unfolding chains_wf_def by (auto simp: r chain_def)
  qed
qed

lemma create_inv:
  assumes inv: "lock_inv s" and h: "h < blk_bits block" and m: "tm_mode tm \<in> {LOCK_S, LOCK_X}"
    and free: "\<And>x. h \<noteq> PAGE_HEAP_NO_SUPREMUM \<Longrightarrow> \<not> tm_wait tm \<Longrightarrow> x \<in> set (blk_queue block h s) \<Longrightarrow>
      \<not> tm_conflict (lk_trx (lock_at s x)) (type_mode (lock_at s x)) trx tm"
  shows "lock_inv (snd (lock_rec_create tm block h index trx s))"
proof -
  let ?t = "snd (lock_rec_create tm block h index trx s)" and ?l = "lock_brk s"
  have wf: "chains_wf s" using inv by (rule lock_invD)
  note st = created_state [OF create_core(2) [of tm block h index trx s] wf h]
  have wft: "chains_wf ?t" using st(5) m by blast
  have "\<not> rec_conflict ?t a x"
    if i: "i \<noteq> PAGE_HEAP_NO_SUPREMUM" and x: "x \<in> set (rec_queue sp pg i ?t)" "\<not> waiting ?t x"
      and a: "a \<in> set (ahead x (rec_queue sp pg i ?t))" for sp pg i x a
  proof (cases "x \<in> set (rec_queue sp pg i s)")
    case True
    then have as: "a \<in> set (ahead x (rec_queue sp pg i s))"
      using a by (simp add: st(1) ahead_append)
    have ne: "x \<noteq> ?l" "a \<noteq> ?l" using True ahead_subset [OF as] st(4) by auto
    have "\<not> waiting s x" using x(2) by (simp add: waiting_def st(3) [OF ne(1)])
    then show ?thesis
      using lock_invD(2) [OF inv] i True as
      by (simp add: rule3_ahead [OF wf] rec_conflict_def st(3) [OF ne(1)] st(3) [OF ne(2)])
  next
    case False
    then have xl: "x = ?l" "sp = blk_space block" "pg = blk_page_no block" "i = h"
      using x(1) by (auto simp: st(1) split: if_splits)
    then have as: "a \<in> set (blk_queue block h s)"
      using a False by (auto simp: st(1) ahead_append ahead_Cons blk_queue_def)
    then have ne: "a \<noteq> ?l" using st(4) by (auto simp: blk_queue_def)
    have "\<not> tm_wait tm" using x(2) xl by (simp add: waiting_def st(2) created_fields)
    then have "\<not> tm_conflict (lk_trx (lock_at s a)) (type_mode (lock_at s a)) trx tm"
      using free as i xl by blast
    then show ?thesis
      using i xl by (simp add: rec_conflict_def st(2) st(3) [OF ne] created_fields tm_conflict_def)
  qed
  then show ?thesis using wft by (auto simp: lock_inv_def rule3_ahead)
qed

text \<open>Setting a bit in a granted lock, when nobody waits on the record and nothing conflicts.\<close>

lemma ahead_filter_subset:
  "a \<in> set (ahead x (filter P xs)) \<Longrightarrow> P x \<Longrightarrow> a \<in> set (ahead x xs) \<and> P a"
  by (simp add: ahead_filter)

lemma set_bit_inv:
  assumes inv: "lock_inv s" and l: "l \<in> set (page_queue sp0 pg0 s)" and b: "h < lock_rec_get_n_bits (lock_at s l)"
    and nw: "\<not> waiting s l"
    and free: "\<And>x. h \<noteq> PAGE_HEAP_NO_SUPREMUM \<Longrightarrow> x \<in> set (rec_queue sp0 pg0 h s) \<Longrightarrow>
      \<not> waiting s x \<and> \<not> rec_conflict s x l \<and> \<not> rec_conflict s l x"
  shows "lock_inv (upd_lock l (lock_rec_set_nth_bit h) s)"
proof -
  let ?t = "upd_lock l (lock_rec_set_nth_bit h) s"
  have wf: "chains_wf s" using inv by (rule lock_invD)
  have lc: "l \<in> set (chain sp0 pg0 s)" "on_page s sp0 pg0 l" using l by (simp_all add: page_queue_def)
  then have wfl: "lock_wf s (lock_rec_hash sp0 pg0 s) l" using chains_wfD(2) [OF wf] by (simp add: chain_def)
  have bits: "has_bit ?t i x \<longleftrightarrow> has_bit s i x \<or> x = l \<and> i = h" for i x
    using wfl b by (auto simp: has_bit_def nth_bit_set lock_wf_def lock_rec_get_n_bits_def)
  have op: "on_page ?t sp pg x = on_page s sp pg x" for sp pg x by (simp add: on_page_def)
  have wt: "waiting ?t x = waiting s x" for x by (simp add: waiting_def lock_get_wait_def)
  have cf: "rec_conflict ?t x y = rec_conflict s x y" for x y by (simp add: rec_conflict_def)
  have ch: "chain sp pg ?t = chain sp pg s" for sp pg by (simp add: chain_def lock_rec_hash_def hash_calc_hash_def)
  have wft: "chains_wf ?t"
  proof -
    have "lock_wf ?t c x" if x: "x \<in> set (rec_hash s c)" for c x
      using chains_wfD(2) [OF wf x] nw unfolding lock_wf_def wt bits
      by (auto simp: lock_get_type_low_def lock_get_mode_def lock_rec_hash_def hash_calc_hash_def)
    then show ?thesis using chains_wfD(1) [OF wf] by (simp add: chains_wf_def)
  qed
  have "\<not> rec_conflict s a x"
    if i: "i \<noteq> PAGE_HEAP_NO_SUPREMUM" and x: "x \<in> set (rec_queue sp pg i ?t)" "\<not> waiting s x"
      and a: "a \<in> set (ahead x (rec_queue sp pg i ?t))" for sp pg i x a
  proof -
    have at: "a \<in> set (rec_queue sp pg i ?t)" using ahead_subset [OF a] by simp
    have q: "y \<in> set (rec_queue sp pg i s) \<or> y = l \<and> i = h \<and> sp = sp0 \<and> pg = pg0"
      if "y \<in> set (rec_queue sp pg i ?t)" for y
    proof -
      have "y \<in> set (chain sp pg s)" "on_page s sp pg y" "has_bit s i y \<or> y = l \<and> i = h"
        using that by (simp_all add: rec_queue_eq ch op bits)
      moreover have "on_page s sp pg l \<Longrightarrow> sp = sp0 \<and> pg = pg0" using lc(2) by (simp add: on_page_def)
      ultimately show ?thesis by (auto simp: rec_queue_eq)
    qed
    show ?thesis
    proof (cases "x \<in> set (rec_queue sp pg i s) \<and> a \<in> set (rec_queue sp pg i s)")
      case True
      have "a \<in> set (ahead x (chain sp pg s))"
        using a x(1) by (auto simp: rec_queue_eq ch dest: ahead_filter_subset)
      then have "a \<in> set (ahead x (rec_queue sp pg i s))"
        using True by (simp add: rec_queue_eq ahead_filter)
      then show ?thesis using lock_invD(2) [OF inv] i True x(2) unfolding rule3_ahead [OF wf] by blast
    next
      case False
      then show ?thesis using q [OF x(1)] q [OF at] free i ahead_subset [OF a] by auto
    qed
  qed
  then show ?thesis using wft by (auto simp: lock_inv_def rule3_ahead wt cf)
qed

lemma find_Some: "find P xs = Some x \<Longrightarrow> x \<in> set xs \<and> P x"
  by (auto simp: find_Some_iff)

lemma add_to_queue_inv:
  assumes inv: "lock_inv s" and h: "h < blk_bits block" and m: "tm_mode tm \<in> {LOCK_S, LOCK_X}"
    and free: "\<And>x. h \<noteq> PAGE_HEAP_NO_SUPREMUM \<Longrightarrow> \<not> tm_wait tm \<Longrightarrow> x \<in> set (blk_queue block h s) \<Longrightarrow>
      \<not> tm_conflict (lk_trx (lock_at s x)) (type_mode (lock_at s x)) trx tm"
  shows "lock_inv (snd (lock_rec_add_to_queue tm block h index trx s))"
proof -
  let ?sp = "blk_space block" and ?pg = "blk_page_no block"
  let ?tm = "sup_tm h (tm OR LOCK_REC)"
  have wf: "chains_wf s" using inv by (rule lock_invD)
  have cr: "lock_inv (snd (lock_rec_create ?tm block h index trx s))"
    by (rule create_inv [OF inv h]) (use m free in \<open>simp_all add: tm_simps tm_conflict_def\<close>)
  have def: "lock_rec_add_to_queue tm block h index trx s =
    (if \<not> (\<exists>l \<in> set (page_queue ?sp ?pg s). waiting s l \<and> has_bit s h l) \<and> \<not> tm_wait ?tm then
       (case lock_rec_find_similar_on_page ?tm h block trx s of
          Some l \<Rightarrow> (l, upd_lock l (lock_rec_set_nth_bit h) s)
        | None \<Rightarrow> lock_rec_create ?tm block h index trx s)
     else lock_rec_create ?tm block h index trx s)"
    unfolding lock_rec_add_to_queue_def Let_def sup_tm_def waiting_def has_bit_def by (rule refl)
  show ?thesis
  proof (cases "\<exists>l. \<not> (\<exists>l \<in> set (page_queue ?sp ?pg s). waiting s l \<and> has_bit s h l) \<and> \<not> tm_wait ?tm \<and>
      lock_rec_find_similar_on_page ?tm h block trx s = Some l")
    case False
    then show ?thesis using cr unfolding def by (auto split: option.split)
  next
    case True
    then obtain l where nw: "\<And>x. x \<in> set (page_queue ?sp ?pg s) \<Longrightarrow> has_bit s h x \<Longrightarrow> \<not> waiting s x"
      and w: "\<not> tm_wait ?tm" and f: "lock_rec_find_similar_on_page ?tm h block trx s = Some l" by blast
    have l: "l \<in> set (page_queue ?sp ?pg s)" "lk_trx (lock_at s l) = trx" "type_mode (lock_at s l) = ?tm"
      "h < lock_rec_get_n_bits (lock_at s l)"
      using find_Some [OF f [unfolded lock_rec_find_similar_on_page_def]] by (simp_all add: Let_def)
    have wl: "\<not> waiting s l" using w l(3) by (simp add: waiting_def lock_get_wait_def)
    have "lock_inv (upd_lock l (lock_rec_set_nth_bit h) s)"
    proof (rule set_bit_inv [OF inv l(1) l(4) wl])
      fix x assume hs: "h \<noteq> PAGE_HEAP_NO_SUPREMUM" and x: "x \<in> set (rec_queue ?sp ?pg h s)"
      have "x \<in> set (page_queue ?sp ?pg s)" "has_bit s h x"
        using x by (simp_all add: rec_queue_def has_bit_def)
      then have nx: "\<not> waiting s x" by (rule nw)
      have "\<not> tm_conflict (lk_trx (lock_at s x)) (type_mode (lock_at s x)) trx tm"
        using free hs w x by (simp add: tm_simps blk_queue_def)
      then have "\<not> rec_conflict s x l"
        using hs by (simp add: rec_conflict_def l(2,3) tm_conflict_def tm_simps)
      moreover have "rec_conflict s x l = rec_conflict s l x"
        using x l(1) by (intro rec_conflict_sym [OF wf]) (auto simp: rec_queue_eq page_queue_def chain_def)
      ultimately show "\<not> waiting s x \<and> \<not> rec_conflict s x l \<and> \<not> rec_conflict s l x" using nx by simp
    qed
    then show ?thesis using True unfolding def f by simp
  qed
qed

section \<open>Table queues\<close>

text \<open>
  The same for table locks: a granted lock is compatible with every request of another transaction
  ahead of it. The preallocated AUTO-INC lock of a table is never in a hash chain and only in the
  queue of its table, as an AUTO-INC lock.
\<close>

definition tab_conflict :: "lock_sys \<Rightarrow> lock_ptr \<Rightarrow> lock_ptr \<Rightarrow> bool" where
  "tab_conflict s a b \<longleftrightarrow> lk_trx (lock_at s a) \<noteq> lk_trx (lock_at s b) \<and>
     \<not> lock_mode_compatible (lock_get_mode (lock_at s a)) (lock_get_mode (lock_at s b))"

definition tab_wf :: "lock_sys \<Rightarrow> table_ptr \<Rightarrow> lock_ptr \<Rightarrow> bool" where
  "tab_wf s tab l \<longleftrightarrow> l < lock_brk s \<and> lock_get_type_low (lock_at s l) = LOCK_TABLE \<and>
     lk_table (lock_at s l) = tab \<and> lock_mode_ok (lock_get_mode (lock_at s l))"

abbreviation tabq :: "lock_sys \<Rightarrow> table_ptr \<Rightarrow> lock_ptr list" where
  "tabq s tab \<equiv> tab_locks (tabs s tab)"

abbreviation tabbuf :: "lock_sys \<Rightarrow> table_ptr \<Rightarrow> lock_ptr" where
  "tabbuf s tab \<equiv> tab_auto_inc_buf (tabs s tab)"

definition bufs_ok :: "lock_sys \<Rightarrow> bool" where
  "bufs_ok s \<longleftrightarrow> inj_on (tabbuf s) {tab. tabbuf s tab \<noteq> 0} \<and> (\<forall>tab. tabbuf s tab < lock_brk s \<and> (\<forall>c. tabbuf s tab \<notin> set (rec_hash s c)) \<and>
     (\<forall>tab'. tabbuf s tab \<in> set (tabq s tab') \<longrightarrow>
        tab' = tab \<and> lock_get_mode (lock_at s (tabbuf s tab)) = LOCK_AUTO_INC))"

definition table_inv :: "lock_sys \<Rightarrow> bool" where
  "table_inv s \<longleftrightarrow> bufs_ok s \<and> (\<forall>tab. distinct (tabq s tab) \<and> (\<forall>l \<in> set (tabq s tab). tab_wf s tab l) \<and>
     (\<forall>l \<in> set (tabq s tab). \<not> waiting s l \<longrightarrow> (\<forall>a \<in> set (ahead l (tabq s tab)). \<not> tab_conflict s a l)))"

definition sys_inv :: "lock_sys \<Rightarrow> bool" where
  "sys_inv s \<longleftrightarrow> lock_inv s \<and> table_inv s"

lemma sys_invD:
  assumes "sys_inv s"
  shows "lock_inv s" "table_inv s" "chains_wf s" "rule3 s" "bufs_ok s"
  using assms by (simp_all add: sys_inv_def lock_inv_def table_inv_def)

lemma table_invD:
  assumes "table_inv s"
  shows "distinct (tabq s tab)" "l \<in> set (tabq s tab) \<Longrightarrow> tab_wf s tab l"
    "l \<in> set (tabq s tab) \<Longrightarrow> \<not> waiting s l \<Longrightarrow> a \<in> set (ahead l (tabq s tab)) \<Longrightarrow> \<not> tab_conflict s a l"
  using assms by (auto simp: table_inv_def)

text \<open>A record lock is in no table queue, a table lock in no chain.\<close>

lemma rec_not_table:
  assumes "sys_inv s" and "l \<in> set (rec_hash s c)"
  shows "l \<notin> set (tabq s tab)"
proof
  assume "l \<in> set (tabq s tab)"
  then show False
    using table_invD(2) [OF sys_invD(2) [OF assms(1)]] chains_wfD(2) [OF sys_invD(3) [OF assms(1)] assms(2)]
    by (auto simp: tab_wf_def lock_wf_def lock_flag_consts)
qed

lemma table_not_rec_queue:
  assumes "sys_inv s" and "l \<in> set (tabq s tab)"
  shows "l \<notin> set (rec_queue sp pg h s)"
  using rec_not_table [OF assms(1), of l _ tab] assms(2) by (auto simp: rec_queue_eq chain_def)

text \<open>How a change that takes away acts on the tables' queues.\<close>

definition tabs_taken :: "lock_sys \<Rightarrow> lock_sys \<Rightarrow> bool" where
  "tabs_taken s t \<longleftrightarrow> (\<forall>tab. tabbuf t tab = tabbuf s tab \<and>
     (distinct (tabq s tab) \<longrightarrow> (\<exists>P. tabq t tab = filter P (tabq s tab))))"

lemma tabs_taken_same: "tabs t = tabs s \<Longrightarrow> tabs_taken s t"
  by (simp add: tabs_taken_def filter_True_ex)

lemma tabs_taken_trans:
  assumes "tabs_taken s t" and "tabs_taken t u"
  shows "tabs_taken s u"
proof -
  have "\<exists>P. tabq u tab = filter P (tabq s tab)" if d: "distinct (tabq s tab)" for tab
  proof -
    obtain P where P: "tabq t tab = filter P (tabq s tab)"
      using assms(1) d unfolding tabs_taken_def by blast
    then have "distinct (tabq t tab)" using d by simp
    then obtain Q where "tabq u tab = filter Q (tabq t tab)"
      using assms(2) unfolding tabs_taken_def by blast
    then show ?thesis using P by auto
  qed
  then show ?thesis using assms unfolding tabs_taken_def by simp
qed

lemma taken_table_inv:
  assumes tk: "taken s t" and tb: "tabs_taken s t" and inv: "table_inv s" and wf: "chains_wf s"
    and granted: "\<And>tab l a. l \<in> set (tabq t tab) \<Longrightarrow> waiting s l \<Longrightarrow> \<not> waiting t l \<Longrightarrow>
      a \<in> set (ahead l (tabq s tab)) \<Longrightarrow> a \<in> set (tabq t tab) \<Longrightarrow> \<not> tab_conflict s a l"
  shows "table_inv t"
proof -
  have same: "same_lock (lock_at s l) (lock_at t l)" for l using tk unfolding taken_def by blast
  have buf: "tabbuf t tab = tabbuf s tab" for tab using tb unfolding tabs_taken_def by blast
  have cf: "tab_conflict t a l = tab_conflict s a l" for a l
    using same [of a] same [of l] by (simp add: tab_conflict_def same_lock_def)
  have sub: "\<exists>P. tabq t tab = filter P (tabq s tab)" for tab
    using tb table_invD(1) [OF inv] unfolding tabs_taken_def by blast
  have brk: "lock_brk t = lock_brk s" using tk by (simp add: taken_def)
  have "bufs_ok t"
  proof -
    have "tabbuf s tab \<notin> set (rec_hash t c)" for tab c
    proof -
      obtain P where "rec_hash t c = filter P (rec_hash s c)"
        using tk chains_wfD(1) [OF wf] unfolding taken_def by blast
      then show ?thesis using inv by (simp add: table_inv_def bufs_ok_def)
    qed
    moreover have "tab' = tab \<and> lock_get_mode (lock_at t (tabbuf s tab)) = LOCK_AUTO_INC"
      if "tabbuf s tab \<in> set (tabq t tab')" for tab tab'
    proof -
      have "tabbuf s tab \<in> set (tabq s tab')" using that sub [of tab'] by auto
      then have "tab' = tab \<and> lock_get_mode (lock_at s (tabbuf s tab)) = LOCK_AUTO_INC"
        using inv by (simp add: table_inv_def bufs_ok_def)
      then show ?thesis using same [of "tabbuf s tab"] by (simp add: same_lock_def)
    qed
    ultimately show ?thesis
      using inv brk unfolding table_inv_def bufs_ok_def buf by simp
  qed
  moreover have "distinct (tabq t tab) \<and> (\<forall>l \<in> set (tabq t tab). tab_wf t tab l) \<and>
     (\<forall>l \<in> set (tabq t tab). \<not> waiting t l \<longrightarrow> (\<forall>a \<in> set (ahead l (tabq t tab)). \<not> tab_conflict t a l))" for tab
  proof -
    obtain P where P: "tabq t tab = filter P (tabq s tab)" using sub by blast
    have "tab_wf t tab l" if "l \<in> set (tabq t tab)" for l
      using table_invD(2) [OF inv, of l tab] that same [of l] brk by (simp add: P tab_wf_def same_lock_def)
    moreover have "\<not> tab_conflict t a l"
      if l: "l \<in> set (tabq t tab)" "\<not> waiting t l" and a: "a \<in> set (ahead l (tabq t tab))" for l a
    proof -
      have as: "a \<in> set (ahead l (tabq s tab))" "a \<in> set (tabq t tab)"
        using a ahead_subset [OF a] l(1) by (auto simp: P ahead_filter)
      then show ?thesis
        using granted [OF l(1) _ l(2) as] table_invD(3) [OF inv, of l tab a] l(1)
        by (cases "waiting s l") (auto simp: cf P)
    qed
    ultimately show ?thesis using table_invD(1) [OF inv, of tab] by (simp add: P)
  qed
  ultimately show ?thesis unfolding table_inv_def by blast
qed

lemma table_inv_core:
  assumes "lock_core s = lock_core t" and "\<And>tab. tabq t tab = tabq s tab" and "\<And>tab. tabbuf t tab = tabbuf s tab"
    and "chains_wf s" and "table_inv s"
  shows "table_inv t"
  using assms waiting_core [OF assms(1)]
  by (intro taken_table_inv [OF lock_core_taken [OF assms(1)]]) (auto simp: tabs_taken_def filter_True_ex)

section \<open>Both invariants under the primitives\<close>

lemma tabs_end_wait_loop: "end_wait_loop trx ps s = Some t \<Longrightarrow> tabs t = tabs s"
  by (induction ps arbitrary: s)
    (auto simp: que_thr_end_wait_no_next_thr_def split: option.splits if_splits)

lemma tabs_trx_end_lock_wait: "trx_end_lock_wait trx s = Some t \<Longrightarrow> tabs t = tabs s"
  by (auto simp: trx_end_lock_wait_def dest: tabs_end_wait_loop)

lemma tabs_frame [simp]:
  "tabs (lock_reset_lock_and_trx_wait l s) = tabs s"
  "tabs (snd (que_thr_stop p s)) = tabs s" "tabs (register_if_unsafe trx index s) = tabs s"
  "tabs (page_update_max_trx_id block i s) = tabs s"
  by (auto simp: lock_reset_lock_and_trx_wait_def que_thr_stop_def Let_def register_if_unsafe_def
      trx_register_new_rec_lock_def page_update_max_trx_id_def split: prod.split option.split)

lemma tabs_reset_marks [simp]: "tabs (reset_marks ts s) = tabs s"
  by (induction ts arbitrary: s) simp_all

lemma tabs_lock_grant: "lock_grant l s = Some t \<Longrightarrow> tabs t = tabs s"
  by (auto simp: lock_grant_def Let_def split: if_splits dest!: tabs_trx_end_lock_wait)

lemma tabs_hash_delete: "HASH_DELETE fd l s = Some t \<Longrightarrow> tabs t = tabs s"
  by (auto simp: hash_delete_Some)

lemma tabs_grant_if_free: "grant_if_free l s = Some t \<Longrightarrow> tabs t = tabs s"
  by (auto simp: grant_if_free_def tabs_lock_grant split: if_splits)

lemma que_thr_stop_frame:
  "que_thr_stop p s = (b, t) \<Longrightarrow> tabs t = tabs s \<and> lock_core t = lock_core s"
  using core_que_thr_stop [of p s] tabs_frame(2) [of p s] by simp

lemma tabs_suspend: "suspend_for_lock thr s = Some (err, t) \<Longrightarrow> tabs t = tabs s"
  by (auto simp: suspend_for_lock_def Let_def split: if_splits prod.splits dest!: que_thr_stop_frame)

lemma sys_core:
  assumes "sys_inv s" and "lock_core t = lock_core s" and "tabs t = tabs s"
  shows "sys_inv t"
  using assms table_inv_core [of s t] lock_core_inv [of t s] by (simp add: sys_inv_def lock_inv_def)

lemma sys_taken:
  assumes inv: "sys_inv s" and tk: "taken s t" and tb: "tabs_taken s t" and "lock_inv t"
    and "\<And>tab l a. l \<in> set (tabq t tab) \<Longrightarrow> waiting s l \<Longrightarrow> \<not> waiting t l \<Longrightarrow>
      a \<in> set (ahead l (tabq s tab)) \<Longrightarrow> \<not> tab_conflict s a l"
  shows "sys_inv t"
  using assms taken_table_inv [OF tk tb sys_invD(2) [OF inv] sys_invD(3) [OF inv]]
  unfolding sys_inv_def by blast

lemma sys_taken_simple:
  assumes "sys_inv s" and "taken s t" and "tabs_taken s t" and "\<And>l. waiting t l = waiting s l"
  shows "sys_inv t"
  using assms by (intro sys_taken [OF assms(1-3)] taken_inv_simple [OF assms(2) sys_invD(1)]) auto

lemma reset_bit_sys: "sys_inv s \<Longrightarrow> sys_inv (upd_lock l (lock_rec_reset_nth_bit i) s)"
  by (rule sys_taken_simple [OF _ taken_reset_bit tabs_taken_same])
    (auto simp: waiting_def lock_get_wait_def)

lemma hash_delete_sys: "sys_inv s \<Longrightarrow> HASH_DELETE fd l s = Some t \<Longrightarrow> sys_inv t"
  by (rule sys_taken_simple [OF _ taken_hash_delete tabs_taken_same])
    (auto simp: waiting_hash_delete tabs_hash_delete)

lemma clear_wait_sys:
  assumes inv: "sys_inv s"
    and "\<And>sp pg h. l \<notin> set (rec_queue sp pg h s)" and "\<And>tab. l \<notin> set (tabq s tab)"
  shows "sys_inv (lock_reset_lock_and_trx_wait l s)"
  by (rule sys_taken [OF inv taken_clear_wait tabs_taken_same clear_wait_inv])
    (use assms sys_invD in \<open>auto simp: waiting_clear_wait\<close>)

lemma grant_if_free_sys:
  assumes inv: "sys_inv s" and run: "grant_if_free l s = Some t" and l: "l \<in> set (rec_hash s c)"
  shows "sys_inv t"
proof (rule sys_taken [OF inv grant_if_free_taken [OF run] tabs_taken_same grant_if_free_inv [OF _ run]])
  fix tab x a assume "x \<in> set (tabq t tab)" "waiting s x" "\<not> waiting t x"
  moreover have "x = l" if "waiting s x" "\<not> waiting t x"
    using that run waiting_lock_grant [of l s t x] by (auto simp: grant_if_free_def split: if_splits)
  ultimately show "\<not> tab_conflict s a x"
    using rec_not_table [OF inv l] tabs_grant_if_free [OF run] by auto
qed (simp_all add: tabs_grant_if_free [OF run] sys_invD [OF inv])

text \<open>The record loops visit only locks of the chains.\<close>

lemma nodes_after_subset: "x \<in> set (nodes_after l xs) \<Longrightarrow> x \<in> set xs"
  by (induction xs) (auto split: if_splits)

lemma first_on_page_Some: "first_on_page s sp pg xs = Some l \<Longrightarrow> l \<in> set xs \<and> on_page s sp pg l"
  by (induction xs) (auto split: if_splits)

lemma first_on_rec_Some: "first_on_rec s sp pg h xs = Some l \<Longrightarrow> l \<in> set xs \<and> on_page s sp pg l \<and> has_bit s h l"
  by (induction xs) (auto simp: has_bit_def split: if_splits)

definition chained :: "lock_sys \<Rightarrow> lock_ptr \<Rightarrow> bool" where
  "chained s l \<longleftrightarrow> (\<exists>c. l \<in> set (rec_hash s c))"

lemma next_chained:
  "lock_rec_get_next_on_page s l = Some n \<Longrightarrow> chained s n"
  "lock_rec_get_next h s l = Some n \<Longrightarrow> chained s n"
  "lock_rec_get_first_on_page_addr sp pg s = Some n \<Longrightarrow> chained s n"
  "lock_rec_get_first_on_page block s = Some n \<Longrightarrow> chained s n"
  "lock_rec_get_first block h s = Some n \<Longrightarrow> chained s n"
  by (auto simp: lock_rec_get_next_on_page_def lock_rec_get_next_def lock_rec_get_first_on_page_addr_def
      lock_rec_get_first_on_page_def lock_rec_get_first_def chained_def chain_def Let_def
      dest!: first_on_page_Some first_on_rec_Some dest: nodes_after_subset)

lemma each_lock_over:
  assumes run: "each_lock nxt body cur s = Some t" and inv: "I s"
    and cur: "\<And>l. cur = Some l \<Longrightarrow> C s l"
    and nxt: "\<And>s l n. nxt s l = Some n \<Longrightarrow> C s n"
    and step: "\<And>l s u. I s \<Longrightarrow> C s l \<Longrightarrow> body l s = Some u \<Longrightarrow> I u"
  shows "I t"
proof -
  let ?P = "\<lambda>nxt body (cur :: lock_ptr option) s t.
    (\<forall>s l n. nxt s l = Some n \<longrightarrow> C s n) \<longrightarrow>
    (\<forall>l s u. I s \<longrightarrow> C s l \<longrightarrow> body l s = Some u \<longrightarrow> I u) \<longrightarrow>
    I s \<longrightarrow> (\<forall>l. cur = Some l \<longrightarrow> C s l) \<longrightarrow> I t"
  have "?P nxt body cur s t"
  proof (rule each_lock.raw_induct [where P = ?P, OF _ run], goal_cases)
    case (1 f nxt body cur s t)
    show ?case
    proof (cases cur)
      case None
      then show ?thesis using 1(2) by simp
    next
      case (Some l)
      then obtain u where "body l s = Some u" "f nxt body (nxt u l) u = Some t"
        using 1(2) by (auto simp: bind_eq_Some_conv)
      then show ?thesis using 1(1) Some by blast
    qed
  qed
  with assms show ?thesis by blast
qed

section \<open>The operations that take away\<close>

lemma trxs_sys: "sys_inv s \<Longrightarrow> sys_inv (s\<lparr>trxs := x\<rparr>)"
  by (rule sys_core) simp_all

lemma trx_end_lock_wait_sys: "sys_inv s \<Longrightarrow> trx_end_lock_wait trx s = Some t \<Longrightarrow> sys_inv t"
  by (rule sys_core [of s]) (simp_all add: core_trx_end_lock_wait tabs_trx_end_lock_wait)

lemma grant_loop_sys:
  assumes "sys_inv s" and "each_lock nxt grant_if_free cur s = Some t"
    and "\<And>l. cur = Some l \<Longrightarrow> chained s l" and "\<And>s l n. nxt s l = Some n \<Longrightarrow> chained s n"
  shows "sys_inv t"
  by (rule each_lock_over [where I = sys_inv and C = chained, OF assms(2,1,3,4)])
    (auto simp: chained_def intro: grant_if_free_sys)

lemma dequeue_Some:
  assumes "lock_rec_dequeue_from_page l s = Some t"
  obtains s1 where "HASH_DELETE (lock_rec_fold (lk_space (lock_at s l)) (lk_page_no (lock_at s l))) l s = Some s1"
    and "each_lock lock_rec_get_next_on_page grant_if_free
      (lock_rec_get_first_on_page_addr (lk_space (lock_at s l)) (lk_page_no (lock_at s l))
        (upd_ltrx (lk_trx (lock_at s l)) (\<lambda>t. t\<lparr>trx_locks := remove1 l (trx_locks t)\<rparr>) s1))
      (upd_ltrx (lk_trx (lock_at s l)) (\<lambda>t. t\<lparr>trx_locks := remove1 l (trx_locks t)\<rparr>) s1) = Some t"
  using assms by (auto simp: lock_rec_dequeue_from_page_def Let_def split: option.splits)

lemma dequeue_sys:
  assumes "sys_inv s" and "lock_rec_dequeue_from_page l s = Some t"
  shows "sys_inv t"
proof (rule dequeue_Some [OF assms(2)])
  fix s1
  assume d: "HASH_DELETE (lock_rec_fold (lk_space (lock_at s l)) (lk_page_no (lock_at s l))) l s = Some s1"
  let ?s2 = "upd_ltrx (lk_trx (lock_at s l)) (\<lambda>t. t\<lparr>trx_locks := remove1 l (trx_locks t)\<rparr>) s1"
  assume "each_lock lock_rec_get_next_on_page grant_if_free
      (lock_rec_get_first_on_page_addr (lk_space (lock_at s l)) (lk_page_no (lock_at s l)) ?s2) ?s2 = Some t"
  then show ?thesis
    by (rule grant_loop_sys [OF trxs_sys [OF hash_delete_sys [OF assms(1) d]]]) (auto intro: next_chained)
qed

lemma taken_each_grant:
  assumes "each_lock nxt grant_if_free cur s = Some t"
  shows "taken s t \<and> tabs t = tabs s"
proof -
  have refl: "taken s s" by (rule lock_core_taken) simp
  show ?thesis
    by (rule each_lock_inv [where I = "\<lambda>t. taken s t \<and> tabs t = tabs s", OF assms])
      (auto simp: refl tabs_grant_if_free intro: taken_trans dest: grant_if_free_taken)
qed

lemma dequeue_taken:
  assumes "lock_rec_dequeue_from_page l s = Some t"
  shows "taken s t \<and> tabs t = tabs s"
proof (rule dequeue_Some [OF assms])
  fix s1
  assume d: "HASH_DELETE (lock_rec_fold (lk_space (lock_at s l)) (lk_page_no (lock_at s l))) l s = Some s1"
  let ?s2 = "upd_ltrx (lk_trx (lock_at s l)) (\<lambda>t. t\<lparr>trx_locks := remove1 l (trx_locks t)\<rparr>) s1"
  assume "each_lock lock_rec_get_next_on_page grant_if_free
      (lock_rec_get_first_on_page_addr (lk_space (lock_at s l)) (lk_page_no (lock_at s l)) ?s2) ?s2 = Some t"
  then have "taken ?s2 t" "tabs t = tabs ?s2" by (simp_all add: taken_each_grant)
  moreover have "taken s ?s2"
    by (rule taken_core_right [OF taken_hash_delete [OF d]]) simp
  ultimately show ?thesis using tabs_hash_delete [OF d] by (auto intro: taken_trans)
qed

lemma discard_sys: "sys_inv s \<Longrightarrow> lock_rec_discard l s = Some t \<Longrightarrow> sys_inv t"
  by (auto simp: lock_rec_discard_def Let_def intro: trxs_sys dest: hash_delete_sys)

lemma free_all_sys: "sys_inv s \<Longrightarrow> lock_rec_free_all_from_discard_page block s = Some t \<Longrightarrow> sys_inv t"
  unfolding lock_rec_free_all_from_discard_page_def
  by (erule each_lock_safe_inv [where I = sys_inv]) (auto intro: discard_sys)

text \<open>A waiting request whose only bit is reset has left its queue.\<close>

lemma cancel_sys:
  assumes inv: "sys_inv s" and run: "lock_rec_cancel l s = Some t" and l: "chained s l" and w: "waiting s l"
  shows "sys_inv t"
proof -
  obtain c where c: "l \<in> set (rec_hash s c)" using l by (auto simp: chained_def)
  note wf = sys_invD(3) [OF inv]
  obtain i where i: "lock_rec_find_set_bit (lock_at s l) = Some i"
    and t: "trx_end_lock_wait (lk_trx (lock_at s l))
      (lock_reset_lock_and_trx_wait l (upd_lock l (lock_rec_reset_nth_bit i) s)) = Some t"
    using run by (auto simp: lock_rec_cancel_def split: option.splits)
  let ?s1 = "upd_lock l (lock_rec_reset_nth_bit i) s"
  have wfl: "lock_wf s c l" using chains_wfD(2) [OF wf c] .
  have "has_bit s i l" using i by (simp add: has_bit_def find_set_bit_Some)
  then have "\<not> has_bit ?s1 h l" for h
    using waiting_bit_unique(1) [OF wfl w, of i h] wfl by (auto simp: has_bit_def nth_bit_reset lock_wf_def)
  then have "l \<notin> set (rec_queue sp pg h ?s1)" for sp pg h by (simp add: rec_queue_eq)
  moreover have "l \<notin> set (tabq ?s1 tab)" for tab using rec_not_table [OF inv c] by simp
  ultimately have "sys_inv (lock_reset_lock_and_trx_wait l ?s1)"
    by (rule clear_wait_sys [OF reset_bit_sys [OF inv]])
  then show ?thesis using t by (rule trx_end_lock_wait_sys)
qed

lemma reset_and_release_sys:
  assumes "sys_inv s" and "lock_rec_reset_and_release_wait block h s = Some t"
  shows "sys_inv t"
proof (rule each_lock_over [where I = sys_inv and C = chained])
  show "each_lock (lock_rec_get_next h) (\<lambda>l s. if lock_get_wait (lock_at s l) then lock_rec_cancel l s
      else Some (upd_lock l (lock_rec_reset_nth_bit h) s)) (lock_rec_get_first block h s) s = Some t"
    using assms(2) by (simp add: lock_rec_reset_and_release_wait_def)
  fix l s u
  assume "sys_inv s" "chained s l" "(if lock_get_wait (lock_at s l) then lock_rec_cancel l s
      else Some (upd_lock l (lock_rec_reset_nth_bit h) s)) = Some u"
  then show "sys_inv u" by (auto simp: waiting_def intro: cancel_sys reset_bit_sys split: if_splits)
qed (use assms(1) in \<open>auto intro: next_chained\<close>)

lemma unlock_sys:
  assumes inv: "sys_inv s" and run: "lock_rec_unlock trx block h mode s = Some t"
  shows "sys_inv t"
proof -
  let ?mine = "filter (\<lambda>l. lk_trx (lock_at s l) = trx \<and> lock_get_mode (lock_at s l) = mode) (blk_queue block h s)"
  let ?s1 = "upd_lock (last ?mine) (lock_rec_reset_nth_bit h) s"
  have "t = s \<or> each_lock (lock_rec_get_next h) grant_if_free (lock_rec_get_first block h ?s1) ?s1 = Some t"
    using run unfolding lock_rec_unlock_def Let_def by (auto split: if_splits)
  then show ?thesis
    using inv grant_loop_sys [OF reset_bit_sys [OF inv]] next_chained(2,5) by blast
qed

subsection \<open>Table locks\<close>

lemma table_ahead_conflict_iff:
  "table_ahead_conflict s w xs \<longleftrightarrow> (\<exists>a \<in> set (ahead w xs). lock_has_to_wait (lock_at s w) (lock_at s a))"
  by (induction xs) (auto simp: ahead_Cons)

lemma table_has_to_wait_iff:
  assumes inv: "table_inv s" and l: "l \<in> set (tabq s tab)"
  shows "lock_table_has_to_wait_in_queue l s \<longleftrightarrow> (\<exists>a \<in> set (ahead l (tabq s tab)). tab_conflict s a l)"
proof -
  have w: "tab_wf s tab l" using table_invD(2) [OF inv l] .
  have "lock_has_to_wait (lock_at s l) (lock_at s a) \<longleftrightarrow> tab_conflict s a l"
    if "a \<in> set (ahead l (tabq s tab))" for a
  proof -
    have "tab_wf s tab a" using table_invD(2) [OF inv] ahead_subset [OF that] by blast
    then show ?thesis
      using w compatible_sym [of "lock_get_mode (lock_at s l)" "lock_get_mode (lock_at s a)"]
      by (auto simp: lock_has_to_wait_def tab_conflict_def tab_wf_def lock_flag_consts)
  qed
  then show ?thesis
    using w by (simp add: lock_table_has_to_wait_in_queue_def table_ahead_conflict_iff tab_wf_def)
qed

definition tabled :: "lock_sys \<Rightarrow> lock_ptr \<Rightarrow> bool" where
  "tabled s l \<longleftrightarrow> (\<exists>tab. l \<in> set (tabq s tab))"

lemma table_grant_taken: "table_grant_if_free l s = Some t \<Longrightarrow> taken s t \<and> tabs t = tabs s"
  by (auto simp: table_grant_if_free_def tabs_lock_grant intro: taken_lock_grant lock_core_taken split: if_splits)

lemma table_grant_sys:
  assumes inv: "sys_inv s" and run: "table_grant_if_free l s = Some t" and l: "tabled s l"
  shows "sys_inv t"
proof -
  obtain tab where tab: "l \<in> set (tabq s tab)" using l by (auto simp: tabled_def)
  note tk = table_grant_taken [OF run]
  have only: "x = l \<and> \<not> lock_table_has_to_wait_in_queue l s" if "waiting s x" "\<not> waiting t x" for x
    using that run waiting_lock_grant [of l s t x] by (auto simp: table_grant_if_free_def split: if_splits)
  have "lock_inv t"
  proof (rule taken_inv [OF conjunct1 [OF tk] sys_invD(1) [OF inv]])
    fix sp pg h x a assume "waiting s x" "\<not> waiting t x" "x \<in> set (rec_queue sp pg h t)"
    then show "\<not> rec_conflict s a x"
      using only [of x] table_not_rec_queue [OF inv tab, of sp pg h]
        taken_queue [OF conjunct1 [OF tk] sys_invD(3) [OF inv], of sp pg h] by auto
  qed
  then show ?thesis
  proof (rule sys_taken [OF inv conjunct1 [OF tk] tabs_taken_same [OF conjunct2 [OF tk]]])
    fix tab' x a
    assume x: "x \<in> set (tabq t tab')" "waiting s x" "\<not> waiting t x" and a: "a \<in> set (ahead x (tabq s tab'))"
    have "x = l" "\<not> lock_table_has_to_wait_in_queue l s" using only [OF x(2,3)] by simp_all
    moreover have "l \<in> set (tabq s tab')" using x(1) tk \<open>x = l\<close> by simp
    ultimately show "\<not> tab_conflict s a x"
      using table_has_to_wait_iff [OF sys_invD(2) [OF inv], of l tab'] a by auto
  qed
qed

lemma table_next_tabled: "table_next s l = Some n \<Longrightarrow> tabled s n"
  by (auto simp: table_next_def tabled_def split: list.splits dest: nodes_after_subset [of n l])
    (metis list.set_intros(1) nodes_after_subset)

lemma remove_low_taken:
  assumes "lock_table_remove_low l s = Some t"
  shows "lock_core t = lock_core s" and "tabs_taken s t"
    and "tabq t tab = (if tab = lk_table (lock_at s l) then remove1 l (tabq s tab) else tabq s tab)"
proof -
  show "lock_core t = lock_core s"
    using assms by (auto simp: lock_table_remove_low_def Let_def split: if_splits)
  show "tabs_taken s t"
    using assms by (auto simp: lock_table_remove_low_def Let_def tabs_taken_def filter_True_ex remove1_filter_ex
        split: if_splits)
  show "tabq t tab = (if tab = lk_table (lock_at s l) then remove1 l (tabq s tab) else tabq s tab)"
    using assms by (auto simp: lock_table_remove_low_def Let_def split: if_splits)
qed

lemma remove_low_sys: "sys_inv s \<Longrightarrow> lock_table_remove_low l s = Some t \<Longrightarrow> sys_inv t"
  by (rule sys_taken_simple [OF _ lock_core_taken])
    (auto simp: remove_low_taken(1,2) waiting_core [OF remove_low_taken(1)])

lemma nodes_after_not_self: "distinct xs \<Longrightarrow> l \<notin> set (nodes_after l xs)"
  by (induction xs) auto

lemma table_dequeue_Some:
  assumes "lock_table_dequeue l s = Some t"
  obtains s1 where "lock_table_remove_low l s = Some s1"
    and "each_lock table_next table_grant_if_free (table_next s l) s1 = Some t"
    and "lock_get_type_low (lock_at s l) = LOCK_TABLE"
  using assms by (auto simp: lock_table_dequeue_def Let_def bind_eq_Some_conv split: if_splits)

lemma table_dequeue_sys:
  assumes inv: "sys_inv s" and run: "lock_table_dequeue l s = Some t"
  shows "sys_inv t"
proof (rule table_dequeue_Some [OF run])
  fix s1
  assume rm: "lock_table_remove_low l s = Some s1"
    and loop: "each_lock table_next table_grant_if_free (table_next s l) s1 = Some t"
  show "sys_inv t"
  proof (rule each_lock_over [where I = sys_inv and C = tabled, OF loop])
    show "sys_inv s1" using inv rm by (rule remove_low_sys)
    fix n assume n: "table_next s l = Some n"
    let ?q = "tabq s (lk_table (lock_at s l))"
    have "n \<in> set (nodes_after l ?q)" using n by (auto simp: table_next_def split: list.splits)
    then have "n \<in> set ?q" "n \<noteq> l"
      using nodes_after_not_self [of ?q l] table_invD(1) [OF sys_invD(2) [OF inv]]
      by (auto dest: nodes_after_subset)
    then have "n \<in> set (tabq s1 (lk_table (lock_at s l)))"
      using remove_low_taken(3) [OF rm] by (simp add: in_set_remove1)
    then show "tabled s1 n" unfolding tabled_def by blast
  qed (auto intro: table_grant_sys table_next_tabled)
qed

lemma taken_each_table_grant:
  assumes "each_lock nxt table_grant_if_free cur s = Some t"
  shows "taken s t \<and> tabs t = tabs s"
proof -
  have refl: "taken s s" by (rule lock_core_taken) simp
  show ?thesis
    by (rule each_lock_inv [where I = "\<lambda>t. taken s t \<and> tabs t = tabs s", OF assms])
      (auto simp: refl intro: taken_trans dest: table_grant_taken)
qed

lemma table_dequeue_taken:
  assumes "lock_table_dequeue l s = Some t"
  shows "taken s t" and "tabq t tab = (if tab = lk_table (lock_at s l) then remove1 l (tabq s tab) else tabq s tab)"
proof -
  obtain s1 where rm: "lock_table_remove_low l s = Some s1"
    and "each_lock table_next table_grant_if_free (table_next s l) s1 = Some t"
    using table_dequeue_Some [OF assms] by blast
  then have e: "taken s1 t" "tabs t = tabs s1" by (simp_all add: taken_each_table_grant)
  have "taken s s1" using lock_core_taken remove_low_taken(1) [OF rm] by metis
  then show "taken s t" using e(1) by (rule taken_trans)
  show "tabq t tab = (if tab = lk_table (lock_at s l) then remove1 l (tabq s tab) else tabq s tab)"
    using remove_low_taken(3) [OF rm] by (simp add: e(2))
qed

subsection \<open>Cancelling, releasing, searching for deadlocks\<close>

lemma taken_chain_subset:
  assumes "taken s t" and "distinct (rec_hash s c)" and "x \<in> set (rec_hash t c)"
  shows "x \<in> set (rec_hash s c)"
proof -
  obtain P where "rec_hash t c = filter P (rec_hash s c)" using assms(1,2) unfolding taken_def by blast
  then show ?thesis using assms(3) by simp
qed

lemma dequeue_gone:
  assumes inv: "sys_inv s" and run: "lock_rec_dequeue_from_page l s = Some t"
  shows "l \<notin> set (rec_hash t c)" and "chained s l"
proof -
  note wf = sys_invD(3) [OF inv]
  obtain s1 where d: "HASH_DELETE (lock_rec_fold (lk_space (lock_at s l)) (lk_page_no (lock_at s l))) l s = Some s1"
    and loop: "\<exists>cur. each_lock lock_rec_get_next_on_page grant_if_free cur
      (upd_ltrx (lk_trx (lock_at s l)) (\<lambda>t. t\<lparr>trx_locks := remove1 l (trx_locks t)\<rparr>) s1) = Some t"
    using dequeue_Some [OF run] by blast
  let ?c = "lock_rec_hash (lk_space (lock_at s l)) (lk_page_no (lock_at s l)) s"
  have c: "l \<in> set (rec_hash s ?c)" using d by (simp add: hash_delete_Some lock_rec_hash_def)
  then show "chained s l" unfolding chained_def by blast
  have s1: "rec_hash s1 = (rec_hash s)(?c := remove1 l (rec_hash s ?c))"
    using d by (simp add: hash_delete_Some lock_rec_hash_def)
  have "l \<notin> set (rec_hash s1 c)"
  proof (cases "c = ?c")
    case True
    then show ?thesis using chains_wfD(1) [OF wf, of ?c] by (simp add: s1)
  next
    case False
    then show ?thesis using in_chain_eq [OF wf c, of c] by (auto simp: s1)
  qed
  moreover have "chains_wf s1" by (rule taken_wf [OF taken_hash_delete [OF d] wf])
  then have "distinct (rec_hash s1 c)" by (rule chains_wfD)
  moreover have "taken (upd_ltrx (lk_trx (lock_at s l)) (\<lambda>t. t\<lparr>trx_locks := remove1 l (trx_locks t)\<rparr>) s1) t"
    using loop taken_each_grant by blast
  ultimately show "l \<notin> set (rec_hash t c)"
    using taken_chain_subset by fastforce
qed

lemma cancel_waiting_sys:
  assumes inv: "sys_inv s" and run: "lock_cancel_waiting_and_release l s = Some t"
  shows "sys_inv t \<and> taken s t"
proof -
  obtain s1 where s1: "(if lock_get_type_low (lock_at s l) = LOCK_REC then lock_rec_dequeue_from_page l s
        else lock_table_dequeue l s) = Some s1"
    and t: "trx_end_lock_wait (lk_trx (lock_at s1 l)) (lock_reset_lock_and_trx_wait l s1) = Some t"
    using run by (auto simp: lock_cancel_waiting_and_release_def bind_eq_Some_conv)
  have inv1: "sys_inv s1" and tk1: "taken s s1"
    using s1 inv by (auto intro: dequeue_sys table_dequeue_sys table_dequeue_taken
        simp: dequeue_taken split: if_splits)
  have gone: "l \<notin> set (rec_hash s1 c) \<and> l \<notin> set (tabq s1 tab)" for c tab
  proof (cases "lock_get_type_low (lock_at s l) = LOCK_REC")
    case True
    then have d: "lock_rec_dequeue_from_page l s = Some s1" using s1 by simp
    then show ?thesis
      using dequeue_gone [OF inv d] rec_not_table [OF inv] dequeue_taken [OF d] by (auto simp: chained_def)
  next
    case False
    then have d: "lock_table_dequeue l s = Some s1" using s1 by simp
    have "l \<notin> set (tabq s1 tab)"
      using table_dequeue_taken(2) [OF d, of tab] table_invD(1) [OF sys_invD(2) [OF inv], of tab]
        table_invD(2) [OF sys_invD(2) [OF inv], of l tab]
      by (auto simp: tab_wf_def split: if_splits)
    moreover have "l \<notin> set (rec_hash s c)" using False chains_wfD(2) [OF sys_invD(3) [OF inv], of l c]
      by (auto simp: lock_wf_def)
    then have "l \<notin> set (rec_hash s1 c)"
      using taken_chain_subset [OF tk1 chains_wfD(1) [OF sys_invD(3) [OF inv]]] by blast
    ultimately show ?thesis by simp
  qed
  have "sys_inv (lock_reset_lock_and_trx_wait l s1)"
    by (rule clear_wait_sys [OF inv1]) (use gone in \<open>auto simp: rec_queue_eq chain_def\<close>)
  then have "sys_inv t" using t by (rule trx_end_lock_wait_sys)
  moreover have "taken s t"
    using taken_trans [OF tk1 taken_clear_wait] core_trx_end_lock_wait [OF t] by (rule taken_core_right)
  ultimately show ?thesis ..
qed

lemma release_one_sys:
  assumes inv: "sys_inv s" and run: "release_one trx l s = Some t"
  shows "sys_inv t"
proof (cases "lock_get_type_low (lock_at s l) = LOCK_REC")
  case True
  then show ?thesis using dequeue_sys [OF inv, of l t] run by (simp add: release_one_def)
next
  case False
  let ?u = "upd_tab (lk_table (lock_at s l)) (\<lambda>t. t\<lparr>query_cache_inv_trx_id := ls_max_trx_id s\<rparr>) s"
  have "sys_inv ?u"
    by (rule sys_taken_simple [OF inv lock_core_taken])
      (auto simp: tabs_taken_def filter_True_ex waiting_def)
  then show ?thesis
    using False run inv by (auto simp: release_one_def Let_def intro: table_dequeue_sys split: if_splits)
qed

lemma release_loop_sys:
  assumes "release_loop trx s = Some t" and "sys_inv s"
  shows "sys_inv t"
proof -
  let ?P = "\<lambda>trx s t. sys_inv s \<longrightarrow> sys_inv t"
  have "?P trx s t"
  proof (rule release_loop.raw_induct [where P = ?P, OF _ assms(1)], goal_cases)
    case (1 f trx s t)
    then show ?case
      by (auto simp: bind_eq_Some_conv split: if_splits) (blast dest: release_one_sys)
  qed
  then show ?thesis using assms(2) by blast
qed

lemma release_sys: "lock_release_off_kernel trx s = Some t \<Longrightarrow> sys_inv s \<Longrightarrow> sys_inv t"
  by (auto simp: lock_release_off_kernel_def bind_eq_Some_conv dest: release_loop_sys split: if_splits)

text \<open>The four ways a step of the search goes on.\<close>

lemma deadlock_scan_cases:
  assumes "deadlock_scan start trx wl (l # ls) cost depth s = Some (ret, cost1, t)"
  obtains (skip) "deadlock_scan start trx wl ls cost depth s = Some (ret, cost1, t)"
      "\<not> lock_has_to_wait (lock_at s wl) (lock_at s l) \<or>
       lock_has_to_wait (lock_at s wl) (lock_at s l) \<and>
       lk_trx (lock_at s l) \<noteq> start \<and> trx_que_state (trxs s (lk_trx (lock_at s l))) \<noteq> TRX_QUE_LOCK_WAIT \<and>
       depth \<le> LOCK_MAX_DEPTH_IN_DEADLOCK_CHECK \<and> cost \<le> LOCK_MAX_N_STEPS_IN_DEADLOCK_CHECK"
  | (found) "lock_has_to_wait (lock_at s wl) (lock_at s l)" "ret \<noteq> NO_DEADLOCK"
      "t = s \<or> lock_cancel_waiting_and_release wl
        (upd_ltrx (lk_trx (lock_at s wl)) (\<lambda>t. t\<lparr>was_chosen_as_deadlock_victim := True\<rparr>) s) = Some t"
      "lk_trx (lock_at s l) = start \<or> ret = LOCK_VICTIM_IS_START \<and> cost1 = cost \<and>
        (depth > LOCK_MAX_DEPTH_IN_DEADLOCK_CHECK \<or> cost > LOCK_MAX_N_STEPS_IN_DEADLOCK_CHECK)"
  | (deeper) r c1 s1 where "lock_has_to_wait (lock_at s wl) (lock_at s l)" "lk_trx (lock_at s l) \<noteq> start"
      "depth \<le> LOCK_MAX_DEPTH_IN_DEADLOCK_CHECK" "cost \<le> LOCK_MAX_N_STEPS_IN_DEADLOCK_CHECK"
      "trx_que_state (trxs s (lk_trx (lock_at s l))) = TRX_QUE_LOCK_WAIT"
      "lock_deadlock_recursive start (lk_trx (lock_at s l)) (wait_lock (trxs s (lk_trx (lock_at s l))))
        cost (depth + 1) s = Some (r, c1, s1)"
      "if r = NO_DEADLOCK then deadlock_scan start trx wl ls c1 depth s1 = Some (ret, cost1, t)
       else (ret, cost1, t) = (r, c1, s1)"
proof (cases "lock_has_to_wait (lock_at s wl) (lock_at s l)")
  case False
  then show ?thesis using assms skip by simp
next
  case wait: True
  show ?thesis
  proof (cases "lk_trx (lock_at s l) = start \<or> depth > LOCK_MAX_DEPTH_IN_DEADLOCK_CHECK \<or>
      cost > LOCK_MAX_N_STEPS_IN_DEADLOCK_CHECK")
    case True
    let ?v = "upd_ltrx (lk_trx (lock_at s wl)) (\<lambda>t. t\<lparr>was_chosen_as_deadlock_victim := True\<rparr>) s"
    have "ret \<noteq> NO_DEADLOCK \<and> (t = s \<or> lock_cancel_waiting_and_release wl ?v = Some t) \<and>
        (lk_trx (lock_at s l) = start \<or> ret = LOCK_VICTIM_IS_START \<and> cost1 = cost)"
    proof (cases "lk_trx (lock_at s l) = start")
      case st: True
      then show ?thesis using assms wait by (simp add: Let_def split: if_splits)
    next
      case False
      then show ?thesis using assms wait True by (simp add: Let_def split: if_splits)
    qed
    then show ?thesis using found wait True by blast
  next
    case near: False
    show ?thesis
    proof (cases "trx_que_state (trxs s (lk_trx (lock_at s l))) = TRX_QUE_LOCK_WAIT")
      case False
      then show ?thesis using assms wait near skip by (simp add: Let_def not_less)
    next
      case True
      obtain r c1 s1 where rec: "lock_deadlock_recursive start (lk_trx (lock_at s l))
          (wait_lock (trxs s (lk_trx (lock_at s l)))) cost (depth + 1) s = Some (r, c1, s1)"
        using assms wait near True by (auto simp: Let_def split: option.splits)
      have "if r = NO_DEADLOCK then deadlock_scan start trx wl ls c1 depth s1 = Some (ret, cost1, t)
        else (ret, cost1, t) = (r, c1, s1)"
        using assms wait near True rec by (simp add: Let_def split: if_splits)
      then show ?thesis using deeper wait near True rec by (simp add: not_less)
    qed
  qed
qed

lemma deadlock_sys:
  "lock_deadlock_recursive start trx w cost depth s = Some (ret, cost1, t) \<Longrightarrow> sys_inv s \<Longrightarrow> sys_inv t \<and> taken s t"
  "deadlock_scan start trx wl ls cost depth s = Some (ret, cost1, t) \<Longrightarrow> sys_inv s \<Longrightarrow> sys_inv t \<and> taken s t"
proof (induction start trx w cost depth s and start trx wl ls cost depth s
    arbitrary: ret cost1 t and ret cost1 t rule: lock_deadlock_recursive_deadlock_scan.induct)
  have tk_refl: "taken s s" for s by (rule lock_core_taken) simp
  {
    case (1 start trx cost depth s)
    then show ?case by simp
  next
    case (2 start trx wl cost depth s)
    then show ?case by (auto simp: tk_refl split: if_splits)
  next
    case (3 start trx wl cost depth s)
    then show ?case by (auto simp: lock_core_taken trxs_sys)
  next
    case (4 start trx wl l ls cost depth s)
    note IH = 4(1-4)
    from 4(5) show ?case
    proof (cases rule: deadlock_scan_cases)
      case skip
      then show ?thesis using IH(3) [OF _ refl refl refl] IH(4) 4(6) by (auto simp: not_less)
    next
      case found
      let ?v = "upd_ltrx (lk_trx (lock_at s wl)) (\<lambda>t. t\<lparr>was_chosen_as_deadlock_victim := True\<rparr>) s"
      have "taken s ?v" by (rule lock_core_taken) simp
      then show ?thesis
        using found(3) 4(6) tk_refl cancel_waiting_sys [OF trxs_sys [OF 4(6)]] taken_trans [of s ?v] by blast
    next
      case (deeper r c1 s1)
      have s1: "sys_inv s1 \<and> taken s s1"
        using IH(1) deeper 4(6) by (simp add: not_less)
      show ?thesis
      proof (cases "r = NO_DEADLOCK")
        case True
        then have "sys_inv t \<and> taken s1 t"
          using IH(2) deeper s1 by (simp add: not_less)
        then show ?thesis using s1 taken_trans by blast
      next
        case False
        then show ?thesis using deeper(7) s1 by simp
      qed
    qed
  }
qed

lemma deadlock_retry_sys:
  assumes "deadlock_retry l trx cost s = Some (b, t)" and "sys_inv s"
  shows "sys_inv t \<and> taken s t"
proof -
  let ?P = "\<lambda>l trx cost s r. sys_inv s \<longrightarrow> sys_inv (snd r) \<and> taken s (snd r)"
  have "?P l trx cost s (b, t)"
  proof (rule deadlock_retry.raw_induct [where P = ?P, OF _ assms(1)], goal_cases)
    case (1 f l trx cost s r)
    obtain ret c1 s1 where rec: "lock_deadlock_recursive trx trx (Some l) cost 0 (reset_marks (ls_trx_list s) s) = Some (ret, c1, s1)"
      and k: "(if ret = LOCK_VICTIM_IS_OTHER then f l trx c1 s1 else Some (ret = LOCK_VICTIM_IS_START, s1)) = Some r"
      using 1(2) by (auto simp: bind_eq_Some_conv)
    show ?case
    proof
      assume inv: "sys_inv s"
      have "sys_inv (reset_marks (ls_trx_list s) s)" by (rule sys_core [OF inv]) (simp_all add: core_reset_marks)
      then have s1: "sys_inv s1 \<and> taken (reset_marks (ls_trx_list s) s) s1" using deadlock_sys(1) [OF rec] by blast
      have "taken s (reset_marks (ls_trx_list s) s)" by (rule lock_core_taken) (simp add: core_reset_marks)
      then have tk: "taken s s1" using s1 taken_trans by blast
      show "sys_inv (snd r) \<and> taken s (snd r)"
        using k s1 tk 1(1) [of l trx c1 s1 r] taken_trans [OF tk] by (auto split: if_splits)
    qed
  qed
  then show ?thesis using assms(2) by simp
qed

section \<open>Adding keeps both invariants\<close>

lemma lock_inv_frame:
  assumes inv: "lock_inv s" and "n_cells t = n_cells s" and "rec_hash t = rec_hash s" and "lock_brk s \<le> lock_brk t"
    and same: "\<And>c l. l \<in> set (rec_hash s c) \<Longrightarrow> lock_at t l = lock_at s l"
  shows "lock_inv t"
proof -
  note wf = lock_invD(1) [OF inv]
  have hash: "lock_rec_hash sp pg t = lock_rec_hash sp pg s" for sp pg
    using assms(2) by (simp add: lock_rec_hash_def hash_calc_hash_def)
  have "rec_queue sp pg h t = rec_queue sp pg h s" for sp pg h
    unfolding rec_queue_eq chain_def hash assms(3)
    by (rule filter_cong) (auto simp: on_page_def has_bit_def same)
  moreover have "x \<in> set (rec_queue sp pg h s) \<Longrightarrow> lock_at t x = lock_at s x" for x sp pg h
    by (auto simp: rec_queue_eq chain_def same)
  moreover have "chains_wf t"
  proof -
    have "lock_wf t c l" if "l \<in> set (rec_hash s c)" for c l
      using chains_wfD(2) [OF wf that] same [OF that] assms(4) by (auto simp: lock_wf_def hash waiting_def has_bit_def)
    then show ?thesis using chains_wfD(1) [OF wf] assms(3) by (simp add: chains_wf_def)
  qed
  ultimately have q: "rec_queue sp pg h t = rec_queue sp pg h s"
    and at: "x \<in> set (rec_queue sp pg h s) \<Longrightarrow> lock_at t x = lock_at s x"
    and wft: "chains_wf t" for sp pg h x by blast+
  have "\<not> rec_conflict t a x"
    if "h \<noteq> PAGE_HEAP_NO_SUPREMUM" "x \<in> set (rec_queue sp pg h s)" "\<not> waiting t x"
      and a: "a \<in> set (ahead x (rec_queue sp pg h s))" for sp pg h x a
  proof -
    have e: "lock_at t x = lock_at s x" "lock_at t a = lock_at s a"
      using at [of x sp pg h] at [of a sp pg h] that(2) ahead_subset [OF a] by simp_all
    then have "\<not> rec_conflict s a x"
      using lock_invD(2) [OF inv] that unfolding rule3_ahead [OF wf] waiting_def by auto
    then show ?thesis using e by (simp add: rec_conflict_def)
  qed
  then show ?thesis using wft by (simp add: lock_inv_def rule3_ahead q)
qed

lemma table_inv_frame:
  assumes inv: "table_inv s" and "tabs t = tabs s" and "lock_brk s \<le> lock_brk t"
    and same: "\<And>tab l. l \<in> set (tabq s tab) \<Longrightarrow> lock_at t l = lock_at s l"
    and bufs: "\<And>tab c. tabbuf s tab \<notin> set (rec_hash t c)"
  shows "table_inv t"
proof -
  have "bufs_ok t"
  proof -
    have "tab' = tab \<and> lock_get_mode (lock_at t (tabbuf s tab)) = LOCK_AUTO_INC"
      if "tabbuf s tab \<in> set (tabq s tab')" for tab tab'
      using inv that same [OF that] by (simp add: table_inv_def bufs_ok_def)
    then show ?thesis
      using inv assms(2,3) bufs unfolding table_inv_def bufs_ok_def by (auto intro: less_le_trans)
  qed
  moreover have "tab_wf t tab l" if "l \<in> set (tabq s tab)" for tab l
    using table_invD(2) [OF inv that] same [OF that] assms(3) by (simp add: tab_wf_def)
  moreover have "\<not> tab_conflict t a l"
    if l: "l \<in> set (tabq s tab)" "\<not> waiting t l" and a: "a \<in> set (ahead l (tabq s tab))" for tab l a
    using table_invD(3) [OF inv l(1) _ a] l(2) same [OF l(1)] same [of a tab] ahead_subset [OF a]
    by (simp add: waiting_def tab_conflict_def)
  ultimately show ?thesis
    using table_invD(1) [OF inv] assms(2) unfolding table_inv_def by simp
qed

lemma tabs_create [simp]: "tabs (snd (lock_rec_create tm block h index trx s)) = tabs s"
  by (simp add: lock_rec_create_def Let_def HASH_INSERT_def lock_set_lock_and_trx_wait_def)

lemma create_sys:
  assumes inv: "sys_inv s" and "h < blk_bits block" and "tm_mode tm \<in> {LOCK_S, LOCK_X}"
    and "\<And>x. h \<noteq> PAGE_HEAP_NO_SUPREMUM \<Longrightarrow> \<not> tm_wait tm \<Longrightarrow> x \<in> set (blk_queue block h s) \<Longrightarrow>
      \<not> tm_conflict (lk_trx (lock_at s x)) (type_mode (lock_at s x)) trx tm"
  shows "sys_inv (snd (lock_rec_create tm block h index trx s))"
proof -
  let ?t = "snd (lock_rec_create tm block h index trx s)"
  have "lock_inv ?t" using assms sys_invD(1) [OF inv] by (intro create_inv) auto
  moreover have "table_inv ?t"
  proof (rule table_inv_frame [OF sys_invD(2) [OF inv]])
    have r: "rec_hash ?t = (rec_hash s)(lock_rec_hash (blk_space block) (blk_page_no block) s :=
        chain (blk_space block) (blk_page_no block) s @ [lock_brk s])"
      and a: "lock_at ?t = (lock_at s)(lock_brk s := created tm block h index trx)"
      and b: "lock_brk ?t = Suc (lock_brk s)"
      using create_core(2) [of tm block h index trx s] by (simp_all add: lock_core_def)
    show "lock_brk s \<le> lock_brk ?t" by (simp add: b)
    show "lock_at ?t l = lock_at s l" if "l \<in> set (tabq s tab)" for tab l
      using table_invD(2) [OF sys_invD(2) [OF inv] that] by (simp add: a tab_wf_def)
    show "tabbuf s tab \<notin> set (rec_hash ?t c)" for tab c
    proof -
      have "tabbuf s tab < lock_brk s" "\<And>c. tabbuf s tab \<notin> set (rec_hash s c)"
        using sys_invD(5) [OF inv] by (simp_all add: bufs_ok_def)
      then show ?thesis by (auto simp: r chain_def)
    qed
  qed simp
  ultimately show ?thesis by (simp add: sys_inv_def)
qed

text \<open>A bit set in a record lock is no matter of the tables.\<close>

lemma set_bit_table_inv:
  assumes inv: "sys_inv s" and l: "chained s l"
  shows "table_inv (upd_lock l (lock_rec_set_nth_bit h) s)"
proof (rule table_inv_frame [OF sys_invD(2) [OF inv]])
  show "lock_at (upd_lock l (lock_rec_set_nth_bit h) s) x = lock_at s x" if "x \<in> set (tabq s tab)" for tab x
    using that l rec_not_table [OF inv] by (auto simp: chained_def)
  show "tabbuf s tab \<notin> set (rec_hash (upd_lock l (lock_rec_set_nth_bit h) s) c)" for tab c
    using sys_invD(5) [OF inv] by (simp add: bufs_ok_def)
qed simp_all

lemma add_to_queue_eq:
  "lock_rec_add_to_queue tm block h index trx s =
    (if \<not> (\<exists>l \<in> set (page_queue (blk_space block) (blk_page_no block) s).
          lock_get_wait (lock_at s l) \<and> lock_rec_get_nth_bit (lock_at s l) h) \<and>
        \<not> tm_wait (sup_tm h (tm OR LOCK_REC)) then
       (case lock_rec_find_similar_on_page (sup_tm h (tm OR LOCK_REC)) h block trx s of
          Some l \<Rightarrow> (l, upd_lock l (lock_rec_set_nth_bit h) s)
        | None \<Rightarrow> lock_rec_create (sup_tm h (tm OR LOCK_REC)) block h index trx s)
     else lock_rec_create (sup_tm h (tm OR LOCK_REC)) block h index trx s)"
  unfolding lock_rec_add_to_queue_def Let_def sup_tm_def by (rule refl)

lemma add_to_queue_cases:
  obtains (reuse) l where "l \<in> set (page_queue (blk_space block) (blk_page_no block) s)"
      "snd (lock_rec_add_to_queue tm block h index trx s) = upd_lock l (lock_rec_set_nth_bit h) s"
      "lock_rec_find_similar_on_page (sup_tm h (tm OR LOCK_REC)) h block trx s = Some l"
  | (create) "snd (lock_rec_add_to_queue tm block h index trx s) =
      snd (lock_rec_create (sup_tm h (tm OR LOCK_REC)) block h index trx s)"
proof (cases "lock_rec_find_similar_on_page (sup_tm h (tm OR LOCK_REC)) h block trx s")
  case None
  then show ?thesis by (intro create) (simp add: add_to_queue_eq)
next
  case (Some l)
  have "l \<in> set (page_queue (blk_space block) (blk_page_no block) s)"
    using find_Some [OF Some [unfolded lock_rec_find_similar_on_page_def]] by simp
  moreover have "snd (lock_rec_add_to_queue tm block h index trx s) = upd_lock l (lock_rec_set_nth_bit h) s \<or>
      snd (lock_rec_add_to_queue tm block h index trx s) =
        snd (lock_rec_create (sup_tm h (tm OR LOCK_REC)) block h index trx s)"
    unfolding add_to_queue_eq Some by simp
  ultimately show ?thesis using reuse create Some by blast
qed

lemma add_to_queue_sys:
  assumes inv: "sys_inv s" and "h < blk_bits block" and "tm_mode tm \<in> {LOCK_S, LOCK_X}"
    and "\<And>x. h \<noteq> PAGE_HEAP_NO_SUPREMUM \<Longrightarrow> \<not> tm_wait tm \<Longrightarrow> x \<in> set (blk_queue block h s) \<Longrightarrow>
      \<not> tm_conflict (lk_trx (lock_at s x)) (type_mode (lock_at s x)) trx tm"
  shows "sys_inv (snd (lock_rec_add_to_queue tm block h index trx s))"
proof -
  let ?t = "snd (lock_rec_add_to_queue tm block h index trx s)"
  have "lock_inv ?t" using assms sys_invD(1) [OF inv] by (intro add_to_queue_inv) auto
  moreover have "table_inv ?t"
  proof (cases rule: add_to_queue_cases [of block s tm h index trx])
    case (reuse l)
    then show ?thesis using set_bit_table_inv [OF inv, of l h] by (auto simp: page_queue_def chained_def chain_def)
  next
    case create
    have "sys_inv (snd (lock_rec_create (sup_tm h (tm OR LOCK_REC)) block h index trx s))"
      by (rule create_sys [OF inv assms(2)]) (use assms in \<open>simp_all add: tm_simps tm_conflict_def\<close>)
    then show ?thesis using create sys_invD(2) by simp
  qed
  ultimately show ?thesis by (simp add: sys_inv_def)
qed

section \<open>Requests\<close>

lemma suspend_sys: "suspend_for_lock thr s = Some (err, t) \<Longrightarrow> sys_inv s \<Longrightarrow> sys_inv t"
  by (rule sys_core) (auto simp: core_suspend tabs_suspend)

lemma reset_bit_clear_wait_commute:
  "upd_lock l (lock_rec_reset_nth_bit h) (lock_reset_lock_and_trx_wait l s) =
   lock_reset_lock_and_trx_wait l (upd_lock l (lock_rec_reset_nth_bit h) s)"
  by (cases s, cases "lock_at s l")
    (simp add: lock_reset_lock_and_trx_wait_def lock_rec_reset_nth_bit_def)

lemma enqueue_sys:
  assumes inv: "sys_inv s" and h: "h < blk_bits block" and m: "tm_mode tm \<in> {LOCK_S, LOCK_X}"
    and run: "lock_rec_enqueue_waiting tm block h index thr s = Some (err, t)"
  shows "sys_inv t"
proof -
  let ?trx = "thr_trx (thrs s thr)"
  let ?s1 = "snd (lock_rec_create (tm OR LOCK_WAIT) block h index ?trx s)" and ?l = "lock_brk s"
  have s1: "sys_inv ?s1" by (rule create_sys [OF inv h]) (use m in \<open>simp_all add: tm_simps\<close>)
  obtain d s2 where dl: "lock_deadlock_occurs ?l ?trx ?s1 = Some (d, s2)"
    and t: "if d then t = upd_lock ?l (lock_rec_reset_nth_bit h) (lock_reset_lock_and_trx_wait ?l s2)
      else suspend_for_lock thr s2 = Some (err, t)"
    using run create_core(1) [of "tm OR LOCK_WAIT" block h index ?trx s]
    by (auto simp: lock_rec_enqueue_waiting_def Let_def split: if_splits prod.splits option.splits)
  have s2: "sys_inv s2" "taken ?s1 s2"
    using deadlock_retry_sys [OF dl [unfolded lock_deadlock_occurs_def] s1] by simp_all
  show ?thesis
  proof (cases d)
    case False
    then show ?thesis using t s2(1) suspend_sys by simp
  next
    case True
    let ?s3 = "upd_lock ?l (lock_rec_reset_nth_bit h) s2"
    have k: "lock_at ?s1 ?l = created (tm OR LOCK_WAIT) block h index ?trx"
      using create_core(2) [of "tm OR LOCK_WAIT" block h index ?trx s] by (simp add: lock_core_def)
    have tk: "lock_ok (lock_at s2 ?l)" "\<And>i. has_bit s2 i ?l \<Longrightarrow> i = h"
      "lock_get_type_low (lock_at s2 ?l) = LOCK_REC"
    proof -
      have f: "same_lock (lock_at ?s1 ?l) (lock_at s2 ?l)" "lock_ok (lock_at ?s1 ?l) \<longrightarrow> lock_ok (lock_at s2 ?l)"
        "lock_ok (lock_at ?s1 ?l) \<longrightarrow> (\<forall>i. has_bit s2 i ?l \<longrightarrow> has_bit ?s1 i ?l)"
        using s2(2) unfolding taken_def by blast+
      show "lock_ok (lock_at s2 ?l)" "\<And>i. has_bit s2 i ?l \<Longrightarrow> i = h" "lock_get_type_low (lock_at s2 ?l) = LOCK_REC"
        using f k created_bit [OF h] by (auto simp: created_fields has_bit_def same_lock_def)
    qed
    have "\<not> has_bit ?s3 i ?l" for i using tk(1) tk(2) [of i] by (auto simp: has_bit_def nth_bit_reset)
    then have "?l \<notin> set (rec_queue sp pg i ?s3)" for sp pg i by (simp add: rec_queue_eq)
    moreover have "?l \<notin> set (tabq ?s3 tab)" for tab
      using table_invD(2) [OF sys_invD(2) [OF s2(1)], of ?l tab] tk(3) by (auto simp: tab_wf_def lock_flag_consts)
    ultimately have "sys_inv (lock_reset_lock_and_trx_wait ?l ?s3)"
      by (rule clear_wait_sys [OF reset_bit_sys [OF s2(1)]])
    then show ?thesis using t True by (simp add: reset_bit_clear_wait_commute)
  qed
qed

lemma register_sys: "sys_inv (register_if_unsafe trx index s) = sys_inv s"
  using sys_core [of s "register_if_unsafe trx index s"] sys_core [of "register_if_unsafe trx index s" s]
    core_register [of trx index s] by auto

lemma page_update_sys: "sys_inv s \<Longrightarrow> sys_inv (page_update_max_trx_id block i s)"
  by (rule sys_core) (simp_all add: core_page_update)

lemma other_conflicting_None:
  assumes none: "lock_rec_other_has_conflicting mode block h trx s = None"
    and x: "x \<in> set (blk_queue block h s)" and hs: "h \<noteq> PAGE_HEAP_NO_SUPREMUM"
    and sx: "tm_mode mode \<in> {LOCK_S, LOCK_X}" and wf: "chains_wf s"
  shows "\<not> tm_conflict (lk_trx (lock_at s x)) (type_mode (lock_at s x)) trx mode"
proof -
  have "lock_get_mode (lock_at s x) \<in> {LOCK_S, LOCK_X}"
    using chains_wfD(2) [OF wf, of x] x by (auto simp: blk_queue_def rec_queue_eq chain_def lock_wf_def)
  then have "tm_conflict (lk_trx (lock_at s x)) (type_mode (lock_at s x)) trx mode =
      tm_conflict trx mode (lk_trx (lock_at s x)) (type_mode (lock_at s x))"
    using sx by (intro tm_conflict_sym) (simp_all add: lock_get_mode_def)
  moreover have "\<not> lock_rec_has_to_wait trx mode (lock_at s x) False"
    using none x hs by (auto simp: lock_rec_other_has_conflicting_def find_None_iff)
  ultimately show ?thesis
    by (auto simp: tm_conflict_def lock_rec_has_to_wait_def rec_has_to_wait_iff)
qed

text \<open>What the fast path finds when the page's chain is empty or holds one lock.\<close>

lemma first_on_page_None: "first_on_page s sp pg xs = None \<longleftrightarrow> filter (on_page s sp pg) xs = []"
  by (induction xs) auto

lemma first_on_page_hd: "first_on_page s sp pg xs = Some l \<Longrightarrow> \<exists>ys. filter (on_page s sp pg) xs = l # ys \<and>
    filter (on_page s sp pg) (nodes_after l xs) = ys"
  by (induction xs) (auto split: if_splits dest: first_on_page_Some)

lemma page_queue_first:
  "lock_rec_get_first_on_page block s = None \<longleftrightarrow> page_queue (blk_space block) (blk_page_no block) s = []"
  by (simp add: lock_rec_get_first_on_page_def lock_rec_get_first_on_page_addr_def page_queue_def first_on_page_None)

lemma page_queue_only:
  assumes "lock_rec_get_first_on_page block s = Some l" and "lock_rec_get_next_on_page s l = None"
  shows "page_queue (blk_space block) (blk_page_no block) s = [l]"
proof -
  have f: "first_on_page s (blk_space block) (blk_page_no block)
      (chain (blk_space block) (blk_page_no block) s) = Some l"
    using assms(1) by (simp add: lock_rec_get_first_on_page_def lock_rec_get_first_on_page_addr_def)
  then have "on_page s (blk_space block) (blk_page_no block) l" using first_on_page_Some by blast
  then show ?thesis
    using assms(2) first_on_page_hd [OF f]
    by (auto simp: lock_rec_get_next_on_page_def Let_def on_page_def first_on_page_None page_queue_def)
qed

lemma rec_queue_sub_page: "x \<in> set (rec_queue sp pg h s) \<Longrightarrow> x \<in> set (page_queue sp pg s)"
  by (simp add: rec_queue_def)

lemma lock_fast_sys:
  assumes inv: "sys_inv s" and h: "h < blk_bits block" and m: "tm_mode mode \<in> {LOCK_S, LOCK_X}" "\<not> tm_wait mode"
    and run: "lock_rec_lock_fast impl mode block h index thr s = (b, t)"
  shows "sys_inv t"
proof (cases "lock_rec_get_first_on_page block s")
  case None
  then have "blk_queue block h s = []" by (simp add: page_queue_first blk_queue_def rec_queue_def)
  then have "sys_inv (snd (lock_rec_create mode block h index (thr_trx (thrs s thr)) s))"
    using create_sys [OF inv h m(1)] by simp
  then show ?thesis
    using run None inv by (auto simp: lock_rec_lock_fast_def Let_def register_sys)
next
  case (Some l)
  show ?thesis
  proof (cases "t = s")
    case False
    then have c: "lock_rec_get_next_on_page s l = None" "type_mode (lock_at s l) = mode OR LOCK_REC"
      "h < lock_rec_get_n_bits (lock_at s l)"
      "t = register_if_unsafe (thr_trx (thrs s thr)) index (upd_lock l (lock_rec_set_nth_bit h) s)"
      "\<not> lock_rec_get_nth_bit (lock_at s l) h"
      using run Some by (auto simp: lock_rec_lock_fast_def Let_def not_le split: if_splits)
    note q = page_queue_only [OF Some c(1)]
    then have l: "l \<in> set (page_queue (blk_space block) (blk_page_no block) s)" by simp
    have "lock_inv (upd_lock l (lock_rec_set_nth_bit h) s)"
    proof (rule set_bit_inv [OF sys_invD(1) [OF inv] l c(3)])
      show "\<not> waiting s l" using m(2) by (simp add: waiting_def lock_get_wait_def c(2) tm_simps)
      fix x assume x: "x \<in> set (rec_queue (blk_space block) (blk_page_no block) h s)"
      then have "x = l" using rec_queue_sub_page [OF x] q by simp
      then show "\<not> waiting s x \<and> \<not> rec_conflict s x l \<and> \<not> rec_conflict s l x"
        using x c(5) by (simp add: rec_queue_eq has_bit_def)
    qed
    moreover have "chained s l" using l by (auto simp: page_queue_def chain_def chained_def)
    ultimately have "sys_inv (upd_lock l (lock_rec_set_nth_bit h) s)"
      using set_bit_table_inv [OF inv, of l h] by (simp add: sys_inv_def)
    then show ?thesis using c(4) by (simp add: register_sys)
  qed (use inv in simp)
qed

lemma lock_slow_sys:
  assumes inv: "sys_inv s" and h: "h < blk_bits block" and m: "tm_mode mode \<in> {LOCK_S, LOCK_X}" "\<not> tm_wait mode"
    and run: "lock_rec_lock_slow impl mode block h index thr s = Some (err, t)"
  shows "sys_inv t"
proof -
  let ?trx = "thr_trx (thrs s thr)"
  have add: "sys_inv (snd (lock_rec_add_to_queue (LOCK_REC OR mode) block h index ?trx s))"
    if "lock_rec_other_has_conflicting mode block h ?trx s = None"
    by (rule add_to_queue_sys [OF inv h])
      (use that m other_conflicting_None [OF that _ _ m(1) sys_invD(3) [OF inv]] in
        \<open>simp_all add: tm_simps tm_conflict_def\<close>)
  show ?thesis
    using run inv add enqueue_sys [OF inv h m(1)]
    by (auto simp: lock_rec_lock_slow_def Let_def register_sys split: if_splits)
qed

lemma lock_rec_lock_sys:
  assumes inv: "sys_inv s" and h: "h < blk_bits block" and m: "tm_mode mode \<in> {LOCK_S, LOCK_X}" "\<not> tm_wait mode"
    and run: "lock_rec_lock impl mode block h index thr s = Some (err, t)"
  shows "sys_inv t"
proof -
  obtain b s1 where f: "lock_rec_lock_fast impl mode block h index thr s = (b, s1)" by fastforce
  have "sys_inv s1" by (rule lock_fast_sys [OF inv h m f])
  then show ?thesis
    using run f lock_slow_sys [OF _ h m, of s1] by (auto simp: lock_rec_lock_def split: bool.splits)
qed

lemma insert_check_sys:
  assumes inv: "sys_inv s" and h: "h < blk_bits block"
    and run: "lock_rec_insert_check_and_lock no_locking block h index clust thr inherit s = Some (err, i, t)"
  shows "sys_inv t"
proof -
  have m: "tm_mode (LOCK_X OR LOCK_GAP OR LOCK_INSERT_INTENTION) \<in> {LOCK_S, LOCK_X}"
    by (simp add: lock_mode_consts lock_flag_consts tm_mode_def)
  show ?thesis
    using run inv enqueue_sys [OF inv h m] page_update_sys
    by (auto simp: lock_rec_insert_check_and_lock_def Let_def split: option.splits if_splits)
qed

text \<open>
  An implicit lock may be made explicit when it does not conflict with the requests on the record;
  the code asserts this where it adds the lock.
\<close>

definition impl_ok :: "buf_block \<Rightarrow> nat \<Rightarrow> trx_ptr option \<Rightarrow> lock_sys \<Rightarrow> bool" where
  "impl_ok block h impl_trx s \<longleftrightarrow> (\<forall>trx. impl_trx = Some trx \<longrightarrow> (\<forall>x \<in> set (blk_queue block h s).
     \<not> tm_conflict (lk_trx (lock_at s x)) (type_mode (lock_at s x)) trx (LOCK_X OR LOCK_REC_NOT_GAP)))"

lemma tm_pure_modes [tm_simps]:
  "\<not> tm_wait LOCK_S" "\<not> tm_wait LOCK_X"
  by (simp_all add: tm_mode_def tm_wait_def lock_mode_consts lock_flag_consts)

lemma convert_sys:
  assumes inv: "sys_inv s" and h: "h < blk_bits block" and ok: "impl_ok block h impl_trx s"
  shows "sys_inv (lock_rec_convert_impl_to_expl block h index impl_trx s)"
proof (cases impl_trx)
  case (Some trx)
  have "sys_inv (snd (lock_rec_add_to_queue (LOCK_REC OR LOCK_X OR LOCK_REC_NOT_GAP) block h index trx s))"
    by (rule add_to_queue_sys [OF inv h])
      (use ok Some in \<open>simp_all add: tm_simps tm_conflict_def impl_ok_def\<close>)
  then show ?thesis using Some inv by (simp add: lock_rec_convert_impl_to_expl_def)
qed (use inv in \<open>simp add: lock_rec_convert_impl_to_expl_def\<close>)

lemma x_not_gap: "tm_mode (LOCK_X OR LOCK_REC_NOT_GAP) \<in> {LOCK_S, LOCK_X}" "\<not> tm_wait (LOCK_X OR LOCK_REC_NOT_GAP)"
  by (simp_all add: tm_simps)

lemma clust_modify_sys:
  assumes "sys_inv s" and "h < blk_bits block" and "impl_ok block h impl_trx s"
    and "lock_clust_rec_modify_check_and_lock no_locking block h index impl_trx thr s = Some (err, t)"
  shows "sys_inv t"
  using assms lock_rec_lock_sys [OF convert_sys [OF assms(1-3)] assms(2) x_not_gap]
  by (auto simp: lock_clust_rec_modify_check_and_lock_def split: if_splits)

lemma sec_modify_sys:
  assumes "sys_inv s" and "h < blk_bits block"
    and "lock_sec_rec_modify_check_and_lock no_locking block h index thr s = Some (err, t)"
  shows "sys_inv t"
  using assms lock_rec_lock_sys [OF assms(1,2) x_not_gap] page_update_sys
  by (auto simp: lock_sec_rec_modify_check_and_lock_def split: if_splits)

lemma sec_read_sys:
  assumes "sys_inv s" and "h < blk_bits block" and "impl_ok block h impl_trx s"
    and "tm_mode (mode OR gap_mode) \<in> {LOCK_S, LOCK_X}" "\<not> tm_wait (mode OR gap_mode)"
    and "lock_sec_rec_read_check_and_lock no_locking block h index mode gap_mode mn recovery impl_trx thr s = Some (err, t)"
  shows "sys_inv t"
  using assms lock_rec_lock_sys [OF convert_sys [OF assms(1-3)] assms(2) assms(4,5)]
    lock_rec_lock_sys [OF assms(1) assms(2) assms(4,5)]
  by (auto simp: lock_sec_rec_read_check_and_lock_def split: if_splits)

lemma clust_read_sys:
  assumes "sys_inv s" and "h < blk_bits block" and "impl_ok block h impl_trx s"
    and "tm_mode (mode OR gap_mode) \<in> {LOCK_S, LOCK_X}" "\<not> tm_wait (mode OR gap_mode)"
    and "lock_clust_rec_read_check_and_lock no_locking block h index mode gap_mode impl_trx thr s = Some (err, t)"
  shows "sys_inv t"
  using assms lock_rec_lock_sys [OF convert_sys [OF assms(1-3)] assms(2) assms(4,5)]
    lock_rec_lock_sys [OF assms(1) assms(2) assms(4,5)]
  by (auto simp: lock_clust_rec_read_check_and_lock_def split: if_splits)

section \<open>Inheriting and moving\<close>

lemma chained_mode:
  assumes "sys_inv s" and "chained s l"
  shows "lock_get_mode (lock_at s l) \<in> {LOCK_S, LOCK_X}" and "lock_ok (lock_at s l)"
  using assms chains_wfD(2) [OF sys_invD(3) [OF assms(1)]] by (auto simp: chained_def lock_wf_def)

lemma tm_gap_mode:
  assumes "m \<in> {LOCK_S, LOCK_X}"
  shows "tm_mode (LOCK_REC OR LOCK_GAP OR m) = m" "tm_gap (LOCK_REC OR LOCK_GAP OR m)"
  using assms by (auto simp: tm_mode_def tm_gap_def lock_mode_consts lock_flag_consts)

lemma inherit_step_sys:
  assumes "sys_inv s" and "chained s l" and "h < blk_bits block"
  shows "sys_inv (snd (lock_rec_add_to_queue (LOCK_REC OR LOCK_GAP OR lock_get_mode (lock_at s l)) block h index trx s))"
  by (rule add_to_queue_sys [OF assms(1,3)])
    (use chained_mode(1) [OF assms(1,2)] in \<open>simp_all add: tm_gap_mode tm_conflict_def\<close>)

lemma inherit_sys:
  assumes "sys_inv s" and "heir_h < blk_bits heir"
    and "lock_rec_inherit_to_gap heir block heir_h h s = Some t"
  shows "sys_inv t"
  by (rule each_lock_over [where I = sys_inv and C = chained,
        OF assms(3) [unfolded lock_rec_inherit_to_gap_def] assms(1)])
    (use assms(2) in \<open>auto simp: Let_def intro: next_chained inherit_step_sys split: if_splits\<close>)

lemma inherit_if_gap_sys:
  assumes "sys_inv s" and "heir_h < blk_bits block"
    and "lock_rec_inherit_to_gap_if_gap_lock block heir_h h s = Some t"
  shows "sys_inv t"
  by (rule each_lock_over [where I = sys_inv and C = chained,
        OF assms(3) [unfolded lock_rec_inherit_to_gap_if_gap_lock_def] assms(1)])
    (use assms(2) in \<open>auto simp: Let_def intro: next_chained inherit_step_sys split: if_splits\<close>)

text \<open>A move to the supremum record, of which only the gap can be locked.\<close>

lemma next_bit:
  "lock_rec_get_next h s l = Some n \<Longrightarrow> has_bit s h n"
  "lock_rec_get_first block h s = Some n \<Longrightarrow> has_bit s h n"
  by (auto simp: lock_rec_get_next_def lock_rec_get_first_def Let_def dest!: first_on_rec_Some)

lemma take_bit_sys:
  assumes inv: "sys_inv s" and l: "chained s l" and b: "has_bit s h l"
  shows "sys_inv (if waiting s l then lock_reset_lock_and_trx_wait l (upd_lock l (lock_rec_reset_nth_bit h) s)
    else upd_lock l (lock_rec_reset_nth_bit h) s)"
proof (cases "waiting s l")
  case True
  let ?s1 = "upd_lock l (lock_rec_reset_nth_bit h) s"
  obtain c where c: "l \<in> set (rec_hash s c)" using l by (auto simp: chained_def)
  have wfl: "lock_wf s c l" using chains_wfD(2) [OF sys_invD(3) [OF inv] c] .
  have "\<not> has_bit ?s1 i l" for i
    using waiting_bit_unique(1) [OF wfl True b] wfl by (auto simp: has_bit_def nth_bit_reset lock_wf_def)
  then have "l \<notin> set (rec_queue sp pg i ?s1)" for sp pg i by (simp add: rec_queue_eq)
  moreover have "l \<notin> set (tabq ?s1 tab)" for tab using rec_not_table [OF inv c] by simp
  ultimately have "sys_inv (lock_reset_lock_and_trx_wait l ?s1)"
    by (rule clear_wait_sys [OF reset_bit_sys [OF inv]])
  then show ?thesis using True by simp
qed (use reset_bit_sys [OF inv] in simp)

lemma move_supremum_sys:
  assumes "sys_inv s" and sup: "PAGE_HEAP_NO_SUPREMUM < blk_bits receiver"
    and "lock_rec_move receiver donator PAGE_HEAP_NO_SUPREMUM h s = Some t"
  shows "sys_inv t"
proof (rule each_lock_over [where I = sys_inv and C = "\<lambda>s l. chained s l \<and> has_bit s h l",
      OF assms(3) [unfolded lock_rec_move_def] assms(1)])
  fix l s u
  assume inv: "sys_inv s" and l: "chained s l \<and> has_bit s h l"
  let ?tm = "type_mode (lock_at s l)" and ?s1 = "upd_lock l (lock_rec_reset_nth_bit h) s"
  let ?s2 = "if waiting s l then lock_reset_lock_and_trx_wait l ?s1 else ?s1"
  assume "(let tm = ?tm; s1 = ?s1; s2 = if tm_wait tm then lock_reset_lock_and_trx_wait l s1 else s1
    in Some (snd (lock_rec_add_to_queue tm receiver PAGE_HEAP_NO_SUPREMUM
         (lk_index (lock_at s2 l)) (lk_trx (lock_at s2 l)) s2))) = Some u"
  then have u: "u = snd (lock_rec_add_to_queue ?tm receiver PAGE_HEAP_NO_SUPREMUM
      (lk_index (lock_at ?s2 l)) (lk_trx (lock_at ?s2 l)) ?s2)"
    by (simp add: Let_def waiting_def lock_get_wait_def)
  have "sys_inv ?s2" using take_bit_sys inv l by blast
  then show "sys_inv u"
    unfolding u by (rule add_to_queue_sys [OF _ sup])
      (use chained_mode(1) [OF inv, of l] l in \<open>simp_all add: lock_get_mode_def\<close>)
qed (auto intro: next_chained next_bit)

lemma sup_in_bits: "PAGE_HEAP_NO_SUPREMUM < blk_bits block"
  by (simp add: PAGE_HEAP_NO_SUPREMUM_def blk_bits_def LOCK_PAGE_BITMAP_MARGIN_def)

lemma split_right_sys:
  "sys_inv s \<Longrightarrow> lock_update_split_right right left h s = Some t \<Longrightarrow> sys_inv t"
  by (auto simp: lock_update_split_right_def bind_eq_Some_conv intro: inherit_sys move_supremum_sys sup_in_bits)

lemma merge_right_sys:
  "sys_inv s \<Longrightarrow> h < blk_bits right \<Longrightarrow> lock_update_merge_right right h left s = Some t \<Longrightarrow> sys_inv t"
  unfolding lock_update_merge_right_def bind_eq_Some_conv
  using inherit_sys reset_and_release_sys free_all_sys by blast

lemma root_raise_sys: "sys_inv s \<Longrightarrow> lock_update_root_raise block root s = Some t \<Longrightarrow> sys_inv t"
  by (auto simp: lock_update_root_raise_def intro: move_supremum_sys sup_in_bits)

lemma copy_and_discard_sys:
  "sys_inv s \<Longrightarrow> lock_update_copy_and_discard new_block block s = Some t \<Longrightarrow> sys_inv t"
  by (auto simp: lock_update_copy_and_discard_def bind_eq_Some_conv intro: move_supremum_sys free_all_sys sup_in_bits)

lemma split_left_sys: "sys_inv s \<Longrightarrow> lock_update_split_left right left h s = Some t \<Longrightarrow> sys_inv t"
  by (auto simp: lock_update_split_left_def intro: inherit_sys sup_in_bits)

lemma merge_left_sys:
  assumes "sys_inv s" and "h < blk_bits left" and "lock_update_merge_left left h right s = Some t"
  shows "sys_inv t"
proof -
  obtain u v where u: "(if h \<noteq> PAGE_HEAP_NO_SUPREMUM then
          Option.bind (lock_rec_inherit_to_gap left left h PAGE_HEAP_NO_SUPREMUM s)
            (lock_rec_reset_and_release_wait left PAGE_HEAP_NO_SUPREMUM)
        else Some s) = Some u"
    and v: "lock_rec_move left right PAGE_HEAP_NO_SUPREMUM PAGE_HEAP_NO_SUPREMUM u = Some v"
      "lock_rec_free_all_from_discard_page right v = Some t"
    using assms(3) by (auto simp: lock_update_merge_left_def bind_eq_Some_conv)
  have "sys_inv u"
    using u assms(1,2) by (auto simp: bind_eq_Some_conv intro: inherit_sys reset_and_release_sys split: if_splits)
  then show ?thesis using v free_all_sys move_supremum_sys [OF _ sup_in_bits] by blast
qed

lemma reset_and_inherit_sys:
  "sys_inv s \<Longrightarrow> heir_h < blk_bits heir \<Longrightarrow>
    lock_rec_reset_and_inherit_gap_locks heir block heir_h h s = Some t \<Longrightarrow> sys_inv t"
  by (auto simp: lock_rec_reset_and_inherit_gap_locks_def bind_eq_Some_conv intro: reset_and_release_sys inherit_sys)

lemma discard_loop_sys:
  "sys_inv s \<Longrightarrow> heir_h < blk_bits heir \<Longrightarrow> discard_loop heir heir_h block hs s = Some t \<Longrightarrow> sys_inv t"
proof (induction hs arbitrary: s)
  case (Cons h hs)
  then obtain u v where "lock_rec_inherit_to_gap heir block heir_h h s = Some u"
    and v: "lock_rec_reset_and_release_wait block h u = Some v" "discard_loop heir heir_h block hs v = Some t"
    by (auto simp: bind_eq_Some_conv)
  then have "sys_inv u" using inherit_sys [OF Cons.prems(1,2)] by blast
  then show ?case using Cons v reset_and_release_sys by blast
qed simp

lemma update_discard_sys:
  "sys_inv s \<Longrightarrow> heir_h < blk_bits heir \<Longrightarrow> lock_update_discard heir heir_h block hs s = Some t \<Longrightarrow> sys_inv t"
  by (auto simp: lock_update_discard_def bind_eq_Some_conv intro: free_all_sys discard_loop_sys split: if_splits)

lemma update_delete_sys:
  "sys_inv s \<Longrightarrow> next_h < blk_bits block \<Longrightarrow> lock_update_delete block h next_h s = Some t \<Longrightarrow> sys_inv t"
  by (auto simp: lock_update_delete_def bind_eq_Some_conv intro: inherit_sys reset_and_release_sys)

section \<open>Table requests\<close>

lemma table_append_sys:
  assumes inv: "sys_inv s" and "n_cells t = n_cells s" and rh: "rec_hash t = rec_hash s" and brk: "lock_brk s \<le> lock_brk t"
    and bufs: "\<And>tab. tabbuf t tab = tabbuf s tab"
    and q: "\<And>tab. tabq t tab = tabq s tab @ (if tab = table then [l] else [])"
    and at: "\<And>x. x \<noteq> l \<Longrightarrow> lock_at t x = lock_at s x"
    and new: "\<And>tab. l \<notin> set (tabq s tab)" "\<And>c. l \<notin> set (rec_hash s c)"
    and wf: "tab_wf t table l"
    and buf: "\<And>tab. l = tabbuf s tab \<Longrightarrow> tab = table \<and> lock_get_mode (lock_at t l) = LOCK_AUTO_INC"
    and free: "\<And>a. \<not> waiting t l \<Longrightarrow> a \<in> set (tabq s table) \<Longrightarrow> \<not> tab_conflict t a l"
  shows "sys_inv t"
proof -
  have "lock_inv t"
    by (rule lock_inv_frame [OF sys_invD(1) [OF inv] assms(2) rh brk]) (use at new in metis)
  moreover have "bufs_ok t"
  proof -
    note b = sys_invD(5) [OF inv, unfolded bufs_ok_def]
    have "tab' = tab \<and> lock_get_mode (lock_at t (tabbuf s tab)) = LOCK_AUTO_INC"
      if "tabbuf s tab \<in> set (tabq t tab')" for tab tab'
    proof (cases "tabbuf s tab = l")
      case True
      then show ?thesis using that buf [of tab] new(1) [of tab'] by (simp add: q split: if_splits)
    next
      case False
      then show ?thesis using that b at [OF False] by (auto simp: q split: if_splits)
    qed
    then show ?thesis using b brk unfolding bufs_ok_def by (auto simp: bufs rh intro: less_le_trans)
  qed
  moreover have "distinct (tabq t tab)" for tab
    using table_invD(1) [OF sys_invD(2) [OF inv]] new by (simp add: q)
  moreover have "tab_wf t tab x" if "x \<in> set (tabq t tab)" for tab x
  proof (cases "x = l")
    case True
    then have "tab = table" using that new(1) [of tab] by (simp add: q split: if_splits)
    then show ?thesis using True wf by simp
  next
    case False
    then have "tab_wf s tab x" using that table_invD(2) [OF sys_invD(2) [OF inv]] by (auto simp: q split: if_splits)
    then show ?thesis using at [OF False] brk by (simp add: tab_wf_def)
  qed
  moreover have "\<not> tab_conflict t a x"
    if x: "x \<in> set (tabq t tab)" "\<not> waiting t x" and a: "a \<in> set (ahead x (tabq t tab))" for tab x a
  proof (cases "x \<in> set (tabq s tab)")
    case True
    then have a': "a \<in> set (ahead x (tabq s tab))" using a by (simp add: q ahead_append)
    have ne: "x \<noteq> l" "a \<noteq> l" using True ahead_subset [OF a'] new by auto
    then show ?thesis
      using table_invD(3) [OF sys_invD(2) [OF inv] True _ a'] x(2) at by (simp add: tab_conflict_def waiting_def)
  next
    case False
    then have "x = l" "tab = table" using x(1) by (auto simp: q split: if_splits)
    moreover then have "a \<in> set (tabq s table)" using a False by (simp add: q ahead_append ahead_Cons)
    ultimately show ?thesis using free x(2) by simp
  qed
  ultimately show ?thesis by (simp add: sys_inv_def table_inv_def)
qed

lemma set_lock_wait_fields:
  "lock_at (lock_set_lock_and_trx_wait l trx s) x =
    (if x = l then (lock_at s l)\<lparr>type_mode := type_mode (lock_at s l) OR LOCK_WAIT\<rparr> else lock_at s x)"
  "tabs (lock_set_lock_and_trx_wait l trx s) = tabs s" "rec_hash (lock_set_lock_and_trx_wait l trx s) = rec_hash s"
  "lock_brk (lock_set_lock_and_trx_wait l trx s) = lock_brk s" "n_cells (lock_set_lock_and_trx_wait l trx s) = n_cells s"
  by (simp_all add: lock_set_lock_and_trx_wait_def)

text \<open>What \<open>lock_table_create\<close> gives; the buffer is free when no AUTO-INC lock is in the queue.\<close>

lemma table_create_fields:
  assumes run: "lock_table_create table tm trx s = Some (l, t)"
  shows "l = (if tm = LOCK_AUTO_INC then tabbuf s table else lock_brk s)"
    and "n_cells t = n_cells s" "rec_hash t = rec_hash s"
    and "lock_brk t = (if tm = LOCK_AUTO_INC then lock_brk s else Suc (lock_brk s))"
    and "\<And>tab. tabbuf t tab = tabbuf s tab"
    and "\<And>tab. tabq t tab = tabq s tab @ (if tab = table then [l] else [])"
    and "\<And>x. x \<noteq> l \<Longrightarrow> lock_at t x = lock_at s x"
    and "lk_trx (lock_at t l) = trx" "lk_table (lock_at t l) = table"
    and "type_mode (lock_at t l) = (if tm_wait tm then (tm OR LOCK_TABLE) OR LOCK_WAIT else tm OR LOCK_TABLE)"
  using run by (auto simp: lock_table_create_def Let_def set_lock_wait_fields split: if_splits)

lemma tm_type_table [tm_simps]: "lock_mode_ok (tm AND NOT LOCK_WAIT) \<Longrightarrow> tm_type (tm OR LOCK_TABLE) = LOCK_TABLE"
proof -
  assume "lock_mode_ok (tm AND NOT LOCK_WAIT)"
  then have "\<not> bit (tm AND NOT LOCK_WAIT) n" if "4 \<le> n" for n
    using that tm_mode_bit [of "tm AND NOT LOCK_WAIT" n] by simp
  then have "\<not> bit tm n" if "4 \<le> n" "n < 8" for n
    using that by (fastforce simp: bit_and_iff bit_not_iff flag_bits)
  then show ?thesis by (auto intro!: bit_word_eqI simp: tm_type_bit flag_bits bit_or_iff)
qed

lemma table_create_sys:
  assumes inv: "sys_inv s" and run: "lock_table_create table tm trx s = Some (l, t)"
    and m: "lock_mode_ok (tm AND NOT LOCK_WAIT)"
    and free: "\<And>a. \<not> tm_wait tm \<Longrightarrow> a \<in> set (tabq s table) \<Longrightarrow>
      lk_trx (lock_at s a) \<noteq> trx \<Longrightarrow> lock_mode_compatible (lock_get_mode (lock_at s a)) (tm_mode tm)"
    and buf: "tm = LOCK_AUTO_INC \<Longrightarrow> tabbuf s table \<noteq> 0 \<and> tabbuf s table \<notin> set (tabq s table)"
  shows "sys_inv t"
proof -
  note f = table_create_fields [OF run]
  note b = sys_invD(5) [OF inv, unfolded bufs_ok_def]
  have new: "l \<notin> set (tabq s tab)" for tab
    using table_invD(2) [OF sys_invD(2) [OF inv], of "lock_brk s" tab] b buf
    by (auto simp: f(1) tab_wf_def split: if_splits)
  have md: "tm_mode tm = tm AND NOT LOCK_WAIT" using tm_mode_idem [OF m] by (simp add: tm_simps)
  have low: "l < lock_brk t" using b f(4) f(1) by (cases "tm = LOCK_AUTO_INC") simp_all
  have at: "lock_get_mode (lock_at t l) = tm_mode tm" "lock_get_wait (lock_at t l) = tm_wait tm"
    "lock_get_type_low (lock_at t l) = LOCK_TABLE"
    using tm_type_table [OF m]
    by (simp_all add: lock_get_mode_def lock_get_wait_def lock_get_type_low_def f(10) tm_simps)
  have chain: "l \<notin> set (rec_hash s c)" for c
  proof (cases "tm = LOCK_AUTO_INC")
    case False
    then show ?thesis
      using chains_wfD(2) [OF sys_invD(3) [OF inv], of l c] f(1) by (auto simp: lock_wf_def)
  qed (use b f(1) in simp)
  have buf': "tab = table \<and> tm_mode tm = LOCK_AUTO_INC" if "l = tabbuf s tab" for tab
  proof (cases "tm = LOCK_AUTO_INC")
    case True
    then have "tabbuf s table = tabbuf s tab" using that f(1) by simp
    then show ?thesis using True inj_onD [OF conjunct1 [OF b], of table tab] buf by auto
  next
    case False
    then show ?thesis using that b f(1) less_irrefl by metis
  qed
  show ?thesis
  proof (rule table_append_sys [OF inv f(2,3) _ f(5,6,7) new chain])
    show "tab_wf t table l" using m md low f(9) at by (simp add: tab_wf_def)
    show "tab = table \<and> lock_get_mode (lock_at t l) = LOCK_AUTO_INC" if "l = tabbuf s tab" for tab
      using buf' [OF that] at by simp
    show "\<not> tab_conflict t a l" if "\<not> waiting t l" "a \<in> set (tabq s table)" for a
    proof -
      have "a \<noteq> l" using new that(2) by blast
      moreover have "\<not> tm_wait tm" using that(1) at by (simp add: waiting_def)
      ultimately show ?thesis using free [of a] that(2) f(7) f(8) at by (auto simp: tab_conflict_def)
    qed
  qed (use f(4) in simp)
qed

lemma remove_clear_wait_commute:
  "lock_table_remove_low l (lock_reset_lock_and_trx_wait l s) =
    map_option (lock_reset_lock_and_trx_wait l) (lock_table_remove_low l s)"
  by (cases s, cases "trxs s (lk_trx (lock_at s l))")
    (auto simp: lock_table_remove_low_def lock_reset_lock_and_trx_wait_def Let_def)

lemma remove_low_gone:
  assumes inv: "sys_inv s" and run: "lock_table_remove_low l s = Some t"
  shows "l \<notin> set (tabq t tab)"
  using remove_low_taken(3) [OF run, of tab] table_invD(1) [OF sys_invD(2) [OF inv], of tab]
    table_invD(2) [OF sys_invD(2) [OF inv], of l tab]
  by (auto simp: tab_wf_def split: if_splits)

lemma table_enqueue_sys:
  assumes inv: "sys_inv s" and m: "lock_mode_ok mode"
    and run: "lock_table_enqueue_waiting mode table thr s = Some (err, t)"
  shows "sys_inv t"
proof -
  let ?trx = "thr_trx (thrs s thr)"
  have w: "(mode OR LOCK_WAIT) AND NOT LOCK_WAIT = mode" "tm_wait (mode OR LOCK_WAIT)"
    "mode OR LOCK_WAIT \<noteq> LOCK_AUTO_INC"
    using m by (auto simp: lock_mode_ok_def lock_mode_consts lock_flag_consts tm_wait_def)
  obtain l s1 d s2 where cr: "lock_table_create table (mode OR LOCK_WAIT) ?trx s = Some (l, s1)"
    and dl: "lock_deadlock_occurs l ?trx s1 = Some (d, s2)"
    and t: "if d then lock_table_remove_low l (lock_reset_lock_and_trx_wait l s2) = Some t
      else suspend_for_lock thr s2 = Some (err, t)"
    using run by (auto simp: lock_table_enqueue_waiting_def Let_def split: if_splits prod.splits option.splits)
  have s1: "sys_inv s1" by (rule table_create_sys [OF inv cr]) (use w m in simp_all)
  have s2: "sys_inv s2" "taken s1 s2"
    using deadlock_retry_sys [OF dl [unfolded lock_deadlock_occurs_def] s1] by simp_all
  show ?thesis
  proof (cases d)
    case True
    then obtain u where u: "lock_table_remove_low l s2 = Some u" and tu: "t = lock_reset_lock_and_trx_wait l u"
      using t by (auto simp: remove_clear_wait_commute)
    have "lock_get_type_low (lock_at s1 l) = LOCK_TABLE"
      using table_create_fields(10) [OF cr] w(2) tm_type_table [of "mode OR LOCK_WAIT"] w(1) m
      by (simp add: lock_get_type_low_def tm_simps)
    then have "lock_get_type_low (lock_at s2 l) = LOCK_TABLE"
      using s2(2) unfolding taken_def same_lock_def by metis
    then have "l \<notin> set (rec_hash s2 c)" for c
      using chains_wfD(2) [OF sys_invD(3) [OF s2(1)], of l c] by (auto simp: lock_wf_def lock_flag_consts)
    moreover have "rec_hash u = rec_hash s2" using remove_low_taken(1) [OF u] by (simp add: lock_core_def)
    ultimately have "l \<notin> set (rec_queue sp pg h u)" for sp pg h by (simp add: rec_queue_eq chain_def)
    then show ?thesis
      unfolding tu using remove_low_gone [OF s2(1) u] by (intro clear_wait_sys remove_low_sys [OF s2(1) u])
  qed (use t s2(1) suspend_sys in simp)
qed

lemma table_has_None:
  assumes "lock_table_has trx table mode s = None" and "a \<in> set (tabq s table)"
  shows "lk_trx (lock_at s a) \<noteq> trx \<or> \<not> lock_mode_stronger_or_eq (lock_get_mode (lock_at s a)) mode"
  using assms by (auto simp: lock_table_has_def find_None_iff)

lemma lock_table_sys:
  assumes inv: "sys_inv s" and m: "lock_mode_ok mode" and ex: "mode = LOCK_AUTO_INC \<Longrightarrow> tabbuf s table \<noteq> 0"
    and run: "lock_table no_locking table mode thr s = Some (err, t)"
  shows "sys_inv t"
proof -
  let ?trx = "thr_trx (thrs s thr)"
  have w: "mode AND NOT LOCK_WAIT = mode"
    using m by (auto simp: lock_mode_ok_def lock_mode_consts lock_flag_consts)
  consider "t = s" | "lock_table_enqueue_waiting mode table thr s = Some (err, t)"
    | l where "lock_table_has ?trx table mode s = None"
      "\<not> lock_table_other_has_incompatible (Some ?trx) True table mode s"
      "lock_table_create table mode ?trx s = Some (l, t)"
    using run by (auto simp: lock_table_def Let_def split: if_splits)
  then show ?thesis
  proof cases
    case (3 l)
    show ?thesis
    proof (rule table_create_sys [OF inv 3(3)])
      show "lock_mode_ok (mode AND NOT LOCK_WAIT)" using m w by simp
      show "lock_mode_compatible (lock_get_mode (lock_at s a)) (tm_mode mode)"
        if "a \<in> set (tabq s table)" "lk_trx (lock_at s a) \<noteq> ?trx" for a
        using 3(2) that m by (auto simp: lock_table_other_has_incompatible_def)
      assume ai: "mode = LOCK_AUTO_INC"
      have "tabbuf s table \<notin> set (tabq s table)"
      proof
        assume b: "tabbuf s table \<in> set (tabq s table)"
        then have "lock_get_mode (lock_at s (tabbuf s table)) = LOCK_AUTO_INC"
          using sys_invD(5) [OF inv] unfolding bufs_ok_def by blast
        then show False
          using table_has_None [OF 3(1) b] 3(2) b ai by (auto simp: lock_table_other_has_incompatible_def)
      qed
      then show "tabbuf s table \<noteq> 0 \<and> tabbuf s table \<notin> set (tabq s table)" using ex ai by simp
    qed
  qed (use inv table_enqueue_sys [OF inv m] in auto)
qed

section \<open>The initial state and an example\<close>

definition lock_init :: "lock_sys \<Rightarrow> bool" where
  "lock_init s \<longleftrightarrow> (\<forall>c. rec_hash s c = []) \<and> (\<forall>tab. tab_locks (tabs s tab) = [] \<and> tabbuf s tab < lock_brk s) \<and>
     inj_on (tabbuf s) {tab. tabbuf s tab \<noteq> 0}"

lemma init_sys: "lock_init s \<Longrightarrow> sys_inv s"
  by (simp add: lock_init_def sys_inv_def lock_inv_def chains_wf_def rule3_def rec_queue_eq chain_def
      table_inv_def bufs_ok_def)

definition demo_trx :: ltrx where
  "demo_trx = \<lparr>ltrx_id = ut_dulint_create 0 5, trx_locks = [], wait_lock = None, trx_que_state = TRX_QUE_RUNNING,
     auto_inc_lock = None, deadlock_mark = False, was_chosen_as_deadlock_victim = False,
     trx_isolation = TRX_ISO_REPEATABLE_READ, trx_undo_no = ut_dulint_create 0 0, notrans_edit = False, new_rec_locks = (None, None),
     wait_thrs = [], trx_error = False, trx_n_signals = 0\<rparr>"

definition demo_null :: lock where
  "demo_null = \<lparr>lk_trx = 0, type_mode = 0, lk_index = 0, lk_table = 0, lk_space = 0, lk_page_no = 0,
     lk_n_bits = 0, lk_bitmap = []\<rparr>"

text \<open>Three transactions, each with a thread of its own number, a table with its AUTO-INC lock, a page.\<close>

definition demo_sys :: lock_sys where
  "demo_sys = \<lparr>n_cells = 97, rec_hash = (\<lambda>_. []), lock_at = (\<lambda>_. demo_null), lock_brk = 2, trxs = (\<lambda>_. demo_trx),
     tabs = (\<lambda>tab. \<lparr>tab_locks = [], tab_auto_inc_buf = (if tab = 7 then 1 else 0),
       n_waiting_or_granted_auto_inc_locks = 0, query_cache_inv_trx_id = ut_dulint_create 0 0\<rparr>),
     index_table = (\<lambda>_. 7),
     thrs = (\<lambda>p. \<lparr>thr_trx = p, thr_status = QUE_THR_RUNNING, graph_command_wait = False, fork_is_rollback = False\<rparr>),
     ls_trx_list = [1, 2, 3], ls_max_trx_id = ut_dulint_create 0 9, page_max_trx_id = (\<lambda>_ _. ut_dulint_create 0 0), srv_locks_unsafe_for_binlog = False\<rparr>"

definition demo_block :: buf_block where
  "demo_block = \<lparr>blk_space = 0, blk_page_no = 3, blk_n_heap = 8\<rparr>"

lemma demo_sys_fields [simp]:
  "n_cells demo_sys = 97" "rec_hash demo_sys = (\<lambda>_. [])" "lock_brk demo_sys = 2" "trxs demo_sys = (\<lambda>_. demo_trx)"
  "lock_at demo_sys = (\<lambda>_. demo_null)" "tab_locks (tabs demo_sys tab) = []"
  "tab_auto_inc_buf (tabs demo_sys tab) = (if tab = 7 then 1 else 0)" "thr_trx (thrs demo_sys p) = p"
  by (simp_all add: demo_sys_def)

lemma demo_block_fields [simp]: "blk_space demo_block = 0" "blk_page_no demo_block = 3"
  by (simp_all add: demo_block_def)

lemma demo_init: "lock_init demo_sys"
  by (auto simp: lock_init_def demo_sys_def inj_on_def)

text \<open>Transaction 1 holds a lock on record 4, transaction 2 waits for it.\<close>

definition demo_held :: lock_sys where
  "demo_held = snd (lock_rec_create LOCK_X demo_block 4 0 1 demo_sys)"

definition demo_waits :: lock_sys where
  "demo_waits = snd (lock_rec_create (LOCK_X OR LOCK_WAIT) demo_block 4 0 2 demo_held)"

lemma demo_bits: "4 < blk_bits demo_block"
  by (simp add: demo_block_def blk_bits_def LOCK_PAGE_BITMAP_MARGIN_def)

lemma demo_held_sys: "sys_inv demo_held"
  unfolding demo_held_def
  by (rule create_sys [OF init_sys [OF demo_init] demo_bits])
    (simp_all add: blk_queue_def rec_queue_eq chain_def demo_sys_def)

lemma demo_waits_sys: "sys_inv demo_waits"
  unfolding demo_waits_def
  by (rule create_sys [OF demo_held_sys demo_bits]) (simp_all add: tm_simps)

lemma demo_fields:
  "rec_hash demo_waits = (\<lambda>_. [])(lock_rec_hash 0 3 demo_sys := [2, 3])"
  "lock_at demo_waits 2 = created LOCK_X demo_block 4 0 1"
  "lock_at demo_waits 3 = created (LOCK_X OR LOCK_WAIT) demo_block 4 0 2"
  "lock_brk demo_waits = 4" "n_cells demo_waits = 97"
proof -
  note h = create_core(2) [of LOCK_X demo_block 4 0 1 demo_sys, folded demo_held_def, unfolded chain_def, simplified]
  have e: "lock_rec_hash 0 3 demo_held = lock_rec_hash 0 3 demo_sys"
    using h by (simp add: lock_rec_hash_def hash_calc_hash_def lock_core_def)
  note w = create_core(2) [of "LOCK_X OR LOCK_WAIT" demo_block 4 0 2 demo_held, folded demo_waits_def,
      unfolded chain_def lock_core_def, simplified, unfolded e]
  show "rec_hash demo_waits = (\<lambda>_. [])(lock_rec_hash 0 3 demo_sys := [2, 3])"
    "lock_at demo_waits 2 = created LOCK_X demo_block 4 0 1"
    "lock_at demo_waits 3 = created (LOCK_X OR LOCK_WAIT) demo_block 4 0 2"
    "lock_brk demo_waits = 4" "n_cells demo_waits = 97"
    using w h by (simp_all add: lock_core_def)
qed

end
