(* ===== verification/LockWalk.thy ===== *)
theory LockWalk imports LockInv begin

text \<open>
  The loops that grant waiting requests: a walk along a queue is the same as going through the
  list of its locks, so it ends, and afterwards nobody waits without a reason. Stated once for a
  queue given by its laws and instantiated for the record locks of a page, the locks on a record
  and the locks on a table.
\<close>

section \<open>Walks\<close>

fun each_of :: "(lock_ptr \<Rightarrow> lock_sys \<Rightarrow> lock_sys option) \<Rightarrow> lock_ptr list \<Rightarrow> lock_sys \<Rightarrow> lock_sys option" where
  "each_of body [] s = Some s"
| "each_of body (l # ls) s = Option.bind (body l s) (each_of body ls)"

abbreviation hd_opt :: "'a list \<Rightarrow> 'a option" where
  "hd_opt xs \<equiv> (case xs of [] \<Rightarrow> None | x # _ \<Rightarrow> Some x)"

text \<open>
  A queue with the function that finds the next lock in it, and the body of a loop along the queue
  that leaves the queue as it is.
\<close>

locale queue_walk =
  fixes queue :: "lock_sys \<Rightarrow> lock_ptr list"
    and nxt :: "lock_sys \<Rightarrow> lock_ptr \<Rightarrow> lock_ptr option"
    and body :: "lock_ptr \<Rightarrow> lock_sys \<Rightarrow> lock_sys option"
    and ok :: "lock_sys \<Rightarrow> bool"
  assumes nxt_queue: "queue s = xs @ l # ys \<Longrightarrow> distinct (queue s) \<Longrightarrow> ok s \<Longrightarrow> nxt s l = hd_opt ys"
    and body_ok: "body l s = Some u \<Longrightarrow> ok s \<Longrightarrow> l \<in> set (queue s) \<Longrightarrow> ok u"
    and body_keeps: "body l s = Some u \<Longrightarrow> ok s \<Longrightarrow> l \<in> set (queue s) \<Longrightarrow> queue u = queue s"
begin

lemma walk_list:
  "queue s = xs @ ys \<Longrightarrow> distinct (queue s) \<Longrightarrow> ok s \<Longrightarrow> each_lock nxt body (hd_opt ys) s = each_of body ys s"
proof (induction ys arbitrary: xs s)
  case Nil
  then show ?case by (simp add: each_lock.simps)
next
  case (Cons y ys)
  have "each_lock nxt body (nxt u y) u = each_of body ys u" if g: "body y s = Some u" for u
  proof -
    have q: "queue u = (xs @ [y]) @ ys" "distinct (queue u)" "ok u"
      using Cons.prems body_keeps [OF g] body_ok [OF g] by simp_all
    then have "nxt u y = hd_opt ys" using nxt_queue [of u xs y ys] by simp
    then show ?thesis using Cons.IH [OF q] by simp
  qed
  then show ?case by (cases "body y s") (simp_all add: each_lock.simps)
qed

lemma list_keeps: "each_of body ls s = Some t \<Longrightarrow> ok s \<Longrightarrow> set ls \<subseteq> set (queue s) \<Longrightarrow> ok t \<and> queue t = queue s"
proof (induction ls arbitrary: s)
  case (Cons l ls)
  then obtain u where u: "body l s = Some u" "each_of body ls u = Some t" by (auto simp: bind_eq_Some_conv)
  have "ok u" "queue u = queue s" using body_ok [OF u(1)] body_keeps [OF u(1)] Cons.prems by simp_all
  then show ?case using Cons.IH [OF u(2)] Cons.prems by simp
qed simp

text \<open>What the body achieves for each lock and later rounds do not undo holds of all in the end.\<close>

lemma list_all_done:
  assumes "each_of body ls s = Some t" and "ok s" and "set ls \<subseteq> set (queue s)"
    and est: "\<And>l s u. body l s = Some u \<Longrightarrow> ok s \<Longrightarrow> l \<in> set (queue s) \<Longrightarrow> J s \<Longrightarrow> Q l u \<and> J u"
    and keep: "\<And>k l s u. Q k s \<Longrightarrow> body l s = Some u \<Longrightarrow> ok s \<Longrightarrow> l \<in> set (queue s) \<Longrightarrow> J s \<Longrightarrow> Q k u"
    and "J s" and "D \<subseteq> {l. Q l s}"
  shows "\<forall>l \<in> D \<union> set ls. Q l t"
  using assms(1-3,6,7)
proof (induction ls arbitrary: s D)
  case (Cons l ls)
  then obtain u where u: "body l s = Some u" "each_of body ls u = Some t" by (auto simp: bind_eq_Some_conv)
  have l: "ok s" "l \<in> set (queue s)" using Cons.prems by simp_all
  have "ok u" "queue u = queue s" using body_ok [OF u(1) l] body_keeps [OF u(1) l] .
  moreover have "Q l u \<and> J u" using est [OF u(1) l Cons.prems(4)] .
  moreover have "insert l D \<subseteq> {k. Q k u}" using keep [OF _ u(1) l Cons.prems(4)] Cons.prems(5) calculation(3) by auto
  ultimately show ?case using Cons.IH [OF u(2), of "insert l D"] Cons.prems by simp
qed auto

end

text \<open>
  A queue of requests: the test whether a waiting one is blocked, and a body that grants a lock that
  need not wait any more.
\<close>

locale grant_queue = queue_walk queue nxt grant ok
  for queue :: "lock_sys \<Rightarrow> lock_ptr list"
    and nxt :: "lock_sys \<Rightarrow> lock_ptr \<Rightarrow> lock_ptr option"
    and grant :: "lock_ptr \<Rightarrow> lock_sys \<Rightarrow> lock_sys option"
    and ok :: "lock_sys \<Rightarrow> bool" +
  fixes blocked :: "lock_ptr \<Rightarrow> lock_sys \<Rightarrow> bool"
  assumes grant_ok: "grant l s = Some u \<Longrightarrow> ok s \<Longrightarrow> ok u"
    and grant_blocked: "grant l s = Some u \<Longrightarrow> blocked w u = blocked w s"
    and grant_waiting: "grant l s = Some u \<Longrightarrow> waiting u w \<longleftrightarrow> waiting s w \<and> (w = l \<longrightarrow> blocked l s)"
    and grant_total: "ok s \<Longrightarrow> \<exists>u. grant l s = Some u"
begin

lemma list_waiting:
  "each_of grant ls s = Some t \<Longrightarrow> waiting t w \<longleftrightarrow> waiting s w \<and> (w \<in> set ls \<longrightarrow> blocked w s)"
proof (induction ls arbitrary: s)
  case (Cons l ls)
  then obtain u where u: "grant l s = Some u" "each_of grant ls u = Some t"
    by (auto simp: bind_eq_Some_conv)
  show ?case
    using Cons.IH [OF u(2)] grant_waiting [OF u(1), of w] grant_blocked [OF u(1), of w] by auto
qed simp

lemma list_blocked: "each_of grant ls s = Some t \<Longrightarrow> blocked w t = blocked w s"
proof (induction ls arbitrary: s)
  case (Cons l ls)
  then obtain u where u: "grant l s = Some u" "each_of grant ls u = Some t"
    by (auto simp: bind_eq_Some_conv)
  then show ?case using Cons.IH [OF u(2)] grant_blocked [OF u(1)] by simp
qed simp

lemma list_total: "ok s \<Longrightarrow> \<exists>t. each_of grant ls s = Some t"
proof (induction ls arbitrary: s)
  case (Cons l ls)
  obtain u where u: "grant l s = Some u" using grant_total [OF Cons.prems] by blast
  then show ?case using Cons.IH [OF grant_ok [OF u Cons.prems]] by simp
qed simp

lemma walk_total:
  "queue s = xs @ ys \<Longrightarrow> distinct (queue s) \<Longrightarrow> ok s \<Longrightarrow> \<exists>t. each_lock nxt grant (hd_opt ys) s = Some t"
  using walk_list list_total by simp

text \<open>After the loop exactly those requests it passed wait that waited before and are blocked.\<close>

lemma walk_grants:
  assumes "each_lock nxt grant (hd_opt ys) s = Some t" and "queue s = xs @ ys" and "distinct (queue s)" and "ok s"
  shows "queue t = queue s" and "w \<in> set ys \<Longrightarrow> waiting t w \<longleftrightarrow> waiting s w \<and> blocked w t"
    and "w \<notin> set ys \<Longrightarrow> waiting t w = waiting s w"
proof -
  have r: "each_of grant ys s = Some t" using assms(1) walk_list [OF assms(2-4)] by simp
  have "set ys \<subseteq> set (queue s)" using assms(2) by simp
  then show "queue t = queue s" "w \<in> set ys \<Longrightarrow> waiting t w \<longleftrightarrow> waiting s w \<and> blocked w t"
    "w \<notin> set ys \<Longrightarrow> waiting t w = waiting s w"
    using list_waiting [OF r] list_blocked [OF r] list_keeps [OF r assms(4)] by simp_all
qed

end

section \<open>What granting leaves alone\<close>

text \<open>Everything about a lock and its place but its wait flag.\<close>

definition lock_frame :: "lock_sys \<Rightarrow> lock_sys \<Rightarrow> bool" where
  "lock_frame s t \<longleftrightarrow> n_cells t = n_cells s \<and> rec_hash t = rec_hash s \<and> tabs t = tabs s \<and>
     (\<forall>l. same_lock (lock_at s l) (lock_at t l) \<and> lk_n_bits (lock_at t l) = lk_n_bits (lock_at s l) \<and>
       lk_bitmap (lock_at t l) = lk_bitmap (lock_at s l))"

lemma frame_refl: "lock_frame s s"
  by (simp add: lock_frame_def same_lock_def)

lemma frame_core: "lock_core t = lock_core s \<Longrightarrow> tabs t = tabs s \<Longrightarrow> lock_frame s t"
  by (simp add: lock_frame_def same_lock_def lock_core_def)

lemma frame_has_to_wait:
  assumes "lock_frame s t"
  shows "lock_has_to_wait (lock_at t a) (lock_at t b) = lock_has_to_wait (lock_at s a) (lock_at s b)"
proof -
  have bit: "lock_rec_get_nth_bit (lock_at t l) i = lock_rec_get_nth_bit (lock_at s l) i" for l i
    using assms by (simp add: lock_frame_def lock_rec_get_nth_bit_def)
  have "same_lock (lock_at s a) (lock_at t a)" "same_lock (lock_at s b) (lock_at t b)"
    using assms by (simp_all add: lock_frame_def)
  then show ?thesis
    by (simp add: lock_has_to_wait_def lock_rec_has_to_wait_def rec_has_to_wait_iff bit same_lock_def lock_get_mode_def)
qed

lemma frame_bits:
  assumes "lock_frame s t"
  shows "lock_rec_find_set_bit (lock_at t l) = lock_rec_find_set_bit (lock_at s l)"
    and "lock_rec_get_nth_bit (lock_at t l) i = lock_rec_get_nth_bit (lock_at s l) i"
    and "on_page t sp pg l = on_page s sp pg l" and "chain sp pg t = chain sp pg s"
    and "lk_space (lock_at t l) = lk_space (lock_at s l)" "lk_page_no (lock_at t l) = lk_page_no (lock_at s l)"
    and "lk_table (lock_at t l) = lk_table (lock_at s l)"
proof -
  show nth: "lock_rec_get_nth_bit (lock_at t l) i = lock_rec_get_nth_bit (lock_at s l) i" for i
    using assms by (simp add: lock_frame_def lock_rec_get_nth_bit_def)
  have "find_bit_from (lock_at t l) is = find_bit_from (lock_at s l) is" for "is"
    by (induction "is") (simp_all add: nth)
  then show "lock_rec_find_set_bit (lock_at t l) = lock_rec_find_set_bit (lock_at s l)"
    using assms by (simp add: lock_rec_find_set_bit_def lock_rec_get_n_bits_def lock_frame_def)
qed (use assms in \<open>simp_all add: lock_frame_def same_lock_def on_page_def chain_def lock_rec_hash_def hash_calc_hash_def\<close>)

lemma frame_ahead_conflict:
  "lock_frame s t \<Longrightarrow> ahead_conflict t sp pg w h ls = ahead_conflict s sp pg w h ls"
  by (induction ls) (simp_all add: frame_bits frame_has_to_wait)

lemma frame_table_ahead_conflict:
  "lock_frame s t \<Longrightarrow> table_ahead_conflict t w ls = table_ahead_conflict s w ls"
  by (induction ls) (simp_all add: frame_has_to_wait)

lemma frame_blocked:
  "lock_frame s t \<Longrightarrow> lock_rec_has_to_wait_in_queue w t = lock_rec_has_to_wait_in_queue w s"
  "lock_frame s t \<Longrightarrow> lock_table_has_to_wait_in_queue w t = lock_table_has_to_wait_in_queue w s"
  by (simp_all add: lock_rec_has_to_wait_in_queue_def lock_table_has_to_wait_in_queue_def Let_def frame_bits
      frame_ahead_conflict frame_table_ahead_conflict split: option.split) (simp add: lock_frame_def frame_table_ahead_conflict)

lemma frame_queues:
  assumes "lock_frame s t"
  shows "page_queue sp pg t = page_queue sp pg s" and "rec_queue sp pg h t = rec_queue sp pg h s"
proof -
  have "on_page t sp pg = on_page s sp pg" using frame_bits(3) [OF assms] by blast
  then show "page_queue sp pg t = page_queue sp pg s"
    by (simp add: page_queue_def frame_bits [OF assms])
  then show "rec_queue sp pg h t = rec_queue sp pg h s"
    by (simp add: rec_queue_def frame_bits [OF assms])
qed

lemma frame_trans: "lock_frame s t \<Longrightarrow> lock_frame t u \<Longrightarrow> lock_frame s u"
  unfolding lock_frame_def by (metis same_lock_trans)

lemma frame_lock_grant: "lock_grant l s = Some t \<Longrightarrow> lock_frame s t"
proof -
  assume run: "lock_grant l s = Some t"
  have "lock_core t = lock_core (lock_reset_lock_and_trx_wait l s)" using core_lock_grant [OF run] .
  moreover have "tabs t = tabs s" using tabs_lock_grant [OF run] .
  moreover have "taken s t" using taken_lock_grant [OF run] .
  then have "same_lock (lock_at s x) (lock_at t x)" for x unfolding taken_def by blast
  ultimately show ?thesis
    by (auto simp: lock_frame_def lock_core_def lock_reset_lock_and_trx_wait_def)
qed

lemma frame_grant_if_free: "grant_if_free l s = Some t \<Longrightarrow> lock_frame s t"
  by (auto simp: grant_if_free_def frame_refl dest: frame_lock_grant split: if_splits)

lemma frame_table_grant: "table_grant_if_free l s = Some t \<Longrightarrow> lock_frame s t"
  by (auto simp: table_grant_if_free_def frame_refl dest: frame_lock_grant split: if_splits)

section \<open>The queues of the lock system\<close>

lemma first_on_page_hd_opt: "first_on_page s sp pg xs = hd_opt (filter (on_page s sp pg) xs)"
  by (induction xs) auto

lemma first_on_rec_hd_opt:
  "first_on_rec s sp pg h xs = hd_opt (filter (\<lambda>l. on_page s sp pg l \<and> lock_rec_get_nth_bit (lock_at s l) h) xs)"
  by (induction xs) auto

lemma filter_nodes_after:
  assumes "filter P zs = xs @ l # ys" and "distinct (xs @ l # ys)"
  shows "filter P (nodes_after l zs) = ys"
  using assms
proof (induction zs arbitrary: xs)
  case (Cons z zs)
  show ?case
  proof (cases "P z")
    case False
    have "l \<in> set (filter P (z # zs))" unfolding Cons.prems(1) by simp
    then have "z \<noteq> l" using False by auto
    then show ?thesis using Cons False by simp
  next
    case True
    show ?thesis
    proof (cases xs)
      case Nil
      then show ?thesis using Cons.prems True by simp
    next
      case (Cons x xs')
      then show ?thesis using Cons.prems Cons.IH [of xs'] True by auto
    qed
  qed
qed simp

lemma page_first: "lock_rec_get_first_on_page_addr sp pg s = hd_opt (page_queue sp pg s)"
  by (simp add: lock_rec_get_first_on_page_addr_def first_on_page_hd_opt page_queue_def)

lemma rec_first: "lock_rec_get_first block h s = hd_opt (blk_queue block h s)"
  by (simp add: lock_rec_get_first_def first_on_rec_hd_opt blk_queue_def rec_queue_def page_queue_def conj_commute)

lemma page_next:
  assumes "page_queue sp pg s = xs @ l # ys" and "distinct (page_queue sp pg s)"
  shows "lock_rec_get_next_on_page s l = hd_opt ys"
proof -
  have "l \<in> set (page_queue sp pg s)" using assms(1) by simp
  then have "lk_space (lock_at s l) = sp" "lk_page_no (lock_at s l) = pg"
    by (simp_all add: page_queue_def on_page_def)
  moreover have "filter (on_page s sp pg) (nodes_after l (chain sp pg s)) = ys"
    using assms by (intro filter_nodes_after [of _ _ xs]) (simp_all add: page_queue_def)
  ultimately show ?thesis by (simp add: lock_rec_get_next_on_page_def Let_def first_on_page_hd_opt)
qed

lemma rec_next:
  assumes "rec_queue sp pg h s = xs @ l # ys" and "distinct (rec_queue sp pg h s)"
  shows "lock_rec_get_next h s l = hd_opt ys"
proof -
  let ?P = "\<lambda>l. on_page s sp pg l \<and> lock_rec_get_nth_bit (lock_at s l) h"
  have q: "rec_queue sp pg h s = filter ?P (chain sp pg s)"
    by (simp add: rec_queue_def page_queue_def conj_commute)
  have "l \<in> set (rec_queue sp pg h s)" using assms(1) by simp
  then have "lk_space (lock_at s l) = sp" "lk_page_no (lock_at s l) = pg"
    by (simp_all add: q on_page_def)
  moreover have "filter ?P (nodes_after l (chain sp pg s)) = ys"
    using assms unfolding q by (intro filter_nodes_after [of _ _ xs]) simp_all
  ultimately show ?thesis by (simp add: lock_rec_get_next_def Let_def first_on_rec_hd_opt)
qed

definition tables_ok :: "lock_sys \<Rightarrow> bool" where
  "tables_ok s \<longleftrightarrow> (\<forall>tab. \<forall>l \<in> set (tabq s tab). lk_table (lock_at s l) = tab)"

lemma sys_tables_ok: "sys_inv s \<Longrightarrow> tables_ok s"
  using table_invD(2) [OF sys_invD(2)] by (auto simp: tables_ok_def tab_wf_def)

lemma nodes_after_split: "distinct (xs @ l # ys) \<Longrightarrow> nodes_after l (xs @ l # ys) = ys"
  by (induction xs) auto

lemma table_nxt:
  assumes "tabq s tab = xs @ l # ys" and "distinct (tabq s tab)" and "tables_ok s"
  shows "table_next s l = hd_opt ys"
proof -
  have "lk_table (lock_at s l) = tab" using assms(1,3) by (force simp: tables_ok_def)
  then show ?thesis using nodes_after_split [of xs l ys] assms(1,2) by (simp add: table_next_def)
qed

lemma grant_step_waiting:
  "grant_if_free l s = Some u \<Longrightarrow> waiting u w \<longleftrightarrow> waiting s w \<and> (w = l \<longrightarrow> lock_rec_has_to_wait_in_queue l s)"
  "table_grant_if_free l s = Some u \<Longrightarrow> waiting u w \<longleftrightarrow> waiting s w \<and> (w = l \<longrightarrow> lock_table_has_to_wait_in_queue l s)"
  by (auto simp: grant_if_free_def table_grant_if_free_def waiting_lock_grant waiting_def split: if_splits)
    (auto simp: waiting_def [symmetric] waiting_lock_grant)

text \<open>
  The threads of a transaction in a lock wait are its own, each once, and all in the lock wait
  state; \<open>que_thr_stop\<close> puts them there.
\<close>

definition waits_ok :: "lock_sys \<Rightarrow> bool" where
  "waits_ok s \<longleftrightarrow> (\<forall>trx. trx_que_state (trxs s trx) = TRX_QUE_LOCK_WAIT \<longrightarrow>
     distinct (wait_thrs (trxs s trx)) \<and>
     (\<forall>p \<in> set (wait_thrs (trxs s trx)). thr_status (thrs s p) = QUE_THR_LOCK_WAIT \<and> thr_trx (thrs s p) = trx))"

lemma end_wait_total:
  "distinct ps \<Longrightarrow> \<forall>p \<in> set ps. thr_status (thrs s p) = QUE_THR_LOCK_WAIT \<Longrightarrow>
    \<exists>u. end_wait_loop trx ps s = Some u \<and> (\<forall>p. p \<notin> set ps \<longrightarrow> thrs u p = thrs s p) \<and>
      (\<forall>x. x \<noteq> trx \<longrightarrow> trxs u x = trxs s x)"
proof (induction ps arbitrary: s)
  case (Cons p ps)
  let ?v = "upd_ltrx trx (\<lambda>t. t\<lparr>wait_thrs := ps\<rparr>)
    (s\<lparr>thrs := (thrs s)(p := (thrs s p)\<lparr>thr_status := QUE_THR_RUNNING\<rparr>)\<rparr>)"
  have "\<exists>u. end_wait_loop trx ps ?v = Some u \<and> (\<forall>p. p \<notin> set ps \<longrightarrow> thrs u p = thrs ?v p) \<and>
      (\<forall>x. x \<noteq> trx \<longrightarrow> trxs u x = trxs ?v x)"
    by (rule Cons.IH) (use Cons.prems in auto)
  then show ?case using Cons.prems by (auto simp: que_thr_end_wait_no_next_thr_def)
qed simp

lemma grant_total_waits:
  assumes ok: "waits_ok s"
  shows "\<exists>u. lock_grant l s = Some u \<and> waits_ok u"
proof -
  let ?trx = "lk_trx (lock_at s l)"
  define s2 where "s2 = (let s1 = lock_reset_lock_and_trx_wait l s
    in if lock_get_mode (lock_at s1 l) = LOCK_AUTO_INC
       then upd_ltrx ?trx (\<lambda>t. t\<lparr>auto_inc_lock := Some l\<rparr>) s1 else s1)"
  have same: "trx_que_state (trxs s2 x) = trx_que_state (trxs s x)" "wait_thrs (trxs s2 x) = wait_thrs (trxs s x)"
    "thrs s2 = thrs s" for x
    by (simp_all add: s2_def Let_def lock_reset_lock_and_trx_wait_def)
  have ok2: "waits_ok s2" using ok by (simp add: waits_ok_def same)
  have g: "lock_grant l s = (if trx_que_state (trxs s2 ?trx) = TRX_QUE_LOCK_WAIT
      then trx_end_lock_wait ?trx s2 else Some s2)"
    by (simp add: lock_grant_def s2_def Let_def)
  show ?thesis
  proof (cases "trx_que_state (trxs s2 ?trx) = TRX_QUE_LOCK_WAIT")
    case True
    let ?ps = "wait_thrs (trxs s2 ?trx)"
    have w: "distinct ?ps" "\<forall>p \<in> set ?ps. thr_status (thrs s2 p) = QUE_THR_LOCK_WAIT"
      "\<forall>p \<in> set ?ps. thr_trx (thrs s2 p) = ?trx"
      using ok2 True by (simp_all add: waits_ok_def)
    obtain u where u: "end_wait_loop ?trx ?ps s2 = Some u"
      "\<And>p. p \<notin> set ?ps \<Longrightarrow> thrs u p = thrs s2 p" "\<And>x. x \<noteq> ?trx \<Longrightarrow> trxs u x = trxs s2 x"
      using end_wait_total [OF w(1,2)] by blast
    have "thrs u p = thrs s2 p" if "x \<noteq> ?trx" "trx_que_state (trxs s2 x) = TRX_QUE_LOCK_WAIT"
      "p \<in> set (wait_thrs (trxs s2 x))" for x p
      using that w(3) ok2 u(2) [of p] unfolding waits_ok_def by metis
    then have "waits_ok (upd_ltrx ?trx (\<lambda>t. t\<lparr>trx_que_state := TRX_QUE_RUNNING\<rparr>) u)"
      using ok2 u(3) unfolding waits_ok_def by auto
    then show ?thesis using g True u(1) by (simp add: trx_end_lock_wait_def)
  next
    case False
    then show ?thesis using g ok2 by simp
  qed
qed

lemma grant_step_total:
  assumes "waits_ok s"
  shows "\<exists>u. grant_if_free l s = Some u" and "grant_if_free l s = Some u \<Longrightarrow> waits_ok u"
    and "\<exists>u. table_grant_if_free l s = Some u" and "table_grant_if_free l s = Some u \<Longrightarrow> waits_ok u"
  using grant_total_waits [OF assms, of l] assms
  by (auto simp: grant_if_free_def table_grant_if_free_def split: if_splits)

interpretation page_grants: grant_queue "page_queue sp pg" lock_rec_get_next_on_page grant_if_free waits_ok
  lock_rec_has_to_wait_in_queue for sp pg
proof
  fix l s u
  assume g: "grant_if_free l s = Some u"
  note fr = frame_grant_if_free [OF g]
  show "page_queue sp pg u = page_queue sp pg s" by (rule frame_queues [OF fr])
  show "lock_rec_has_to_wait_in_queue w u = lock_rec_has_to_wait_in_queue w s" for w
    by (rule frame_blocked(1) [OF fr])
  show "waiting u w \<longleftrightarrow> waiting s w \<and> (w = l \<longrightarrow> lock_rec_has_to_wait_in_queue l s)" for w
    by (rule grant_step_waiting(1) [OF g])
qed (auto intro: page_next grant_step_total)

interpretation rec_grants: grant_queue "rec_queue sp pg h" "lock_rec_get_next h" grant_if_free waits_ok
  lock_rec_has_to_wait_in_queue for sp pg h
proof
  fix l s u
  assume g: "grant_if_free l s = Some u"
  note fr = frame_grant_if_free [OF g]
  show "rec_queue sp pg h u = rec_queue sp pg h s" by (rule frame_queues [OF fr])
  show "lock_rec_has_to_wait_in_queue w u = lock_rec_has_to_wait_in_queue w s" for w
    by (rule frame_blocked(1) [OF fr])
  show "waiting u w \<longleftrightarrow> waiting s w \<and> (w = l \<longrightarrow> lock_rec_has_to_wait_in_queue l s)" for w
    by (rule grant_step_waiting(1) [OF g])
qed (auto intro: rec_next grant_step_total)

interpretation table_grants: grant_queue "\<lambda>s. tabq s tab" table_next table_grant_if_free
  "\<lambda>s. tables_ok s \<and> waits_ok s" lock_table_has_to_wait_in_queue for tab
proof
  fix l s u
  assume g: "table_grant_if_free l s = Some u"
  note fr = frame_table_grant [OF g]
  show "tables_ok s \<and> waits_ok s \<Longrightarrow> tables_ok u \<and> waits_ok u"
    using fr grant_step_total(4) [OF _ g] by (simp add: tables_ok_def lock_frame_def same_lock_def)
  then show "tables_ok s \<and> waits_ok s \<Longrightarrow> tables_ok u \<and> waits_ok u" .
  show "tabq u tab = tabq s tab" using fr by (simp add: lock_frame_def)
  show "lock_table_has_to_wait_in_queue w u = lock_table_has_to_wait_in_queue w s" for w
    by (rule frame_blocked(2) [OF fr])
  show "waiting u w \<longleftrightarrow> waiting s w \<and> (w = l \<longrightarrow> lock_table_has_to_wait_in_queue l s)" for w
    by (rule grant_step_waiting(2) [OF g])
qed (auto intro: table_nxt grant_step_total)

section \<open>Nobody waits without a reason\<close>

lemma frame_each_grant:
  "each_lock nxt grant_if_free cur s = Some t \<Longrightarrow> lock_frame s t"
  "each_lock nxt table_grant_if_free cur s = Some t \<Longrightarrow> lock_frame s t"
  by (erule each_lock_inv [where I = "lock_frame s"];
    auto intro: frame_refl frame_trans frame_grant_if_free frame_table_grant)+

lemma page_queue_distinct: "sys_inv s \<Longrightarrow> distinct (page_queue sp pg s)"
  using chains_wfD(1) [OF sys_invD(3)] by (simp add: page_queue_def chain_def)

lemma ahead_frame:
  assumes inv: "sys_inv s" and fr: "lock_frame s t" and w: "w \<in> set (rec_queue sp pg h s)" "waiting s w"
  shows "lock_rec_has_to_wait_in_queue w t \<longleftrightarrow>
    (\<exists>a \<in> set (ahead w (rec_queue sp pg h t)). lock_has_to_wait (lock_at t w) (lock_at t a))"
  using has_to_wait_in_queue_iff [OF sys_invD(3) [OF inv] w]
  by (simp add: frame_blocked [OF fr] frame_queues [OF fr] frame_has_to_wait [OF fr])

text \<open>
  From \<open>s\<close> to \<open>t\<close>, exactly those requests on the page went on waiting that have a conflicting request
  ahead of them in the queue of their record.
\<close>

definition settled :: "ulint \<Rightarrow> ulint \<Rightarrow> lock_sys \<Rightarrow> lock_sys \<Rightarrow> bool" where
  "settled sp pg s t \<longleftrightarrow> (\<forall>h. \<forall>w \<in> set (rec_queue sp pg h t). lock_get_wait (lock_at t w) \<longleftrightarrow>
     lock_get_wait (lock_at s w) \<and>
     (\<exists>a \<in> set (ahead w (rec_queue sp pg h t)). lock_has_to_wait (lock_at t w) (lock_at t a)))"

lemma page_walk:
  assumes inv: "sys_inv s" and ok: "waits_ok s"
  shows "\<exists>t. each_lock lock_rec_get_next_on_page grant_if_free (lock_rec_get_first_on_page_addr sp pg s) s = Some t
    \<and> page_queue sp pg t = page_queue sp pg s \<and> settled sp pg s t"
proof -
  let ?q = "page_queue sp pg s"
  note d = page_queue_distinct [OF inv, of sp pg]
  obtain t where t: "each_lock lock_rec_get_next_on_page grant_if_free (hd_opt ?q) s = Some t"
    using page_grants.walk_total [of sp pg s "[]" ?q] d ok by auto
  have fr: "lock_frame s t" using frame_each_grant(1) [OF t] .
  have w: "waiting t w \<longleftrightarrow> waiting s w \<and> lock_rec_has_to_wait_in_queue w t" if "w \<in> set ?q" for w
    using page_grants.walk_grants(2) [OF t, of sp pg "[]" w] d ok that by auto
  have "waiting t w \<longleftrightarrow> waiting s w \<and>
      (\<exists>a \<in> set (ahead w (rec_queue sp pg h t)). lock_has_to_wait (lock_at t w) (lock_at t a))"
    if "w \<in> set (rec_queue sp pg h t)" for h w
    using w [OF rec_queue_sub_page] ahead_frame [OF inv fr, of w sp pg h] that frame_queues(2) [OF fr] by auto
  then have "settled sp pg s t" by (simp add: settled_def waiting_def)
  then show ?thesis using t frame_queues(1) [OF fr] by (auto simp: page_first)
qed

text \<open>
  C5: when a record lock is dequeued the function returns, the lock is gone, the other requests on
  the page keep their order, and exactly those requests still wait that have a conflicting request
  ahead of them in the queue of their record: no waiting request whose reason is gone is forgotten,
  and none is granted too early.
\<close>

theorem dequeue_grants_all:
  assumes "sys_inv s" and "waits_ok s" and "chained s l"
  defines "sp \<equiv> lk_space (lock_at s l)" and "pg \<equiv> lk_page_no (lock_at s l)"
  shows "\<exists>t. lock_rec_dequeue_from_page l s = Some t \<and> page_queue sp pg t = remove1 l (page_queue sp pg s) \<and>
    settled sp pg s t"
proof -
  let ?c = "lock_rec_hash sp pg s"
  obtain c where "l \<in> set (rec_hash s c)" using assms(3) by (auto simp: chained_def)
  then have c: "l \<in> set (rec_hash s ?c)"
    using chains_wfD(2) [OF sys_invD(3) [OF assms(1)]] by (auto simp: lock_wf_def sp_def pg_def)
  then obtain s1 where d: "HASH_DELETE (lock_rec_fold sp pg) l s = Some s1"
    by (auto simp: HASH_DELETE_def lock_rec_hash_def Let_def)
  let ?s2 = "upd_ltrx (lk_trx (lock_at s l)) (\<lambda>t. t\<lparr>trx_locks := remove1 l (trx_locks t)\<rparr>) s1"
  have s1: "s1 = s\<lparr>rec_hash := (rec_hash s)(?c := remove1 l (rec_hash s ?c))\<rparr>"
    using d by (auto simp: HASH_DELETE_def lock_rec_hash_def Let_def split: if_splits)
  have inv2: "sys_inv ?s2" using trxs_sys [OF hash_delete_sys [OF assms(1) d]] .
  have ok2: "waits_ok ?s2" using assms(2) by (simp add: waits_ok_def s1)
  have "lock_rec_hash sp pg ?s2 = ?c" by (simp add: s1 lock_rec_hash_def hash_calc_hash_def)
  then have pq: "page_queue sp pg ?s2 = remove1 l (page_queue sp pg s)"
    by (simp add: page_queue_def chain_def s1 filter_remove1 on_page_def [abs_def])
  obtain t where t: "each_lock lock_rec_get_next_on_page grant_if_free
      (lock_rec_get_first_on_page_addr sp pg ?s2) ?s2 = Some t"
    and q: "page_queue sp pg t = page_queue sp pg ?s2" and w: "settled sp pg ?s2 t"
    using page_walk [OF inv2 ok2, of sp pg] by blast
  have "lock_at ?s2 = lock_at s" by (simp add: s1)
  then have "settled sp pg s t" using w by (simp add: settled_def)
  moreover have "lock_rec_dequeue_from_page l s = Some t"
    using d t by (simp add: lock_rec_dequeue_from_page_def sp_def pg_def Let_def)
  ultimately show ?thesis using pq q by simp
qed

lemma demo_waits_trxs: "trx_que_state (trxs demo_waits x) = TRX_QUE_RUNNING"
  by (simp add: demo_waits_def demo_held_def lock_rec_create_def Let_def HASH_INSERT_def
      lock_set_lock_and_trx_wait_def demo_trx_def)

theorem dequeue_grants_all_witness:
  "\<exists>t. lock_rec_dequeue_from_page 2 demo_waits = Some t \<and>
    page_queue 0 3 t = remove1 2 (page_queue 0 3 demo_waits) \<and> settled 0 3 demo_waits t"
proof -
  have "waits_ok demo_waits" by (simp add: waits_ok_def demo_waits_trxs)
  moreover have "chained demo_waits 2" by (auto simp: chained_def demo_fields)
  ultimately show ?thesis
    using dequeue_grants_all [OF demo_waits_sys, of 2] by (simp add: demo_fields created_fields)
qed

end
