(* ===== verification/LockDead.thy ===== *)
theory LockDead imports LockWalk begin

text \<open>
  The deadlock search: when it reports no deadlock there is no cycle of waiting transactions through
  the requesting one, and it rolls back another transaction only when there is such a cycle. The
  marks on finished transactions are the visited set of a depth-first search: it is closed under
  the waits-for relation.
\<close>

section \<open>The waits-for relation\<close>

definition blocks :: "lock_sys \<Rightarrow> trx_ptr \<Rightarrow> trx_ptr \<Rightarrow> bool" where
  "blocks s u v \<longleftrightarrow> (\<exists>w. wait_lock (trxs s u) = Some w \<and>
     (\<exists>l \<in> set (locks_ahead s w). lock_has_to_wait (lock_at s w) (lock_at s l) \<and> lk_trx (lock_at s l) = v))"

text \<open>The step of a cycle through \<open>start\<close>, which itself does not wait yet when the search runs.\<close>

definition waits_for :: "trx_ptr \<Rightarrow> lock_sys \<Rightarrow> trx_ptr \<Rightarrow> trx_ptr \<Rightarrow> bool" where
  "waits_for start s u v \<longleftrightarrow> blocks s u v \<and> (v = start \<or> trx_que_state (trxs s v) = TRX_QUE_LOCK_WAIT)"

definition same_but_marks :: "lock_sys \<Rightarrow> lock_sys \<Rightarrow> bool" where
  "same_but_marks s t \<longleftrightarrow> (\<exists>x. t = s\<lparr>trxs := x\<rparr>) \<and>
     (\<forall>u. (\<exists>m. trxs t u = (trxs s u)\<lparr>deadlock_mark := m\<rparr>) \<and> (deadlock_mark (trxs s u) \<longrightarrow> deadlock_mark (trxs t u)))"

lemma same_marks_refl: "same_but_marks s s"
proof -
  have "trxs s u = (trxs s u)\<lparr>deadlock_mark := deadlock_mark (trxs s u)\<rparr>" for u by simp
  moreover have "s = s\<lparr>trxs := trxs s\<rparr>" by simp
  ultimately show ?thesis unfolding same_but_marks_def by metis
qed

lemma same_marks_trans:
  assumes "same_but_marks s t" and "same_but_marks t u"
  shows "same_but_marks s u"
proof -
  obtain x y where xy: "t = s\<lparr>trxs := x\<rparr>" "u = t\<lparr>trxs := y\<rparr>"
    using assms unfolding same_but_marks_def by blast
  have "\<exists>m. trxs u v = (trxs s v)\<lparr>deadlock_mark := m\<rparr>" for v
  proof -
    obtain m n where "trxs t v = (trxs s v)\<lparr>deadlock_mark := m\<rparr>" "trxs u v = (trxs t v)\<lparr>deadlock_mark := n\<rparr>"
      using assms unfolding same_but_marks_def by blast
    then show ?thesis by auto
  qed
  moreover have "\<exists>z. u = s\<lparr>trxs := z\<rparr>" using xy by auto
  ultimately show ?thesis using assms unfolding same_but_marks_def by blast
qed

lemma same_marks_fields:
  assumes "same_but_marks s t"
  shows "lock_at t = lock_at s" "locks_ahead t w = locks_ahead s w" "wait_lock (trxs t u) = wait_lock (trxs s u)"
    "trx_que_state (trxs t u) = trx_que_state (trxs s u)" "blocks t u v = blocks s u v"
    "waits_for start t u v = waits_for start s u v"
proof -
  obtain x where x: "t = s\<lparr>trxs := x\<rparr>" using assms unfolding same_but_marks_def by blast
  have m: "\<exists>m. trxs t u = (trxs s u)\<lparr>deadlock_mark := m\<rparr>" for u using assms unfolding same_but_marks_def by blast
  show l: "lock_at t = lock_at s" by (simp add: x)
  show a: "locks_ahead t w = locks_ahead s w" for w
  proof -
    have "on_page t = on_page s" by (intro ext) (simp add: x on_page_def)
    then have "page_queue sp pg t = page_queue sp pg s" for sp pg
      by (simp add: x page_queue_def chain_def lock_rec_hash_def hash_calc_hash_def)
    moreover have "tabs t = tabs s" by (simp add: x)
    ultimately show ?thesis unfolding locks_ahead_def l by (simp add: Let_def split: option.split)
  qed
  show w: "wait_lock (trxs t u) = wait_lock (trxs s u)" "trx_que_state (trxs t u) = trx_que_state (trxs s u)" for u
    using m [of u] by auto
  show b: "blocks t u v = blocks s u v" for u v by (simp add: blocks_def l a w)
  show "waits_for start t u v = waits_for start s u v" by (simp add: waits_for_def b w)
qed

text \<open>The visited set is closed: nobody marked waits for \<open>start\<close>, or for an unmarked waiter.\<close>

definition marks_closed :: "trx_ptr \<Rightarrow> lock_sys \<Rightarrow> bool" where
  "marks_closed start s \<longleftrightarrow> (\<forall>u v. deadlock_mark (trxs s u) \<longrightarrow> blocks s u v \<longrightarrow>
     v \<noteq> start \<and> (trx_que_state (trxs s v) = TRX_QUE_LOCK_WAIT \<longrightarrow> deadlock_mark (trxs s v)))"

lemma no_cycle:
  assumes cl: "marks_closed start s" and m: "deadlock_mark (trxs s start)"
  shows "\<not> (waits_for start s)\<^sup>+\<^sup>+ start start"
proof -
  have "v \<noteq> start \<and> deadlock_mark (trxs s v)" if "(waits_for start s)\<^sup>+\<^sup>+ start v" for v
    using that
  proof (induction rule: tranclp_induct)
    case (base v)
    then show ?case using cl m unfolding marks_closed_def waits_for_def by blast
  next
    case (step u v)
    then show ?case using cl unfolding marks_closed_def waits_for_def by blast
  qed
  then show ?thesis by blast
qed

section \<open>No deadlock is missed\<close>

definition done_with :: "trx_ptr \<Rightarrow> lock_ptr \<Rightarrow> lock_ptr \<Rightarrow> lock_sys \<Rightarrow> bool" where
  "done_with start wl l s \<longleftrightarrow> lock_has_to_wait (lock_at s wl) (lock_at s l) \<longrightarrow>
     lk_trx (lock_at s l) \<noteq> start \<and>
     (trx_que_state (trxs s (lk_trx (lock_at s l))) = TRX_QUE_LOCK_WAIT \<longrightarrow> deadlock_mark (trxs s (lk_trx (lock_at s l))))"

lemma done_with_mono: "same_but_marks s t \<Longrightarrow> done_with start wl l s \<Longrightarrow> done_with start wl l t"
  using same_marks_fields(1,4) [of s t] unfolding done_with_def same_but_marks_def by metis

lemma mark_same: "same_but_marks s (upd_ltrx trx (\<lambda>t. t\<lparr>deadlock_mark := True\<rparr>) s)"
proof -
  let ?t = "upd_ltrx trx (\<lambda>t. t\<lparr>deadlock_mark := True\<rparr>) s"
  have "\<exists>m. trxs ?t u = (trxs s u)\<lparr>deadlock_mark := m\<rparr>" for u
    by (cases "u = trx") (auto intro: exI [of _ "deadlock_mark (trxs s u)"])
  moreover have "\<exists>x. ?t = s\<lparr>trxs := x\<rparr>" by blast
  ultimately show ?thesis unfolding same_but_marks_def by simp
qed

lemma mark_trx_closed:
  assumes cl: "marks_closed start s" and w: "wait_lock (trxs s trx) = Some wl"
    and d: "\<And>l. l \<in> set (locks_ahead s wl) \<Longrightarrow> done_with start wl l s"
  shows "same_but_marks s (upd_ltrx trx (\<lambda>t. t\<lparr>deadlock_mark := True\<rparr>) s)"
    and "marks_closed start (upd_ltrx trx (\<lambda>t. t\<lparr>deadlock_mark := True\<rparr>) s)"
proof -
  let ?t = "upd_ltrx trx (\<lambda>t. t\<lparr>deadlock_mark := True\<rparr>) s"
  show sm: "same_but_marks s ?t" by (rule mark_same)
  have "v \<noteq> start \<and> (trx_que_state (trxs s v) = TRX_QUE_LOCK_WAIT \<longrightarrow> deadlock_mark (trxs s v))"
    if "u = trx \<or> deadlock_mark (trxs s u)" "blocks s u v" for u v
    using that cl d w unfolding marks_closed_def blocks_def done_with_def by force
  then show "marks_closed start ?t"
    unfolding marks_closed_def same_marks_fields(4,5) [OF sm] by (auto split: if_splits)
qed

lemma search_no_deadlock:
  "lock_deadlock_recursive start trx w cost depth s = Some (NO_DEADLOCK, c, t) \<Longrightarrow> w = wait_lock (trxs s trx) \<Longrightarrow>
    marks_closed start s \<Longrightarrow> same_but_marks s t \<and> marks_closed start t \<and> deadlock_mark (trxs t trx)"
  "deadlock_scan start trx wl ls cost depth s = Some (NO_DEADLOCK, c, t) \<Longrightarrow> wait_lock (trxs s trx) = Some wl \<Longrightarrow>
    marks_closed start s \<Longrightarrow> (\<And>l. l \<in> set (locks_ahead s wl) \<Longrightarrow> l \<notin> set ls \<Longrightarrow> done_with start wl l s) \<Longrightarrow>
    same_but_marks s t \<and> marks_closed start t \<and> deadlock_mark (trxs t trx)"
proof (induction start trx w cost depth s and start trx wl ls cost depth s
    arbitrary: c t and c t rule: lock_deadlock_recursive_deadlock_scan.induct)
  case (1 start trx cost depth s)
  then show ?case by simp
next
  case (2 start trx wl cost depth s)
  show ?case
  proof (cases "deadlock_mark (trxs s trx)")
    case True
    then show ?thesis using 2(2,4) by (simp add: same_marks_refl)
  next
    case False
    then have "deadlock_scan start trx wl (locks_ahead s wl) (cost + 1) depth s = Some (NO_DEADLOCK, c, t)"
      using 2(2) by (simp split: if_splits)
    moreover have "wait_lock (trxs s trx) = Some wl" using 2(3) by simp
    moreover have "\<not> (lock_get_type_low (lock_at s wl) = LOCK_REC \<and> lock_rec_find_set_bit (lock_at s wl) = None)"
      using 2(2) False by (auto split: if_splits)
    ultimately show ?thesis using 2(1) [OF False _ _ _ 2(4)] by blast
  qed
next
  case (3 start trx wl cost depth s)
  then show ?case using mark_trx_closed [of start s trx wl] by auto
next
  case (4 start trx wl l ls cost depth s)
  note IH = 4(1-4)
  from 4(5) show ?case
  proof (cases rule: deadlock_scan_cases)
    case skip
    have dl: "done_with start wl l s" using skip(2) by (auto simp: done_with_def)
    have rest: "done_with start wl x s" if "x \<in> set (locks_ahead s wl)" "x \<notin> set ls" for x
      using that 4(8) dl by (cases "x = l") auto
    show ?thesis
      using skip IH(3) [OF _ refl refl refl] IH(4) 4(6,7) rest by (auto simp: not_less)
  next
    case found
    then show ?thesis by simp
  next
    case (deeper r c1 s1)
    have r: "r = NO_DEADLOCK" using deeper(7) by (cases "r = NO_DEADLOCK") auto
    have s1: "same_but_marks s s1 \<and> marks_closed start s1 \<and> deadlock_mark (trxs s1 (lk_trx (lock_at s l)))"
      using IH(1) deeper 4(7) r by (simp add: not_less)
    have w1: "wait_lock (trxs s1 trx) = Some wl" using same_marks_fields(3) [of s s1 trx] s1 4(6) by simp
    have dl: "done_with start wl l s1"
      using deeper(2) s1 same_marks_fields(1) [of s s1] by (simp add: done_with_def)
    have rest: "done_with start wl x s1" if "x \<in> set (locks_ahead s1 wl)" "x \<notin> set ls" for x
      using that 4(8) [of x] dl done_with_mono [of s s1] s1 same_marks_fields(2) [of s s1] by (cases "x = l") auto
    have "same_but_marks s1 t \<and> marks_closed start t \<and> deadlock_mark (trxs t trx)"
      using IH(2) [OF _ refl refl refl] deeper r s1 w1 rest by (simp add: not_less)
    then show ?thesis using s1 same_marks_trans by blast
  qed
qed

section \<open>Nobody starts to wait during the search\<close>

definition quiet :: "trx_ptr \<Rightarrow> lock_sys \<Rightarrow> lock_sys \<Rightarrow> bool" where
  "quiet start s t \<longleftrightarrow> ls_trx_list t = ls_trx_list s \<and> (\<forall>u.
     (wait_lock (trxs t u) = None \<or> wait_lock (trxs t u) = wait_lock (trxs s u)) \<and>
     (trx_que_state (trxs t u) = TRX_QUE_LOCK_WAIT \<longrightarrow> trx_que_state (trxs s u) = TRX_QUE_LOCK_WAIT) \<and>
     (deadlock_mark (trxs t u) \<longrightarrow>
       deadlock_mark (trxs s u) \<or> trx_que_state (trxs s u) = TRX_QUE_LOCK_WAIT \<or> u = start))"

lemma quiet_refl: "quiet start s s"
  by (simp add: quiet_def)

lemma quiet_trans: "quiet start s t \<Longrightarrow> quiet start t u \<Longrightarrow> quiet start s u"
  unfolding quiet_def by metis

lemma quiet_upd [simp]:
  "quiet start s (t\<lparr>lock_at := a\<rparr>) = quiet start s t" "quiet start s (t\<lparr>tabs := b\<rparr>) = quiet start s t"
  "quiet start s (t\<lparr>rec_hash := x\<rparr>) = quiet start s t" "quiet start s (t\<lparr>thrs := y\<rparr>) = quiet start s t"
  by (simp_all add: quiet_def)

lemma quiet_trxs:
  assumes "quiet start s t"
    and "\<And>u. (wait_lock (x u) = None \<or> wait_lock (x u) = wait_lock (trxs t u)) \<and>
      deadlock_mark (x u) = deadlock_mark (trxs t u) \<and>
      (trx_que_state (x u) = TRX_QUE_RUNNING \<or> trx_que_state (x u) = trx_que_state (trxs t u))"
  shows "quiet start s (t\<lparr>trxs := x\<rparr>)"
  using assms unfolding quiet_def by (simp, metis que_state.distinct(1))

lemma quiet_end_wait: "end_wait_loop trx ps s = Some t \<Longrightarrow> quiet start s t"
proof (induction ps arbitrary: s)
  case (Cons p ps)
  let ?u = "upd_ltrx trx (\<lambda>t. t\<lparr>wait_thrs := ps\<rparr>) (s\<lparr>thrs := (thrs s)(p := (thrs s p)\<lparr>thr_status := QUE_THR_RUNNING\<rparr>)\<rparr>)"
  have "quiet start s ?u" by (rule quiet_trxs) (simp_all add: quiet_refl)
  moreover have "quiet start ?u t"
    using Cons by (auto simp: que_thr_end_wait_no_next_thr_def split: if_splits)
  ultimately show ?case by (rule quiet_trans)
qed (simp add: quiet_refl)

lemma quiet_trx_end: "trx_end_lock_wait trx s = Some t \<Longrightarrow> quiet start s t"
  by (auto simp: trx_end_lock_wait_def intro!: quiet_trxs dest: quiet_end_wait split: if_splits)

lemma quiet_clear_wait: "quiet start s (lock_reset_lock_and_trx_wait l s)"
  by (simp add: lock_reset_lock_and_trx_wait_def) (rule quiet_trxs, simp_all add: quiet_refl)

lemma quiet_grant: "lock_grant l s = Some t \<Longrightarrow> quiet start s t"
proof -
  assume run: "lock_grant l s = Some t"
  let ?trx = "lk_trx (lock_at s l)" and ?s1 = "lock_reset_lock_and_trx_wait l s"
  let ?s2 = "if lock_get_mode (lock_at ?s1 l) = LOCK_AUTO_INC
    then upd_ltrx ?trx (\<lambda>t. t\<lparr>auto_inc_lock := Some l\<rparr>) ?s1 else ?s1"
  have "quiet start s ?s2" using quiet_clear_wait [of start s l] by (auto intro!: quiet_trxs split: if_splits)
  moreover have "t = ?s2 \<or> trx_end_lock_wait ?trx ?s2 = Some t"
    using run unfolding lock_grant_def Let_def by (auto split: if_splits)
  ultimately show "quiet start s t" using quiet_trans quiet_trx_end by blast
qed

lemma quiet_grant_steps:
  "grant_if_free l s = Some t \<Longrightarrow> quiet start s t" "table_grant_if_free l s = Some t \<Longrightarrow> quiet start s t"
  by (auto simp: grant_if_free_def table_grant_if_free_def quiet_refl intro: quiet_grant split: if_splits)

lemma quiet_each:
  "each_lock nxt grant_if_free cur s = Some t \<Longrightarrow> quiet start s t"
  "each_lock nxt table_grant_if_free cur s = Some t \<Longrightarrow> quiet start s t"
  by (erule each_lock_inv [where I = "quiet start s"]; auto intro: quiet_refl quiet_trans quiet_grant_steps)+

lemma quiet_dequeue: "lock_rec_dequeue_from_page l s = Some t \<Longrightarrow> quiet start s t"
proof (erule dequeue_Some)
  fix s1
  assume d: "HASH_DELETE (lock_rec_fold (lk_space (lock_at s l)) (lk_page_no (lock_at s l))) l s = Some s1"
  let ?s2 = "upd_ltrx (lk_trx (lock_at s l)) (\<lambda>t. t\<lparr>trx_locks := remove1 l (trx_locks t)\<rparr>) s1"
  assume "each_lock lock_rec_get_next_on_page grant_if_free
      (lock_rec_get_first_on_page_addr (lk_space (lock_at s l)) (lk_page_no (lock_at s l)) ?s2) ?s2 = Some t"
  then have "quiet start ?s2 t" by (rule quiet_each)
  moreover have "quiet start s s1" using d by (auto simp: HASH_DELETE_def Let_def quiet_refl split: if_splits)
  then have "quiet start s ?s2" by (rule quiet_trxs) simp
  ultimately show "quiet start s t" using quiet_trans by blast
qed

lemma quiet_remove_low: "lock_table_remove_low l s = Some t \<Longrightarrow> quiet start s t"
  by (auto simp: lock_table_remove_low_def Let_def quiet_refl intro!: quiet_trxs split: if_splits)

lemma quiet_table_dequeue: "lock_table_dequeue l s = Some t \<Longrightarrow> quiet start s t"
  by (erule table_dequeue_Some) (blast intro: quiet_trans quiet_remove_low quiet_each)

lemma quiet_cancel: "lock_cancel_waiting_and_release l s = Some t \<Longrightarrow> quiet start s t"
proof -
  assume run: "lock_cancel_waiting_and_release l s = Some t"
  obtain s1 where s1: "(if lock_get_type_low (lock_at s l) = LOCK_REC then lock_rec_dequeue_from_page l s
        else lock_table_dequeue l s) = Some s1"
    and t: "trx_end_lock_wait (lk_trx (lock_at s1 l)) (lock_reset_lock_and_trx_wait l s1) = Some t"
    using run by (auto simp: lock_cancel_waiting_and_release_def bind_eq_Some_conv)
  have "quiet start s s1" using s1 by (auto intro: quiet_dequeue quiet_table_dequeue split: if_splits)
  then show ?thesis using quiet_trx_end [OF t] quiet_clear_wait quiet_trans by blast
qed

lemma search_same_marks:
  "lock_deadlock_recursive start trx w cost depth s = Some (NO_DEADLOCK, c, t) \<Longrightarrow> same_but_marks s t"
  "deadlock_scan start trx wl ls cost depth s = Some (NO_DEADLOCK, c, t) \<Longrightarrow> same_but_marks s t"
proof (induction start trx w cost depth s and start trx wl ls cost depth s
    arbitrary: c t and c t rule: lock_deadlock_recursive_deadlock_scan.induct)
  case (4 start trx wl l ls cost depth s)
  from 4(5) show ?case
  proof (cases rule: deadlock_scan_cases)
    case skip
    then show ?thesis using 4(3) [OF _ refl refl refl] 4(4) by (auto simp: not_less)
  next
    case (deeper r c1 s1)
    then have "r = NO_DEADLOCK" by (cases "r = NO_DEADLOCK") auto
    then have "same_but_marks s s1" "same_but_marks s1 t" using deeper 4(1,2) by (simp_all add: not_less)
    then show ?thesis by (rule same_marks_trans)
  qed simp
qed (auto simp: same_marks_refl mark_same split: if_splits)

lemma quiet_search:
  "lock_deadlock_recursive start trx w cost depth s = Some (ret, c, t) \<Longrightarrow>
    trx = start \<or> trx_que_state (trxs s trx) = TRX_QUE_LOCK_WAIT \<Longrightarrow> quiet start s t"
  "deadlock_scan start trx wl ls cost depth s = Some (ret, c, t) \<Longrightarrow>
    trx = start \<or> trx_que_state (trxs s trx) = TRX_QUE_LOCK_WAIT \<Longrightarrow> quiet start s t"
proof (induction start trx w cost depth s and start trx wl ls cost depth s
    arbitrary: ret c t and ret c t rule: lock_deadlock_recursive_deadlock_scan.induct)
  case (1 start trx cost depth s)
  then show ?case by simp
next
  case (2 start trx wl cost depth s)
  then show ?case by (auto simp: quiet_refl split: if_splits)
next
  case (3 start trx wl cost depth s)
  then show ?case by (auto simp: quiet_def split: if_splits)
next
  case (4 start trx wl l ls cost depth s)
  from 4(5) show ?case
  proof (cases rule: deadlock_scan_cases)
    case skip
    then show ?thesis using 4(3) [OF _ refl refl refl] 4(4) 4(6) by (auto simp: not_less)
  next
    case found
    let ?v = "upd_ltrx (lk_trx (lock_at s wl)) (\<lambda>t. t\<lparr>was_chosen_as_deadlock_victim := True\<rparr>) s"
    have "quiet start s ?v" by (rule quiet_trxs) (simp_all add: quiet_refl)
    then show ?thesis using found(3) quiet_refl quiet_cancel quiet_trans by blast
  next
    case (deeper r c1 s1)
    have s1: "quiet start s s1" using 4(1) deeper by (simp add: not_less)
    show ?thesis
    proof (cases "r = NO_DEADLOCK")
      case True
      then have "same_but_marks s s1" using search_same_marks(1) deeper(6) by simp
      then have "trx = start \<or> trx_que_state (trxs s1 trx) = TRX_QUE_LOCK_WAIT"
        using 4(6) same_marks_fields(4) [of s s1 trx] by simp
      then have "quiet start s1 t" using 4(2) deeper True by (simp add: not_less)
      then show ?thesis using s1 quiet_trans by blast
    qed (use deeper(7) s1 in simp)
  qed
qed

section \<open>The search and its repetition\<close>

definition list_complete :: "trx_ptr \<Rightarrow> lock_sys \<Rightarrow> bool" where
  "list_complete start s \<longleftrightarrow> start \<in> set (ls_trx_list s) \<and>
     (\<forall>u. trx_que_state (trxs s u) = TRX_QUE_LOCK_WAIT \<or> deadlock_mark (trxs s u) \<longrightarrow> u \<in> set (ls_trx_list s))"

lemma list_complete_quiet: "list_complete start s \<Longrightarrow> quiet start s t \<Longrightarrow> list_complete start t"
  unfolding list_complete_def quiet_def by metis

lemma reset_marks_state:
  "ls_trx_list (reset_marks ts s) = ls_trx_list s"
  "trxs (reset_marks ts s) u = (if u \<in> set ts then (trxs s u)\<lparr>deadlock_mark := False\<rparr> else trxs s u)"
  by (induction ts arbitrary: s) auto

lemma no_marks: "list_complete start s \<Longrightarrow> marks_closed start (reset_marks (ls_trx_list s) s)"
  by (auto simp: marks_closed_def reset_marks_state list_complete_def)

lemma reset_marks_complete: "list_complete start s \<Longrightarrow> list_complete start (reset_marks (ls_trx_list s) s)"
  by (auto simp: list_complete_def reset_marks_state)

lemma retry_no_cycle:
  assumes run: "deadlock_retry l trx cost s = Some (False, t)"
    and w: "wait_lock (trxs s trx) \<in> {None, Some l}" and q: "list_complete trx s"
  shows "\<not> (waits_for trx t)\<^sup>+\<^sup>+ trx trx"
proof -
  let ?P = "\<lambda>l trx cost s r. fst r = False \<longrightarrow> wait_lock (trxs s trx) \<in> {None, Some l} \<longrightarrow> list_complete trx s \<longrightarrow>
    \<not> (waits_for trx (snd r))\<^sup>+\<^sup>+ trx trx"
  have "?P l trx cost s (False, t)"
  proof (rule deadlock_retry.raw_induct [where P = ?P, OF _ run], goal_cases)
    case (1 f l trx cost s r)
    let ?s0 = "reset_marks (ls_trx_list s) s"
    obtain ret c1 s1 where rec: "lock_deadlock_recursive trx trx (Some l) cost 0 ?s0 = Some (ret, c1, s1)"
      and k: "(if ret = LOCK_VICTIM_IS_OTHER then f l trx c1 s1 else Some (ret = LOCK_VICTIM_IS_START, s1)) = Some r"
      using 1(2) by (auto simp: bind_eq_Some_conv)
    show ?case
    proof (intro impI)
      assume r: "fst r = False" and w: "wait_lock (trxs s trx) \<in> {None, Some l}" and q: "list_complete trx s"
      have q0: "list_complete trx ?s0" using reset_marks_complete [OF q] .
      have w0: "wait_lock (trxs ?s0 trx) = wait_lock (trxs s trx)" by (simp add: reset_marks_state)
      have qt: "quiet trx ?s0 s1" using quiet_search(1) [OF rec] by simp
      then have w1: "wait_lock (trxs s1 trx) \<in> {None, Some l}" using w w0 unfolding quiet_def by auto
      show "\<not> (waits_for trx (snd r))\<^sup>+\<^sup>+ trx trx"
      proof (cases "ret = LOCK_VICTIM_IS_OTHER")
        case True
        then have "f l trx c1 s1 = Some r" using k by simp
        from 1(1) [OF this] show ?thesis using r w1 list_complete_quiet [OF q0 qt] by blast
      next
        case False
        then have s1: "snd r = s1" "ret = NO_DEADLOCK" using k r by (auto, cases ret, auto)
        show ?thesis
        proof (cases "wait_lock (trxs s1 trx)")
          case None
          then have "\<not> waits_for trx s1 trx v" for v by (simp add: waits_for_def blocks_def)
          then show ?thesis using s1 by (meson tranclpD)
        next
          case (Some k)
          have "wait_lock (trxs s1 trx) = None \<or> wait_lock (trxs s1 trx) = wait_lock (trxs ?s0 trx)"
            using qt unfolding quiet_def by blast
          then have "wait_lock (trxs s trx) = Some k" using w0 Some by simp
          then have "wait_lock (trxs s trx) = Some l" using w by simp
          then have "Some l = wait_lock (trxs ?s0 trx)" using w0 by simp
          then have "marks_closed trx s1 \<and> deadlock_mark (trxs s1 trx)"
            using search_no_deadlock(1) [of trx trx "Some l" cost 0 ?s0 c1 s1, OF _ _ no_marks [OF q]] rec
            unfolding s1(2) by blast
          then show ?thesis using no_cycle s1(1) by blast
        qed
      qed
    qed
  qed
  then show ?thesis using w q by auto
qed

section \<open>No innocent victims\<close>

lemma search_finds_cycle:
  "lock_deadlock_recursive start trx w cost depth s = Some (ret, c, t) \<Longrightarrow> ret \<noteq> NO_DEADLOCK \<Longrightarrow>
    w = wait_lock (trxs s trx) \<Longrightarrow> depth \<le> 201 \<Longrightarrow>
    (waits_for start s)\<^sup>+\<^sup>+ trx start \<or> ret = LOCK_VICTIM_IS_START \<and>
      (c > LOCK_MAX_N_STEPS_IN_DEADLOCK_CHECK \<or> (\<exists>v. ((waits_for start s) ^^ (201 - depth)) trx v))"
  "deadlock_scan start trx wl ls cost depth s = Some (ret, c, t) \<Longrightarrow> ret \<noteq> NO_DEADLOCK \<Longrightarrow>
    wait_lock (trxs s trx) = Some wl \<Longrightarrow> set ls \<subseteq> set (locks_ahead s wl) \<Longrightarrow> depth \<le> 201 \<Longrightarrow>
    (waits_for start s)\<^sup>+\<^sup>+ trx start \<or> ret = LOCK_VICTIM_IS_START \<and>
      (c > LOCK_MAX_N_STEPS_IN_DEADLOCK_CHECK \<or> (\<exists>v. ((waits_for start s) ^^ (201 - depth)) trx v))"
proof (induction start trx w cost depth s and start trx wl ls cost depth s
    arbitrary: ret c t and ret c t rule: lock_deadlock_recursive_deadlock_scan.induct)
  case (1 start trx cost depth s)
  then show ?case by simp
next
  case (2 start trx wl cost depth s)
  show ?case
  proof (cases "deadlock_mark (trxs s trx)")
    case True
    then show ?thesis using 2(2,3) by simp
  next
    case False
    then have "deadlock_scan start trx wl (locks_ahead s wl) (cost + 1) depth s = Some (ret, c, t)"
      using 2(2) by (simp split: if_splits)
    moreover have "\<not> (lock_get_type_low (lock_at s wl) = LOCK_REC \<and> lock_rec_find_set_bit (lock_at s wl) = None)"
      using 2(2) False by (auto split: if_splits)
    ultimately show ?thesis using 2(1) [OF False _ _ 2(3) _ _ 2(5)] 2(4) by simp
  qed
next
  case (3 start trx wl cost depth s)
  then show ?case by simp
next
  case (4 start trx wl l ls cost depth s)
  have edge: "waits_for start s trx v"
    if "lock_has_to_wait (lock_at s wl) (lock_at s l)" "v = lk_trx (lock_at s l)"
      "v = start \<or> trx_que_state (trxs s v) = TRX_QUE_LOCK_WAIT" for v
    using that 4(7,8) unfolding waits_for_def blocks_def by auto
  from 4(5) show ?case
  proof (cases rule: deadlock_scan_cases)
    case skip
    then show ?thesis using 4(3) [OF _ refl refl refl] 4(4) 4(6-9) by (auto simp: not_less)
  next
    case found
    show ?thesis
      using found(4) edge [OF found(1) refl] 4(9)
      by (cases "depth = 201") (auto simp: LOCK_MAX_DEPTH_IN_DEADLOCK_CHECK_def)
  next
    case (deeper r c1 s1)
    show ?thesis
    proof (cases "r = NO_DEADLOCK")
      case True
      then have sm: "same_but_marks s s1" using search_same_marks(1) deeper(6) by simp
      have w: "waits_for start s1 = waits_for start s" using same_marks_fields(6) [OF sm] by blast
      have "wait_lock (trxs s1 trx) = Some wl" "set ls \<subseteq> set (locks_ahead s1 wl)"
        using 4(7,8) same_marks_fields(2,3) [OF sm] by simp_all
      then show ?thesis unfolding w [symmetric]
        using 4(2) deeper True 4(6,9) by (simp add: not_less)
    next
      case False
      have d: "depth \<le> 200" using deeper(3) by (simp add: LOCK_MAX_DEPTH_IN_DEADLOCK_CHECK_def)
      have e: "waits_for start s trx (lk_trx (lock_at s l))" using edge deeper(1,5) by simp
      have "(waits_for start s)\<^sup>+\<^sup>+ (lk_trx (lock_at s l)) start \<or> ret = LOCK_VICTIM_IS_START \<and>
          (c > LOCK_MAX_N_STEPS_IN_DEADLOCK_CHECK \<or> (\<exists>v. ((waits_for start s) ^^ (201 - (depth + 1))) (lk_trx (lock_at s l)) v))"
        using 4(1) [OF deeper(1) refl refl refl _ _ deeper(6)] deeper False d by (auto simp: not_less)
      then show ?thesis
      proof (elim disjE conjE exE)
        fix v assume "((waits_for start s) ^^ (201 - (depth + 1))) (lk_trx (lock_at s l)) v" "ret = LOCK_VICTIM_IS_START"
        moreover have "201 - depth = Suc (201 - (depth + 1))" using d by simp
        ultimately show ?thesis using relpowp_Suc_I2 [where P = "waits_for start s", OF e] by auto
      qed (use e in \<open>auto intro: tranclp_into_tranclp2\<close>)
    qed
  qed
qed

section \<open>The two directions\<close>

text \<open>
  An example: transaction 1 holds records 4 and 6 and asks for record 5 (lock 6), transaction 2 holds
  record 5 and waits for record 4 (lock 5). Transaction 2 has the smaller weight.
\<close>

definition demo_lock :: "trx_ptr \<Rightarrow> ulint \<Rightarrow> byte \<Rightarrow> lock" where
  "demo_lock trx tm b = \<lparr>lk_trx = trx, type_mode = tm, lk_index = 0, lk_table = 0, lk_space = 0, lk_page_no = 3,
     lk_n_bits = 8, lk_bitmap = [b]\<rparr>"

definition demo_cycle :: lock_sys where
  "demo_cycle = demo_sys\<lparr>rec_hash := (\<lambda>_. [2, 3, 4, 5, 6]), lock_brk := 7,
     lock_at := (\<lambda>_. demo_null)(2 := demo_lock 1 35 16, 3 := demo_lock 1 35 64, 4 := demo_lock 2 35 32,
       5 := demo_lock 2 291 16, 6 := demo_lock 1 291 32),
     trxs := (\<lambda>_. demo_trx)(1 := demo_trx\<lparr>trx_locks := [2, 3, 6], wait_lock := Some 6\<rparr>,
       2 := demo_trx\<lparr>trx_locks := [4, 5], wait_lock := Some 5, trx_que_state := TRX_QUE_LOCK_WAIT\<rparr>)\<rparr>"

text \<open>The same without lock 5: transaction 2 runs.\<close>

definition demo_runs :: lock_sys where
  "demo_runs = demo_cycle\<lparr>trxs := (trxs demo_cycle)(2 := demo_trx\<lparr>trx_locks := [4]\<rparr>), rec_hash := (\<lambda>_. [2, 3, 4, 6])\<rparr>"

lemma demo_cycle_list: "list_complete 1 demo_cycle"
  by (simp add: list_complete_def demo_cycle_def demo_trx_def) (simp add: demo_sys_def)

lemma demo_runs_list: "list_complete 1 demo_runs"
  by (simp add: list_complete_def demo_runs_def demo_cycle_def demo_trx_def) (simp add: demo_sys_def)

lemma search_limits: "\<not> 1 > LOCK_MAX_N_STEPS_IN_DEADLOCK_CHECK" "\<not> 2 > LOCK_MAX_N_STEPS_IN_DEADLOCK_CHECK"
  "\<not> 0 > LOCK_MAX_DEPTH_IN_DEADLOCK_CHECK" "\<not> 1 > LOCK_MAX_DEPTH_IN_DEADLOCK_CHECK"
  by (simp_all add: LOCK_MAX_N_STEPS_IN_DEADLOCK_CHECK_def LOCK_MAX_DEPTH_IN_DEADLOCK_CHECK_def)

lemma demo_cycle_search:
  "\<exists>t. lock_deadlock_recursive 1 1 (Some 6) 0 0 demo_cycle = Some (LOCK_VICTIM_IS_OTHER, 2, t)"
proof -
  have "locks_ahead demo_cycle 6 = [4]" "locks_ahead demo_cycle 5 = [2]"
    "lock_has_to_wait (lock_at demo_cycle 6) (lock_at demo_cycle 4)"
    "lock_has_to_wait (lock_at demo_cycle 5) (lock_at demo_cycle 2)"
    "lk_trx (lock_at demo_cycle 4) = 2" "lk_trx (lock_at demo_cycle 2) = 1" "lk_trx (lock_at demo_cycle 5) = 2"
    "trx_que_state (trxs demo_cycle 2) = TRX_QUE_LOCK_WAIT" "wait_lock (trxs demo_cycle 2) = Some 5"
    "\<not> deadlock_mark (trxs demo_cycle 1)" "\<not> deadlock_mark (trxs demo_cycle 2)"
    "lock_rec_find_set_bit (lock_at demo_cycle 6) = Some 5" "lock_rec_find_set_bit (lock_at demo_cycle 5) = Some 4"
    "trx_weight_cmp (trxs demo_cycle 2) (trxs demo_cycle 1) = -1"
    "map_option (\<lambda>_. ()) (lock_cancel_waiting_and_release 5
      (upd_ltrx 2 (\<lambda>t. t\<lparr>was_chosen_as_deadlock_victim := True\<rparr>) demo_cycle)) = Some ()"
    by code_simp+
  then show ?thesis using search_limits
    by (auto simp: Let_def numeral_2_eq_2 map_option_case split: option.splits)
qed

text \<open>
  C4: no deadlock is missed. When \<open>lock_deadlock_occurs\<close> answers that the requesting transaction need
  not be rolled back, there is no cycle of waiting transactions through it in the state the search
  leaves, whatever other victims the search rolled back on its way, and however its marks cut off
  the search of transactions visited before.
\<close>

theorem deadlock_search_complete:
  assumes "lock_deadlock_occurs l trx s = Some (False, t)" and "wait_lock (trxs s trx) = Some l"
    and "list_complete trx s"
  shows "\<not> (waits_for trx t)\<^sup>+\<^sup>+ trx trx"
  using retry_no_cycle [of l trx 0 s t] assms by (simp add: lock_deadlock_occurs_def)

theorem deadlock_search_complete_witness: "\<exists>t. \<not> (waits_for 1 t)\<^sup>+\<^sup>+ 1 1 \<and> ls_trx_list t = [1, 2, 3]"
proof -
  define s where "s = reset_marks (ls_trx_list demo_runs) demo_runs"
  let ?t = "upd_ltrx 1 (\<lambda>t. t\<lparr>deadlock_mark := True\<rparr>) s"
  have "locks_ahead s 6 = [4]" "trx_que_state (trxs s 2) = TRX_QUE_RUNNING" "lk_trx (lock_at s 4) = 2"
    "\<not> deadlock_mark (trxs s 1)" "lock_rec_find_set_bit (lock_at s 6) = Some 5"
    unfolding s_def by code_simp+
  then have "lock_deadlock_recursive 1 1 (Some 6) 0 0 s = Some (NO_DEADLOCK, 1, ?t)"
    using search_limits by (simp add: Let_def)
  then have "deadlock_retry 6 1 0 demo_runs = Some (False, ?t)"
    by (subst deadlock_retry.simps) (simp add: s_def [symmetric])
  then have "lock_deadlock_occurs 6 1 demo_runs = Some (False, ?t)" by (simp add: lock_deadlock_occurs_def)
  moreover have "wait_lock (trxs demo_runs 1) = Some 6" by code_simp
  moreover have "ls_trx_list ?t = [1, 2, 3]" unfolding s_def by code_simp
  ultimately show ?thesis using deadlock_search_complete [OF _ _ demo_runs_list] by blast
qed

text \<open>
  C11: no innocent victims. When the search chooses a victim, the request closes a cycle of waiting
  transactions, unless it gave up: then the requester itself is the victim, and the search took
  more than its limit of steps or there is a chain of 201 waiting transactions.
\<close>

theorem deadlock_victim_in_cycle:
  assumes "lock_deadlock_recursive trx trx (Some l) 0 0 s = Some (ret, cost, t)" and "ret \<noteq> NO_DEADLOCK"
    and "wait_lock (trxs s trx) = Some l"
  shows "(waits_for trx s)\<^sup>+\<^sup>+ trx trx \<or> ret = LOCK_VICTIM_IS_START \<and>
    (cost > LOCK_MAX_N_STEPS_IN_DEADLOCK_CHECK \<or> (\<exists>v. ((waits_for trx s) ^^ 201) trx v))"
  using search_finds_cycle(1) [OF assms(1,2)] assms(3) by simp

theorem deadlock_victim_in_cycle_witness: "(waits_for 1 demo_cycle)\<^sup>+\<^sup>+ 1 1"
proof -
  obtain t where "lock_deadlock_recursive 1 1 (Some 6) 0 0 demo_cycle = Some (LOCK_VICTIM_IS_OTHER, 2, t)"
    using demo_cycle_search by blast
  moreover have "wait_lock (trxs demo_cycle 1) = Some 6" by code_simp
  ultimately show ?thesis using deadlock_victim_in_cycle by blast
qed

end
