(* ===== verification/LockSafe.thy ===== *)
theory LockSafe imports LockWalk begin

text \<open>
  The lock system as a transition system: one step is one call of an operation of lock0lock.c under
  the kernel mutex. Every step keeps the invariants, so RULE 3 and the compatibility of granted
  table locks hold in every reachable state.
\<close>

section \<open>Steps\<close>

text \<open>
  The premises are what the callers guarantee: heap numbers lie on the page, record locks are S or
  X, an implicit lock does not conflict with the explicit requests (the code asserts it), the table
  of an AUTO-INC request exists. In an \<open>others\<close> step the rest of the server changes what belongs to
  it: transactions, threads and the header of pages.
\<close>

definition rec_request_ok :: "buf_block \<Rightarrow> nat \<Rightarrow> ulint \<Rightarrow> bool" where
  "rec_request_ok block h tm \<longleftrightarrow> h < blk_bits block \<and> tm_mode tm \<in> {LOCK_S, LOCK_X} \<and> \<not> tm_wait tm"

inductive lock_step :: "lock_sys \<Rightarrow> lock_sys \<Rightarrow> bool" where
  others: "lock_core t = lock_core s \<Longrightarrow> tabs t = tabs s \<Longrightarrow> lock_step s t"
| rec_lock: "rec_request_ok block h mode \<Longrightarrow>
    lock_rec_lock impl mode block h index thr s = Some (err, t) \<Longrightarrow> lock_step s t"
| insert_check: "h < blk_bits block \<Longrightarrow>
    lock_rec_insert_check_and_lock no_locking block h index clust thr inherit s = Some (err, i, t) \<Longrightarrow> lock_step s t"
| clust_modify: "h < blk_bits block \<Longrightarrow> impl_ok block h impl_trx s \<Longrightarrow>
    lock_clust_rec_modify_check_and_lock no_locking block h index impl_trx thr s = Some (err, t) \<Longrightarrow> lock_step s t"
| sec_modify: "h < blk_bits block \<Longrightarrow>
    lock_sec_rec_modify_check_and_lock no_locking block h index thr s = Some (err, t) \<Longrightarrow> lock_step s t"
| clust_read: "rec_request_ok block h (mode OR gap_mode) \<Longrightarrow> impl_ok block h impl_trx s \<Longrightarrow>
    lock_clust_rec_read_check_and_lock no_locking block h index mode gap_mode impl_trx thr s = Some (err, t) \<Longrightarrow>
    lock_step s t"
| sec_read: "rec_request_ok block h (mode OR gap_mode) \<Longrightarrow> impl_ok block h impl_trx s \<Longrightarrow>
    lock_sec_rec_read_check_and_lock no_locking block h index mode gap_mode mn recovery impl_trx thr s = Some (err, t) \<Longrightarrow>
    lock_step s t"
| convert: "h < blk_bits block \<Longrightarrow> impl_ok block h impl_trx s \<Longrightarrow>
    lock_step s (lock_rec_convert_impl_to_expl block h index impl_trx s)"
| table: "lock_mode_ok mode \<Longrightarrow> (mode = LOCK_AUTO_INC \<Longrightarrow> tab_auto_inc_buf (tabs s table) \<noteq> 0) \<Longrightarrow>
    lock_table no_locking table mode thr s = Some (err, t) \<Longrightarrow> lock_step s t"
| rec_unlock: "lock_rec_unlock trx block h mode s = Some t \<Longrightarrow> lock_step s t"
| table_unlock: "lock_table_unlock l s = Some t \<Longrightarrow> lock_step s t"
| auto_inc_unlock: "lock_table_unlock_auto_inc trx s = Some t \<Longrightarrow> lock_step s t"
| release: "lock_release_off_kernel trx s = Some t \<Longrightarrow> lock_step s t"
| cancel: "lock_cancel_waiting_and_release l s = Some t \<Longrightarrow> lock_step s t"
| reset_table: "lock_reset_all_on_table table s = Some t \<Longrightarrow> lock_step s t"
| split_right: "lock_update_split_right right left h s = Some t \<Longrightarrow> lock_step s t"
| merge_right: "h < blk_bits right \<Longrightarrow> lock_update_merge_right right h left s = Some t \<Longrightarrow> lock_step s t"
| root_raise: "lock_update_root_raise block root s = Some t \<Longrightarrow> lock_step s t"
| copy_discard: "lock_update_copy_and_discard new_block block s = Some t \<Longrightarrow> lock_step s t"
| split_left: "lock_update_split_left right left h s = Some t \<Longrightarrow> lock_step s t"
| merge_left: "h < blk_bits left \<Longrightarrow> lock_update_merge_left left h right s = Some t \<Longrightarrow> lock_step s t"
| inherit_gap: "heir_h < blk_bits heir \<Longrightarrow>
    lock_rec_reset_and_inherit_gap_locks heir block heir_h h s = Some t \<Longrightarrow> lock_step s t"
| discard: "heir_h < blk_bits heir \<Longrightarrow> lock_update_discard heir heir_h block hs s = Some t \<Longrightarrow> lock_step s t"
| insert: "receiver_h < blk_bits block \<Longrightarrow> lock_update_insert block receiver_h donator_h s = Some t \<Longrightarrow> lock_step s t"
| delete: "next_h < blk_bits block \<Longrightarrow> lock_update_delete block h next_h s = Some t \<Longrightarrow> lock_step s t"

inductive lock_reachable :: "lock_sys \<Rightarrow> bool" where
  init: "lock_init s \<Longrightarrow> lock_reachable s"
| step: "lock_reachable s \<Longrightarrow> lock_step s t \<Longrightarrow> lock_reachable t"

lemma reset_all_loop_sys: "reset_all_loop table ls s = Some t \<Longrightarrow> sys_inv s \<Longrightarrow> sys_inv t"
  by (induction ls arbitrary: s)
    (auto simp: Let_def bind_eq_Some_conv intro: discard_sys remove_low_sys split: if_splits)

lemma reset_all_sys:
  assumes "lock_reset_all_on_table table s = Some t" and "sys_inv s"
  shows "sys_inv t"
proof -
  let ?P = "\<lambda>table s t. sys_inv s \<longrightarrow> sys_inv t"
  have "?P table s t"
  proof (rule lock_reset_all_on_table.raw_induct [where P = ?P, OF _ assms(1)], goal_cases)
    case (1 f table s t)
    show ?case
    proof (cases "tab_locks (tabs s table)")
      case Nil
      then show ?thesis using 1(2) by simp
    next
      case (Cons l ls)
      then obtain u where "lock_reset_all_on_table_for_trx table (lk_trx (lock_at s l)) s = Some u" "f table u = Some t"
        using 1(2) by (auto simp: bind_eq_Some_conv split: if_splits)
      then show ?thesis
        using 1(1) reset_all_loop_sys unfolding lock_reset_all_on_table_for_trx_def by blast
    qed
  qed
  then show ?thesis using assms(2) by blast
qed

lemma lock_step_sys: "lock_step s t \<Longrightarrow> sys_inv s \<Longrightarrow> sys_inv t"
proof (induction rule: lock_step.induct)
  case (others t s)
  then show ?case using sys_core by blast
next
  case (auto_inc_unlock trx s t)
  then show ?case by (auto simp: lock_table_unlock_auto_inc_def intro: table_dequeue_sys split: option.splits)
next
  case (insert receiver_h block donator_h s t)
  then show ?case unfolding lock_update_insert_def using inherit_if_gap_sys by blast
next
  case (table_unlock l s t)
  then show ?case unfolding lock_table_unlock_def using table_dequeue_sys by blast
qed (auto simp: rec_request_ok_def intro: lock_rec_lock_sys insert_check_sys clust_modify_sys sec_modify_sys
    clust_read_sys sec_read_sys convert_sys lock_table_sys unlock_sys release_sys cancel_waiting_sys [THEN conjunct1]
    reset_all_sys split_right_sys merge_right_sys root_raise_sys copy_and_discard_sys split_left_sys merge_left_sys
    reset_and_inherit_sys update_discard_sys update_delete_sys)

lemma lock_reachable_sys: "lock_reachable s \<Longrightarrow> sys_inv s"
  by (induction rule: lock_reachable.induct) (auto intro: init_sys lock_step_sys)

text \<open>An example: two transactions share a record, then two share a table and a third waits for it.\<close>

definition demo_s1 :: lock_sys where
  "demo_s1 = snd (the (lock_rec_lock False LOCK_S demo_block 4 0 1 demo_sys))"

definition demo_s2 :: lock_sys where
  "demo_s2 = snd (the (lock_rec_lock False LOCK_S demo_block 4 0 2 demo_s1))"

definition demo_t1 :: lock_sys where
  "demo_t1 = snd (the (lock_table False 7 LOCK_IX 1 demo_sys))"

definition demo_t2 :: lock_sys where
  "demo_t2 = snd (the (lock_table False 7 LOCK_AUTO_INC 2 demo_t1))"

lemma demo_request: "rec_request_ok demo_block 4 LOCK_S"
  by (simp add: rec_request_ok_def demo_bits tm_simps)

lemma demo_s1_reachable: "lock_reachable demo_s1"
proof (rule lock_reachable.step [OF lock_reachable.init [OF demo_init] lock_step.rec_lock [OF demo_request]])
  show "lock_rec_lock False LOCK_S demo_block 4 0 1 demo_sys = Some (DB_SUCCESS, demo_s1)"
    unfolding demo_s1_def by (rule run_result) code_simp
qed

lemma demo_s2_reachable: "lock_reachable demo_s2"
proof (rule lock_reachable.step [OF demo_s1_reachable lock_step.rec_lock [OF demo_request]])
  show "lock_rec_lock False LOCK_S demo_block 4 0 2 demo_s1 = Some (DB_SUCCESS, demo_s2)"
    unfolding demo_s2_def by (rule run_result) code_simp
qed

lemma demo_t2_reachable: "lock_reachable demo_t2"
proof -
  have "lock_table False 7 LOCK_IX 1 demo_sys = Some (DB_SUCCESS, demo_t1)"
    unfolding demo_t1_def by (rule run_result) code_simp
  then have "lock_reachable demo_t1"
    by (rule lock_reachable.step [OF lock_reachable.init [OF demo_init] lock_step.table, rotated -1]) (simp_all add: lock_mode_ok_def)
  moreover have "lock_table False 7 LOCK_AUTO_INC 2 demo_t1 = Some (DB_SUCCESS, demo_t2)"
    unfolding demo_t2_def by (rule run_result) code_simp
  moreover have "tab_auto_inc_buf (tabs demo_t1 7) \<noteq> 0" by code_simp
  ultimately show ?thesis
    using lock_reachable.step lock_step.table [of LOCK_AUTO_INC demo_t1 7 False 2 DB_SUCCESS demo_t2]
    by (simp add: lock_mode_ok_def)
qed

lemma ahead_total: "a \<in> set xs \<Longrightarrow> b \<in> set xs \<Longrightarrow> a \<noteq> b \<Longrightarrow> a \<in> set (ahead b xs) \<or> b \<in> set (ahead a xs)"
  by (induction xs) (auto simp: ahead_Cons)



text \<open>
  C10: granted table locks are compatible. In every reachable state, two granted locks of
  different transactions in the queue of a table have compatible modes; in particular at most one
  transaction holds an AUTO-INC or an exclusive lock on a table.
\<close>

theorem table_locks_compatible:
  assumes "lock_reachable s" and "a \<in> set (tab_locks (tabs s table))" and "b \<in> set (tab_locks (tabs s table))"
    and "\<not> lock_get_wait (lock_at s a)" and "\<not> lock_get_wait (lock_at s b)"
    and "lk_trx (lock_at s a) \<noteq> lk_trx (lock_at s b)"
  shows "lock_mode_compatible (lock_get_mode (lock_at s a)) (lock_get_mode (lock_at s b))"
proof -
  note inv = sys_invD(2) [OF lock_reachable_sys [OF assms(1)]]
  note ok = table_invD(2) [OF inv assms(2)] table_invD(2) [OF inv assms(3)]
  have "a \<in> set (ahead b (tabq s table)) \<or> b \<in> set (ahead a (tabq s table))"
    using assms(2,3,6) by (intro ahead_total) auto
  then have "\<not> tab_conflict s a b \<or> \<not> tab_conflict s b a"
    using table_invD(3) [OF inv assms(2), of b] table_invD(3) [OF inv assms(3), of a] assms(4,5)
    by (auto simp: waiting_def)
  then show ?thesis
    using assms(6) compatible_sym [of "lock_get_mode (lock_at s a)" "lock_get_mode (lock_at s b)"] ok
    by (auto simp: tab_conflict_def tab_wf_def)
qed

theorem table_locks_compatible_witness:
  "lock_mode_compatible (lock_get_mode (lock_at demo_t2 2)) (lock_get_mode (lock_at demo_t2 1))"
proof (rule table_locks_compatible [OF demo_t2_reachable, where table = 7])
  have "(tab_locks (tabs demo_t2 7), map (\<lambda>l. (lk_trx (lock_at demo_t2 l), type_mode (lock_at demo_t2 l))) [2, 1]) =
      ([2, 1], [(1, 17), (2, 20)])"
    by code_simp
  then show "2 \<in> set (tab_locks (tabs demo_t2 7))" "1 \<in> set (tab_locks (tabs demo_t2 7))"
    "\<not> lock_get_wait (lock_at demo_t2 2)" "\<not> lock_get_wait (lock_at demo_t2 1)"
    "lk_trx (lock_at demo_t2 2) \<noteq> lk_trx (lock_at demo_t2 1)"
    by (simp_all add: lock_get_wait_def tm_wait_def lock_flag_consts)
qed

end
