(* ===== verification/LockFun.thy ===== *)
theory LockFun imports LockDead LockSafe begin

text \<open>
  What the lock operations achieve: the fast path of \<open>lock_rec_lock\<close> is the general one, a request
  that meets no conflict is granted and held, a gap is inherited in full, and the counter of
  AUTO-INC requests.
\<close>

section \<open>The fast path\<close>

text \<open>A mode as the callers of \<open>lock_rec_lock\<close> build it: S or X with at most a gap flag.\<close>

definition precise_mode :: "ulint \<Rightarrow> bool" where
  "precise_mode tm \<longleftrightarrow> (\<exists>m \<in> {LOCK_S, LOCK_X}. tm \<in> {m OR LOCK_ORDINARY, m OR LOCK_GAP, m OR LOCK_REC_NOT_GAP})"

lemma precise_modeD:
  assumes "precise_mode tm"
  shows "tm_mode tm \<in> {LOCK_S, LOCK_X}" "\<not> tm_wait tm" "\<not> tm_insert_intention tm"
  using assms by (auto simp: precise_mode_def tm_mode_def tm_wait_def tm_insert_intention_def lock_mode_consts lock_flag_consts)

definition gap_flags :: "ulint \<Rightarrow> bool" where
  "gap_flags tm \<longleftrightarrow> tm_gap tm \<or> tm_rec_not_gap tm"

lemma no_gap_flags:
  assumes "precise_mode tm" and "\<not> gap_flags tm"
  shows "(tm OR LOCK_REC) AND NOT (LOCK_GAP OR LOCK_REC_NOT_GAP) = tm OR LOCK_REC"
  using assms by (auto simp: precise_mode_def gap_flags_def tm_gap_def tm_rec_not_gap_def lock_mode_consts lock_flag_consts)

lemma rec_or_mode: "(LOCK_REC OR tm) OR LOCK_REC = tm OR LOCK_REC"
  by (simp add: or.left_commute or.commute)

lemma create_rec_flag:
  "lock_rec_create (sup_tm h (tm OR LOCK_REC)) block h index trx s = lock_rec_create tm block h index trx s"
proof -
  have bits: "((x OR LOCK_REC) AND NOT LOCK_TYPE_MASK) OR LOCK_REC = (x AND NOT LOCK_TYPE_MASK) OR LOCK_REC" for x
    by (rule bit_word_eqI) (auto simp: bit_simps flag_bits)
  have gaps: "(x OR LOCK_REC) AND NOT LOCK_GAP AND NOT LOCK_REC_NOT_GAP =
      (x AND NOT LOCK_GAP AND NOT LOCK_REC_NOT_GAP) OR LOCK_REC" for x
    by (rule bit_word_eqI) (auto simp: bit_simps flag_bits)
  have "new_rec_lock (x OR LOCK_REC) block h index trx = new_rec_lock x block h index trx" for x
    unfolding new_rec_lock_def bits by (rule refl)
  then show ?thesis
    by (cases "h = PAGE_HEAP_NO_SUPREMUM") (simp_all add: lock_rec_create_def sup_tm_def gaps tm_simps)
qed

lemma fast_is_slow:
  assumes m: "precise_mode mode" and sup: "h = PAGE_HEAP_NO_SUPREMUM \<Longrightarrow> \<not> gap_flags mode"
    and fast: "lock_rec_lock_fast impl mode block h index thr s = (True, t)"
  shows "lock_rec_lock_slow impl mode block h index thr s = Some (DB_SUCCESS, t)"
proof -
  let ?trx = "thr_trx (thrs s thr)" and ?q = "blk_queue block h s"
  let ?pq = "page_queue (blk_space block) (blk_page_no block) s"
  have expl: "lock_rec_has_expl mode block h ?trx s = find P ?q"
    if "P = (\<lambda>l. let lock = lock_at s l in
         lk_trx lock = ?trx \<and> lock_mode_stronger_or_eq (lock_get_mode lock) (tm_mode mode) \<and> \<not> lock_get_wait lock
         \<and> (\<not> lock_rec_get_rec_not_gap lock \<or> tm_rec_not_gap mode \<or> h = PAGE_HEAP_NO_SUPREMUM)
         \<and> (\<not> lock_rec_get_gap lock \<or> tm_gap mode \<or> h = PAGE_HEAP_NO_SUPREMUM)
         \<and> \<not> lock_rec_get_insert_intention lock)" for P
    unfolding lock_rec_has_expl_def that by (rule refl)
  show ?thesis
  proof (cases "lock_rec_get_first_on_page block s")
    case None
    then have q: "?pq = []" "?q = []" by (simp_all add: page_queue_first blk_queue_def rec_queue_def)
    have "lock_rec_add_to_queue (LOCK_REC OR mode) block h index ?trx s = lock_rec_create mode block h index ?trx s"
      using create_rec_flag [of h "LOCK_REC OR mode" block index ?trx s] create_rec_flag [of h mode block index ?trx s] q
      by (simp add: add_to_queue_eq lock_rec_find_similar_on_page_def rec_or_mode)
    then show ?thesis
      using fast None q
      by (auto simp: lock_rec_lock_fast_def lock_rec_lock_slow_def Let_def lock_rec_has_expl_def
          lock_rec_other_has_conflicting_def)
  next
    case (Some l)
    have c: "lock_rec_get_next_on_page s l = None" "lk_trx (lock_at s l) = ?trx"
      "type_mode (lock_at s l) = mode OR LOCK_REC" "h < lock_rec_get_n_bits (lock_at s l)"
      and t: "t = (if impl \<or> lock_rec_get_nth_bit (lock_at s l) h then s
        else register_if_unsafe ?trx index (upd_lock l (lock_rec_set_nth_bit h) s))"
      using fast Some by (auto simp: lock_rec_lock_fast_def Let_def not_le split: if_splits)
    have pq: "?pq = [l]" by (rule page_queue_only [OF Some c(1)])
    then have q: "?q = (if lock_rec_get_nth_bit (lock_at s l) h then [l] else [])"
      by (simp add: blk_queue_def rec_queue_def)
    have "lock_rec_other_has_conflicting mode block h ?trx s = None"
      using q c(2) by (simp add: lock_rec_other_has_conflicting_def lock_rec_has_to_wait_def rec_has_to_wait_iff)
    moreover have "lock_rec_has_expl mode block h ?trx s = Some l" if "lock_rec_get_nth_bit (lock_at s l) h"
      using that q c precise_modeD [OF m]
      by (auto simp: lock_rec_has_expl_def lock_get_mode_def lock_get_wait_def lock_rec_get_rec_not_gap_def
          lock_rec_get_gap_def lock_rec_get_insert_intention_def tm_simps)
    moreover have "lock_rec_has_expl mode block h ?trx s = None" if "\<not> lock_rec_get_nth_bit (lock_at s l) h"
      using that q by (simp add: lock_rec_has_expl_def)
    moreover have "snd (lock_rec_add_to_queue (LOCK_REC OR mode) block h index ?trx s) =
        upd_lock l (lock_rec_set_nth_bit h) s"
    proof -
      have tm: "sup_tm h ((LOCK_REC OR mode) OR LOCK_REC) = mode OR LOCK_REC"
        using no_gap_flags [OF m] sup unfolding sup_tm_def rec_or_mode by simp
      have "\<not> lock_get_wait (lock_at s l)" using c(3) precise_modeD(2) [OF m] by (simp add: lock_get_wait_def tm_simps)
      then show ?thesis
        using pq c precise_modeD(2) [OF m] unfolding add_to_queue_eq tm lock_rec_find_similar_on_page_def
        by (simp add: tm_simps)
    qed
    ultimately show ?thesis using t by (auto simp: lock_rec_lock_slow_def Let_def)
  qed
qed



section \<open>A granted request is held\<close>

lemma find_ex: "x \<in> set xs \<Longrightarrow> P x \<Longrightarrow> find P xs \<noteq> None"
  by (auto simp: find_None_iff)

text \<open>A lock as \<open>lock_rec_has_expl\<close> accepts it.\<close>

definition expl_lock :: "ulint \<Rightarrow> nat \<Rightarrow> trx_ptr \<Rightarrow> lock \<Rightarrow> bool" where
  "expl_lock mode h trx k \<longleftrightarrow> lk_trx k = trx \<and> lock_mode_stronger_or_eq (lock_get_mode k) (tm_mode mode)
     \<and> \<not> lock_get_wait k \<and> (\<not> lock_rec_get_rec_not_gap k \<or> tm_rec_not_gap mode \<or> h = PAGE_HEAP_NO_SUPREMUM)
     \<and> (\<not> lock_rec_get_gap k \<or> tm_gap mode \<or> h = PAGE_HEAP_NO_SUPREMUM) \<and> \<not> lock_rec_get_insert_intention k"

lemma has_expl_iff:
  "lock_rec_has_expl mode block h trx s \<noteq> None \<longleftrightarrow> (\<exists>x \<in> set (blk_queue block h s). expl_lock mode h trx (lock_at s x))"
  by (auto simp: lock_rec_has_expl_def expl_lock_def Let_def find_None_iff)

lemma stronger_refl: "m \<in> {LOCK_S, LOCK_X} \<Longrightarrow> lock_mode_stronger_or_eq m m"
  by auto

lemma sup_tm_lock:
  assumes "tm_mode mode \<in> {LOCK_S, LOCK_X}" "\<not> tm_wait mode" "\<not> tm_insert_intention mode"
    and "lk_trx k = trx" "tm_mode (type_mode k) = tm_mode mode" "tm_wait (type_mode k) = tm_wait mode"
    and "tm_insert_intention (type_mode k) = tm_insert_intention mode"
    and "tm_gap (type_mode k) \<longleftrightarrow> h \<noteq> PAGE_HEAP_NO_SUPREMUM \<and> tm_gap mode"
    and "tm_rec_not_gap (type_mode k) \<longleftrightarrow> h \<noteq> PAGE_HEAP_NO_SUPREMUM \<and> tm_rec_not_gap mode"
  shows "expl_lock mode h trx k"
  using assms stronger_refl [OF assms(1)]
  by (auto simp: expl_lock_def lock_get_mode_def lock_get_wait_def lock_rec_get_rec_not_gap_def
      lock_rec_get_gap_def lock_rec_get_insert_intention_def)

lemma add_to_queue_holds:
  assumes inv: "sys_inv s" and h: "h < blk_bits block" and "tm_mode mode \<in> {LOCK_S, LOCK_X}" "\<not> tm_wait mode" "\<not> tm_insert_intention mode"
  shows "\<exists>x \<in> set (blk_queue block h (snd (lock_rec_add_to_queue mode block h index trx s))).
    expl_lock mode h trx (lock_at (snd (lock_rec_add_to_queue mode block h index trx s)) x)"
proof -
  let ?t = "snd (lock_rec_add_to_queue mode block h index trx s)"
  let ?tm = "sup_tm h (mode OR LOCK_REC)"
  have wf: "chains_wf s" using sys_invD(3) [OF inv] .
  have created: "\<exists>x \<in> set (blk_queue block h t). expl_lock mode h trx (lock_at t x)"
    if t: "t = snd (lock_rec_create ?tm block h index trx s)" for t
  proof -
    note st = created_state [OF create_core(2) [of ?tm block h index trx s] wf h, folded t]
    have "lock_brk s \<in> set (blk_queue block h t)" using st(1) by (simp add: blk_queue_def)
    moreover have "expl_lock mode h trx (lock_at t (lock_brk s))"
      unfolding st(2) by (rule sup_tm_lock [OF assms(3-5)])
        (use created_fields [of ?tm block h index trx] in \<open>simp_all add: tm_simps lock_get_wait_def\<close>)
    ultimately show ?thesis by blast
  qed
  show ?thesis
  proof (cases rule: add_to_queue_cases [of block s mode h index trx])
    case (reuse l)
    have l: "l \<in> set (page_queue (blk_space block) (blk_page_no block) s)" "lk_trx (lock_at s l) = trx"
      "type_mode (lock_at s l) = ?tm" "h < lock_rec_get_n_bits (lock_at s l)"
      using find_Some [OF reuse(3) [unfolded lock_rec_find_similar_on_page_def]] by (simp_all add: Let_def)
    have "lock_ok (lock_at s l)"
      using l(1) chains_wfD(2) [OF wf] by (auto simp: page_queue_def chain_def lock_wf_def)
    then have "has_bit ?t h l" using l(4) by (simp add: reuse(2) has_bit_def nth_bit_set lock_rec_get_n_bits_def)
    moreover have "l \<in> set (page_queue (blk_space block) (blk_page_no block) ?t)"
      using l(1) by (simp add: reuse(2) page_queue_def on_page_def chain_def lock_rec_hash_def hash_calc_hash_def)
    ultimately have "l \<in> set (blk_queue block h ?t)" by (simp add: blk_queue_def rec_queue_def has_bit_def)
    moreover have "expl_lock mode h trx (lock_at ?t l)"
      by (rule sup_tm_lock [OF assms(3-5)]) (use l in \<open>simp_all add: reuse(2) tm_simps\<close>)
    ultimately show ?thesis by blast
  qed (use created in blast)
qed

lemma register_queue: "blk_queue block h (register_if_unsafe trx index s) = blk_queue block h s"
  "lock_at (register_if_unsafe trx index s) = lock_at s"
proof -
  have c: "lock_core (register_if_unsafe trx index s) = lock_core s" by (rule core_register)
  then show "lock_at (register_if_unsafe trx index s) = lock_at s" by (simp add: lock_core_def)
  have "lock_frame s (register_if_unsafe trx index s)"
    using c by (intro frame_core) (auto simp: register_if_unsafe_def trx_register_new_rec_lock_def split: option.splits prod.splits)
  then show "blk_queue block h (register_if_unsafe trx index s) = blk_queue block h s"
    by (simp add: blk_queue_def frame_queues)
qed


lemma demo_free: "lock_rec_other_has_conflicting LOCK_X demo_block 4 1 demo_sys = None"
  by (simp add: lock_rec_other_has_conflicting_def blk_queue_def rec_queue_eq chain_def)


section \<open>Inheriting gaps\<close>

lemma set_bit_queue:
  assumes wf: "chains_wf s" and l: "l \<in> set (page_queue sp0 pg0 s)" and b: "h < lock_rec_get_n_bits (lock_at s l)"
  defines "t \<equiv> upd_lock l (lock_rec_set_nth_bit h) s"
  shows "x \<in> set (rec_queue sp pg i t) \<longleftrightarrow> x \<in> set (rec_queue sp pg i s) \<or> x = l \<and> sp = sp0 \<and> pg = pg0 \<and> i = h"
    and "\<not> (sp = sp0 \<and> pg = pg0 \<and> i = h) \<Longrightarrow> rec_queue sp pg i t = rec_queue sp pg i s"
proof -
  have lc: "l \<in> set (chain sp0 pg0 s)" "on_page s sp0 pg0 l" using l by (simp_all add: page_queue_def)
  then have wfl: "lock_wf s (lock_rec_hash sp0 pg0 s) l" using chains_wfD(2) [OF wf] by (simp add: chain_def)
  have bits: "has_bit t i x \<longleftrightarrow> has_bit s i x \<or> x = l \<and> i = h" for i x
    using wfl b by (auto simp: t_def has_bit_def nth_bit_set lock_wf_def lock_rec_get_n_bits_def)
  have op: "on_page t sp pg x = on_page s sp pg x" for sp pg x by (simp add: t_def on_page_def)
  have ch: "chain sp pg t = chain sp pg s" for sp pg
    by (simp add: t_def chain_def lock_rec_hash_def hash_calc_hash_def)
  have pl: "on_page s sp pg l \<longleftrightarrow> sp = sp0 \<and> pg = pg0" using lc(2) by (auto simp: on_page_def)
  show "x \<in> set (rec_queue sp pg i t) \<longleftrightarrow> x \<in> set (rec_queue sp pg i s) \<or> x = l \<and> sp = sp0 \<and> pg = pg0 \<and> i = h"
    using lc pl by (auto simp: rec_queue_eq ch op bits)
  show "rec_queue sp pg i t = rec_queue sp pg i s" if "\<not> (sp = sp0 \<and> pg = pg0 \<and> i = h)"
    using that pl by (auto simp: rec_queue_eq ch op bits intro!: filter_cong)
qed

lemma add_to_queue_frame:
  fixes tm :: ulint and index :: index_ptr and trx :: nat
  assumes inv: "sys_inv s" and h: "h < blk_bits block"
  defines "t \<equiv> snd (lock_rec_add_to_queue tm block h index trx s)"
  shows "x \<in> set (rec_queue sp pg i s) \<Longrightarrow> x \<in> set (rec_queue sp pg i t) \<and>
      lk_trx (lock_at t x) = lk_trx (lock_at s x) \<and> type_mode (lock_at t x) = type_mode (lock_at s x)"
    and "\<not> (sp = blk_space block \<and> pg = blk_page_no block \<and> i = h) \<Longrightarrow> rec_queue sp pg i t = rec_queue sp pg i s"
    and "unsafe_or_read_committed u t = unsafe_or_read_committed u s"
proof -
  note wf = sys_invD(3) [OF inv]
  have both: "(x \<in> set (rec_queue sp pg i s) \<longrightarrow> x \<in> set (rec_queue sp pg i t) \<and>
      lk_trx (lock_at t x) = lk_trx (lock_at s x) \<and> type_mode (lock_at t x) = type_mode (lock_at s x)) \<and>
    (\<not> (sp = blk_space block \<and> pg = blk_page_no block \<and> i = h) \<longrightarrow> rec_queue sp pg i t = rec_queue sp pg i s)"
  proof (cases rule: add_to_queue_cases [of block s tm h index trx])
    case (reuse l)
    have b: "h < lock_rec_get_n_bits (lock_at s l)"
      using find_Some [OF reuse(3) [unfolded lock_rec_find_similar_on_page_def]] by (simp add: Let_def)
    note q = set_bit_queue [OF wf reuse(1) b, folded reuse(2), folded t_def]
    have "lk_trx (lock_at t x) = lk_trx (lock_at s x) \<and> type_mode (lock_at t x) = type_mode (lock_at s x)"
      by (simp add: t_def reuse(2))
    then show ?thesis using q(1) [of x sp pg i] q(2) [of sp pg i] by blast
  next
    case create
    let ?tm = "sup_tm h (tm OR LOCK_REC)"
    note st = created_state [OF create_core(2) [of ?tm block h index trx s] wf h, folded create, folded t_def]
    show ?thesis
      using st(1) [of sp pg i] st(3) [of x] st(4) [of x sp pg i] by auto
  qed
  show "x \<in> set (rec_queue sp pg i s) \<Longrightarrow> x \<in> set (rec_queue sp pg i t) \<and>
      lk_trx (lock_at t x) = lk_trx (lock_at s x) \<and> type_mode (lock_at t x) = type_mode (lock_at s x)"
    "\<not> (sp = blk_space block \<and> pg = blk_page_no block \<and> i = h) \<Longrightarrow> rec_queue sp pg i t = rec_queue sp pg i s"
    using both by blast+
  have "unsafe_or_read_committed u (snd (lock_rec_create m block h index trx s)) = unsafe_or_read_committed u s" for m
    by (simp add: unsafe_or_read_committed_def lock_rec_create_def Let_def HASH_INSERT_def lock_set_lock_and_trx_wait_def)
  then show "unsafe_or_read_committed u t = unsafe_or_read_committed u s"
    unfolding t_def by (cases rule: add_to_queue_cases [of block s tm h index trx])
      (simp_all add: unsafe_or_read_committed_def)
qed

text \<open>The body of the loop of \<open>lock_rec_inherit_to_gap\<close> and the requests it passes on.\<close>

definition inherits :: "lock_sys \<Rightarrow> lock_ptr \<Rightarrow> bool" where
  "inherits s l \<longleftrightarrow> \<not> lock_rec_get_insert_intention (lock_at s l) \<and>
     \<not> (unsafe_or_read_committed (lk_trx (lock_at s l)) s \<and> lock_get_mode (lock_at s l) = LOCK_X)"

definition inherit_body :: "buf_block \<Rightarrow> nat \<Rightarrow> lock_ptr \<Rightarrow> lock_sys \<Rightarrow> lock_sys option" where
  "inherit_body heir heir_h l s =
     Some (if inherits s l
       then snd (lock_rec_add_to_queue (LOCK_REC OR LOCK_GAP OR lock_get_mode (lock_at s l)) heir heir_h
         (lk_index (lock_at s l)) (lk_trx (lock_at s l)) s)
       else s)"

lemma inherit_loop:
  "lock_rec_inherit_to_gap heir block heir_h h s =
    each_lock (lock_rec_get_next h) (inherit_body heir heir_h) (hd_opt (blk_queue block h s)) s"
proof -
  have "inherit_body heir heir_h = (\<lambda>l s. let lock = lock_at s l in
      if \<not> lock_rec_get_insert_intention lock
         \<and> \<not> (unsafe_or_read_committed (lk_trx lock) s \<and> lock_get_mode lock = LOCK_X)
      then Some (snd (lock_rec_add_to_queue (LOCK_REC OR LOCK_GAP OR lock_get_mode lock)
             heir heir_h (lk_index lock) (lk_trx lock) s))
      else Some s)"
    by (intro ext) (simp add: inherit_body_def inherits_def Let_def)
  then show ?thesis by (simp add: lock_rec_inherit_to_gap_def rec_first)
qed

interpretation gap_inherit: queue_walk "rec_queue sp pg h" "lock_rec_get_next h" "inherit_body heir heir_h"
  "\<lambda>s. sys_inv s \<and> heir_h < blk_bits heir \<and> \<not> (sp = blk_space heir \<and> pg = blk_page_no heir \<and> h = heir_h)"
  for sp pg h heir heir_h
proof
  fix l s u
  assume b: "inherit_body heir heir_h l s = Some u"
    and ok: "sys_inv s \<and> heir_h < blk_bits heir \<and> \<not> (sp = blk_space heir \<and> pg = blk_page_no heir \<and> h = heir_h)"
    and l: "l \<in> set (rec_queue sp pg h s)"
  have c: "chained s l" using l by (auto simp: rec_queue_eq chain_def chained_def)
  show "sys_inv u \<and> heir_h < blk_bits heir \<and> \<not> (sp = blk_space heir \<and> pg = blk_page_no heir \<and> h = heir_h)"
    using b ok inherit_step_sys [OF _ c, of heir_h heir] by (auto simp: inherit_body_def)
  show "rec_queue sp pg h u = rec_queue sp pg h s"
    using b ok add_to_queue_frame(2) [of s heir_h heir sp pg h] by (auto simp: inherit_body_def)
qed (auto intro: rec_next)

lemma expl_lock_rec: "expl_lock (LOCK_REC OR m) h trx k = expl_lock m h trx k"
  by (simp add: expl_lock_def tm_simps)

lemma has_expl_grows:
  assumes "sys_inv s" and "h < blk_bits block"
    and "lock_rec_has_expl mode heir hh u s \<noteq> None"
  shows "lock_rec_has_expl mode heir hh u (snd (lock_rec_add_to_queue tm block h index trx s)) \<noteq> None"
proof -
  let ?t = "snd (lock_rec_add_to_queue tm block h index trx s)"
  obtain x where x: "x \<in> set (blk_queue heir hh s)" "expl_lock mode hh u (lock_at s x)"
    using assms(3) unfolding has_expl_iff by blast
  then have "x \<in> set (blk_queue heir hh ?t)" "expl_lock mode hh u (lock_at ?t x)"
    using add_to_queue_frame(1) [OF assms(1,2), of x "blk_space heir" "blk_page_no heir" hh tm index trx]
    by (simp_all add: blk_queue_def expl_lock_def lock_get_mode_def lock_get_wait_def lock_rec_get_rec_not_gap_def
        lock_rec_get_gap_def lock_rec_get_insert_intention_def)
  then show ?thesis unfolding has_expl_iff by blast
qed



section \<open>Table locks\<close>

text \<open>
  C24: when a table lock is dequeued the function returns, the lock leaves the queue of its table,
  and of the requests behind it exactly those still wait that conflict with a request ahead of
  them; the requests before it are as they were.
\<close>

theorem table_dequeue_grants_all:
  assumes "sys_inv s" and "waits_ok s" and l: "l \<in> set (tab_locks (tabs s table))"
    and cnt: "auto_inc_lock (trxs s (lk_trx (lock_at s l))) = Some l \<Longrightarrow>
      n_waiting_or_granted_auto_inc_locks (tabs s table) > 0"
  shows "\<exists>t. lock_table_dequeue l s = Some t \<and> tab_locks (tabs t table) = remove1 l (tab_locks (tabs s table)) \<and>
    (\<forall>w \<in> set (nodes_after l (tab_locks (tabs s table))). lock_get_wait (lock_at t w) \<longleftrightarrow>
       lock_get_wait (lock_at s w) \<and> (\<exists>a \<in> set (ahead w (tab_locks (tabs t table))). tab_conflict t a w)) \<and>
    (\<forall>w. w \<notin> set (nodes_after l (tab_locks (tabs s table))) \<longrightarrow>
       lock_get_wait (lock_at t w) = lock_get_wait (lock_at s w))"
proof -
  note tinv = sys_invD(2) [OF assms(1)]
  have wf: "tab_wf s table l" by (rule table_invD(2) [OF tinv l])
  have ty: "lock_get_type_low (lock_at s l) = LOCK_TABLE" and tb: "lk_table (lock_at s l) = table"
    using wf by (simp_all add: tab_wf_def)
  obtain s1 where rm: "lock_table_remove_low l s = Some s1"
    using cnt tb by (fastforce simp: lock_table_remove_low_def Let_def)
  obtain xs where xs: "tabq s table = xs @ l # nodes_after l (tabq s table)" "l \<notin> set xs"
  proof -
    obtain us vs where "tabq s table = us @ l # vs" "l \<notin> set us" using split_list_first [OF l] by blast
    moreover then have "nodes_after l (tabq s table) = vs"
      using nodes_after_split [of us l vs] table_invD(1) [OF tinv, of table] by simp
    ultimately show thesis using that by simp
  qed
  let ?ys = "nodes_after l (tabq s table)"
  have nxt: "table_next s l = hd_opt ?ys" by (simp add: table_next_def tb)
  have q1: "tabq s1 table = xs @ ?ys"
  proof -
    have "tabq s1 table = remove1 l (xs @ l # ?ys)"
      using remove_low_taken(3) [OF rm, of table] tb xs(1) by simp
    then show ?thesis using xs(2) by (simp add: remove1_append)
  qed
  have inv1: "sys_inv s1" by (rule remove_low_sys [OF assms(1) rm])
  have core: "lock_core s1 = lock_core s" by (rule remove_low_taken(1) [OF rm])
  have w1: "waits_ok s1"
    using assms(2) rm by (auto simp: lock_table_remove_low_def Let_def waits_ok_def split: if_splits)
  have d1: "distinct (tabq s1 table)" by (rule table_invD(1) [OF sys_invD(2) [OF inv1]])
  have ok1: "tables_ok s1 \<and> waits_ok s1" using sys_tables_ok [OF inv1] w1 by simp
  obtain t where t: "each_lock table_next table_grant_if_free (hd_opt ?ys) s1 = Some t"
    using table_grants.walk_total [OF q1 d1 ok1] by blast
  note g = table_grants.walk_grants [OF t q1 d1 ok1]
  have run: "lock_table_dequeue l s = Some t"
    using t rm ty nxt by (simp add: lock_table_dequeue_def Let_def)
  have fr: "lock_frame s1 t" by (rule frame_each_grant(2) [OF t])
  have invt: "sys_inv t" by (rule table_dequeue_sys [OF assms(1) run])
  have qt: "tabq t table = xs @ ?ys" using g(1) q1 by simp
  have same: "waiting s1 w = waiting s w" for w by (rule waiting_core [OF core])
  have "lock_table_has_to_wait_in_queue w t \<longleftrightarrow> (\<exists>a \<in> set (ahead w (tabq t table)). tab_conflict t a w)"
    if "w \<in> set ?ys" for w
    by (rule table_has_to_wait_iff [OF sys_invD(2) [OF invt]]) (use that qt in simp)
  then have "\<forall>w \<in> set ?ys. waiting t w \<longleftrightarrow> waiting s w \<and> (\<exists>a \<in> set (ahead w (tabq t table)). tab_conflict t a w)"
    using g(2) same by simp
  moreover have "\<forall>w. w \<notin> set ?ys \<longrightarrow> waiting t w = waiting s w" using g(3) same by simp
  moreover have "tabq t table = remove1 l (tabq s table)"
    using qt q1 remove_low_taken(3) [OF rm, of table] tb by simp
  ultimately show ?thesis using run unfolding waiting_def by blast
qed

text \<open>Transaction 1 holds table 7 exclusively, transaction 2 waits for a shared lock on it.\<close>

definition demo_tab :: lock_sys where
  "demo_tab = snd (the (lock_table_create 7 LOCK_X 1 demo_sys))"

definition demo_tab2 :: lock_sys where
  "demo_tab2 = snd (the (lock_table_create 7 (LOCK_S OR LOCK_WAIT) 2 demo_tab))"

lemma mode_neq: "LOCK_X \<noteq> LOCK_AUTO_INC" "LOCK_S OR LOCK_WAIT \<noteq> LOCK_AUTO_INC"
  "tm_mode (LOCK_S OR LOCK_WAIT) \<noteq> LOCK_AUTO_INC" "tm_wait (LOCK_S OR LOCK_WAIT)" "\<not> tm_wait LOCK_X"
  "LOCK_X AND NOT LOCK_WAIT = LOCK_X" "(LOCK_S OR LOCK_WAIT) AND NOT LOCK_WAIT = LOCK_S"
  by (simp_all add: lock_mode_consts lock_flag_consts tm_mode_def tm_wait_def)

lemma demo_tab_run: "lock_table_create 7 LOCK_X 1 demo_sys = Some (2, demo_tab)"
  "lock_table_create 7 (LOCK_S OR LOCK_WAIT) 2 demo_tab = Some (3, demo_tab2)"
proof -
  show a: "lock_table_create 7 LOCK_X 1 demo_sys = Some (2, demo_tab)"
    by (simp add: demo_tab_def lock_table_create_def Let_def mode_neq)
  then show "lock_table_create 7 (LOCK_S OR LOCK_WAIT) 2 demo_tab = Some (3, demo_tab2)"
    using table_create_fields(4) [OF a] by (simp add: demo_tab2_def lock_table_create_def Let_def mode_neq)
qed

lemma demo_tab2_sys: "sys_inv demo_tab2"
proof (rule table_create_sys [OF _ demo_tab_run(2)])
  show "sys_inv demo_tab"
    by (rule table_create_sys [OF init_sys [OF demo_init] demo_tab_run(1)])
      (simp_all add: mode_neq lock_mode_ok_def)
qed (simp_all add: mode_neq lock_mode_ok_def)

lemma demo_tab2_fields:
  "tab_locks (tabs demo_tab2 7) = [2, 3]" "lk_trx (lock_at demo_tab2 2) = 1"
  "trx_que_state (trxs demo_tab2 x) = TRX_QUE_RUNNING" "auto_inc_lock (trxs demo_tab2 x) = None"
proof -
  note a = table_create_fields [OF demo_tab_run(1)] and b = table_create_fields [OF demo_tab_run(2)]
  show "tab_locks (tabs demo_tab2 7) = [2, 3]" "lk_trx (lock_at demo_tab2 2) = 1"
    using a(6) [of 7] b(6) [of 7] a(8) b(7) [of 2] by simp_all
  have "trx_que_state (trxs demo_tab x) = TRX_QUE_RUNNING \<and> auto_inc_lock (trxs demo_tab x) = None" for x
    unfolding demo_tab_def by (simp add: lock_table_create_def Let_def mode_neq demo_trx_def)
  moreover have "lk_trx (lock_at demo_tab 2) = 1" by (rule a(8))
  ultimately show "trx_que_state (trxs demo_tab2 x) = TRX_QUE_RUNNING" "auto_inc_lock (trxs demo_tab2 x) = None"
    unfolding demo_tab2_def
    by (simp_all add: lock_table_create_def Let_def mode_neq demo_trx_def lock_set_lock_and_trx_wait_def)
qed

theorem table_dequeue_grants_all_witness:
  "\<exists>t. lock_table_dequeue 2 demo_tab2 = Some t \<and> tab_locks (tabs t 7) = [3]"
proof -
  have "waits_ok demo_tab2" by (simp add: waits_ok_def demo_tab2_fields)
  then show ?thesis
    using table_dequeue_grants_all [OF demo_tab2_sys, of 2 7] by (auto simp: demo_tab2_fields)
qed

text \<open>
  C29: cancelled AUTO-INC requests are counted for ever. When a waiting AUTO-INC request is created
  and then removed again (because it was cancelled or chosen as a deadlock victim), the table's queue
  is as before but \<open>n_waiting_or_granted_auto_inc_locks\<close> stays one higher.
\<close>

theorem auto_inc_count_leak:
  assumes "lock_table_create table (LOCK_AUTO_INC OR LOCK_WAIT) trx s = Some (l, s1)"
    and "l \<notin> set (tab_locks (tabs s table))" and "auto_inc_lock (trxs s trx) \<noteq> Some l"
  shows "\<exists>s2. lock_table_remove_low l s1 = Some s2 \<and> tab_locks (tabs s2 table) = tab_locks (tabs s table) \<and>
    n_waiting_or_granted_auto_inc_locks (tabs s2 table) = n_waiting_or_granted_auto_inc_locks (tabs s table) + 1"
proof -
  have k: "tm_mode (LOCK_AUTO_INC OR LOCK_WAIT) = LOCK_AUTO_INC" "tm_wait (LOCK_AUTO_INC OR LOCK_WAIT)"
    "LOCK_AUTO_INC OR LOCK_WAIT \<noteq> LOCK_AUTO_INC"
    by (simp_all add: tm_simps) (simp add: lock_mode_consts lock_flag_consts)
  show ?thesis
    using assms k
    by (auto simp: lock_table_create_def lock_table_remove_low_def Let_def lock_set_lock_and_trx_wait_def
        remove1_append split: if_splits)
qed

theorem auto_inc_count_leak_witness:
  "\<exists>l s1 s2. lock_table_create 7 (LOCK_AUTO_INC OR LOCK_WAIT) 1 demo_sys = Some (l, s1) \<and>
    lock_table_remove_low l s1 = Some s2 \<and> tab_locks (tabs s2 7) = [] \<and>
    n_waiting_or_granted_auto_inc_locks (tabs s2 7) = n_waiting_or_granted_auto_inc_locks (tabs demo_sys 7) + 1"
proof -
  have n: "LOCK_AUTO_INC OR LOCK_WAIT \<noteq> LOCK_AUTO_INC" by (simp add: lock_mode_consts lock_flag_consts)
  then obtain s1 where run: "lock_table_create 7 (LOCK_AUTO_INC OR LOCK_WAIT) 1 demo_sys = Some (2, s1)"
    by (simp add: lock_table_create_def Let_def)
  show ?thesis using auto_inc_count_leak [OF run] run by (auto simp: demo_trx_def)
qed

end
