(* ===== verification/SyncArr.thy ===== *)
theory SyncArr
  imports Prelude
begin

text \<open>
  The event semaphores of \<open>os/os0sync.c\<close> and the wait array of \<open>sync/sync0arr.c\<close>, on which threads
  wait for mutexes and read-write locks. The model is the one of the platforms other than Windows:
  one event per object, with a count of how often it was signalled.
\<close>

section \<open>Events\<close>

text \<open>
  \<open>os_event_t\<close>: its \<open>os_mutex\<close> makes each function below one atomic step, and its condition variable
  is broadcast whenever the event changes from not set to set, so that a thread waits exactly as long
  as \<open>os_event_passes\<close> is false. \<open>signal_count\<close> is a 64-bit signed integer counting the signals
  given; it is modelled without the overflow after \<open>2 ^ 63\<close> signals.
\<close>

record os_event =
  is_set :: bool
  signal_count :: nat

definition os_event_create :: os_event where
  "os_event_create = \<lparr>is_set = False, signal_count = 1\<rparr>"

definition os_event_set :: "os_event \<Rightarrow> os_event" where
  "os_event_set e = (if is_set e then e else e\<lparr>is_set := True, signal_count := signal_count e + 1\<rparr>)"

definition os_event_reset :: "os_event \<Rightarrow> nat \<times> os_event" where
  "os_event_reset e = (signal_count e, if \<not> is_set e then e else e\<lparr>is_set := False\<rparr>)"

text \<open>
  \<open>os_event_wait_low\<close> is two steps: it takes the count it compares with, and it returns as soon as
  its test under the mutex succeeds.
\<close>

definition os_event_old_count :: "os_event \<Rightarrow> nat \<Rightarrow> nat" where
  "os_event_old_count e reset_sig_count = (if reset_sig_count \<noteq> 0 then reset_sig_count else signal_count e)"

definition os_event_passes :: "os_event \<Rightarrow> nat \<Rightarrow> bool" where
  "os_event_passes e old_signal_count \<longleftrightarrow> is_set e \<or> signal_count e \<noteq> old_signal_count"

lemma event_set_fields [simp]:
  "is_set (os_event_set e)" "signal_count (os_event_set e) = signal_count e + (if is_set e then 0 else 1)"
  by (simp_all add: os_event_set_def)

lemma event_reset_fields [simp]:
  "fst (os_event_reset e) = signal_count e" "\<not> is_set (snd (os_event_reset e))"
  "signal_count (snd (os_event_reset e)) = signal_count e"
  by (simp_all add: os_event_reset_def)

text \<open>
  What a waiting thread knows of the count it took with \<open>os_event_reset\<close>: it is not 0, and the event
  can be set only if it was signalled since.
\<close>

definition count_fresh :: "os_event \<Rightarrow> nat \<Rightarrow> bool" where
  "count_fresh e c \<longleftrightarrow> 0 < c \<and> c \<le> signal_count e \<and> (is_set e \<longrightarrow> c < signal_count e)"

definition event_ok :: "os_event \<Rightarrow> bool" where
  "event_ok e \<longleftrightarrow> 0 < signal_count e"

lemma event_ok_create [simp]: "event_ok os_event_create"
  by (simp add: event_ok_def os_event_create_def)

lemma event_ok_keep [simp]:
  "event_ok e \<Longrightarrow> event_ok (os_event_set e)" "event_ok e \<Longrightarrow> event_ok (snd (os_event_reset e))"
  by (auto simp: event_ok_def)

lemma count_fresh_set [simp]: "count_fresh e c \<Longrightarrow> count_fresh (os_event_set e) c"
  by (auto simp: count_fresh_def)

lemma count_fresh_reset [simp]: "count_fresh e c \<Longrightarrow> count_fresh (snd (os_event_reset e)) c"
  by (auto simp: count_fresh_def)

lemma count_fresh_new [simp]: "event_ok e \<Longrightarrow> count_fresh (snd (os_event_reset e)) (signal_count e)"
  by (auto simp: count_fresh_def event_ok_def)

lemma count_fresh_passes: "count_fresh e c \<Longrightarrow> os_event_passes e c \<longleftrightarrow> signal_count e \<noteq> c"
  by (auto simp: count_fresh_def os_event_passes_def)

lemma set_passes: "count_fresh e c \<Longrightarrow> signal_count (os_event_set e) \<noteq> c"
  by (auto simp: count_fresh_def)

text \<open>The signals and resets that other threads may give an event between two steps of a thread.\<close>

datatype event_op = Set_event | Reset_event

primrec event_op_step :: "event_op \<Rightarrow> os_event \<Rightarrow> os_event" where
  "event_op_step Set_event e = os_event_set e"
| "event_op_step Reset_event e = snd (os_event_reset e)"

lemma ops_fresh: "count_fresh e c \<Longrightarrow> count_fresh (fold event_op_step ops e) c"
proof (induction ops arbitrary: e)
  case (Cons a ops)
  then show ?case by (cases a) simp_all
qed simp

lemma ops_past: "c < signal_count e \<Longrightarrow> c < signal_count (fold event_op_step ops e)"
proof (induction ops arbitrary: e)
  case (Cons a ops)
  have "signal_count e \<le> signal_count (event_op_step a e)" by (cases a) simp_all
  then show ?case using Cons by simp
qed simp

text \<open>
  C20: LEMMA 2 of \<open>sync/sync0sync.c\<close>, no signal is lost. If a thread resets an event and another
  thread signals it at any later time, the first thread does not wait when it then calls
  \<open>os_event_wait_low\<close> with the count it got from the reset, whatever resets and signals by other
  threads come before, in between and after.
\<close>

theorem no_signal_lost:
  assumes "event_ok e" and "os_event_reset e = (c, e1)"
    and "e2 = fold event_op_step (xs @ Set_event # ys) e1"
  shows "os_event_passes e2 (os_event_old_count e2 c)"
proof -
  let ?m = "fold event_op_step xs e1"
  have c: "0 < c" using assms(1,2) by (auto simp: os_event_reset_def event_ok_def)
  have "count_fresh e1 c" using assms(1,2) count_fresh_new [of e] by (metis event_reset_fields(1) fst_conv snd_conv)
  then have "c < signal_count (os_event_set ?m)"
    using ops_fresh [of e1 c xs] set_passes [of ?m c] by (fastforce simp: count_fresh_def)
  then have "c < signal_count e2" unfolding assms(3) by (simp add: ops_past)
  then show ?thesis using c by (simp add: os_event_passes_def os_event_old_count_def)
qed

theorem no_signal_lost_witness:
  "os_event_passes (fold event_op_step [Reset_event, Set_event, Reset_event] (snd (os_event_reset os_event_create))) 1"
proof -
  have "os_event_reset os_event_create = (1, snd (os_event_reset os_event_create))"
    by (simp add: os_event_reset_def os_event_create_def)
  from no_signal_lost [OF event_ok_create this, of _ "[Reset_event]" "[Reset_event]"]
  show ?thesis by (simp add: os_event_old_count_def)
qed

section \<open>The wait array\<close>

type_synonym thread_id = nat
type_synonym mutex_ptr = nat
type_synonym rw_ptr = nat

datatype wait_obj = Mutex_obj mutex_ptr | Rw_obj rw_ptr

definition RW_LOCK_NOT_LOCKED :: ulint where "RW_LOCK_NOT_LOCKED = 350"
definition RW_LOCK_EX :: ulint where "RW_LOCK_EX = 351"
definition RW_LOCK_SHARED :: ulint where "RW_LOCK_SHARED = 352"
definition RW_LOCK_WAIT_EX :: ulint where "RW_LOCK_WAIT_EX = 353"
definition SYNC_MUTEX :: ulint where "SYNC_MUTEX = 354"

lemmas rw_consts = RW_LOCK_NOT_LOCKED_def RW_LOCK_EX_def RW_LOCK_SHARED_def RW_LOCK_WAIT_EX_def SYNC_MUTEX_def

text \<open>
  \<open>sync_cell_t\<close>, without the fields only the diagnostic printing reads (\<open>old_wait_mutex\<close>,
  \<open>old_wait_rw_lock\<close>, \<open>file\<close>, \<open>line\<close>, \<open>reservation_time\<close>). The array is protected by its own mutex,
  so each function below is one step.
\<close>

record sync_cell =
  wait_object :: "wait_obj option"
  request_type :: ulint
  cell_waiting :: bool
  cell_count :: nat
  cell_thread :: thread_id

record sync_array =
  n_reserved :: nat
  cells :: "sync_cell list"
  sg_count :: ulint
  res_count :: ulint

definition sync_array_create :: "sync_cell list \<Rightarrow> sync_array option" where
  "sync_array_create junk =
     (if junk = [] then None
      else Some \<lparr>n_reserved = 0, cells = map (\<lambda>c. c\<lparr>wait_object := None, cell_waiting := False, cell_count := 0\<rparr>) junk,
                 sg_count = 0, res_count = 0\<rparr>)"

definition sync_array_get_nth_cell :: "sync_array \<Rightarrow> nat \<Rightarrow> sync_cell option" where
  "sync_array_get_nth_cell arr n = (if n < length (cells arr) then Some (cells arr ! n) else None)"

definition sync_array_validate :: "sync_array \<Rightarrow> bool" where
  "sync_array_validate arr \<longleftrightarrow> length (filter (\<lambda>c. wait_object c \<noteq> None) (cells arr)) = n_reserved arr"

definition upd_cell :: "nat \<Rightarrow> (sync_cell \<Rightarrow> sync_cell) \<Rightarrow> sync_array \<Rightarrow> sync_array" where
  "upd_cell i f arr = arr\<lparr>cells := (cells arr)[i := f (cells arr ! i)]\<rparr>"

fun first_free :: "sync_cell list \<Rightarrow> nat option" where
  "first_free [] = None"
| "first_free (c # cs) = (if wait_object c = None then Some 0 else map_option Suc (first_free cs))"

text \<open>
  \<open>sync_array_reserve_cell\<close> in its two parts: the part under the array's mutex, which stops the
  server when no cell is free, and, after the mutex is released, the storing of the count of the
  event's reset and of the thread.
\<close>

definition sync_array_reserve_cell :: "wait_obj \<Rightarrow> ulint \<Rightarrow> sync_array \<Rightarrow> (nat \<times> sync_array) option" where
  "sync_array_reserve_cell object type arr =
     (let arr1 = arr\<lparr>res_count := res_count arr + 1\<rparr> in
      case first_free (cells arr1) of
        None \<Rightarrow> None
      | Some i \<Rightarrow> Some (i, (upd_cell i (\<lambda>c. c\<lparr>cell_waiting := False, wait_object := Some object,
                                             request_type := type\<rparr>) arr1)\<lparr>n_reserved := n_reserved arr1 + 1\<rparr>))"

definition sync_cell_store :: "nat \<Rightarrow> nat \<Rightarrow> thread_id \<Rightarrow> sync_array \<Rightarrow> sync_array" where
  "sync_cell_store i count t arr = upd_cell i (\<lambda>c. c\<lparr>cell_count := count, cell_thread := t\<rparr>) arr"

text \<open>
  The part of \<open>sync_array_wait_event\<close> under the array's mutex; the thread then waits with the count
  of the cell, and frees the cell when it wakes up.
\<close>

definition sync_array_wait_event :: "nat \<Rightarrow> sync_array \<Rightarrow> sync_array option" where
  "sync_array_wait_event index arr =
     (case sync_array_get_nth_cell arr index of
        None \<Rightarrow> None
      | Some cell \<Rightarrow>
          if wait_object cell \<noteq> None \<and> \<not> cell_waiting cell
          then Some (upd_cell index (\<lambda>c. c\<lparr>cell_waiting := True\<rparr>) arr) else None)"

definition sync_array_free_cell :: "nat \<Rightarrow> sync_array \<Rightarrow> sync_array option" where
  "sync_array_free_cell index arr =
     (case sync_array_get_nth_cell arr index of
        None \<Rightarrow> None
      | Some cell \<Rightarrow>
          if wait_object cell \<noteq> None \<and> n_reserved arr > 0
          then Some ((upd_cell index (\<lambda>c. c\<lparr>cell_waiting := False, wait_object := None, cell_count := 0\<rparr>) arr)
                 \<lparr>n_reserved := n_reserved arr - 1\<rparr>)
          else None)"

definition sync_array_object_signalled :: "sync_array \<Rightarrow> sync_array" where
  "sync_array_object_signalled arr = arr\<lparr>sg_count := sg_count arr + 1\<rparr>"

subsection \<open>Ownership of cells\<close>

lemma first_free_some: "first_free cs = Some i \<Longrightarrow> i < length cs \<and> wait_object (cs ! i) = None"
  by (induction cs arbitrary: i) (auto split: if_splits)

lemma first_free_none: "first_free cs = None \<longleftrightarrow> (\<forall>c \<in> set cs. wait_object c \<noteq> None)"
  by (induction cs) auto

text \<open>
  \<open>own t\<close> is the cell that thread \<open>t\<close> has reserved. The cells reserved are exactly the cells owned,
  each by one thread, and \<open>n_reserved\<close> counts them.
\<close>

definition cells_ok :: "sync_array \<Rightarrow> (thread_id \<Rightarrow> nat option) \<Rightarrow> bool" where
  "cells_ok arr own \<longleftrightarrow> sync_array_validate arr \<and>
     (\<forall>i < length (cells arr). wait_object (cells arr ! i) \<noteq> None \<longleftrightarrow> (\<exists>t. own t = Some i)) \<and>
     (\<forall>t i. own t = Some i \<longrightarrow> i < length (cells arr)) \<and>
     (\<forall>t u i. own t = Some i \<longrightarrow> own u = Some i \<longrightarrow> t = u)"

lemma filter_update:
  "i < length xs \<Longrightarrow> length (filter P (xs[i := y])) + (if P (xs ! i) then 1 else 0) =
     length (filter P xs) + (if P y then 1 else 0)"
proof (induction xs arbitrary: i)
  case (Cons x xs)
  then show ?case using Cons.IH [of "i - 1"] by (cases i) auto
qed simp

lemma upd_cell_cells [simp]:
  "length (cells (upd_cell i f arr)) = length (cells arr)" "n_reserved (upd_cell i f arr) = n_reserved arr"
  "j < length (cells arr) \<Longrightarrow> cells (upd_cell i f arr) ! j = (if j = i then f (cells arr ! i) else cells arr ! j)"
  by (auto simp: upd_cell_def nth_list_update)

lemma cells_ok_upd:
  assumes "cells_ok arr own" and "\<And>c. wait_object (f c) = wait_object c"
  shows "cells_ok (upd_cell i f arr) own"
proof -
  have "sync_array_validate (upd_cell i f arr) = sync_array_validate arr"
  proof (cases "i < length (cells arr)")
    case True
    then show ?thesis
      using filter_update [OF True, of "\<lambda>c. wait_object c \<noteq> None" "f (cells arr ! i)"] assms(2)
      by (auto simp: sync_array_validate_def upd_cell_def split: if_splits)
  qed (simp add: sync_array_validate_def upd_cell_def list_update_beyond)
  then show ?thesis using assms by (auto simp: cells_ok_def)
qed

lemma reserve_cells:
  assumes ok: "cells_ok arr own" and res: "sync_array_reserve_cell object type arr = Some (i, arr')"
    and "own t = None"
  shows "cells_ok arr' (own(t := Some i))" "length (cells arr') = length (cells arr)"
    "i < length (cells arr)" "wait_object (cells arr' ! i) = Some object"
    "request_type (cells arr' ! i) = type" "\<not> cell_waiting (cells arr' ! i)"
    "\<And>u j. own u = Some j \<Longrightarrow> j \<noteq> i \<and> cells arr' ! j = cells arr ! j"
proof -
  have i: "first_free (cells arr) = Some i"
    and arr': "arr' = (upd_cell i (\<lambda>c. c\<lparr>cell_waiting := False, wait_object := Some object,
        request_type := type\<rparr>) (arr\<lparr>res_count := res_count arr + 1\<rparr>))\<lparr>n_reserved := n_reserved arr + 1\<rparr>"
    using res by (auto simp: sync_array_reserve_cell_def Let_def split: option.splits)
  have f: "i < length (cells arr)" "wait_object (cells arr ! i) = None" using first_free_some [OF i] by auto
  then show "i < length (cells arr)" by simp
  have free: "own u \<noteq> Some i" for u using ok f unfolding cells_ok_def by blast
  then show "j \<noteq> i \<and> cells arr' ! j = cells arr ! j" if "own u = Some j" for u j
  proof -
    have "j \<noteq> i" using that free [of u] by auto
    then show ?thesis by (simp add: arr' upd_cell_def)
  qed
  show "length (cells arr') = length (cells arr)" "wait_object (cells arr' ! i) = Some object"
    "request_type (cells arr' ! i) = type" "\<not> cell_waiting (cells arr' ! i)"
    using f by (simp_all add: arr' upd_cell_def)
  have "sync_array_validate arr'"
    using ok f filter_update [of i "cells arr" "\<lambda>c. wait_object c \<noteq> None"]
    by (auto simp: arr' upd_cell_def sync_array_validate_def cells_ok_def)
  then show "cells_ok arr' (own(t := Some i))"
    using ok f free assms(3)
    by (auto simp: cells_ok_def arr' upd_cell_def nth_list_update) (metis option.distinct(1))
qed

lemma free_cells:
  assumes ok: "cells_ok arr own" and own: "own t = Some i"
  obtains arr' where "sync_array_free_cell i arr = Some arr'" "cells_ok arr' (own(t := None))"
    "length (cells arr') = length (cells arr)"
    "\<And>u j. u \<noteq> t \<Longrightarrow> own u = Some j \<Longrightarrow> j \<noteq> i \<and> cells arr' ! j = cells arr ! j"
proof -
  have i: "i < length (cells arr)" "wait_object (cells arr ! i) \<noteq> None"
    using ok own by (auto simp: cells_ok_def)
  have n: "0 < n_reserved arr"
  proof -
    have "filter (\<lambda>c. wait_object c \<noteq> None) (cells arr) \<noteq> []"
      using i by (metis (mono_tags, lifting) filter_empty_conv nth_mem)
    then have "0 < length (filter (\<lambda>c. wait_object c \<noteq> None) (cells arr))" unfolding length_greater_0_conv .
    moreover have "sync_array_validate arr" using ok by (simp add: cells_ok_def)
    ultimately show ?thesis unfolding sync_array_validate_def by argo
  qed
  define arr' where "arr' = (upd_cell i (\<lambda>c. c\<lparr>cell_waiting := False, wait_object := None, cell_count := 0\<rparr>) arr)
                 \<lparr>n_reserved := n_reserved arr - 1\<rparr>"
  have "sync_array_validate arr'"
    using ok i n filter_update [of i "cells arr" "\<lambda>c. wait_object c \<noteq> None"
        "(cells arr ! i)\<lparr>cell_waiting := False, wait_object := None, cell_count := 0\<rparr>"]
    by (auto simp: arr'_def upd_cell_def sync_array_validate_def cells_ok_def)
  moreover have other: "own u = Some i \<longleftrightarrow> u = t" for u using ok own unfolding cells_ok_def by blast
  have cs: "cells arr' = (cells arr)[i := (cells arr ! i)\<lparr>cell_waiting := False, wait_object := None, cell_count := 0\<rparr>]"
    by (simp add: arr'_def upd_cell_def)
  have free: "wait_object (cells arr' ! j) \<noteq> None \<longleftrightarrow> (\<exists>u. (own(t := None)) u = Some j)" if "j < length (cells arr)" for j
  proof (cases "j = i")
    case True
    then show ?thesis using that other by (auto simp: cs)
  next
    case False
    then have "(\<exists>u. (own(t := None)) u = Some j) \<longleftrightarrow> (\<exists>u. own u = Some j)"
      using own by (metis fun_upd_other fun_upd_same option.distinct(1) option.inject)
    then show ?thesis using ok that False by (simp add: cs cells_ok_def)
  qed
  have len: "length (cells arr') = length (cells arr)" by (simp add: cs)
  have "cells_ok arr' (own(t := None))"
    unfolding cells_ok_def
  proof (intro conjI allI impI)
    show "sync_array_validate arr'" by fact
  qed (use ok free len in \<open>auto simp: cells_ok_def split: if_splits\<close>)
  moreover have "j \<noteq> i \<and> cells arr' ! j = cells arr ! j" if "u \<noteq> t" "own u = Some j" for u j
    using that other [of u] by (auto simp: cs)
  moreover have "sync_array_free_cell i arr = Some arr'"
    using i n by (simp add: sync_array_free_cell_def sync_array_get_nth_cell_def arr'_def)
  ultimately show ?thesis using that len by blast
qed

lemma free_total: "cells_ok arr own \<Longrightarrow> own t = Some i \<Longrightarrow> \<exists>arr'. sync_array_free_cell i arr = Some arr'"
  by (erule (1) free_cells) blast

lemma wait_cells:
  assumes ok: "cells_ok arr own" and "own t = Some i" and "\<not> cell_waiting (cells arr ! i)"
  shows "sync_array_wait_event i arr = Some (upd_cell i (\<lambda>c. c\<lparr>cell_waiting := True\<rparr>) arr)"
  using assms by (auto simp: sync_array_wait_event_def sync_array_get_nth_cell_def cells_ok_def)

lemma create_cells:
  assumes "sync_array_create junk = Some arr"
  shows "cells_ok arr (\<lambda>_. None)" "length (cells arr) = length junk"
proof -
  have arr: "arr = \<lparr>n_reserved = 0, cells = map (\<lambda>c. c\<lparr>wait_object := None, cell_waiting := False, cell_count := 0\<rparr>) junk,
      sg_count = 0, res_count = 0\<rparr>"
    using assms by (simp add: sync_array_create_def split: if_splits)
  show "cells_ok arr (\<lambda>_. None)" "length (cells arr) = length junk"
    by (simp_all add: arr cells_ok_def sync_array_validate_def comp_def filter_map)
qed

subsection \<open>Users of cells\<close>

text \<open>
  What a thread inside a call does with its cell: for which object and request it reserved it, and
  whether it has called \<open>sync_array_wait_event\<close> since. A system of threads gives the array's users as
  a function \<open>v\<close> of the threads.
\<close>

record cell_use =
  use_obj :: wait_obj
  use_type :: ulint
  use_cell :: nat
  use_parked :: bool

abbreviation cell_owner :: "(thread_id \<Rightarrow> cell_use option) \<Rightarrow> thread_id \<Rightarrow> nat option" where
  "cell_owner v \<equiv> \<lambda>t. map_option use_cell (v t)"

definition cell_used :: "sync_cell \<Rightarrow> cell_use \<Rightarrow> bool" where
  "cell_used c u \<longleftrightarrow> wait_object c = Some (use_obj u) \<and> request_type c = use_type u \<and> (cell_waiting c \<longrightarrow> use_parked u)"

definition users_ok :: "nat \<Rightarrow> sync_array \<Rightarrow> (thread_id \<Rightarrow> cell_use option) \<Rightarrow> bool" where
  "users_ok n arr v \<longleftrightarrow> cells_ok arr (cell_owner v) \<and> length (cells arr) = n \<and> (\<forall>t \<ge> n. v t = None) \<and>
     (\<forall>t u. v t = Some u \<longrightarrow> cell_used (cells arr ! use_cell u) u)"

lemma users_okD:
  assumes "users_ok n arr v"
  shows "cells_ok arr (cell_owner v)" "length (cells arr) = n" "n \<le> t \<Longrightarrow> v t = None"
    "v t = Some u \<Longrightarrow> cell_used (cells arr ! use_cell u) u" "v t = Some u \<Longrightarrow> use_cell u < n"
    "v t = Some u \<Longrightarrow> t < n" "v t = Some u \<Longrightarrow> v t' = Some u' \<Longrightarrow> use_cell u = use_cell u' \<Longrightarrow> t = t'"
proof -
  have c: "cells_ok arr (cell_owner v)" "length (cells arr) = n" "\<And>t. n \<le> t \<Longrightarrow> v t = None"
    "\<And>t u. v t = Some u \<Longrightarrow> cell_used (cells arr ! use_cell u) u" using assms by (auto simp: users_ok_def)
  show "cells_ok arr (cell_owner v)" "length (cells arr) = n" "n \<le> t \<Longrightarrow> v t = None"
    "v t = Some u \<Longrightarrow> cell_used (cells arr ! use_cell u) u" using c by simp_all
  show "v t = Some u \<Longrightarrow> t < n" using c(3) [of t] by (cases "t < n") simp_all
  show "v t = Some u \<Longrightarrow> use_cell u < n" using c(1,2) unfolding cells_ok_def by (metis option.simps(9))
  show "v t = Some u \<Longrightarrow> v t' = Some u' \<Longrightarrow> use_cell u = use_cell u' \<Longrightarrow> t = t'"
    using c(1) unfolding cells_ok_def by (metis option.simps(9))
qed

lemma users_create: "sync_array_create junk = Some arr \<Longrightarrow> users_ok (length junk) arr (\<lambda>_. None)"
  using create_cells by (simp add: users_ok_def)

lemma users_upd:
  assumes ok: "users_ok n arr v" and u: "v t = Some u" "use_cell u' = use_cell u"
    and f: "\<And>c. wait_object (f c) = wait_object c" "cell_used (f (cells arr ! use_cell u)) u'"
  shows "users_ok n (upd_cell (use_cell u) f arr) (v(t := Some u'))"
proof -
  note d = users_okD [OF ok]
  have own: "cell_owner (v(t := Some u')) = cell_owner v" using u by auto
  have "cell_used (cells (upd_cell (use_cell u) f arr) ! use_cell x) x" if "(v(t := Some u')) s = Some x" for s x
  proof (cases "s = t")
    case True
    then show ?thesis using that f(2) u d(2,5) by simp
  next
    case False
    then have x: "v s = Some x" using that by simp
    then have "use_cell x \<noteq> use_cell u" using False d(7) [OF x u(1)] by auto
    then show ?thesis using d(4,5) [OF x] d(2) by simp
  qed
  then show ?thesis
    unfolding users_ok_def own using cells_ok_upd [OF d(1) f(1)] d(2,3) u d(6) [OF u(1)] by auto
qed

lemma users_same:
  assumes "users_ok n arr v" and "v t = Some u" and "use_obj u' = use_obj u" "use_type u' = use_type u" "use_cell u' = use_cell u"
    and "use_parked u \<longrightarrow> use_parked u'"
  shows "users_ok n arr (v(t := Some u'))"
proof -
  have "upd_cell (use_cell u) (\<lambda>c. c) arr = arr" by (simp add: upd_cell_def)
  then show ?thesis
    using users_upd [OF assms(1,2), of u' "\<lambda>c. c"] users_okD(4) [OF assms(1,2)] assms(3-6) by (simp add: cell_used_def)
qed

lemma users_take:
  assumes ok: "users_ok n arr v" and "v t = None" and "t < n" and r: "sync_array_reserve_cell object type arr = Some (i, arr')"
  shows "users_ok n arr' (v(t := Some \<lparr>use_obj = object, use_type = type, use_cell = i, use_parked = False\<rparr>))"
proof -
  note d = users_okD [OF ok]
  have free: "cell_owner v t = None" using assms(2) by simp
  note c = reserve_cells [OF d(1) r free]
  have own: "cell_owner (v(t := Some \<lparr>use_obj = object, use_type = type, use_cell = i, use_parked = False\<rparr>)) =
      (cell_owner v)(t := Some i)" by auto
  have "cell_used (cells arr' ! use_cell x) x" if "v s = Some x" for s x
    using c(7) [of s "use_cell x"] d(4) [OF that] that by simp
  then show ?thesis
    unfolding users_ok_def own using c(1-6) d(2,3) assms(3) by (auto simp: cell_used_def)
qed

lemma users_free:
  assumes ok: "users_ok n arr v" and u: "v t = Some u" and f: "sync_array_free_cell (use_cell u) arr = Some arr'"
  shows "users_ok n arr' (v(t := None))"
    and "s \<noteq> t \<Longrightarrow> v s = Some x \<Longrightarrow> cells arr' ! use_cell x = cells arr ! use_cell x"
proof -
  note d = users_okD [OF ok]
  have o: "cell_owner v t = Some (use_cell u)" using u by simp
  obtain b where b: "sync_array_free_cell (use_cell u) arr = Some b" "cells_ok b ((cell_owner v)(t := None))"
      "length (cells b) = length (cells arr)"
      "\<And>s j. s \<noteq> t \<Longrightarrow> cell_owner v s = Some j \<Longrightarrow> j \<noteq> use_cell u \<and> cells b ! j = cells arr ! j"
    by (rule free_cells [OF d(1) o]) blast
  have e: "b = arr'" using b(1) f by simp
  have own: "cell_owner (v(t := None)) = (cell_owner v)(t := None)" by auto
  show keep: "cells arr' ! use_cell x = cells arr ! use_cell x" if "s \<noteq> t" "v s = Some x" for s x
    using b(4) [of s "use_cell x"] that e by simp
  show "users_ok n arr' (v(t := None))"
    unfolding users_ok_def own using b(2,3) e d(2,3) keep d(4) by (auto split: if_splits)
qed

lemma users_free_total:
  assumes "users_ok n arr v" and "v t = Some u"
  shows "\<exists>arr'. sync_array_free_cell (use_cell u) arr = Some arr'"
  using free_total [OF users_okD(1) [OF assms(1)], of t] assms(2) by simp

lemma users_wait:
  assumes ok: "users_ok n arr v" and u: "v t = Some u" and "\<not> use_parked u"
  shows "sync_array_wait_event (use_cell u) arr = Some (upd_cell (use_cell u) (\<lambda>c. c\<lparr>cell_waiting := True\<rparr>) arr)"
    and "use_cell u' = use_cell u \<Longrightarrow> use_obj u' = use_obj u \<Longrightarrow> use_type u' = use_type u \<Longrightarrow> use_parked u' \<Longrightarrow>
      users_ok n (upd_cell (use_cell u) (\<lambda>c. c\<lparr>cell_waiting := True\<rparr>) arr) (v(t := Some u'))"
proof -
  note d = users_okD(4) [OF ok u]
  show "sync_array_wait_event (use_cell u) arr = Some (upd_cell (use_cell u) (\<lambda>c. c\<lparr>cell_waiting := True\<rparr>) arr)"
    using wait_cells [OF users_okD(1) [OF ok], of t "use_cell u"] u d assms(3) by (simp add: cell_used_def)
  show "users_ok n (upd_cell (use_cell u) (\<lambda>c. c\<lparr>cell_waiting := True\<rparr>) arr) (v(t := Some u'))"
    if "use_cell u' = use_cell u" "use_obj u' = use_obj u" "use_type u' = use_type u" "use_parked u'"
    by (rule users_upd [OF ok u]) (use d that in \<open>simp_all add: cell_used_def\<close>)
qed

lemma users_store:
  assumes ok: "users_ok n arr v" and u: "v t = Some u"
  shows "users_ok n (sync_cell_store (use_cell u) c t arr) v"
    and "cell_count (cells (sync_cell_store (use_cell u) c t arr) ! use_cell u) = c"
proof -
  have "users_ok n (upd_cell (use_cell u) (\<lambda>k. k\<lparr>cell_count := c, cell_thread := t\<rparr>) arr) (v(t := Some u))"
    by (rule users_upd [OF ok u]) (use users_okD(4) [OF ok u] in \<open>simp_all add: cell_used_def\<close>)
  then show "users_ok n (sync_cell_store (use_cell u) c t arr) v"
    using u by (simp add: sync_cell_store_def fun_upd_idem)
  show "cell_count (cells (sync_cell_store (use_cell u) c t arr) ! use_cell u) = c"
    using users_okD(2,5) [OF ok] u by (simp add: sync_cell_store_def)
qed

lemma users_signalled:
  assumes "users_ok n arr v"
  shows "users_ok n (sync_array_object_signalled arr) v"
proof -
  have "sync_array_validate (sync_array_object_signalled arr) = sync_array_validate arr"
    "cells (sync_array_object_signalled arr) = cells arr"
    by (simp_all add: sync_array_validate_def sync_array_object_signalled_def)
  moreover from this have "cells_ok (sync_array_object_signalled arr) own = cells_ok arr own" for own
    by (simp add: cells_ok_def)
  ultimately show ?thesis using assms by (simp add: users_ok_def)
qed

text \<open>A thread that reserves a cell finds one: the other threads own at most one cell each.\<close>

lemma users_left:
  assumes ok: "users_ok n arr v" and "t < n" and "v t = None"
  shows "first_free (cells arr) \<noteq> None"
proof
  assume none: "first_free (cells arr) = None"
  note d = users_okD [OF ok]
  have "\<exists>s u. v s = Some u \<and> use_cell u = i" if "i < n" for i
  proof -
    have "wait_object (cells arr ! i) \<noteq> None" using none d(2) that by (simp add: first_free_none)
    then have "\<exists>s. cell_owner v s = Some i" using d(1,2) that unfolding cells_ok_def by blast
    then show ?thesis by auto
  qed
  then obtain who what where who: "\<And>i. i < n \<Longrightarrow> v (who i) = Some (what i) \<and> use_cell (what i) = i" by metis
  have "inj_on who {..<n}" using who by (intro inj_onI) (metis lessThan_iff option.inject)
  moreover have "who ` {..<n} \<subseteq> {..<n} - {t}" using who d(6) assms(3) by fastforce
  ultimately have "card {..<n} \<le> card ({..<n} - {t})" by (meson card_inj_on_le finite_Diff finite_lessThan)
  then show False using assms(2) by (simp add: card_Diff_singleton_if)
qed

end
