(* ===== verification/SyncMutex.thy ===== *)
theory SyncMutex
  imports SyncArr
begin

text \<open>
  The mutex of \<open>sync/sync0sync.c\<close> and \<open>include/sync0sync.ic\<close> under every interleaving of threads:
  each atomic access of a thread to shared memory is one step. Memory accesses are sequentially
  consistent, as the source's own argument assumes (the comment in \<open>mutex_exit\<close>). The delays of the
  spin loops and the performance counters have no part in the model.
\<close>

section \<open>Mutexes and threads\<close>

text \<open>
  \<open>mutex_t\<close>: \<open>os_fast_mutex\<close> is the thread that has locked the operating system's mutex, and
  \<open>mx_thread\<close> is \<open>thread_id\<close>, \<open>None\<close> standing for \<open>ULINT_UNDEFINED\<close>.
\<close>

record mutex_t =
  mx_event :: os_event
  lock_word :: ulint
  os_fast_mutex :: "thread_id option"
  mx_waiters :: ulint
  mx_thread :: "thread_id option"

definition mutex_create :: mutex_t where
  "mutex_create = \<lparr>mx_event = os_event_create, lock_word = 0, os_fast_mutex = None, mx_waiters = 0, mx_thread = None\<rparr>"

text \<open>Where \<open>mutex_test_and_set\<close> was called, and with what local variables.\<close>

datatype tas_call =
  Enter              \<comment> \<open>in \<open>mutex_enter_func\<close>\<close>
| Nowait             \<comment> \<open>in \<open>mutex_enter_nowait_func\<close>\<close>
| Spun nat           \<comment> \<open>after spinning \<open>i\<close> rounds in \<open>mutex_spin_wait\<close>\<close>
| Retry nat nat      \<comment> \<open>with the cell reserved, in the loop of four tries\<close>

text \<open>The places of a thread between two atomic steps.\<close>

datatype mpc =
  Idle
| Trylock mutex_ptr tas_call
| Set_word mutex_ptr tas_call
| Set_owner mutex_ptr
| Spin mutex_ptr nat
| Reserve mutex_ptr
| Reset mutex_ptr nat
| Set_waiters mutex_ptr nat
| Free_own mutex_ptr nat
| Wait_event mutex_ptr nat
| Wait_low mutex_ptr nat
| Waiting mutex_ptr nat nat
| Free_again mutex_ptr nat
| Clear_owner mutex_ptr
| Reset_word mutex_ptr
| Unlock mutex_ptr
| Read_waiters mutex_ptr
| Clear_waiters mutex_ptr
| Set_event mutex_ptr
| Signalled mutex_ptr

record mutex_sys =
  mutexes :: "mutex_ptr \<Rightarrow> mutex_t"
  warr :: sync_array
  pcs :: "thread_id \<Rightarrow> mpc"
  helds :: "thread_id \<Rightarrow> mutex_ptr set"

datatype outcome = Next mutex_sys | Blocked | Failed

definition goto :: "thread_id \<Rightarrow> mpc \<Rightarrow> mutex_sys \<Rightarrow> mutex_sys" where
  "goto t p s = s\<lparr>pcs := (pcs s)(t := p)\<rparr>"

definition upd_mutex :: "mutex_ptr \<Rightarrow> (mutex_t \<Rightarrow> mutex_t) \<Rightarrow> mutex_sys \<Rightarrow> mutex_sys" where
  "upd_mutex m f s = s\<lparr>mutexes := (mutexes s)(m := f (mutexes s m))\<rparr>"

text \<open>Where a thread goes on when its \<open>mutex_test_and_set\<close> has failed or succeeded.\<close>

definition tas_failed :: "nat \<Rightarrow> mutex_ptr \<Rightarrow> tas_call \<Rightarrow> mpc" where
  "tas_failed rounds m c =
     (case c of
        Enter \<Rightarrow> Spin m 0
      | Nowait \<Rightarrow> Idle
      | Spun i \<Rightarrow> if i + 1 < rounds then Spin m (i + 1) else Reserve m
      | Retry cell i \<Rightarrow> if i + 1 < 4 then Trylock m (Retry cell (i + 1)) else Wait_event m cell)"

definition tas_succeeded :: "mutex_ptr \<Rightarrow> tas_call \<Rightarrow> mpc" where
  "tas_succeeded m c = (case c of Retry cell i \<Rightarrow> Free_own m cell | _ \<Rightarrow> Set_owner m)"

text \<open>
  One atomic step of a thread that is at \<open>p\<close>, in \<open>mutex_test_and_set\<close>, in \<open>mutex_spin_wait\<close> with the
  functions of the wait array it calls, and in \<open>mutex_exit\<close>; \<open>rounds\<close> is \<open>SYNC_SPIN_ROUNDS\<close>, the server
  variable \<open>srv_n_spin_wait_rounds\<close>. \<open>Failed\<close> is a failed assertion or \<open>ut_error\<close>.
\<close>

definition test_and_set_step :: "nat \<Rightarrow> thread_id \<Rightarrow> mpc \<Rightarrow> mutex_sys \<Rightarrow> outcome" where
  "test_and_set_step rounds t p s = (case p of
      Trylock m c \<Rightarrow>
        (if os_fast_mutex (mutexes s m) = None
         then Next (goto t (Set_word m c) (upd_mutex m (\<lambda>x. x\<lparr>os_fast_mutex := Some t\<rparr>) s))
         else Next (goto t (tas_failed rounds m c) s))
    | Set_word m c \<Rightarrow>
        (if lock_word (mutexes s m) = 0
         then Next (goto t (tas_succeeded m c) (upd_mutex m (\<lambda>x. x\<lparr>lock_word := 1\<rparr>) s))
         else Failed)
    | _ \<Rightarrow> Blocked)"

definition spin_wait_step :: "nat \<Rightarrow> thread_id \<Rightarrow> mpc \<Rightarrow> mutex_sys \<Rightarrow> outcome" where
  "spin_wait_step rounds t p s = (case p of
      Set_owner m \<Rightarrow>
        Next (goto t Idle (upd_mutex m (\<lambda>x. x\<lparr>mx_thread := Some t\<rparr>)
               (s\<lparr>helds := (helds s)(t := insert m (helds s t))\<rparr>)))
    | Spin m i \<Rightarrow>
        (if lock_word (mutexes s m) \<noteq> 0 \<and> i < rounds then Next (goto t (Spin m (i + 1)) s)
         else Next (goto t (Trylock m (Spun i)) s))
    | Reserve m \<Rightarrow>
        (case sync_array_reserve_cell (Mutex_obj m) SYNC_MUTEX (warr s) of
           None \<Rightarrow> Failed
         | Some (cell, arr) \<Rightarrow> Next (goto t (Reset m cell) (s\<lparr>warr := arr\<rparr>)))
    | Reset m cell \<Rightarrow>
        (case os_event_reset (mx_event (mutexes s m)) of (count, e) \<Rightarrow>
           Next (goto t (Set_waiters m cell)
             (upd_mutex m (\<lambda>x. x\<lparr>mx_event := e\<rparr>) (s\<lparr>warr := sync_cell_store cell count t (warr s)\<rparr>))))
    | Set_waiters m cell \<Rightarrow>
        Next (goto t (Trylock m (Retry cell 0)) (upd_mutex m (\<lambda>x. x\<lparr>mx_waiters := 1\<rparr>) s))
    | Free_own m cell \<Rightarrow>
        (case sync_array_free_cell cell (warr s) of
           None \<Rightarrow> Failed
         | Some arr \<Rightarrow> Next (goto t (Set_owner m) (s\<lparr>warr := arr\<rparr>)))
    | Wait_event m cell \<Rightarrow>
        (case sync_array_wait_event cell (warr s) of
           None \<Rightarrow> Failed
         | Some arr \<Rightarrow> Next (goto t (Wait_low m cell) (s\<lparr>warr := arr\<rparr>)))
    | Wait_low m cell \<Rightarrow>
        Next (goto t (Waiting m cell
          (os_event_old_count (mx_event (mutexes s m)) (cell_count (cells (warr s) ! cell)))) s)
    | Waiting m cell old \<Rightarrow>
        (if os_event_passes (mx_event (mutexes s m)) old then Next (goto t (Free_again m cell) s) else Blocked)
    | Free_again m cell \<Rightarrow>
        (case sync_array_free_cell cell (warr s) of
           None \<Rightarrow> Failed
         | Some arr \<Rightarrow> Next (goto t (Spin m 0) (s\<lparr>warr := arr\<rparr>)))
    | _ \<Rightarrow> Blocked)"

definition exit_step :: "thread_id \<Rightarrow> mpc \<Rightarrow> mutex_sys \<Rightarrow> outcome" where
  "exit_step t p s = (case p of
      Clear_owner m \<Rightarrow>
        Next (goto t (Reset_word m) (upd_mutex m (\<lambda>x. x\<lparr>mx_thread := None\<rparr>) s))
    | Reset_word m \<Rightarrow>
        Next (goto t (Unlock m) (upd_mutex m (\<lambda>x. x\<lparr>lock_word := 0\<rparr>) s))
    | Unlock m \<Rightarrow>
        Next (goto t (Read_waiters m) (upd_mutex m (\<lambda>x. x\<lparr>os_fast_mutex := None\<rparr>) s))
    | Read_waiters m \<Rightarrow>
        Next (goto t (if mx_waiters (mutexes s m) \<noteq> 0 then Clear_waiters m else Idle) s)
    | Clear_waiters m \<Rightarrow>
        Next (goto t (Set_event m) (upd_mutex m (\<lambda>x. x\<lparr>mx_waiters := 0\<rparr>) s))
    | Set_event m \<Rightarrow>
        Next (goto t (Signalled m) (upd_mutex m (\<lambda>x. x\<lparr>mx_event := os_event_set (mx_event x)\<rparr>) s))
    | Signalled m \<Rightarrow>
        Next (goto t Idle (s\<lparr>warr := sync_array_object_signalled (warr s)\<rparr>))
    | _ \<Rightarrow> Blocked)"

definition mutex_step :: "nat \<Rightarrow> thread_id \<Rightarrow> mutex_sys \<Rightarrow> outcome" where
  "mutex_step rounds t s = (case pcs s t of
      Idle \<Rightarrow> Blocked
    | Trylock m c \<Rightarrow> test_and_set_step rounds t (pcs s t) s
    | Set_word m c \<Rightarrow> test_and_set_step rounds t (pcs s t) s
    | Clear_owner m \<Rightarrow> exit_step t (pcs s t) s
    | Reset_word m \<Rightarrow> exit_step t (pcs s t) s
    | Unlock m \<Rightarrow> exit_step t (pcs s t) s
    | Read_waiters m \<Rightarrow> exit_step t (pcs s t) s
    | Clear_waiters m \<Rightarrow> exit_step t (pcs s t) s
    | Set_event m \<Rightarrow> exit_step t (pcs s t) s
    | Signalled m \<Rightarrow> exit_step t (pcs s t) s
    | _ \<Rightarrow> spin_wait_step rounds t (pcs s t) s)"

lemmas mutex_step_defs = mutex_step_def test_and_set_step_def spin_wait_step_def exit_step_def

text \<open>The debug check \<open>mutex_own\<close>.\<close>

definition mutex_own :: "thread_id \<Rightarrow> mutex_ptr \<Rightarrow> mutex_sys \<Rightarrow> bool" where
  "mutex_own t m s \<longleftrightarrow> lock_word (mutexes s m) = 1 \<and> mx_thread (mutexes s m) = Some t"

text \<open>
  The steps of the system with \<open>n\<close> threads: an idle thread calls \<open>mutex_enter\<close> for a mutex it does
  not own, \<open>mutex_enter_nowait\<close>, or \<open>mutex_exit\<close> for one it owns; a thread inside a call makes its next
  step; and the error monitor signals the event of a free mutex (\<open>sync_arr_wake_threads_if_sema_free\<close>).
\<close>

definition mutex_init :: "nat \<Rightarrow> mutex_sys \<Rightarrow> bool" where
  "mutex_init n s \<longleftrightarrow> mutexes s = (\<lambda>_. mutex_create) \<and> pcs s = (\<lambda>_. Idle) \<and> helds s = (\<lambda>_. {}) \<and>
     (\<exists>junk. length junk = n \<and> sync_array_create junk = Some (warr s))"

inductive mutex_sys_step :: "nat \<Rightarrow> nat \<Rightarrow> mutex_sys \<Rightarrow> mutex_sys \<Rightarrow> bool" for n rounds where
  enter: "t < n \<Longrightarrow> pcs s t = Idle \<Longrightarrow> m \<notin> helds s t \<Longrightarrow> mutex_sys_step n rounds s (goto t (Trylock m Enter) s)"
| nowait: "t < n \<Longrightarrow> pcs s t = Idle \<Longrightarrow> mutex_sys_step n rounds s (goto t (Trylock m Nowait) s)"
| leave: "t < n \<Longrightarrow> pcs s t = Idle \<Longrightarrow> m \<in> helds s t \<Longrightarrow>
    mutex_sys_step n rounds s (goto t (Clear_owner m) (s\<lparr>helds := (helds s)(t := helds s t - {m})\<rparr>))"
| run: "t < n \<Longrightarrow> mutex_step rounds t s = Next s' \<Longrightarrow> mutex_sys_step n rounds s s'"
| monitor: "lock_word (mutexes s m) = 0 \<Longrightarrow>
    mutex_sys_step n rounds s (upd_mutex m (\<lambda>x. x\<lparr>mx_event := os_event_set (mx_event x)\<rparr>) s)"

inductive mutex_reachable :: "nat \<Rightarrow> nat \<Rightarrow> mutex_sys \<Rightarrow> bool" for n rounds where
  init: "mutex_init n s \<Longrightarrow> mutex_reachable n rounds s"
| step: "mutex_reachable n rounds s \<Longrightarrow> mutex_sys_step n rounds s s' \<Longrightarrow> mutex_reachable n rounds s'"

lemma goto_fields [simp]:
  "mutexes (goto t p s) = mutexes s" "warr (goto t p s) = warr s" "helds (goto t p s) = helds s"
  "pcs (goto t p s) = (pcs s)(t := p)"
  by (simp_all add: goto_def)

lemma upd_mutex_fields [simp]:
  "mutexes (upd_mutex m f s) = (mutexes s)(m := f (mutexes s m))" "warr (upd_mutex m f s) = warr s"
  "helds (upd_mutex m f s) = helds s" "pcs (upd_mutex m f s) = pcs s"
  by (simp_all add: upd_mutex_def)

section \<open>Invariants\<close>

text \<open>The cases of a step inside a call, with the state it leads to.\<close>

lemma mutex_step_cases [consumes 1, case_names trylock fail word owner spin1 spin2 reserve reset waiters
    free wait low pass again clear_owner reset_word unlock read1 read2 clear_waiters event signalled]:
  assumes "mutex_step rounds t s = Next s'"
  obtains m c where "pcs s t = Trylock m c" "os_fast_mutex (mutexes s m) = None"
      "s' = goto t (Set_word m c) (upd_mutex m (\<lambda>x. x\<lparr>os_fast_mutex := Some t\<rparr>) s)"
  | m c where "pcs s t = Trylock m c" "os_fast_mutex (mutexes s m) \<noteq> None" "s' = goto t (tas_failed rounds m c) s"
  | m c where "pcs s t = Set_word m c" "lock_word (mutexes s m) = 0"
      "s' = goto t (tas_succeeded m c) (upd_mutex m (\<lambda>x. x\<lparr>lock_word := 1\<rparr>) s)"
  | m where "pcs s t = Set_owner m"
      "s' = goto t Idle (upd_mutex m (\<lambda>x. x\<lparr>mx_thread := Some t\<rparr>) (s\<lparr>helds := (helds s)(t := insert m (helds s t))\<rparr>))"
  | m i where "pcs s t = Spin m i" "s' = goto t (Spin m (i + 1)) s"
  | m i where "pcs s t = Spin m i" "s' = goto t (Trylock m (Spun i)) s"
  | m cell arr where "pcs s t = Reserve m" "sync_array_reserve_cell (Mutex_obj m) SYNC_MUTEX (warr s) = Some (cell, arr)"
      "s' = goto t (Reset m cell) (s\<lparr>warr := arr\<rparr>)"
  | m cell where "pcs s t = Reset m cell"
      "s' = goto t (Set_waiters m cell)
             (upd_mutex m (\<lambda>x. x\<lparr>mx_event := snd (os_event_reset (mx_event x))\<rparr>)
               (s\<lparr>warr := sync_cell_store cell (signal_count (mx_event (mutexes s m))) t (warr s)\<rparr>))"
  | m cell where "pcs s t = Set_waiters m cell"
      "s' = goto t (Trylock m (Retry cell 0)) (upd_mutex m (\<lambda>x. x\<lparr>mx_waiters := 1\<rparr>) s)"
  | m cell arr where "pcs s t = Free_own m cell" "sync_array_free_cell cell (warr s) = Some arr"
      "s' = goto t (Set_owner m) (s\<lparr>warr := arr\<rparr>)"
  | m cell arr where "pcs s t = Wait_event m cell" "sync_array_wait_event cell (warr s) = Some arr"
      "s' = goto t (Wait_low m cell) (s\<lparr>warr := arr\<rparr>)"
  | m cell where "pcs s t = Wait_low m cell"
      "s' = goto t (Waiting m cell (os_event_old_count (mx_event (mutexes s m)) (cell_count (cells (warr s) ! cell)))) s"
  | m cell old where "pcs s t = Waiting m cell old" "os_event_passes (mx_event (mutexes s m)) old"
      "s' = goto t (Free_again m cell) s"
  | m cell arr where "pcs s t = Free_again m cell" "sync_array_free_cell cell (warr s) = Some arr"
      "s' = goto t (Spin m 0) (s\<lparr>warr := arr\<rparr>)"
  | m where "pcs s t = Clear_owner m" "s' = goto t (Reset_word m) (upd_mutex m (\<lambda>x. x\<lparr>mx_thread := None\<rparr>) s)"
  | m where "pcs s t = Reset_word m" "s' = goto t (Unlock m) (upd_mutex m (\<lambda>x. x\<lparr>lock_word := 0\<rparr>) s)"
  | m where "pcs s t = Unlock m" "s' = goto t (Read_waiters m) (upd_mutex m (\<lambda>x. x\<lparr>os_fast_mutex := None\<rparr>) s)"
  | m where "pcs s t = Read_waiters m" "mx_waiters (mutexes s m) \<noteq> 0" "s' = goto t (Clear_waiters m) s"
  | m where "pcs s t = Read_waiters m" "mx_waiters (mutexes s m) = 0" "s' = goto t Idle s"
  | m where "pcs s t = Clear_waiters m" "s' = goto t (Set_event m) (upd_mutex m (\<lambda>x. x\<lparr>mx_waiters := 0\<rparr>) s)"
  | m where "pcs s t = Set_event m"
      "s' = goto t (Signalled m) (upd_mutex m (\<lambda>x. x\<lparr>mx_event := os_event_set (mx_event x)\<rparr>) s)"
  | m where "pcs s t = Signalled m" "s' = goto t Idle (s\<lparr>warr := sync_array_object_signalled (warr s)\<rparr>)"
proof (cases "pcs s t")
  case Idle
  then show ?thesis using assms by (simp add: mutex_step_defs)
next
  case (Reset m cell)
  then show ?thesis using assms that(8) by (simp add: mutex_step_defs case_prod_unfold upd_mutex_def)
next
  case (Trylock m c)
  then show ?thesis using assms that(1) that(2) by (simp add: mutex_step_defs split: if_splits option.splits prod.splits)
next
  case (Set_word m c)
  then show ?thesis using assms that(3) by (simp add: mutex_step_defs split: if_splits option.splits prod.splits)
next
  case (Set_owner m)
  then show ?thesis using assms that(4) by (simp add: mutex_step_defs split: if_splits option.splits prod.splits)
next
  case (Spin m i)
  then show ?thesis using assms that(5) that(6) by (simp add: mutex_step_defs split: if_splits option.splits prod.splits)
next
  case (Reserve m)
  then show ?thesis using assms that(7) by (simp add: mutex_step_defs split: if_splits option.splits prod.splits)
next
  case (Set_waiters m cell)
  then show ?thesis using assms that(9) by (simp add: mutex_step_defs split: if_splits option.splits prod.splits)
next
  case (Free_own m cell)
  then show ?thesis using assms that(10) by (simp add: mutex_step_defs split: if_splits option.splits prod.splits)
next
  case (Wait_event m cell)
  then show ?thesis using assms that(11) by (simp add: mutex_step_defs split: if_splits option.splits prod.splits)
next
  case (Wait_low m cell)
  then show ?thesis using assms that(12) by (simp add: mutex_step_defs split: if_splits option.splits prod.splits)
next
  case (Waiting m cell old)
  then show ?thesis using assms that(13) by (simp add: mutex_step_defs split: if_splits option.splits prod.splits)
next
  case (Free_again m cell)
  then show ?thesis using assms that(14) by (simp add: mutex_step_defs split: if_splits option.splits prod.splits)
next
  case (Clear_owner m)
  then show ?thesis using assms that(15) by (simp add: mutex_step_defs split: if_splits option.splits prod.splits)
next
  case (Reset_word m)
  then show ?thesis using assms that(16) by (simp add: mutex_step_defs split: if_splits option.splits prod.splits)
next
  case (Unlock m)
  then show ?thesis using assms that(17) by (simp add: mutex_step_defs split: if_splits option.splits prod.splits)
next
  case (Read_waiters m)
  then show ?thesis using assms that(18) that(19) by (simp add: mutex_step_defs split: if_splits option.splits prod.splits)
next
  case (Clear_waiters m)
  then show ?thesis using assms that(20) by (simp add: mutex_step_defs split: if_splits option.splits prod.splits)
next
  case (Set_event m)
  then show ?thesis using assms that(21) by (simp add: mutex_step_defs split: if_splits option.splits prod.splits)
next
  case (Signalled m)
  then show ?thesis using assms that(22) by (simp add: mutex_step_defs split: if_splits option.splits prod.splits)
qed

text \<open>The mutex whose operating system mutex a thread holds inside a call, and the cell it has reserved.\<close>

fun locking :: "mpc \<Rightarrow> mutex_ptr option" where
  "locking (Set_word m c) = Some m"
| "locking (Set_owner m) = Some m"
| "locking (Free_own m cell) = Some m"
| "locking (Clear_owner m) = Some m"
| "locking (Reset_word m) = Some m"
| "locking (Unlock m) = Some m"
| "locking _ = None"

fun cell_of :: "mpc \<Rightarrow> (mutex_ptr \<times> nat) option" where
  "cell_of (Trylock m (Retry cell i)) = Some (m, cell)"
| "cell_of (Set_word m (Retry cell i)) = Some (m, cell)"
| "cell_of (Reset m cell) = Some (m, cell)"
| "cell_of (Set_waiters m cell) = Some (m, cell)"
| "cell_of (Free_own m cell) = Some (m, cell)"
| "cell_of (Wait_event m cell) = Some (m, cell)"
| "cell_of (Wait_low m cell) = Some (m, cell)"
| "cell_of (Waiting m cell old) = Some (m, cell)"
| "cell_of (Free_again m cell) = Some (m, cell)"
| "cell_of _ = None"

lemma locking_tas [simp]:
  "locking (tas_failed rounds m c) = None" "locking (tas_succeeded m c) = Some m" "locking (Trylock m c) = None"
  by (cases c; simp add: tas_failed_def tas_succeeded_def)+

lemma cell_of_tas [simp]:
  "cell_of (tas_failed rounds m c) = cell_of (Trylock m c)" "cell_of (tas_succeeded m c) = cell_of (Trylock m c)"
  "cell_of (Set_word m c) = cell_of (Trylock m c)"
  by (cases c; simp add: tas_failed_def tas_succeeded_def)+

text \<open>Who has the operating system's mutex, and what the fields of the mutex are meanwhile.\<close>

definition owns :: "mutex_sys \<Rightarrow> thread_id \<Rightarrow> mutex_ptr \<Rightarrow> bool" where
  "owns s t m \<longleftrightarrow> m \<in> helds s t \<or> locking (pcs s t) = Some m"

definition owner_inv :: "mutex_sys \<Rightarrow> bool" where
  "owner_inv s \<longleftrightarrow>
     (\<forall>m t. (os_fast_mutex (mutexes s m) = Some t \<longleftrightarrow> owns s t m) \<and> (m \<in> helds s t \<longrightarrow> locking (pcs s t) \<noteq> Some m))"

lemma owner_invD:
  assumes "owner_inv s"
  shows "owns s t m \<longleftrightarrow> os_fast_mutex (mutexes s m) = Some t" "m \<in> helds s t \<Longrightarrow> locking (pcs s t) \<noteq> Some m"
  using assms by (auto simp: owner_inv_def)

lemma owner_inv_step:
  assumes inv: "owner_inv s" and "mutex_sys_step n rounds s s'"
  shows "owner_inv s'"
  unfolding owner_inv_def
proof (intro allI)
  fix x u
  note i = owner_invD [OF inv, unfolded owns_def]
  show "(os_fast_mutex (mutexes s' x) = Some u \<longleftrightarrow> owns s' u x) \<and> (x \<in> helds s' u \<longrightarrow> locking (pcs s' u) \<noteq> Some x)"
    using assms(2)
  proof cases
    case (run t)
    have j: "x \<in> helds s v \<or> locking (pcs s v) = Some x \<longleftrightarrow> os_fast_mutex (mutexes s x) = Some v"
      "x \<in> helds s v \<Longrightarrow> locking (pcs s v) \<noteq> Some x" for v using i by blast+
    from run(2) show ?thesis
      by (cases rule: mutex_step_cases; cases "u = t"; cases "x = m";
          use j [of u] j [of t] in \<open>auto simp: owns_def\<close>)
  next
    case (enter t m)
    then show ?thesis using i(1) [of x u] i(2) [of x u] by (cases "u = t") (auto simp: owns_def)
  next
    case (nowait t m)
    then show ?thesis using i(1) [of x u] i(2) [of x u] by (cases "u = t") (auto simp: owns_def)
  next
    case (leave t m)
    then show ?thesis using i(1) [of x u] i(2) [of x u] by (cases "u = t") (auto simp: owns_def)
  next
    case (monitor m)
    then show ?thesis using i(1) [of x u] i(2) [of x u] by (cases "x = m") (auto simp: owns_def)
  qed
qed


lemma owner_inv_init: "mutex_init n s \<Longrightarrow> owner_inv s"
  by (simp add: mutex_init_def owner_inv_def owns_def mutex_create_def)

text \<open>The lock word is 1, and the thread id the owner's, except around the locking and unlocking itself.\<close>

fun word_up :: "mpc \<Rightarrow> mutex_ptr \<Rightarrow> bool" where
  "word_up (Set_word x c) m \<longleftrightarrow> x \<noteq> m"
| "word_up (Unlock x) m \<longleftrightarrow> x \<noteq> m"
| "word_up _ m \<longleftrightarrow> True"

lemma word_up_tas [simp]: "word_up (tas_failed rounds m c) x" "word_up (tas_succeeded m c) x"
  by (cases c; simp add: tas_failed_def tas_succeeded_def)+

lemma tas_not_clear [simp]: "tas_failed rounds m c \<noteq> Clear_owner x" "tas_succeeded m c \<noteq> Clear_owner x"
  by (cases c; simp add: tas_failed_def tas_succeeded_def)+

definition word_ok :: "mutex_sys \<Rightarrow> mutex_ptr \<Rightarrow> bool" where
  "word_ok s m \<longleftrightarrow> (case os_fast_mutex (mutexes s m) of
      None \<Rightarrow> lock_word (mutexes s m) = 0 \<and> mx_thread (mutexes s m) = None
    | Some t \<Rightarrow> lock_word (mutexes s m) = (if word_up (pcs s t) m then 1 else 0) \<and>
        mx_thread (mutexes s m) = (if m \<in> helds s t \<or> pcs s t = Clear_owner m then Some t else None))"

lemma word_ok_step:
  assumes own: "owner_inv s" and inv: "\<And>m. word_ok s m" and "mutex_sys_step n rounds s s'"
  shows "word_ok s' x"
proof -
  have i: "x \<in> helds s v \<or> locking (pcs s v) = Some x \<longleftrightarrow> os_fast_mutex (mutexes s x) = Some v"
    "x \<in> helds s v \<Longrightarrow> locking (pcs s v) \<noteq> Some x" for v
    using owner_invD [OF own, unfolded owns_def] by blast+
  show ?thesis using assms(3)
  proof cases
    case (run t)
    show ?thesis
    proof (cases "os_fast_mutex (mutexes s x)")
      case None
      from run(2) show ?thesis
        by (cases rule: mutex_step_cases; cases "x = m";
            insert None i [of t] inv [of x]; auto simp: word_ok_def)
    next
      case (Some v)
      show ?thesis
      proof (cases "v = t")
        case True
        from run(2) show ?thesis
          by (cases rule: mutex_step_cases; cases "x = m";
              insert True Some i [of t] inv [of x]; auto simp: word_ok_def)
      next
        case False
        from run(2) show ?thesis
          by (cases rule: mutex_step_cases; cases "x = m";
              insert False Some i [of t] inv [of x]; auto simp: word_ok_def)
      qed
    qed
  next
    case (enter t m)
    then show ?thesis using i [of t] inv [of x] by (auto simp: word_ok_def split: option.splits)
  next
    case (nowait t m)
    then show ?thesis using i [of t] inv [of x] by (auto simp: word_ok_def split: option.splits)
  next
    case (leave t m)
    then show ?thesis using i [of t] inv [of x] by (auto simp: word_ok_def split: option.splits if_splits)
  next
    case (monitor m)
    then show ?thesis using inv [of x] by (auto simp: word_ok_def split: option.splits)
  qed
qed

lemma word_ok_init: "mutex_init n s \<Longrightarrow> word_ok s m"
  by (simp add: mutex_init_def word_ok_def mutex_create_def)

subsection \<open>Cells\<close>

text \<open>A cell is not marked as waiting before its thread calls \<open>sync_array_wait_event\<close>.\<close>

fun parked :: "mpc \<Rightarrow> bool" where
  "parked (Wait_low m cell) = True"
| "parked (Waiting m cell old) = True"
| "parked (Free_again m cell) = True"
| "parked _ = False"

lemma parked_tas [simp]: "\<not> parked (tas_failed rounds m c)" "\<not> parked (tas_succeeded m c)" "\<not> parked (Trylock m c)"
  "\<not> parked (Set_word m c)"
  by (cases c; simp add: tas_failed_def tas_succeeded_def)+

definition use_of :: "mpc \<Rightarrow> cell_use option" where
  "use_of p = map_option (\<lambda>(m, i). \<lparr>use_obj = Mutex_obj m, use_type = SYNC_MUTEX, use_cell = i, use_parked = parked p\<rparr>)
     (cell_of p)"

lemma use_of_simps [simp]:
  "cell_of p = None \<Longrightarrow> use_of p = None"
  "cell_of p = Some (m, i) \<Longrightarrow>
     use_of p = Some \<lparr>use_obj = Mutex_obj m, use_type = SYNC_MUTEX, use_cell = i, use_parked = parked p\<rparr>"
  by (simp_all add: use_of_def)

definition cell_view :: "mutex_sys \<Rightarrow> thread_id \<Rightarrow> cell_use option" where
  "cell_view s t = use_of (pcs s t)"

definition cell_inv :: "nat \<Rightarrow> mutex_sys \<Rightarrow> bool" where
  "cell_inv n s \<longleftrightarrow> users_ok n (warr s) (cell_view s) \<and> (\<forall>t \<ge> n. pcs s t = Idle)"

lemma use_at:
  "cell_of (pcs s t) = Some (m, i) \<Longrightarrow> cell_view s t =
     Some \<lparr>use_obj = Mutex_obj m, use_type = SYNC_MUTEX, use_cell = i, use_parked = parked (pcs s t)\<rparr>"
  by (simp add: cell_view_def)

lemma cell_invD:
  assumes "cell_inv n s"
  shows "users_ok n (warr s) (cell_view s)" "n \<le> t \<Longrightarrow> pcs s t = Idle"
    "cell_of (pcs s t) = Some (m, i) \<Longrightarrow> i < length (cells (warr s))"
  using assms users_okD(2) [of n "warr s" "cell_view s"] users_okD(5) [of n "warr s" "cell_view s" t, OF _ use_at]
  by (simp_all add: cell_inv_def)

lemma cell_view_simps [simp]:
  "cell_view (goto t p s) = (cell_view s)(t := use_of p)" "cell_view (s\<lparr>warr := arr\<rparr>) = cell_view s"
  "cell_view (upd_mutex m f s) = cell_view s"
  by (auto simp: cell_view_def)

text \<open>A step that leaves the array alone keeps the invariant.\<close>

lemma cell_inv_goto:
  assumes "cell_inv n s" and "t < n" and "cell_of p = cell_of (pcs s t)"
    and "parked (pcs s t) \<longrightarrow> parked p" and "warr s' = warr s" and "pcs s' = pcs s"
  shows "cell_inv n (goto t p s')"
proof -
  have "users_ok n (warr s) ((cell_view s)(t := use_of p))"
  proof (cases "cell_of p")
    case None
    then have "(cell_view s)(t := use_of p) = cell_view s" using assms(3) by (auto simp: cell_view_def)
    then show ?thesis using cell_invD(1) [OF assms(1)] by simp
  next
    case (Some mi)
    then show ?thesis
      using users_same [OF cell_invD(1) [OF assms(1)], OF use_at [of s t "fst mi" "snd mi"]] assms(3,4) by (cases mi) simp
  qed
  moreover have "cell_view (goto t p s') = (cell_view s)(t := use_of p)"
    using assms(6) by (auto simp: cell_view_def)
  ultimately show ?thesis using assms by (simp only: cell_inv_def) simp
qed

lemma cell_inv_step:
  assumes inv: "cell_inv n s" and "mutex_sys_step n rounds s s'"
  shows "cell_inv n s'"
  using assms(2)
proof cases
  case (enter t m)
  then show ?thesis using cell_inv_goto [OF inv, of t "Trylock m Enter" s] by simp
next
  case (nowait t m)
  then show ?thesis using cell_inv_goto [OF inv, of t "Trylock m Nowait" s] by simp
next
  case (leave t m)
  then show ?thesis using cell_inv_goto [OF inv, of t "Clear_owner m"] by simp
next
  case (monitor m)
  then show ?thesis using inv by (simp add: cell_inv_def)
next
  case (run t)
  note go = cell_inv_goto [OF inv run(1)] and ok = cell_invD(1) [OF inv] and idle = cell_invD(2) [OF inv]
  have other: "\<forall>u \<ge> n. ((pcs s)(t := p)) u = Idle" for p using idle run(1) by auto
  from run(2) show ?thesis
  proof (cases rule: mutex_step_cases)
    case (reserve m cell arr)
    then show ?thesis
      using users_take [OF ok _ run(1) reserve(2)] reserve other by (simp add: cell_inv_def cell_view_def)
  next
    case (free m cell arr)
    then show ?thesis
      using users_free(1) [OF ok, OF use_at [of s t m cell]] other by (simp add: cell_inv_def)
  next
    case (again m cell arr)
    then show ?thesis
      using users_free(1) [OF ok, OF use_at [of s t m cell]] other by (simp add: cell_inv_def)
  next
    case (reset m cell)
    have "cell_inv n (s\<lparr>warr := sync_cell_store cell (signal_count (mx_event (mutexes s m))) t (warr s)\<rparr>)"
      using users_store(1) [OF ok, OF use_at [of s t m cell]] reset(1) idle by (simp add: cell_inv_def)
    from cell_inv_goto [OF this run(1)] show ?thesis unfolding reset(2) using reset(1) by simp
  next
    case (wait m cell arr)
    then show ?thesis
      using users_wait [OF ok, OF use_at [of s t m cell]] other by (simp add: cell_inv_def)
  next
    case (signalled m)
    have "cell_inv n (s\<lparr>warr := sync_array_object_signalled (warr s)\<rparr>)"
      using users_signalled [OF ok] idle by (simp add: cell_inv_def)
    from cell_inv_goto [OF this run(1), of Idle] show ?thesis using signalled by simp
  qed (use go in simp_all)
qed

lemma cell_inv_init: "mutex_init n s \<Longrightarrow> cell_inv n s"
proof -
  assume i: "mutex_init n s"
  then have "cell_view s = (\<lambda>_. None)" by (auto simp: mutex_init_def cell_view_def)
  then show "cell_inv n s" using i users_create by (auto simp: mutex_init_def cell_inv_def)
qed

subsection \<open>Counts and wake-ups\<close>

text \<open>
  The count of the event's reset that a thread will wait with; \<open>flagged\<close> threads have since set the
  \<open>waiters\<close> field, and \<open>sleeping\<close> ones have in addition seen the mutex locked in all four tries.
\<close>

fun waits_on :: "mpc \<Rightarrow> sync_cell list \<Rightarrow> (mutex_ptr \<times> nat) option" where
  "waits_on (Set_waiters m i) cs = Some (m, cell_count (cs ! i))"
| "waits_on (Trylock m (Retry i k)) cs = Some (m, cell_count (cs ! i))"
| "waits_on (Wait_event m i) cs = Some (m, cell_count (cs ! i))"
| "waits_on (Wait_low m i) cs = Some (m, cell_count (cs ! i))"
| "waits_on (Waiting m i old) cs = Some (m, old)"
| "waits_on _ cs = None"

fun sleeping :: "mpc \<Rightarrow> bool" where
  "sleeping (Wait_event m i) = True"
| "sleeping (Wait_low m i) = True"
| "sleeping (Waiting m i old) = True"
| "sleeping _ = False"

definition flagged :: "mpc \<Rightarrow> bool" where
  "flagged p \<longleftrightarrow> (case p of Set_waiters m i \<Rightarrow> False | _ \<Rightarrow> True)"

definition count_inv :: "mutex_sys \<Rightarrow> bool" where
  "count_inv s \<longleftrightarrow> (\<forall>m. event_ok (mx_event (mutexes s m))) \<and>
     (\<forall>t m c. waits_on (pcs s t) (cells (warr s)) = Some (m, c) \<longrightarrow> count_fresh (mx_event (mutexes s m)) c)"

definition signal_due :: "mutex_sys \<Rightarrow> mutex_ptr \<Rightarrow> bool" where
  "signal_due s m \<longleftrightarrow> (\<exists>u. pcs s u = Set_event m)"

definition exit_due :: "mutex_sys \<Rightarrow> mutex_ptr \<Rightarrow> bool" where
  "exit_due s m \<longleftrightarrow> (\<exists>u. pcs s u \<in> {Read_waiters m, Clear_waiters m, Set_event m})"

definition wake_inv :: "mutex_sys \<Rightarrow> bool" where
  "wake_inv s \<longleftrightarrow> (\<forall>t m. waits_on (pcs s t) (cells (warr s)) = Some (m, signal_count (mx_event (mutexes s m))) \<longrightarrow>
     (flagged (pcs s t) \<longrightarrow> mx_waiters (mutexes s m) \<noteq> 0 \<or> signal_due s m) \<and>
     (sleeping (pcs s t) \<longrightarrow> os_fast_mutex (mutexes s m) \<noteq> None \<or> exit_due s m))"

text \<open>Only its own thread changes the cell it waits with.\<close>

lemma waits_on_cell: "waits_on p cs = Some (m, c) \<Longrightarrow> \<exists>i. cell_of p = Some (m, i)"
  by (cases "(p, cs)" rule: waits_on.cases) auto

lemma waits_on_cong:
  assumes "\<And>m i. cell_of p = Some (m, i) \<Longrightarrow> cells arr' ! i = cells arr ! i"
  shows "waits_on p (cells arr') = waits_on p (cells arr)"
  using assms by (cases "(p, cells arr)" rule: waits_on.cases) auto

lemma other_cells_kept:
  assumes inv: "cell_inv n s" and "mutex_step rounds t s = Next s'" and "u \<noteq> t" and u: "cell_of (pcs s u) = Some (m, j)"
  shows "cells (warr s') ! j = cells (warr s) ! j"
proof -
  note ok = cell_invD(1) [OF inv]
  have len: "j < length (cells (warr s))" by (rule cell_invD(3) [OF inv u])
  have ne: "i \<noteq> j" if "cell_of (pcs s t) = Some (x, i)" for x i
    using users_okD(7) [OF ok, OF use_at [OF that], OF use_at [OF u]] assms(3) by auto
  from assms(2) show ?thesis
  proof (cases rule: mutex_step_cases)
    case (reserve x cell arr)
    then show ?thesis
      using reserve_cells(7) [OF users_okD(1) [OF ok] reserve(2), of t u j] reserve(1,3) use_at [OF u]
      by (simp add: cell_view_def)
  next
    case (free x cell arr)
    then show ?thesis using users_free(2) [OF ok, OF use_at [of s t x cell], OF _ _ assms(3), OF _ _ use_at [OF u]] by simp
  next
    case (again x cell arr)
    then show ?thesis using users_free(2) [OF ok, OF use_at [of s t x cell], OF _ _ assms(3), OF _ _ use_at [OF u]] by simp
  next
    case (reset x cell)
    then show ?thesis using ne len by (simp add: sync_cell_store_def)
  next
    case (wait x cell arr)
    then show ?thesis using ne len
      by (auto simp: sync_array_wait_event_def split: option.splits if_splits)
  next
    case (signalled x)
    then show ?thesis by (simp add: sync_array_object_signalled_def)
  qed simp_all
qed

lemma step_other:
  assumes "mutex_step rounds t s = Next s'"
  shows "u \<noteq> t \<Longrightarrow> pcs s' u = pcs s u" "u \<noteq> t \<Longrightarrow> helds s' u = helds s u"
  using assms by (cases rule: mutex_step_cases; simp)+

lemma step_event:
  assumes "mutex_step rounds t s = Next s'"
  shows "mx_event (mutexes s' m) = mx_event (mutexes s m) \<or>
    mx_event (mutexes s' m) = snd (os_event_reset (mx_event (mutexes s m))) \<or>
    mx_event (mutexes s' m) = os_event_set (mx_event (mutexes s m))"
  using assms by (cases rule: mutex_step_cases; simp)

lemma waits_on_other:
  assumes "cell_inv n s" and "mutex_step rounds t s = Next s'" and "u \<noteq> t"
  shows "waits_on (pcs s' u) (cells (warr s')) = waits_on (pcs s u) (cells (warr s))"
  unfolding step_other(1) [OF assms(2,3)] by (rule waits_on_cong) (rule other_cells_kept [OF assms])

lemma waits_on_goto:
  "waits_on p cs = None \<or> pcs s' = pcs s \<Longrightarrow> True" by simp

lemma waits_on_fail [simp]: "waits_on (tas_failed rounds m c) cs = waits_on (Trylock m c) cs"
  "waits_on (tas_succeeded m c) cs = None"
  by (cases c; simp add: tas_failed_def tas_succeeded_def)+

lemma count_inv_step:
  assumes cell: "cell_inv n s" and inv: "count_inv s" and "mutex_sys_step n rounds s s'"
  shows "count_inv s'"
  using assms(3)
proof cases
  case (enter t m)
  then show ?thesis using inv by (auto simp: count_inv_def)
next
  case (nowait t m)
  then show ?thesis using inv by (auto simp: count_inv_def)
next
  case (leave t m)
  then show ?thesis using inv by (auto simp: count_inv_def)
next
  case (monitor m)
  then show ?thesis using inv by (auto simp: count_inv_def)
next
  case (run t)
  have ev: "event_ok (mx_event (mutexes s m))" for m using inv by (simp add: count_inv_def)
  have old: "count_fresh (mx_event (mutexes s m)) c" if "waits_on (pcs s u) (cells (warr s)) = Some (m, c)" for u m c
    using inv that by (auto simp: count_inv_def)
  have "event_ok (mx_event (mutexes s' m))" for m using step_event [OF run(2), of m] ev [of m] by auto
  moreover have "count_fresh (mx_event (mutexes s' m)) c"
    if w: "waits_on (pcs s' u) (cells (warr s')) = Some (m, c)" for u m c
  proof (cases "u = t")
    case False
    then show ?thesis
      using old [of u m c] w waits_on_other [OF cell run(2) False] step_event [OF run(2), of m] by auto
  next
    case True
    note own = cell_invD(3) [OF cell, of t]
    from run(2) show ?thesis
    proof (cases rule: mutex_step_cases)
      case (reset x cell)
      then show ?thesis using True w own [of x cell] ev [of x] by (auto simp: sync_cell_store_def)
    next
      case (wait x cell arr)
      then show ?thesis using True w own [of x cell] old [of t m c]
        by (auto simp: sync_array_wait_event_def split: option.splits if_splits)
    next
      case (low x cell)
      then show ?thesis using True w old [of t x] by (auto simp: os_event_old_count_def count_fresh_def)
    qed (use True w old [of t] in auto)
  qed
  ultimately show ?thesis by (simp add: count_inv_def)
qed

lemma count_inv_init: "mutex_init n s \<Longrightarrow> count_inv s"
  by (simp add: mutex_init_def count_inv_def mutex_create_def)

lemma dueI:
  "pcs s u = Set_event m \<Longrightarrow> signal_due s m" "pcs s u = Set_event m \<Longrightarrow> exit_due s m"
  "pcs s u = Read_waiters m \<Longrightarrow> exit_due s m" "pcs s u = Clear_waiters m \<Longrightarrow> exit_due s m"
  by (auto simp: signal_due_def exit_due_def)

lemma signal_is_exit: "signal_due s m \<Longrightarrow> exit_due s m"
  by (auto simp: signal_due_def exit_due_def)

lemma due_keep:
  assumes "mutex_step rounds t s = Next s'"
  shows "signal_due s m \<Longrightarrow> pcs s t \<noteq> Set_event m \<Longrightarrow> signal_due s' m"
    "exit_due s m \<Longrightarrow> pcs s t \<notin> {Read_waiters m, Clear_waiters m, Set_event m} \<Longrightarrow> exit_due s' m"
  using step_other(1) [OF assms] by (metis signal_due_def, unfold exit_due_def, metis)

lemma sleeping_flagged: "sleeping p \<Longrightarrow> flagged p"
  by (cases p) (auto simp: flagged_def)

text \<open>What becomes of the mutex a thread waits for when another thread makes a step.\<close>

lemma wake_others:
  assumes run: "mutex_step rounds t s = Next s'"
    and same: "signal_count (mx_event (mutexes s' m)) = signal_count (mx_event (mutexes s m))"
    and "pcs s t \<noteq> Set_event m"
  shows "mx_waiters (mutexes s m) \<noteq> 0 \<or> signal_due s m \<Longrightarrow> mx_waiters (mutexes s' m) \<noteq> 0 \<or> signal_due s' m"
    and "os_fast_mutex (mutexes s m) \<noteq> None \<or> exit_due s m \<Longrightarrow> mx_waiters (mutexes s m) \<noteq> 0 \<or> signal_due s m \<Longrightarrow>
      os_fast_mutex (mutexes s' m) \<noteq> None \<or> exit_due s' m"
proof -
  note d = due_keep [OF run, of m] dueI [where s = s' and u = t and m = m]
  show "mx_waiters (mutexes s m) \<noteq> 0 \<or> signal_due s m \<Longrightarrow> mx_waiters (mutexes s' m) \<noteq> 0 \<or> signal_due s' m"
    using run d(1,3) assms(3) by (cases rule: mutex_step_cases) auto
  assume a: "os_fast_mutex (mutexes s m) \<noteq> None \<or> exit_due s m" "mx_waiters (mutexes s m) \<noteq> 0 \<or> signal_due s m"
  show "os_fast_mutex (mutexes s' m) \<noteq> None \<or> exit_due s' m"
    using run
  proof (cases rule: mutex_step_cases)
    case (read2 x)
    then show ?thesis
      using a d(1) d(2) signal_is_exit [of s' m] by (cases "x = m") auto
  qed (use a d(2-6) assms(3) in auto)
qed


lemma wake_invD:
  assumes "wake_inv s" and "waits_on (pcs s t) (cells (warr s)) = Some (m, signal_count (mx_event (mutexes s m)))"
  shows "flagged (pcs s t) \<Longrightarrow> mx_waiters (mutexes s m) \<noteq> 0 \<or> signal_due s m"
    "sleeping (pcs s t) \<Longrightarrow> os_fast_mutex (mutexes s m) \<noteq> None \<or> exit_due s m"
  using assms by (auto simp: wake_inv_def)

lemma count_invD:
  assumes "count_inv s" and "waits_on (pcs s t) (cells (warr s)) = Some (m, c)"
  shows "count_fresh (mx_event (mutexes s m)) c"
  using assms by (auto simp: count_inv_def)

text \<open>A signal leaves nobody waiting.\<close>

lemma set_wakes:
  assumes "count_inv s" and "waits_on (pcs s u) (cells (warr s)) = Some (m, c)"
  shows "signal_count (os_event_set (mx_event (mutexes s m))) \<noteq> c"
  using assms set_passes [of "mx_event (mutexes s m)" c] by (simp add: count_inv_def)

lemma step_count:
  assumes "mutex_step rounds t s = Next s'" and "pcs s t \<noteq> Set_event m"
  shows "signal_count (mx_event (mutexes s' m)) = signal_count (mx_event (mutexes s m))"
  using assms by (cases rule: mutex_step_cases) auto

lemma wake_inv_run:
  assumes cell: "cell_inv n s" and count: "count_inv s" and inv: "wake_inv s"
    and run: "mutex_step rounds t s = Next s'"
  shows "wake_inv s'"
  unfolding wake_inv_def
proof (intro allI impI)
  fix u m
  let ?c' = "signal_count (mx_event (mutexes s' m))" and ?c = "signal_count (mx_event (mutexes s m))"
  assume w: "waits_on (pcs s' u) (cells (warr s')) = Some (m, ?c')"
  have old: "(flagged (pcs s v) \<longrightarrow> mx_waiters (mutexes s m) \<noteq> 0 \<or> signal_due s m) \<and>
      (sleeping (pcs s v) \<longrightarrow> os_fast_mutex (mutexes s m) \<noteq> None \<or> exit_due s m)"
    if "waits_on (pcs s v) (cells (warr s)) = Some (m, ?c)" for v
    using inv that by (simp add: wake_inv_def)
  let ?goal = "(flagged (pcs s' u) \<longrightarrow> mx_waiters (mutexes s' m) \<noteq> 0 \<or> signal_due s' m) \<and>
      (sleeping (pcs s' u) \<longrightarrow> os_fast_mutex (mutexes s' m) \<noteq> None \<or> exit_due s' m)"
  show ?goal
  proof (cases "pcs s t = Set_event m")
    case True
    from run have s': "s' = goto t (Signalled m) (upd_mutex m (\<lambda>x. x\<lparr>mx_event := os_event_set (mx_event x)\<rparr>) s)"
      by (cases rule: mutex_step_cases) (use True in auto)
    have "u \<noteq> t" using w s' by auto
    then show ?thesis using w s' set_wakes [OF count, of u m ?c'] by simp
  next
    case False
    have c: "?c' = ?c" by (rule step_count [OF run False])
    note k = wake_others [OF run c False]
    show ?thesis
    proof (cases "u = t")
      case False
      then have "waits_on (pcs s u) (cells (warr s)) = Some (m, ?c)"
        using w c waits_on_other [OF cell run False] by simp
      then show ?thesis using old [of u] k step_other(1) [OF run False] sleeping_flagged by auto
    next
      case True
      note i = cell_invD(3) [OF cell, of t]
      from run show ?thesis
      proof (cases rule: mutex_step_cases)
        case (fail x cc)
        then show ?thesis using w True old [of t] c k
          by (cases cc) (auto simp: tas_failed_def flagged_def split: if_splits)
      next
        case (wait x cell arr)
        then show ?thesis using w True old [of t] c k i [of x cell]
          by (auto simp: flagged_def sync_array_wait_event_def split: option.splits if_splits)
      next
        case (low x cell)
        have "count_fresh (mx_event (mutexes s x)) (cell_count (cells (warr s) ! cell))"
          using low(1) count_invD [OF count, of t] by simp
        then show ?thesis using low w True old [of t] c k
          by (auto simp: flagged_def os_event_old_count_def count_fresh_def)
      qed (use w True in \<open>auto simp: flagged_def\<close>)
    qed
  qed
qed

lemma wake_inv_idle:
  assumes inv: "wake_inv s" and "pcs s t = Idle" and p: "\<And>cs. waits_on p cs = None"
    and h: "mutexes s' = mutexes s" "warr s' = warr s" "pcs s' = pcs s"
  shows "wake_inv (goto t p s')"
proof -
  have d: "signal_due s m \<Longrightarrow> signal_due (goto t p s') m" "exit_due s m \<Longrightarrow> exit_due (goto t p s') m" for m
    using assms(2) h unfolding signal_due_def exit_due_def by (force simp: fun_upd_def)+
  show ?thesis
    unfolding wake_inv_def
  proof (intro allI impI)
    fix u m
    assume "waits_on (pcs (goto t p s') u) (cells (warr (goto t p s'))) =
      Some (m, signal_count (mx_event (mutexes (goto t p s') m)))"
    then have w: "waits_on (pcs s u) (cells (warr s)) = Some (m, signal_count (mx_event (mutexes s m)))" "u \<noteq> t"
      using p h by (auto split: if_splits)
    then show "(flagged (pcs (goto t p s') u) \<longrightarrow> mx_waiters (mutexes (goto t p s') m) \<noteq> 0 \<or> signal_due (goto t p s') m) \<and>
        (sleeping (pcs (goto t p s') u) \<longrightarrow> os_fast_mutex (mutexes (goto t p s') m) \<noteq> None \<or> exit_due (goto t p s') m)"
      using wake_invD [OF inv w(1)] d [of m] h w(2) by auto
  qed
qed

lemma wake_inv_step:
  assumes "cell_inv n s" and "count_inv s" and inv: "wake_inv s" and "mutex_sys_step n rounds s s'"
  shows "wake_inv s'"
  using assms(4)
proof cases
  case (enter t m)
  then show ?thesis using wake_inv_idle [OF inv, of t "Trylock m Enter" s] by simp
next
  case (nowait t m)
  then show ?thesis using wake_inv_idle [OF inv, of t "Trylock m Nowait" s] by simp
next
  case (leave t m)
  then show ?thesis using wake_inv_idle [OF inv, of t "Clear_owner m"] by simp
next
  case (run t)
  then show ?thesis using wake_inv_run [OF assms(1-3)] by simp
next
  case (monitor m)
  have due: "signal_due s' x = signal_due s x" "exit_due s' x = exit_due s x" for x
    using monitor by (simp_all add: signal_due_def exit_due_def)
  show ?thesis
    unfolding wake_inv_def
  proof (intro allI impI)
    fix u x
    assume w: "waits_on (pcs s' u) (cells (warr s')) = Some (x, signal_count (mx_event (mutexes s' x)))"
    have "x \<noteq> m"
      using w monitor set_wakes [OF assms(2), of u m] by auto
    then show "(flagged (pcs s' u) \<longrightarrow> mx_waiters (mutexes s' x) \<noteq> 0 \<or> signal_due s' x) \<and>
        (sleeping (pcs s' u) \<longrightarrow> os_fast_mutex (mutexes s' x) \<noteq> None \<or> exit_due s' x)"
      using inv w monitor due [of x] by (auto simp: wake_inv_def)
  qed
qed

lemma wake_inv_init: "mutex_init n s \<Longrightarrow> wake_inv s"
  by (simp add: mutex_init_def wake_inv_def)

section \<open>Theorems on the mutex\<close>

definition mutex_inv :: "nat \<Rightarrow> mutex_sys \<Rightarrow> bool" where
  "mutex_inv n s \<longleftrightarrow> owner_inv s \<and> (\<forall>m. word_ok s m) \<and> cell_inv n s \<and> count_inv s \<and> wake_inv s \<and> (\<forall>t \<ge> n. helds s t = {})"

lemma helds_step: "mutex_sys_step n rounds s s' \<Longrightarrow> t \<ge> n \<Longrightarrow> helds s t = {} \<Longrightarrow> helds s' t = {}"
proof (induction rule: mutex_sys_step.induct)
  case (run u s s')
  then show ?case using step_other(2) [OF run(2), of t] by simp
qed auto

lemma mutex_reachable_inv: "mutex_reachable n rounds s \<Longrightarrow> mutex_inv n s"
proof (induction rule: mutex_reachable.induct)
  case (init s)
  then show ?case
    using owner_inv_init [OF init] word_ok_init [OF init] cell_inv_init [OF init] count_inv_init [OF init]
      wake_inv_init [OF init] by (simp add: mutex_inv_def) (simp add: mutex_init_def)
next
  case (step s s')
  then show ?case
    using owner_inv_step [OF _ step(2)] word_ok_step [OF _ _ step(2)] cell_inv_step [OF _ step(2)]
      count_inv_step [OF _ _ step(2)] wake_inv_step [OF _ _ _ step(2)] helds_step [OF step(2)]
    by (simp add: mutex_inv_def)
qed

lemma mutex_invD:
  assumes "mutex_reachable n rounds s"
  shows "owner_inv s" "word_ok s m" "cell_inv n s" "count_inv s" "wake_inv s" "n \<le> t \<Longrightarrow> helds s t = {}"
  using mutex_reachable_inv [OF assms] by (simp_all add: mutex_inv_def)

text \<open>
  C6: mutual exclusion. In every state reachable by any interleaving of the atomic steps of the
  threads, a mutex that a thread has entered and not left is owned by it, as the check \<open>mutex_own\<close>
  finds, and no other thread has it.
\<close>

theorem mutex_exclusion:
  assumes "mutex_reachable n rounds s" and "m \<in> helds s t"
  shows "mutex_own t m s \<and> (\<forall>u. m \<in> helds s u \<or> mutex_own u m s \<longrightarrow> u = t)"
proof -
  note own = owner_invD [OF mutex_invD(1) [OF assms(1)]]
  have f: "os_fast_mutex (mutexes s m) = Some t" using own(1) [of t m] assms(2) by (simp add: owns_def)
  moreover have "word_up (pcs s t) m" using own(2) [OF assms(2)] by (cases "pcs s t") auto
  ultimately have "mutex_own t m s"
    using mutex_invD(2) [OF assms(1), of m] assms(2) by (simp add: word_ok_def mutex_own_def)
  moreover have "u = t" if "m \<in> helds s u" for u using own(1) [of u m] f that by (simp add: owns_def)
  ultimately show ?thesis by (auto simp: mutex_own_def)
qed

text \<open>
  A server with two threads and two cells: thread 0 enters mutex 5; thread 1 finds it locked, reserves
  a cell, tries four more times and sleeps.
\<close>

definition demo_threads :: mutex_sys where
  "demo_threads = \<lparr>mutexes = \<lambda>_. mutex_create,
     warr = the (sync_array_create (replicate 2 \<lparr>wait_object = None, request_type = 0, cell_waiting = False,
       cell_count = 0, cell_thread = 0\<rparr>)), pcs = \<lambda>_. Idle, helds = \<lambda>_. {}\<rparr>"

fun run_steps :: "thread_id \<Rightarrow> nat \<Rightarrow> mutex_sys \<Rightarrow> mutex_sys" where
  "run_steps t 0 s = s"
| "run_steps t (Suc k) s = (case mutex_step 0 t s of Next s' \<Rightarrow> run_steps t k s' | _ \<Rightarrow> s)"

definition demo_owned :: mutex_sys where
  "demo_owned = run_steps 0 3 (goto 0 (Trylock 5 Enter) demo_threads)"

definition demo_asleep :: mutex_sys where
  "demo_asleep = run_steps 1 12 (goto 1 (Trylock 5 Enter) demo_owned)"

lemma run_steps_reachable: "mutex_reachable n 0 s \<Longrightarrow> t < n \<Longrightarrow> mutex_reachable n 0 (run_steps t k s)"
proof (induction t k s rule: run_steps.induct)
  case (2 t k s)
  show ?case
  proof (cases "mutex_step 0 t s")
    case (Next s')
    then have "mutex_reachable n 0 s'" using 2(2,3) mutex_reachable.step mutex_sys_step.run by blast
    then show ?thesis using 2(1) [OF Next] 2(3) Next by simp
  qed (use 2 in simp_all)
qed simp

lemma demo_init_threads: "mutex_init 2 demo_threads"
proof -
  let ?junk = "replicate 2 \<lparr>wait_object = None, request_type = 0, cell_waiting = False, cell_count = 0, cell_thread = 0\<rparr>"
  have "sync_array_create ?junk = Some (the (sync_array_create ?junk))"
    by (simp add: sync_array_create_def)
  moreover have "length ?junk = 2" by simp
  ultimately show ?thesis unfolding mutex_init_def demo_threads_def by (metis mutex_sys.select_convs)
qed

lemma demo_owned_reachable: "mutex_reachable 2 0 demo_owned"
  unfolding demo_owned_def
  by (intro run_steps_reachable mutex_reachable.step [OF mutex_reachable.init [OF demo_init_threads]]
      mutex_sys_step.enter) (simp_all add: demo_threads_def)

lemma demo_owned_fields: "helds demo_owned 0 = {5}" "pcs demo_owned 1 = Idle" "helds demo_owned 1 = {}"
  by (simp_all add: demo_owned_def numeral_3_eq_3 demo_threads_def mutex_step_defs mutex_create_def tas_succeeded_def)

lemma demo_asleep_reachable: "mutex_reachable 2 0 demo_asleep"
  unfolding demo_asleep_def
  by (intro run_steps_reachable mutex_reachable.step [OF demo_owned_reachable] mutex_sys_step.enter)
    (simp_all add: demo_owned_fields [simplified])

lemma demo_asleep_pc: "pcs demo_asleep 1 = Waiting 5 0 1" "helds demo_asleep 0 = {5}" "pcs demo_asleep 0 = Idle"
  "is_set (mx_event (mutexes demo_asleep 5)) = False" "signal_count (mx_event (mutexes demo_asleep 5)) = 1"
  unfolding demo_asleep_def demo_owned_def by code_simp+

theorem mutex_exclusion_witness: "mutex_own 0 5 demo_owned \<and> \<not> mutex_own 1 5 demo_owned"
  using mutex_exclusion [OF demo_owned_reachable, of 5 0] demo_owned_fields(1) by auto


text \<open>
  C21: no assertion of the mutex and of the wait array ever fails, under any interleaving, provided
  the array has a cell for every thread: \<open>mutex_test_and_set\<close> never finds the lock word set behind a
  free operating system mutex, a cell is always found, and cells are marked and freed only by the
  thread that reserved them.
\<close>

theorem mutex_never_fails:
  assumes "mutex_reachable n rounds s" and "t < n"
  shows "mutex_step rounds t s \<noteq> Failed"
proof -
  note inv = mutex_invD [OF assms(1)]
  note ok = cell_invD(1) [OF inv(3)]
  show ?thesis
  proof (cases "pcs s t")
    case (Set_word m c)
    then have "os_fast_mutex (mutexes s m) = Some t" using owner_invD(1) [OF inv(1), of t m] by (simp add: owns_def)
    then show ?thesis using inv(2) [of m] Set_word by (simp add: word_ok_def mutex_step_defs)
  next
    case (Reserve m)
    then show ?thesis using users_left [OF ok assms(2)]
      by (auto simp: cell_view_def mutex_step_defs sync_array_reserve_cell_def split: option.splits)
  next
    case (Free_own m cell)
    then obtain arr where "sync_array_free_cell cell (warr s) = Some arr"
      using users_free_total [OF ok, OF use_at [of s t m cell]] by auto
    then show ?thesis using Free_own by (simp add: mutex_step_defs)
  next
    case (Free_again m cell)
    then obtain arr where "sync_array_free_cell cell (warr s) = Some arr"
      using users_free_total [OF ok, OF use_at [of s t m cell]] by auto
    then show ?thesis using Free_again by (simp add: mutex_step_defs)
  next
    case (Wait_event m cell)
    then show ?thesis using users_wait(1) [OF ok, OF use_at [of s t m cell]] by (simp add: mutex_step_defs)
  next
    case (Reset m cell)
    then show ?thesis by (simp add: mutex_step_defs case_prod_unfold)
  qed (simp_all add: mutex_step_defs)
qed

theorem mutex_never_fails_witness: "mutex_step 0 1 demo_asleep \<noteq> Failed"
  by (rule mutex_never_fails [OF demo_asleep_reachable]) simp

section \<open>No thread waits for ever\<close>

text \<open>A thread that waits for a mutex does not own it.\<close>

fun entering :: "mpc \<Rightarrow> mutex_ptr option" where
  "entering (Trylock m Nowait) = None"
| "entering (Set_word m Nowait) = None"
| "entering (Trylock m c) = Some m"
| "entering (Set_word m c) = Some m"
| "entering (Spin m i) = Some m"
| "entering (Reserve m) = Some m"
| "entering (Reset m i) = Some m"
| "entering (Set_waiters m i) = Some m"
| "entering (Free_own m i) = Some m"
| "entering (Wait_event m i) = Some m"
| "entering (Wait_low m i) = Some m"
| "entering (Waiting m i old) = Some m"
| "entering (Free_again m i) = Some m"
| "entering _ = None"

lemma entering_tas: "entering (tas_failed rounds m c) = Some x \<Longrightarrow> entering (Trylock m c) = Some x"
  "entering (tas_succeeded m c) = Some x \<Longrightarrow> entering (Trylock m c) = Some x"
  "entering (Set_word m c) = entering (Trylock m c)"
  by (cases c; simp add: tas_failed_def tas_succeeded_def split: if_splits)+

lemma entering_not_held:
  "mutex_reachable n rounds s \<Longrightarrow> entering (pcs s t) = Some m \<Longrightarrow> m \<notin> helds s t"
proof (induction arbitrary: t m rule: mutex_reachable.induct)
  case (init s)
  then show ?case by (simp add: mutex_init_def)
next
  case (step s s')
  from step(2) show ?case
  proof cases
    case (run u)
    from run(2) show ?thesis
      by (cases rule: mutex_step_cases; cases "t = u"; use step.IH [of t m] step.prems in
          \<open>auto simp: entering_tas(3) dest: entering_tas(1,2)\<close>)
  qed (use step.IH [of t m] step.prems in \<open>auto split: if_splits\<close>)
qed

text \<open>
  C8: LEMMA 1 of \<open>sync/sync0sync.c\<close>. In every reachable state, if a thread waits on the event of a
  mutex, then another thread owns the mutex, or has unlocked it and is about to read the \<open>waiters\<close>
  field, or has read that there are waiters and is about to signal the event.
\<close>

theorem waiting_thread_cared_for:
  assumes "mutex_reachable n rounds s" and w: "pcs s w = Waiting m cell old" and "mutex_step rounds w s = Blocked"
  shows "\<exists>u. u \<noteq> w \<and> (os_fast_mutex (mutexes s m) = Some u \<or>
    pcs s u = Read_waiters m \<and> mx_waiters (mutexes s m) \<noteq> 0 \<or> pcs s u = Clear_waiters m \<or> pcs s u = Set_event m)"
proof -
  note inv = mutex_invD [OF assms(1)]
  have "old = signal_count (mx_event (mutexes s m))"
    using w assms(3) by (simp add: mutex_step_defs os_event_passes_def split: if_splits)
  then have wait: "waits_on (pcs s w) (cells (warr s)) = Some (m, signal_count (mx_event (mutexes s m)))"
    using w by simp
  have sig: "mx_waiters (mutexes s m) \<noteq> 0 \<or> signal_due s m"
    and held: "os_fast_mutex (mutexes s m) \<noteq> None \<or> exit_due s m"
    using wake_invD [OF inv(5) wait] w by (simp_all add: flagged_def)
  have other: "u \<noteq> w" if "pcs s u \<in> {Read_waiters m, Clear_waiters m, Set_event m}" for u
    using that w by auto
  show ?thesis
  proof (cases "signal_due s m")
    case True
    then show ?thesis using other unfolding signal_due_def by blast
  next
    case False
    then have flag: "mx_waiters (mutexes s m) \<noteq> 0" using sig by simp
    show ?thesis
    proof (cases "exit_due s m")
      case True
      then show ?thesis using other flag unfolding exit_due_def by blast
    next
      case False
      then obtain u where u: "os_fast_mutex (mutexes s m) = Some u" using held by auto
      then have "owns s u m" using owner_invD(1) [OF inv(1)] by simp
      moreover have "\<not> owns s w m" using entering_not_held [OF assms(1), of w m] w by (simp add: owns_def)
      ultimately have "u \<noteq> w" by auto
      then show ?thesis using u by blast
    qed
  qed
qed

theorem waiting_thread_cared_for_witness:
  "\<exists>u. u \<noteq> 1 \<and> (os_fast_mutex (mutexes demo_asleep 5) = Some u \<or>
    pcs demo_asleep u = Read_waiters 5 \<and> 0 < mx_waiters (mutexes demo_asleep 5) \<or>
    pcs demo_asleep u = Clear_waiters 5 \<or> pcs demo_asleep u = Set_event 5)"
proof -
  have "mutex_step 0 1 demo_asleep = Blocked"
    using demo_asleep_pc by (simp add: mutex_step_defs os_event_passes_def)
  from waiting_thread_cared_for [OF demo_asleep_reachable demo_asleep_pc(1) this] show ?thesis
    by (simp add: word_neq_0_conv)
qed

text \<open>A run of the other threads that wakes the waiting thread.\<close>

definition wakeable :: "nat \<Rightarrow> nat \<Rightarrow> thread_id \<Rightarrow> mutex_sys \<Rightarrow> bool" where
  "wakeable n rounds w s \<longleftrightarrow> (\<exists>s'. (mutex_sys_step n rounds)\<^sup>*\<^sup>* s s' \<and> pcs s' w = pcs s w \<and> mutex_step rounds w s' \<noteq> Blocked)"

lemma wakeable_step:
  assumes "wakeable n rounds w s'" and "mutex_sys_step n rounds s s'" and "pcs s' w = pcs s w"
  shows "wakeable n rounds w s"
  using assms unfolding wakeable_def by (metis converse_rtranclp_into_rtranclp)

lemma wakeable_run:
  assumes "mutex_reachable n rounds s" and "mutex_step rounds u s = Next s'" and "u \<noteq> w" and "pcs s u \<noteq> Idle"
    and "mutex_reachable n rounds s' \<Longrightarrow> pcs s' w = pcs s w \<Longrightarrow> pcs s' = (pcs s)(u := pcs s' u) \<Longrightarrow> wakeable n rounds w s'"
  shows "wakeable n rounds w s"
proof -
  have "u < n" using cell_invD(2) [OF mutex_invD(3) [OF assms(1)], of u] assms(4) by (cases "u < n") simp_all
  then have st: "mutex_sys_step n rounds s s'" by (rule mutex_sys_step.run) (rule assms(2))
  have o: "pcs s' w = pcs s w" using step_other(1) [OF assms(2)] assms(3) by simp
  have "pcs s' = (pcs s)(u := pcs s' u)" using step_other(1) [OF assms(2)] by auto
  then show ?thesis using wakeable_step [OF assms(5) [OF mutex_reachable.step [OF assms(1) st] o] st o] by simp
qed

lemma wake_from_event:
  assumes r: "mutex_reachable n rounds s" and w: "pcs s w = Waiting m cell old" and u: "pcs s u = Set_event m"
  shows "wakeable n rounds w s"
proof (rule wakeable_run [OF r])
  let ?s = "goto u (Signalled m) (upd_mutex m (\<lambda>x. x\<lparr>mx_event := os_event_set (mx_event x)\<rparr>) s)"
  show "mutex_step rounds u s = Next ?s" using u by (simp add: mutex_step_defs)
  show "u \<noteq> w" "pcs s u \<noteq> Idle" using u w by auto
  then have "mutex_step rounds w ?s \<noteq> Blocked"
    using w by (simp add: mutex_step_defs os_event_passes_def)
  then show "wakeable n rounds w ?s" unfolding wakeable_def by blast
qed

lemma wake_from_clear:
  assumes r: "mutex_reachable n rounds s" and w: "pcs s w = Waiting m cell old" and u: "pcs s u = Clear_waiters m"
  shows "wakeable n rounds w s"
proof (rule wakeable_run [OF r])
  let ?s = "goto u (Set_event m) (upd_mutex m (\<lambda>x. x\<lparr>mx_waiters := 0\<rparr>) s)"
  show "mutex_step rounds u s = Next ?s" using u by (simp add: mutex_step_defs)
  show "u \<noteq> w" "pcs s u \<noteq> Idle" using u w by auto
  then show "mutex_reachable n rounds ?s \<Longrightarrow> wakeable n rounds w ?s"
    using w wake_from_event [of n rounds ?s w m cell old u] by simp
qed

lemma wake_from_read:
  assumes r: "mutex_reachable n rounds s" and w: "pcs s w = Waiting m cell old" and u: "pcs s u = Read_waiters m"
  shows "wakeable n rounds w s"
proof (cases "mutex_step rounds w s = Blocked")
  case False
  then show ?thesis unfolding wakeable_def by blast
next
  case True
  then have "waits_on (pcs s w) (cells (warr s)) = Some (m, signal_count (mx_event (mutexes s m)))"
    using w by (simp add: mutex_step_defs os_event_passes_def split: if_splits)
  then have sig: "mx_waiters (mutexes s m) \<noteq> 0 \<or> signal_due s m"
    using wake_invD(1) [OF mutex_invD(5) [OF r], of w] w by (simp add: flagged_def)
  show ?thesis
  proof (cases "signal_due s m")
    case True
    then show ?thesis using wake_from_event [OF r w] unfolding signal_due_def by blast
  next
    case False
    show ?thesis
    proof (rule wakeable_run [OF r])
      let ?s = "goto u (Clear_waiters m) s"
      show "mutex_step rounds u s = Next ?s" using u sig False by (simp add: mutex_step_defs)
      show "u \<noteq> w" "pcs s u \<noteq> Idle" using u w by auto
      then show "mutex_reachable n rounds ?s \<Longrightarrow> wakeable n rounds w ?s"
        using w wake_from_clear [of n rounds ?s w m cell old u] by simp
    qed
  qed
qed

text \<open>The steps of the owner from where it is up to its reading of the \<open>waiters\<close> field.\<close>

fun to_exit :: "mpc \<Rightarrow> mutex_ptr \<Rightarrow> nat option" where
  "to_exit (Set_word x c) m = (if x = m then Some 7 else None)"
| "to_exit (Free_own x c) m = (if x = m then Some 6 else None)"
| "to_exit (Set_owner x) m = (if x = m then Some 5 else None)"
| "to_exit Idle m = Some 4"
| "to_exit (Clear_owner x) m = (if x = m then Some 3 else None)"
| "to_exit (Reset_word x) m = (if x = m then Some 2 else None)"
| "to_exit (Unlock x) m = (if x = m then Some 1 else None)"
| "to_exit (Read_waiters x) m = (if x = m then Some 0 else None)"
| "to_exit _ m = None"

lemma wake_from_owner:
  assumes "to_exit (pcs s u) m = Some k" and "mutex_reachable n rounds s" and "pcs s w = Waiting m cell old"
    and "pcs s u = Idle \<longrightarrow> m \<in> helds s u"
  shows "wakeable n rounds w s"
  using assms
proof (induction k arbitrary: s rule: less_induct)
  case (less k s)
  note r = less.prems(2) and w = less.prems(3)
  have ne: "u \<noteq> w" using less.prems(1) w by auto
  have go: "wakeable n rounds w s" if st: "mutex_step rounds u s = Next s'" and "pcs s u \<noteq> Idle"
    and "to_exit (pcs s' u) m = Some k'" "k' < k" "pcs s' u = Idle \<longrightarrow> m \<in> helds s' u" for s' k'
    by (rule wakeable_run [OF r st ne that(2)]) (use less.IH [of k' s'] that w in simp)
  show ?case
  proof (cases "pcs s u")
    case Idle
    let ?s = "goto u (Clear_owner m) (s\<lparr>helds := (helds s)(u := helds s u - {m})\<rparr>)"
    have m: "m \<in> helds s u" using less.prems(4) Idle by simp
    then have "u < n" using mutex_invD(6) [OF r, of u] by (force simp: not_le [symmetric])
    then have st: "mutex_sys_step n rounds s ?s" using Idle m by (rule mutex_sys_step.leave)
    have "wakeable n rounds w ?s"
      by (rule less.IH [of 3]) (use less.prems(1) Idle w ne mutex_reachable.step [OF r st] in simp_all)
    then show ?thesis using st by (rule wakeable_step) (use ne in simp)
  next
    case (Set_word x c)
    have f: "mutex_step rounds u s \<noteq> Failed"
    proof -
      have "os_fast_mutex (mutexes s x) = Some u"
        using owner_invD(1) [OF mutex_invD(1) [OF r], of u x] Set_word by (simp add: owns_def)
      then show ?thesis using mutex_invD(2) [OF r, of x] Set_word by (simp add: word_ok_def mutex_step_defs)
    qed
    then obtain s' where st: "mutex_step rounds u s = Next s'" "pcs s' u = tas_succeeded x c"
      using Set_word by (auto simp: mutex_step_defs split: if_splits)
    show ?thesis
      by (rule go [OF st(1), of "case c of Retry a b \<Rightarrow> 6 | _ \<Rightarrow> 5"])
        (use st(2) Set_word less.prems(1) in \<open>auto simp: tas_succeeded_def split: if_splits tas_call.splits\<close>)
  next
    case (Free_own x c)
    obtain arr where "sync_array_free_cell c (warr s) = Some arr"
      using users_free_total [OF cell_invD(1) [OF mutex_invD(3) [OF r]], OF use_at [of s u x c]] Free_own by auto
    then show ?thesis
      using go [of "goto u (Set_owner x) (s\<lparr>warr := arr\<rparr>)" 5] Free_own less.prems(1)
      by (simp add: mutex_step_defs split: if_splits)
  next
    case (Read_waiters x)
    then show ?thesis using wake_from_read [OF r w, of u] less.prems(1) by (simp split: if_splits)
  qed (use less.prems(1) go in \<open>auto simp: mutex_step_defs split: if_splits\<close>)
qed



end
