(* ===== verification/RwLock.thy ===== *)
theory RwLock
  imports SyncArr
begin

text \<open>
  The read-write lock of \<open>sync/sync0rw.c\<close> and \<open>include/sync0rw.ic\<close>: its operations on the lock's
  fields, and the protocol of waiting and waking under every interleaving of threads. What a thread
  does between \<open>mutex_enter\<close> and \<open>mutex_exit\<close> of the lock's own mutex is one step, except that the
  resetting of the event inside such a section is a step of its own, since \<open>os_event_set\<close> is called
  outside of it; \<open>SyncMutex\<close> shows that the mutex keeps the sections apart.
\<close>

section \<open>The lock and its operations\<close>

text \<open>
  \<open>rw_lock_debug_t\<close> and \<open>rw_lock_t\<close> of a debug build (\<open>UNIV_SYNC_DEBUG\<close>), without the fields for
  printing. The counters are bounded by the number of latches the threads hold, and do not overflow.
\<close>

record rw_debug =
  dbg_thread :: thread_id
  dbg_pass :: ulint
  dbg_type :: ulint

record rw_lock =
  rw_event :: os_event
  reader_count :: nat
  writer :: ulint
  writer_thread :: thread_id
  writer_count :: nat
  rw_pass :: ulint
  rw_waiters :: ulint
  writer_is_wait_ex :: bool
  debug_list :: "rw_debug list"

text \<open>The fields \<open>writer_thread\<close> and \<open>pass\<close> are not initialised: they are an argument.\<close>

definition rw_lock_create_func :: "rw_lock \<Rightarrow> rw_lock" where
  "rw_lock_create_func junk = junk\<lparr>rw_event := os_event_create, reader_count := 0, writer := RW_LOCK_NOT_LOCKED,
     writer_count := 0, rw_waiters := 0, writer_is_wait_ex := False, debug_list := []\<rparr>"

definition rw_lock_free :: "rw_lock \<Rightarrow> bool" where
  "rw_lock_free l \<longleftrightarrow> writer l = RW_LOCK_NOT_LOCKED \<and> rw_waiters l = 0 \<and> reader_count l = 0"

definition rw_lock_validate :: "rw_lock \<Rightarrow> bool" where
  "rw_lock_validate l \<longleftrightarrow>
     (reader_count l = 0 \<or> writer l \<noteq> RW_LOCK_EX) \<and>
     (writer l = RW_LOCK_EX \<or> writer l = RW_LOCK_WAIT_EX \<or> writer l = RW_LOCK_NOT_LOCKED) \<and>
     (rw_waiters l = 0 \<or> rw_waiters l = 1) \<and>
     (writer l \<noteq> RW_LOCK_EX \<or> writer_count l > 0)"

definition rw_lock_add_debug_info :: "thread_id \<Rightarrow> ulint \<Rightarrow> ulint \<Rightarrow> rw_lock \<Rightarrow> rw_lock" where
  "rw_lock_add_debug_info t pass type l =
     l\<lparr>debug_list := \<lparr>dbg_thread = t, dbg_pass = pass, dbg_type = type\<rparr> # debug_list l\<rparr>"

definition dbg_match :: "thread_id \<Rightarrow> ulint \<Rightarrow> ulint \<Rightarrow> rw_debug \<Rightarrow> bool" where
  "dbg_match t pass type d \<longleftrightarrow> pass = dbg_pass d \<and> (pass \<noteq> 0 \<or> dbg_thread d = t) \<and> dbg_type d = type"

fun remove_first :: "(rw_debug \<Rightarrow> bool) \<Rightarrow> rw_debug list \<Rightarrow> rw_debug list option" where
  "remove_first P [] = None"
| "remove_first P (d # ds) = (if P d then Some ds else map_option (Cons d) (remove_first P ds))"

definition rw_lock_remove_debug_info :: "thread_id \<Rightarrow> ulint \<Rightarrow> ulint \<Rightarrow> rw_lock \<Rightarrow> rw_lock option" where
  "rw_lock_remove_debug_info t pass type l =
     map_option (\<lambda>ds. l\<lparr>debug_list := ds\<rparr>) (remove_first (dbg_match t pass type) (debug_list l))"

definition rw_lock_own :: "thread_id \<Rightarrow> ulint \<Rightarrow> rw_lock \<Rightarrow> bool" where
  "rw_lock_own t type l \<longleftrightarrow> (\<exists>d \<in> set (debug_list l). dbg_thread d = t \<and> dbg_pass d = 0 \<and> dbg_type d = type)"

definition rw_lock_is_locked :: "ulint \<Rightarrow> rw_lock \<Rightarrow> bool option" where
  "rw_lock_is_locked type l =
     (if type = RW_LOCK_SHARED then Some (reader_count l > 0)
      else if type = RW_LOCK_EX then Some (writer l = RW_LOCK_EX) else None)"

definition rw_lock_n_locked :: "rw_lock list \<Rightarrow> nat" where
  "rw_lock_n_locked ls = length (filter (\<lambda>l. writer l \<noteq> RW_LOCK_NOT_LOCKED \<or> reader_count l \<noteq> 0) ls)"

definition rw_lock_s_lock_low :: "thread_id \<Rightarrow> ulint \<Rightarrow> rw_lock \<Rightarrow> bool \<times> rw_lock" where
  "rw_lock_s_lock_low t pass l =
     (if writer l = RW_LOCK_NOT_LOCKED
      then (True, rw_lock_add_debug_info t pass RW_LOCK_SHARED (l\<lparr>reader_count := reader_count l + 1\<rparr>))
      else (False, l))"

definition rw_lock_s_lock_direct :: "thread_id \<Rightarrow> rw_lock \<Rightarrow> rw_lock" where
  "rw_lock_s_lock_direct t l = rw_lock_add_debug_info t 0 RW_LOCK_SHARED (l\<lparr>reader_count := reader_count l + 1\<rparr>)"

definition rw_lock_x_lock_direct :: "thread_id \<Rightarrow> rw_lock \<Rightarrow> rw_lock" where
  "rw_lock_x_lock_direct t l = rw_lock_add_debug_info t 0 RW_LOCK_EX
     (l\<lparr>writer := RW_LOCK_EX, writer_thread := t, writer_count := writer_count l + 1, rw_pass := 0\<rparr>)"

definition rw_lock_s_lock_func_nowait :: "thread_id \<Rightarrow> rw_lock \<Rightarrow> bool \<times> rw_lock" where
  "rw_lock_s_lock_func_nowait t l =
     (if writer l = RW_LOCK_NOT_LOCKED
      then (True, rw_lock_add_debug_info t 0 RW_LOCK_SHARED (l\<lparr>reader_count := reader_count l + 1\<rparr>))
      else (False, l))"

definition rw_lock_x_lock_func_nowait :: "thread_id \<Rightarrow> rw_lock \<Rightarrow> bool \<times> rw_lock" where
  "rw_lock_x_lock_func_nowait t l =
     (if reader_count l \<noteq> 0 then (False, l)
      else if writer l = RW_LOCK_NOT_LOCKED
      then (True, rw_lock_add_debug_info t 0 RW_LOCK_EX
             (l\<lparr>writer := RW_LOCK_EX, writer_thread := t, rw_pass := 0, writer_count := writer_count l + 1\<rparr>))
      else if writer l = RW_LOCK_EX \<and> rw_pass l = 0 \<and> writer_thread l = t
      then (True, rw_lock_add_debug_info t 0 RW_LOCK_EX (l\<lparr>writer_count := writer_count l + 1\<rparr>))
      else (False, l))"

text \<open>
  The unlock functions up to \<open>mutex_exit\<close>: the flag tells whether the caller is to signal the event.
\<close>

definition rw_lock_s_unlock_func :: "thread_id \<Rightarrow> ulint \<Rightarrow> rw_lock \<Rightarrow> (bool \<times> rw_lock) option" where
  "rw_lock_s_unlock_func t pass l =
     (if reader_count l = 0 then None
      else map_option (\<lambda>l1. if rw_waiters l1 \<noteq> 0 \<and> reader_count l1 = 0 then (True, l1\<lparr>rw_waiters := 0\<rparr>) else (False, l1))
             (rw_lock_remove_debug_info t pass RW_LOCK_SHARED (l\<lparr>reader_count := reader_count l - 1\<rparr>)))"

definition rw_lock_s_unlock_direct :: "thread_id \<Rightarrow> rw_lock \<Rightarrow> rw_lock option" where
  "rw_lock_s_unlock_direct t l = rw_lock_remove_debug_info t 0 RW_LOCK_SHARED (l\<lparr>reader_count := reader_count l - 1\<rparr>)"

definition take_writer :: "rw_lock \<Rightarrow> rw_lock" where
  "take_writer l =
     (let l1 = l\<lparr>writer_count := writer_count l - 1\<rparr>
      in if writer_count l1 = 0 then l1\<lparr>writer := RW_LOCK_NOT_LOCKED\<rparr> else l1)"

definition rw_lock_x_unlock_func :: "thread_id \<Rightarrow> ulint \<Rightarrow> rw_lock \<Rightarrow> (bool \<times> rw_lock) option" where
  "rw_lock_x_unlock_func t pass l =
     map_option (\<lambda>l1. if rw_waiters l1 \<noteq> 0 \<and> writer_count l1 = 0 then (True, l1\<lparr>rw_waiters := 0\<rparr>) else (False, l1))
       (rw_lock_remove_debug_info t pass RW_LOCK_EX (take_writer l))"

definition rw_lock_x_unlock_direct :: "thread_id \<Rightarrow> rw_lock \<Rightarrow> rw_lock option" where
  "rw_lock_x_unlock_direct t l = rw_lock_remove_debug_info t 0 RW_LOCK_EX (take_writer l)"

definition rw_lock_x_lock_move_ownership :: "thread_id \<Rightarrow> rw_lock \<Rightarrow> rw_lock" where
  "rw_lock_x_lock_move_ownership t l = l\<lparr>writer_thread := t, rw_pass := 0\<rparr>"

definition rw_lock_x_lock_low :: "thread_id \<Rightarrow> ulint \<Rightarrow> rw_lock \<Rightarrow> (ulint \<times> rw_lock) option" where
  "rw_lock_x_lock_low t pass l =
     (if writer l = RW_LOCK_NOT_LOCKED then
        if reader_count l = 0 then
          Some (RW_LOCK_EX, rw_lock_add_debug_info t pass RW_LOCK_EX
            (l\<lparr>writer := RW_LOCK_EX, writer_thread := t, writer_count := writer_count l + 1, rw_pass := pass\<rparr>))
        else
          Some (RW_LOCK_WAIT_EX, rw_lock_add_debug_info t pass RW_LOCK_WAIT_EX
            (l\<lparr>writer := RW_LOCK_WAIT_EX, writer_thread := t, rw_pass := pass, writer_is_wait_ex := True\<rparr>))
      else if writer l = RW_LOCK_WAIT_EX \<and> writer_thread l = t then
        if reader_count l = 0 then
          map_option (\<lambda>l1. (RW_LOCK_EX, rw_lock_add_debug_info t pass RW_LOCK_EX l1))
            (rw_lock_remove_debug_info t pass RW_LOCK_WAIT_EX
              (l\<lparr>writer := RW_LOCK_EX, writer_count := writer_count l + 1, rw_pass := pass, writer_is_wait_ex := False\<rparr>))
        else Some (RW_LOCK_WAIT_EX, l)
      else if writer l = RW_LOCK_EX \<and> writer_thread l = t \<and> rw_pass l = 0 \<and> pass = 0 then
        Some (RW_LOCK_EX, rw_lock_add_debug_info t pass RW_LOCK_EX (l\<lparr>writer_count := writer_count l + 1\<rparr>))
      else Some (RW_LOCK_NOT_LOCKED, l))"

section \<open>Consistency of the fields with the latches held\<close>

text \<open>
  The debug list names the latches held. The counters are its counts, a waiting writer has exactly
  one entry, an exclusive latch excludes all shared ones, and the exclusive latches that were not
  passed to another thread all belong to \<open>writer_thread\<close>.
\<close>

definition n_type :: "ulint \<Rightarrow> rw_lock \<Rightarrow> nat" where
  "n_type type l = length (filter (\<lambda>d. dbg_type d = type) (debug_list l))"

definition counts_ok :: "rw_lock \<Rightarrow> bool" where
  "counts_ok l \<longleftrightarrow> rw_lock_validate l \<and>
     reader_count l = n_type RW_LOCK_SHARED l \<and> writer_count l = n_type RW_LOCK_EX l \<and>
     n_type RW_LOCK_WAIT_EX l = (if writer l = RW_LOCK_WAIT_EX then 1 else 0) \<and>
     (writer_count l > 0 \<longrightarrow> writer l = RW_LOCK_EX) \<and>
     (writer_is_wait_ex l \<longleftrightarrow> writer l = RW_LOCK_WAIT_EX)"

definition entry_ok :: "rw_lock \<Rightarrow> rw_debug \<Rightarrow> bool" where
  "entry_ok l d \<longleftrightarrow> dbg_type d \<in> {RW_LOCK_SHARED, RW_LOCK_EX, RW_LOCK_WAIT_EX} \<and>
     (dbg_type d = RW_LOCK_EX \<longrightarrow> dbg_pass d = 0 \<longrightarrow> dbg_thread d = writer_thread l \<and> rw_pass l = 0) \<and>
     (dbg_type d = RW_LOCK_WAIT_EX \<longrightarrow> dbg_thread d = writer_thread l \<and> dbg_pass d = rw_pass l)"

definition rw_ok :: "rw_lock \<Rightarrow> bool" where
  "rw_ok l \<longleftrightarrow> counts_ok l \<and> (\<forall>d \<in> set (debug_list l). entry_ok l d)"

lemma rw_consts_neq [simp]:
  "RW_LOCK_NOT_LOCKED \<noteq> RW_LOCK_EX" "RW_LOCK_NOT_LOCKED \<noteq> RW_LOCK_SHARED" "RW_LOCK_NOT_LOCKED \<noteq> RW_LOCK_WAIT_EX"
  "RW_LOCK_EX \<noteq> RW_LOCK_SHARED" "RW_LOCK_EX \<noteq> RW_LOCK_WAIT_EX" "RW_LOCK_SHARED \<noteq> RW_LOCK_WAIT_EX"
  "RW_LOCK_EX \<noteq> RW_LOCK_NOT_LOCKED" "RW_LOCK_SHARED \<noteq> RW_LOCK_NOT_LOCKED" "RW_LOCK_WAIT_EX \<noteq> RW_LOCK_NOT_LOCKED"
  "RW_LOCK_SHARED \<noteq> RW_LOCK_EX" "RW_LOCK_WAIT_EX \<noteq> RW_LOCK_EX" "RW_LOCK_WAIT_EX \<noteq> RW_LOCK_SHARED"
  by (simp_all add: rw_consts)

lemma remove_first_some:
  "remove_first P ds = Some es \<Longrightarrow> \<exists>xs d ys. ds = xs @ d # ys \<and> P d \<and> es = xs @ ys"
proof (induction ds arbitrary: es)
  case (Cons a ds)
  show ?case
  proof (cases "P a")
    case True
    then show ?thesis using Cons.prems by (metis append_Nil option.inject remove_first.simps(2))
  next
    case False
    then obtain es' where "remove_first P ds = Some es'" "es = a # es'" using Cons.prems by auto
    then show ?thesis using Cons.IH by (metis append_Cons)
  qed
qed simp

lemma remove_first_none: "remove_first P ds = None \<longleftrightarrow> (\<forall>d \<in> set ds. \<not> P d)"
  by (induction ds) auto

lemma n_type_add [simp]:
  "n_type type (rw_lock_add_debug_info t pass type' l) = n_type type l + (if type' = type then 1 else 0)"
  by (simp add: n_type_def rw_lock_add_debug_info_def)

lemma add_info_fields [simp]:
  "rw_event (rw_lock_add_debug_info t pass type l) = rw_event l"
  "reader_count (rw_lock_add_debug_info t pass type l) = reader_count l"
  "writer (rw_lock_add_debug_info t pass type l) = writer l"
  "writer_thread (rw_lock_add_debug_info t pass type l) = writer_thread l"
  "writer_count (rw_lock_add_debug_info t pass type l) = writer_count l"
  "rw_pass (rw_lock_add_debug_info t pass type l) = rw_pass l"
  "rw_waiters (rw_lock_add_debug_info t pass type l) = rw_waiters l"
  "writer_is_wait_ex (rw_lock_add_debug_info t pass type l) = writer_is_wait_ex l"
  "debug_list (rw_lock_add_debug_info t pass type l) =
     \<lparr>dbg_thread = t, dbg_pass = pass, dbg_type = type\<rparr> # debug_list l"
  by (simp_all add: rw_lock_add_debug_info_def)

lemma n_type_0: "n_type type l = 0 \<longleftrightarrow> (\<forall>d \<in> set (debug_list l). dbg_type d \<noteq> type)"
  by (simp add: n_type_def filter_empty_conv)

lemma n_type_fields [simp]:
  "n_type type (l\<lparr>reader_count := a\<rparr>) = n_type type l" "n_type type (l\<lparr>writer := b\<rparr>) = n_type type l"
  "n_type type (l\<lparr>writer_thread := t\<rparr>) = n_type type l" "n_type type (l\<lparr>writer_count := a\<rparr>) = n_type type l"
  "n_type type (l\<lparr>rw_pass := b\<rparr>) = n_type type l" "n_type type (l\<lparr>rw_waiters := b\<rparr>) = n_type type l"
  "n_type type (l\<lparr>writer_is_wait_ex := c\<rparr>) = n_type type l" "n_type type (l\<lparr>rw_event := e\<rparr>) = n_type type l"
  by (simp_all add: n_type_def)

text \<open>What removing an entry does: it exists, and all but one of the entries stay.\<close>

lemma remove_info:
  assumes "rw_lock_remove_debug_info t pass type l = Some l'"
  obtains d xs ys where "debug_list l = xs @ d # ys" "dbg_match t pass type d" "l' = l\<lparr>debug_list := xs @ ys\<rparr>"
  using assms remove_first_some by (fastforce simp: rw_lock_remove_debug_info_def)

lemma remove_info_total:
  assumes "d \<in> set (debug_list l)" and "dbg_match t pass type d"
  shows "\<exists>l'. rw_lock_remove_debug_info t pass type l = Some l'"
  using assms remove_first_none [of "dbg_match t pass type" "debug_list l"]
  by (auto simp: rw_lock_remove_debug_info_def)

lemma n_type_remove:
  assumes "rw_lock_remove_debug_info t pass type l = Some l'"
  shows "n_type type' l = n_type type' l' + (if type' = type then 1 else 0)"
proof -
  obtain d xs ys where d: "debug_list l = xs @ d # ys" "dbg_match t pass type d" "l' = l\<lparr>debug_list := xs @ ys\<rparr>"
    by (rule remove_info [OF assms])
  then show ?thesis by (auto simp: n_type_def dbg_match_def)
qed

lemma remove_info_fields:
  assumes "rw_lock_remove_debug_info t pass type l = Some l'"
  shows "rw_event l' = rw_event l" "reader_count l' = reader_count l" "writer l' = writer l"
    "writer_thread l' = writer_thread l" "writer_count l' = writer_count l" "rw_pass l' = rw_pass l"
    "rw_waiters l' = rw_waiters l" "writer_is_wait_ex l' = writer_is_wait_ex l"
    "set (debug_list l') \<subseteq> set (debug_list l)"
  by (rule remove_info [OF assms]; auto)+

text \<open>The operations keep the lock consistent.\<close>

lemma rw_okD:
  assumes "rw_ok l"
  shows "counts_ok l" "d \<in> set (debug_list l) \<Longrightarrow> entry_ok l d" "rw_lock_validate l"
    "reader_count l = n_type RW_LOCK_SHARED l" "writer_count l = n_type RW_LOCK_EX l"
    "writer l = RW_LOCK_EX \<longleftrightarrow> writer_count l > 0" "writer l = RW_LOCK_EX \<Longrightarrow> reader_count l = 0"
    "writer l = RW_LOCK_NOT_LOCKED \<or> writer l = RW_LOCK_EX \<or> writer l = RW_LOCK_WAIT_EX"
    "writer l = RW_LOCK_WAIT_EX \<longleftrightarrow> n_type RW_LOCK_WAIT_EX l > 0"
    "d \<in> set (debug_list l) \<Longrightarrow> n_type (dbg_type d) l > 0"
  using assms by (auto simp: rw_ok_def counts_ok_def rw_lock_validate_def n_type_def filter_empty_conv split: if_splits)

lemma counts_okI:
  assumes "rw_waiters l = 0 \<or> rw_waiters l = 1" "reader_count l = n_type RW_LOCK_SHARED l"
    "writer_count l = n_type RW_LOCK_EX l" "writer_is_wait_ex l \<longleftrightarrow> writer l = RW_LOCK_WAIT_EX"
    "writer l = RW_LOCK_NOT_LOCKED \<and> n_type RW_LOCK_WAIT_EX l = 0 \<and> writer_count l = 0 \<or>
     writer l = RW_LOCK_EX \<and> n_type RW_LOCK_WAIT_EX l = 0 \<and> writer_count l > 0 \<and> reader_count l = 0 \<or>
     writer l = RW_LOCK_WAIT_EX \<and> n_type RW_LOCK_WAIT_EX l = 1 \<and> writer_count l = 0"
  shows "counts_ok l"
  using assms by (auto simp: counts_ok_def rw_lock_validate_def)

lemma rw_ok_cases:
  assumes "rw_ok l"
  obtains "writer l = RW_LOCK_NOT_LOCKED" "n_type RW_LOCK_WAIT_EX l = 0" "writer_count l = 0" "\<not> writer_is_wait_ex l"
  | "writer l = RW_LOCK_EX" "n_type RW_LOCK_WAIT_EX l = 0" "writer_count l > 0" "reader_count l = 0" "\<not> writer_is_wait_ex l"
  | "writer l = RW_LOCK_WAIT_EX" "n_type RW_LOCK_WAIT_EX l = 1" "writer_count l = 0" "writer_is_wait_ex l"
  using assms by (auto simp: rw_ok_def counts_ok_def rw_lock_validate_def split: if_splits)

lemma rw_ok_waiters: "rw_ok l \<Longrightarrow> rw_waiters l = 0 \<or> rw_waiters l = 1"
  by (simp add: rw_ok_def counts_ok_def rw_lock_validate_def)

lemma rw_ok_create: "rw_ok (rw_lock_create_func junk)"
  by (simp add: rw_ok_def counts_ok_def rw_lock_create_func_def rw_lock_validate_def n_type_def)

lemma rw_ok_s_lock: "rw_ok l \<Longrightarrow> rw_ok (snd (rw_lock_s_lock_low t pass l))"
  by (auto simp: rw_ok_def counts_ok_def entry_ok_def rw_lock_s_lock_low_def rw_lock_validate_def)

lemma nowait_is_low: "rw_lock_s_lock_func_nowait t l = rw_lock_s_lock_low t 0 l"
  by (simp add: rw_lock_s_lock_func_nowait_def rw_lock_s_lock_low_def)

text \<open>An exclusive entry is the newest of those of its thread, or the first.\<close>

lemma rw_ok_add_ex:
  assumes ok: "rw_ok l" and "reader_count l = 0" and "n_type RW_LOCK_WAIT_EX l = 0"
    and l': "writer l' = RW_LOCK_EX" "reader_count l' = 0" "writer_count l' = writer_count l + 1" "\<not> writer_is_wait_ex l'"
    "rw_waiters l' = rw_waiters l" "debug_list l' = debug_list l" "writer_thread l' = t" "rw_pass l' = pass"
    and "writer l = RW_LOCK_EX \<longrightarrow> writer_thread l = t \<and> rw_pass l = 0 \<and> pass = 0"
  shows "rw_ok (rw_lock_add_debug_info t pass RW_LOCK_EX l')"
proof -
  have n: "n_type type l' = n_type type l" for type using l'(6) by (simp add: n_type_def)
  have "counts_ok (rw_lock_add_debug_info t pass RW_LOCK_EX l')"
    by (rule counts_okI) (use rw_okD [OF ok] rw_ok_waiters [OF ok] l' n assms(2,3) in simp_all)
  moreover have "entry_ok (rw_lock_add_debug_info t pass RW_LOCK_EX l') d" if "d \<in> set (debug_list l)" for d
  proof -
    have e: "entry_ok l d" "n_type (dbg_type d) l > 0" using rw_okD(2,10) [OF ok that] by simp_all
    then have "dbg_type d = RW_LOCK_EX" using assms(2,3) rw_okD(4) [OF ok] by (auto simp: entry_ok_def)
    then show ?thesis using e assms(12) rw_okD(5,6) [OF ok] l' by (simp add: entry_ok_def)
  qed
  moreover have "entry_ok (rw_lock_add_debug_info t pass RW_LOCK_EX l') \<lparr>dbg_thread = t, dbg_pass = pass, dbg_type = RW_LOCK_EX\<rparr>"
    using l' by (simp add: entry_ok_def)
  ultimately show ?thesis using l'(6) by (simp add: rw_ok_def)
qed

lemma rw_ok_x_nowait:
  assumes ok: "rw_ok l"
  shows "rw_ok (snd (rw_lock_x_lock_func_nowait t l))"
proof -
  have w: "n_type RW_LOCK_WAIT_EX l = 0 \<and> \<not> writer_is_wait_ex l" if "writer l \<noteq> RW_LOCK_WAIT_EX"
    using rw_ok_cases [OF ok] that by blast
  show ?thesis
    unfolding rw_lock_x_lock_func_nowait_def
    by (auto intro!: rw_ok_add_ex [OF ok] simp: ok w)
qed

lemma rw_ok_s_unlock:
  assumes ok: "rw_ok l" and "rw_lock_s_unlock_func t pass l = Some (sg, l')"
  shows "rw_ok l'"
proof -
  obtain l1 where r: "rw_lock_remove_debug_info t pass RW_LOCK_SHARED (l\<lparr>reader_count := reader_count l - 1\<rparr>) = Some l1"
    and l': "l' = (if sg then l1\<lparr>rw_waiters := 0\<rparr> else l1)" and n: "reader_count l > 0"
    using assms(2) by (auto simp: rw_lock_s_unlock_func_def split: if_splits)
  note f = remove_info_fields [OF r, simplified] and c = n_type_remove [OF r, simplified]
  have nt: "n_type RW_LOCK_EX l' = n_type RW_LOCK_EX l" "n_type RW_LOCK_WAIT_EX l' = n_type RW_LOCK_WAIT_EX l"
    "n_type RW_LOCK_SHARED l = n_type RW_LOCK_SHARED l' + 1"
    using c [of RW_LOCK_SHARED] c [of RW_LOCK_EX] c [of RW_LOCK_WAIT_EX] l' by (simp_all split: if_splits)
  have fl: "reader_count l' = reader_count l - 1" "writer l' = writer l" "writer_count l' = writer_count l"
    "writer_is_wait_ex l' = writer_is_wait_ex l" "rw_waiters l' = rw_waiters l \<or> rw_waiters l' = 0"
    "entry_ok l' = entry_ok l" "set (debug_list l') \<subseteq> set (debug_list l)"
    using f l' by (auto simp: entry_ok_def fun_eq_iff)
  have "counts_ok l'"
    by (rule rw_ok_cases [OF ok]; rule counts_okI)
      (use rw_okD [OF ok] rw_ok_waiters [OF ok] nt fl n in auto)
  then show ?thesis using rw_okD(2) [OF ok] fl(6,7) by (auto simp: rw_ok_def)
qed

lemma rw_ok_x_unlock:
  assumes ok: "rw_ok l" and "rw_lock_x_unlock_func t pass l = Some (sg, l')"
  shows "rw_ok l'"
proof -
  obtain l1 where r: "rw_lock_remove_debug_info t pass RW_LOCK_EX (take_writer l) = Some l1"
    and l': "l' = (if sg then l1\<lparr>rw_waiters := 0\<rparr> else l1)"
    using assms(2) by (auto simp: rw_lock_x_unlock_func_def split: if_splits)
  have tw: "n_type type (take_writer l) = n_type type l" "debug_list (take_writer l) = debug_list l" for type
    by (simp_all add: take_writer_def Let_def)
  note f = remove_info_fields [OF r, unfolded tw] and c = n_type_remove [OF r, unfolded tw]
  have n: "writer_count l > 0" using rw_okD(5) [OF ok] c [of RW_LOCK_EX] by simp
  then have ex: "writer l = RW_LOCK_EX" using rw_okD(6) [OF ok] by simp
  have st: "n_type RW_LOCK_WAIT_EX l = 0" "reader_count l = 0" "\<not> writer_is_wait_ex l"
    using rw_ok_cases [OF ok] ex by fastforce+
  have nt: "n_type RW_LOCK_SHARED l' = n_type RW_LOCK_SHARED l" "n_type RW_LOCK_WAIT_EX l' = n_type RW_LOCK_WAIT_EX l"
    "n_type RW_LOCK_EX l = n_type RW_LOCK_EX l' + 1"
    using c [of RW_LOCK_SHARED] c [of RW_LOCK_EX] c [of RW_LOCK_WAIT_EX] l' by (simp_all split: if_splits)
  have fl: "reader_count l' = 0" "writer l' = (if writer_count l = 1 then RW_LOCK_NOT_LOCKED else RW_LOCK_EX)"
    "writer_count l' = writer_count l - 1" "\<not> writer_is_wait_ex l'" "rw_waiters l' = rw_waiters l \<or> rw_waiters l' = 0"
    "entry_ok l' = entry_ok l" "set (debug_list l') \<subseteq> set (debug_list l)"
    using f l' st ex n by (auto simp: entry_ok_def fun_eq_iff take_writer_def Let_def)
  have "counts_ok l'"
    by (rule counts_okI) (use rw_okD(4,5) [OF ok] rw_ok_waiters [OF ok] nt fl n st in auto)
  then show ?thesis using rw_okD(2) [OF ok] fl(6,7) by (auto simp: rw_ok_def)
qed

lemma rw_ok_move:
  assumes ok: "rw_ok l" and "writer l = RW_LOCK_EX" and "rw_pass l \<noteq> 0"
  shows "rw_ok (rw_lock_x_lock_move_ownership t l)"
proof -
  have "dbg_type d \<noteq> RW_LOCK_WAIT_EX" if "d \<in> set (debug_list l)" for d
    using rw_okD(9,10) [OF ok] that assms(2) by fastforce
  then show ?thesis
    using ok assms(2,3) by (auto simp: rw_ok_def counts_ok_def rw_lock_validate_def entry_ok_def rw_lock_x_lock_move_ownership_def)
qed

lemma rw_ok_x_lock:
  assumes ok: "rw_ok l" and run: "rw_lock_x_lock_low t pass l = Some (r, l')"
  shows "rw_ok l'"
proof (rule rw_ok_cases [OF ok])
  assume w: "writer l = RW_LOCK_NOT_LOCKED" "n_type RW_LOCK_WAIT_EX l = 0" "writer_count l = 0" "\<not> writer_is_wait_ex l"
  show ?thesis
  proof (cases "reader_count l = 0")
    case True
    have l': "l' = rw_lock_add_debug_info t pass RW_LOCK_EX
            (l\<lparr>writer := RW_LOCK_EX, writer_thread := t, writer_count := writer_count l + 1, rw_pass := pass\<rparr>)"
      using run w True by (simp add: rw_lock_x_lock_low_def)
    show ?thesis unfolding l' by (rule rw_ok_add_ex [OF ok True w(2)]) (use w True in simp_all)
  next
    case False
    have l': "l' = rw_lock_add_debug_info t pass RW_LOCK_WAIT_EX
            (l\<lparr>writer := RW_LOCK_WAIT_EX, writer_thread := t, rw_pass := pass, writer_is_wait_ex := True\<rparr>)"
      using run w False by (simp add: rw_lock_x_lock_low_def)
    have "dbg_type d = RW_LOCK_SHARED" if "d \<in> set (debug_list l)" for d
      using rw_okD(2,10) [OF ok that] w rw_okD(5) [OF ok] by (auto simp: entry_ok_def)
    then have "entry_ok l' d" if "d \<in> set (debug_list l')" for d using that by (auto simp: l' entry_ok_def)
    moreover have "counts_ok l'"
      by (rule counts_okI) (use rw_okD(4,5) [OF ok] rw_ok_waiters [OF ok] w in \<open>simp_all add: l'\<close>)
    ultimately show ?thesis by (simp add: rw_ok_def)
  qed
next
  assume w: "writer l = RW_LOCK_EX" "n_type RW_LOCK_WAIT_EX l = 0" "writer_count l > 0" "reader_count l = 0" "\<not> writer_is_wait_ex l"
  show ?thesis
  proof (cases "writer_thread l = t \<and> rw_pass l = 0 \<and> pass = 0")
    case True
    have l': "l' = rw_lock_add_debug_info t pass RW_LOCK_EX (l\<lparr>writer_count := writer_count l + 1\<rparr>)"
      using run w True by (simp add: rw_lock_x_lock_low_def)
    show ?thesis unfolding l' by (rule rw_ok_add_ex [OF ok w(4,2)]) (use w True in simp_all)
  next
    case False
    then show ?thesis using run w ok by (simp add: rw_lock_x_lock_low_def split: if_splits)
  qed
next
  assume w: "writer l = RW_LOCK_WAIT_EX" "n_type RW_LOCK_WAIT_EX l = 1" "writer_count l = 0" "writer_is_wait_ex l"
  show ?thesis
  proof (cases "writer_thread l = t \<and> reader_count l = 0")
    case False
    then show ?thesis using run w ok by (auto simp: rw_lock_x_lock_low_def split: if_splits)
  next
    case True
    obtain l1 where r: "rw_lock_remove_debug_info t pass RW_LOCK_WAIT_EX
        (l\<lparr>writer := RW_LOCK_EX, writer_count := writer_count l + 1, rw_pass := pass, writer_is_wait_ex := False\<rparr>) = Some l1"
      and l': "l' = rw_lock_add_debug_info t pass RW_LOCK_EX l1"
      using run w True by (auto simp: rw_lock_x_lock_low_def)
    note f = remove_info_fields [OF r, simplified] and c = n_type_remove [OF r, simplified]
    have "n_type type l1 = 0" if "type \<in> {RW_LOCK_SHARED, RW_LOCK_EX, RW_LOCK_WAIT_EX}" for type
      using c [of type] that w rw_okD(4,5) [OF ok] True by auto
    moreover have "dbg_type d \<in> {RW_LOCK_SHARED, RW_LOCK_EX, RW_LOCK_WAIT_EX}" if "d \<in> set (debug_list l1)" for d
      using subsetD [OF f(9) that] rw_okD(2) [OF ok, of d] by (simp add: entry_ok_def)
    ultimately have "n_type (dbg_type d) l1 = 0" if "d \<in> set (debug_list l1)" for d using that by simp
    then have "d \<notin> set (debug_list l1)" for d by (metis n_type_0)
    then have e: "debug_list l1 = []" by (cases "debug_list l1") auto
    show ?thesis
      unfolding rw_ok_def
    proof
      show "counts_ok l'"
        by (rule counts_okI) (use f(1-8) w True e rw_ok_waiters [OF ok] in \<open>simp_all add: l' n_type_def\<close>)
      show "\<forall>d \<in> set (debug_list l'). entry_ok l' d" using f(4) e True by (simp add: l' entry_ok_def f(6))
    qed
  qed
qed

text \<open>The debug entry a caller needs is there.\<close>

lemma x_lock_total:
  assumes "rw_ok l" and "writer l = RW_LOCK_WAIT_EX \<Longrightarrow> writer_thread l = t \<Longrightarrow> rw_pass l = pass"
  shows "\<exists>r l'. rw_lock_x_lock_low t pass l = Some (r, l')"
proof (cases "writer l = RW_LOCK_WAIT_EX \<and> writer_thread l = t \<and> reader_count l = 0")
  case True
  let ?l = "l\<lparr>writer := RW_LOCK_EX, writer_count := writer_count l + 1, rw_pass := pass, writer_is_wait_ex := False\<rparr>"
  have "n_type RW_LOCK_WAIT_EX l \<noteq> 0" using rw_okD(9) [OF assms(1)] True by simp
  then obtain d where d: "d \<in> set (debug_list l)" "dbg_type d = RW_LOCK_WAIT_EX" by (auto simp: n_type_0)
  then have "dbg_thread d = t" "dbg_pass d = pass" using assms True rw_okD(2) [OF assms(1) d(1)] by (auto simp: entry_ok_def)
  then have "dbg_match t pass RW_LOCK_WAIT_EX d" using d by (simp add: dbg_match_def)
  then obtain l1 where "rw_lock_remove_debug_info t pass RW_LOCK_WAIT_EX ?l = Some l1"
    using remove_info_total [of d ?l t pass RW_LOCK_WAIT_EX] d by auto
  then show ?thesis using True by (auto simp: rw_lock_x_lock_low_def)
qed (auto simp: rw_lock_x_lock_low_def)

end
