(* ===== verification/RwSys.thy ===== *)
theory RwSys
  imports RwLock
begin

text \<open>
  The read-write locks of \<open>RwLock\<close> under every interleaving of threads: who waits, who is woken.
\<close>

section \<open>Threads\<close>

text \<open>
  A call for a lock \<open>r\<close> with the pass value \<open>p\<close> is in shared or exclusive mode. \<open>Try\<close> is the first
  section under the lock's mutex, \<open>Spin\<close> the loop that waits for the \<open>writer\<close> field, or (if the flag is
  set) for \<open>reader_count\<close>, and \<open>Again\<close> the second section, which goes on as \<open>Reserve\<close>, \<open>Reset\<close> and
  \<open>Flag\<close> with the mutex held when the lock is not obtained. \<open>Signal\<close> and \<open>Count\<close> end an unlock that is
  to wake the waiters.
\<close>

datatype rw_mode = Shared | Exclusive

datatype rpc =
  R_idle
| Try rw_mode rw_ptr ulint
| Spin rw_mode bool rw_ptr ulint nat
| Again rw_mode rw_ptr ulint
| Reserve rw_mode rw_ptr ulint
| Reset rw_mode rw_ptr ulint nat
| Flag rw_mode rw_ptr ulint nat
| Wait_event rw_mode rw_ptr ulint nat
| Wait_low rw_mode rw_ptr ulint nat
| Waiting rw_mode rw_ptr ulint nat nat
| Free_cell rw_mode rw_ptr ulint nat
| Signal rw_ptr
| Count

text \<open>\<open>rw_mx r\<close> is the thread inside a section under the mutex of \<open>r\<close> that spans several steps.\<close>

record rw_sys =
  rws :: "rw_ptr \<Rightarrow> rw_lock"
  rw_mx :: "rw_ptr \<Rightarrow> thread_id option"
  rw_arr :: sync_array
  rpcs :: "thread_id \<Rightarrow> rpc"

datatype rw_outcome = Next rw_sys | Blocked | Failed

definition at_pc :: "thread_id \<Rightarrow> rpc \<Rightarrow> rw_sys \<Rightarrow> rw_sys" where
  "at_pc t p s = s\<lparr>rpcs := (rpcs s)(t := p)\<rparr>"

definition set_rw :: "rw_ptr \<Rightarrow> rw_lock \<Rightarrow> rw_sys \<Rightarrow> rw_sys" where
  "set_rw r l s = s\<lparr>rws := (rws s)(r := l)\<rparr>"

definition set_mx :: "rw_ptr \<Rightarrow> thread_id option \<Rightarrow> rw_sys \<Rightarrow> rw_sys" where
  "set_mx r own s = s\<lparr>rw_mx := (rw_mx s)(r := own)\<rparr>"

definition set_arr :: "sync_array \<Rightarrow> rw_sys \<Rightarrow> rw_sys" where
  "set_arr a s = s\<lparr>rw_arr := a\<rparr>"

definition request_of :: "rw_mode \<Rightarrow> ulint" where
  "request_of k = (case k of Shared \<Rightarrow> RW_LOCK_SHARED | Exclusive \<Rightarrow> RW_LOCK_EX)"

text \<open>The attempt to get the lock: the state that \<open>rw_lock_x_lock_low\<close> returns, for the shared mode the same values.\<close>

definition rw_attempt :: "rw_mode \<Rightarrow> thread_id \<Rightarrow> ulint \<Rightarrow> rw_lock \<Rightarrow> (ulint \<times> rw_lock) option" where
  "rw_attempt k t p l = (case k of
      Shared \<Rightarrow> Some (if fst (rw_lock_s_lock_low t p l) then RW_LOCK_EX else RW_LOCK_NOT_LOCKED,
                    snd (rw_lock_s_lock_low t p l))
    | Exclusive \<Rightarrow> rw_lock_x_lock_low t p l)"

text \<open>One step of a thread inside \<open>rw_lock_s_lock_func\<close>, \<open>rw_lock_s_lock_spin\<close> or \<open>rw_lock_x_lock_func\<close>.\<close>

definition rw_call_step :: "nat \<Rightarrow> thread_id \<Rightarrow> rw_sys \<Rightarrow> rw_outcome" where
  "rw_call_step rounds t s = (case rpcs s t of
      Try k r p \<Rightarrow>
        (if rw_mx s r \<noteq> None then Blocked
         else case rw_attempt k t p (rws s r) of
           None \<Rightarrow> Failed
         | Some (st, l) \<Rightarrow>
             Next (at_pc t (if st = RW_LOCK_EX then R_idle else Spin k (st = RW_LOCK_WAIT_EX) r p 0) (set_rw r l s)))
    | Spin k readers r p i \<Rightarrow>
        (if (if readers then reader_count (rws s r) \<noteq> 0 else writer (rws s r) \<noteq> RW_LOCK_NOT_LOCKED) \<and> i < rounds
         then Next (at_pc t (Spin k readers r p (i + 1)) s)
         else Next (at_pc t (Again k r p) s))
    | Again k r p \<Rightarrow>
        (if rw_mx s r \<noteq> None then Blocked
         else case rw_attempt k t p (rws s r) of
           None \<Rightarrow> Failed
         | Some (st, l) \<Rightarrow>
             if st = RW_LOCK_EX then Next (at_pc t R_idle (set_rw r l s))
             else Next (at_pc t (Reserve k r p) (set_mx r (Some t) (set_rw r l s))))
    | Reserve k r p \<Rightarrow>
        (case sync_array_reserve_cell (Rw_obj r) (request_of k) (rw_arr s) of
           None \<Rightarrow> Failed
         | Some (cell, arr) \<Rightarrow> Next (at_pc t (Reset k r p cell) (set_arr arr s)))
    | Reset k r p cell \<Rightarrow>
        (case os_event_reset (rw_event (rws s r)) of (count, e) \<Rightarrow>
           Next (at_pc t (Flag k r p cell)
             (set_rw r ((rws s r)\<lparr>rw_event := e\<rparr>) (set_arr (sync_cell_store cell count t (rw_arr s)) s))))
    | Flag k r p cell \<Rightarrow>
        Next (at_pc t (Wait_event k r p cell) (set_mx r None (set_rw r ((rws s r)\<lparr>rw_waiters := 1\<rparr>) s)))
    | Wait_event k r p cell \<Rightarrow>
        (case sync_array_wait_event cell (rw_arr s) of
           None \<Rightarrow> Failed
         | Some arr \<Rightarrow> Next (at_pc t (Wait_low k r p cell) (set_arr arr s)))
    | Wait_low k r p cell \<Rightarrow>
        Next (at_pc t (Waiting k r p cell
          (os_event_old_count (rw_event (rws s r)) (cell_count (cells (rw_arr s) ! cell)))) s)
    | Waiting k r p cell old \<Rightarrow>
        (if os_event_passes (rw_event (rws s r)) old then Next (at_pc t (Free_cell k r p cell) s) else Blocked)
    | Free_cell k r p cell \<Rightarrow>
        (case sync_array_free_cell cell (rw_arr s) of
           None \<Rightarrow> Failed
         | Some arr \<Rightarrow>
             Next (at_pc t (case k of Shared \<Rightarrow> Spin Shared False r p 0 | Exclusive \<Rightarrow> Try Exclusive r p) (set_arr arr s)))
    | Signal r \<Rightarrow> Next (at_pc t Count (set_rw r ((rws s r)\<lparr>rw_event := os_event_set (rw_event (rws s r))\<rparr>) s))
    | Count \<Rightarrow> Next (at_pc t R_idle (set_arr (sync_array_object_signalled (rw_arr s)) s))
    | _ \<Rightarrow> Blocked)"

text \<open>
  The steps of the system with \<open>n\<close> threads. An idle thread calls one of the functions; it does not
  request a shared latch it has, unlocks only what is locked (by itself, or passed), and moves the
  ownership only of a latch that was passed. The error monitor may signal the event at any time.
\<close>

inductive rw_sys_step :: "nat \<Rightarrow> nat \<Rightarrow> rw_sys \<Rightarrow> rw_sys \<Rightarrow> bool" for n rounds where
  s_lock: "t < n \<Longrightarrow> rpcs s t = R_idle \<Longrightarrow> \<not> rw_lock_own t RW_LOCK_SHARED (rws s r) \<Longrightarrow>
    rw_sys_step n rounds s (at_pc t (Try Shared r p) s)"
| x_lock: "t < n \<Longrightarrow> rpcs s t = R_idle \<Longrightarrow> rw_sys_step n rounds s (at_pc t (Try Exclusive r p) s)"
| s_nowait: "t < n \<Longrightarrow> rpcs s t = R_idle \<Longrightarrow> rw_mx s r = None \<Longrightarrow>
    rw_sys_step n rounds s (set_rw r (snd (rw_lock_s_lock_func_nowait t (rws s r))) s)"
| x_nowait: "t < n \<Longrightarrow> rpcs s t = R_idle \<Longrightarrow> rw_mx s r = None \<Longrightarrow>
    rw_sys_step n rounds s (set_rw r (snd (rw_lock_x_lock_func_nowait t (rws s r))) s)"
| s_unlock: "t < n \<Longrightarrow> rpcs s t = R_idle \<Longrightarrow> rw_mx s r = None \<Longrightarrow>
    rw_lock_s_unlock_func t p (rws s r) = Some (sg, l) \<Longrightarrow>
    rw_sys_step n rounds s (at_pc t (if sg then Signal r else R_idle) (set_rw r l s))"
| x_unlock: "t < n \<Longrightarrow> rpcs s t = R_idle \<Longrightarrow> rw_mx s r = None \<Longrightarrow>
    rw_lock_x_unlock_func t p (rws s r) = Some (sg, l) \<Longrightarrow>
    rw_sys_step n rounds s (at_pc t (if sg then Signal r else R_idle) (set_rw r l s))"
| move: "t < n \<Longrightarrow> rpcs s t = R_idle \<Longrightarrow> rw_mx s r = None \<Longrightarrow> writer (rws s r) = RW_LOCK_EX \<Longrightarrow>
    rw_pass (rws s r) \<noteq> 0 \<Longrightarrow>
    rw_sys_step n rounds s (set_rw r (rw_lock_x_lock_move_ownership t (rws s r)) s)"
| call: "t < n \<Longrightarrow> rw_call_step rounds t s = Next s' \<Longrightarrow> rw_sys_step n rounds s s'"
| monitor: "rw_sys_step n rounds s (set_rw r ((rws s r)\<lparr>rw_event := os_event_set (rw_event (rws s r))\<rparr>) s)"

definition rw_init :: "nat \<Rightarrow> rw_sys \<Rightarrow> bool" where
  "rw_init n s \<longleftrightarrow> (\<forall>r. \<exists>junk. rws s r = rw_lock_create_func junk) \<and> rw_mx s = (\<lambda>_. None) \<and> rpcs s = (\<lambda>_. R_idle) \<and>
     (\<exists>junk. length junk = n \<and> sync_array_create junk = Some (rw_arr s))"

inductive rw_reachable :: "nat \<Rightarrow> nat \<Rightarrow> rw_sys \<Rightarrow> bool" for n rounds where
  init: "rw_init n s \<Longrightarrow> rw_reachable n rounds s"
| step: "rw_reachable n rounds s \<Longrightarrow> rw_sys_step n rounds s s' \<Longrightarrow> rw_reachable n rounds s'"

lemma rw_fields [simp]:
  "rws (at_pc t p s) = rws s" "rw_mx (at_pc t p s) = rw_mx s" "rw_arr (at_pc t p s) = rw_arr s"
  "rpcs (at_pc t p s) = (rpcs s)(t := p)"
  "rws (set_rw r l s) = (rws s)(r := l)" "rw_mx (set_rw r l s) = rw_mx s" "rw_arr (set_rw r l s) = rw_arr s"
  "rpcs (set_rw r l s) = rpcs s"
  "rws (set_mx r ow s) = rws s" "rw_mx (set_mx r ow s) = (rw_mx s)(r := ow)" "rw_arr (set_mx r ow s) = rw_arr s"
  "rpcs (set_mx r ow s) = rpcs s"
  "rws (set_arr a s) = rws s" "rw_mx (set_arr a s) = rw_mx s" "rw_arr (set_arr a s) = a" "rpcs (set_arr a s) = rpcs s"
  by (simp_all add: at_pc_def set_rw_def set_mx_def set_arr_def)

section \<open>Invariants\<close>

lemma rw_call_cases [consumes 1, case_names attempt spin1 spin2 again1 again2 reserve reset flag wait low pass free signal signalled]:
  assumes "rw_call_step rounds t s = Next s'"
  obtains k r p st l where "rpcs s t = Try k r p" "rw_mx s r = None" "rw_attempt k t p (rws s r) = Some (st, l)"
      "s' = at_pc t (if st = RW_LOCK_EX then R_idle else Spin k (st = RW_LOCK_WAIT_EX) r p 0) (set_rw r l s)"
  | k readers r p i where "rpcs s t = Spin k readers r p i" "s' = at_pc t (Spin k readers r p (i + 1)) s"
  | k readers r p i where "rpcs s t = Spin k readers r p i" "s' = at_pc t (Again k r p) s"
  | k r p l where "rpcs s t = Again k r p" "rw_mx s r = None" "rw_attempt k t p (rws s r) = Some (RW_LOCK_EX, l)"
      "s' = at_pc t R_idle (set_rw r l s)"
  | k r p st l where "rpcs s t = Again k r p" "rw_mx s r = None" "rw_attempt k t p (rws s r) = Some (st, l)"
      "st \<noteq> RW_LOCK_EX" "s' = at_pc t (Reserve k r p) (set_mx r (Some t) (set_rw r l s))"
  | k r p cell arr where "rpcs s t = Reserve k r p"
      "sync_array_reserve_cell (Rw_obj r) (request_of k) (rw_arr s) = Some (cell, arr)"
      "s' = at_pc t (Reset k r p cell) (set_arr arr s)"
  | k r p cell where "rpcs s t = Reset k r p cell"
      "s' = at_pc t (Flag k r p cell) (set_rw r ((rws s r)\<lparr>rw_event := snd (os_event_reset (rw_event (rws s r)))\<rparr>)
         (set_arr (sync_cell_store cell (signal_count (rw_event (rws s r))) t (rw_arr s)) s))"
  | k r p cell where "rpcs s t = Flag k r p cell"
      "s' = at_pc t (Wait_event k r p cell) (set_mx r None (set_rw r ((rws s r)\<lparr>rw_waiters := 1\<rparr>) s))"
  | k r p cell arr where "rpcs s t = Wait_event k r p cell" "sync_array_wait_event cell (rw_arr s) = Some arr"
      "s' = at_pc t (Wait_low k r p cell) (set_arr arr s)"
  | k r p cell where "rpcs s t = Wait_low k r p cell"
      "s' = at_pc t (Waiting k r p cell (os_event_old_count (rw_event (rws s r)) (cell_count (cells (rw_arr s) ! cell)))) s"
  | k r p cell old where "rpcs s t = Waiting k r p cell old" "os_event_passes (rw_event (rws s r)) old"
      "s' = at_pc t (Free_cell k r p cell) s"
  | k r p cell arr where "rpcs s t = Free_cell k r p cell" "sync_array_free_cell cell (rw_arr s) = Some arr"
      "s' = at_pc t (case k of Shared \<Rightarrow> Spin Shared False r p 0 | Exclusive \<Rightarrow> Try Exclusive r p) (set_arr arr s)"
  | r where "rpcs s t = Signal r"
      "s' = at_pc t Count (set_rw r ((rws s r)\<lparr>rw_event := os_event_set (rw_event (rws s r))\<rparr>) s)"
  | "rpcs s t = Count" "s' = at_pc t R_idle (set_arr (sync_array_object_signalled (rw_arr s)) s)"
proof (cases "rpcs s t")
  case R_idle
  then show ?thesis using assms by (simp add: rw_call_step_def)
next
  case (Try k r p)
  then show ?thesis using assms that(1) by (simp add: rw_call_step_def split: if_splits option.splits prod.splits)
next
  case (Spin k readers r p i)
  then show ?thesis using assms that(2,3) by (simp add: rw_call_step_def split: if_splits)
next
  case (Again k r p)
  then show ?thesis using assms that(4,5)
    by (simp add: rw_call_step_def split: if_splits option.splits prod.splits)
next
  case (Reserve k r p)
  then show ?thesis using assms that(6) by (simp add: rw_call_step_def split: option.splits prod.splits)
next
  case (Reset k r p cell)
  then show ?thesis using assms that(7) by (simp add: rw_call_step_def case_prod_unfold)
next
  case (Flag k r p cell)
  then show ?thesis using assms that(8) by (simp add: rw_call_step_def)
next
  case (Wait_event k r p cell)
  then show ?thesis using assms that(9) by (simp add: rw_call_step_def split: option.splits)
next
  case (Wait_low k r p cell)
  then show ?thesis using assms that(10) by (simp add: rw_call_step_def)
next
  case (Waiting k r p cell old)
  then show ?thesis using assms that(11) by (simp add: rw_call_step_def split: if_splits)
next
  case (Free_cell k r p cell)
  then show ?thesis using assms that(12) by (simp add: rw_call_step_def split: option.splits)
next
  case (Signal r)
  then show ?thesis using assms that(13) by (simp add: rw_call_step_def)
next
  case Count
  then show ?thesis using assms that(14) by (simp add: rw_call_step_def)
qed

text \<open>The call a thread is in, whether it is in the section that reserves a cell, and its cell.\<close>

fun call_of :: "rpc \<Rightarrow> (rw_mode \<times> rw_ptr \<times> ulint) option" where
  "call_of (Try k r p) = Some (k, r, p)"
| "call_of (Spin k readers r p i) = Some (k, r, p)"
| "call_of (Again k r p) = Some (k, r, p)"
| "call_of (Reserve k r p) = Some (k, r, p)"
| "call_of (Reset k r p cell) = Some (k, r, p)"
| "call_of (Flag k r p cell) = Some (k, r, p)"
| "call_of (Wait_event k r p cell) = Some (k, r, p)"
| "call_of (Wait_low k r p cell) = Some (k, r, p)"
| "call_of (Waiting k r p cell old) = Some (k, r, p)"
| "call_of (Free_cell k r p cell) = Some (k, r, p)"
| "call_of _ = None"

fun in_section :: "rpc \<Rightarrow> (rw_mode \<times> rw_ptr) option" where
  "in_section (Reserve k r p) = Some (k, r)"
| "in_section (Reset k r p cell) = Some (k, r)"
| "in_section (Flag k r p cell) = Some (k, r)"
| "in_section _ = None"

fun rw_use :: "rpc \<Rightarrow> cell_use option" where
  "rw_use (Reset k r p cell) = Some \<lparr>use_obj = Rw_obj r, use_type = request_of k, use_cell = cell, use_parked = False\<rparr>"
| "rw_use (Flag k r p cell) = Some \<lparr>use_obj = Rw_obj r, use_type = request_of k, use_cell = cell, use_parked = False\<rparr>"
| "rw_use (Wait_event k r p cell) = Some \<lparr>use_obj = Rw_obj r, use_type = request_of k, use_cell = cell, use_parked = False\<rparr>"
| "rw_use (Wait_low k r p cell) = Some \<lparr>use_obj = Rw_obj r, use_type = request_of k, use_cell = cell, use_parked = True\<rparr>"
| "rw_use (Waiting k r p cell old) = Some \<lparr>use_obj = Rw_obj r, use_type = request_of k, use_cell = cell, use_parked = True\<rparr>"
| "rw_use (Free_cell k r p cell) = Some \<lparr>use_obj = Rw_obj r, use_type = request_of k, use_cell = cell, use_parked = True\<rparr>"
| "rw_use _ = None"

lemma free_target [simp]:
  "call_of (case k of Shared \<Rightarrow> Spin Shared False r p 0 | Exclusive \<Rightarrow> Try Exclusive r p) = Some (k, r, p)"
  "in_section (case k of Shared \<Rightarrow> Spin Shared False r p 0 | Exclusive \<Rightarrow> Try Exclusive r p) = None"
  "rw_use (case k of Shared \<Rightarrow> Spin Shared False r p 0 | Exclusive \<Rightarrow> Try Exclusive r p) = None"
  by (cases k; simp)+

subsection \<open>The locks stay consistent\<close>

lemma rw_ok_fields: "rw_ok l \<Longrightarrow> rw_ok (l\<lparr>rw_event := e\<rparr>)" "rw_ok l \<Longrightarrow> rw_ok (l\<lparr>rw_waiters := 1\<rparr>)"
  by (auto simp: rw_ok_def counts_ok_def rw_lock_validate_def entry_ok_def)

lemma rw_ok_attempt: "rw_ok l \<Longrightarrow> rw_attempt k t p l = Some (st, l') \<Longrightarrow> rw_ok l'"
  using rw_ok_s_lock [of l t p] rw_ok_x_lock [of l t p] by (cases k) (auto simp: rw_attempt_def)

lemma rw_ok_step: "rw_sys_step n rounds s s' \<Longrightarrow> \<forall>r. rw_ok (rws s r) \<Longrightarrow> rw_ok (rws s' r)"
proof (induction rule: rw_sys_step.induct)
  case (call t s s')
  from call(2) show ?case
    by (cases rule: rw_call_cases) (use call(3) rw_ok_fields in \<open>auto dest: rw_ok_attempt [rotated]\<close>)
qed (auto simp: nowait_is_low rw_ok_s_lock rw_ok_x_nowait rw_ok_move rw_ok_fields dest: rw_ok_s_unlock rw_ok_x_unlock)

lemma rw_ok_reachable: "rw_reachable n rounds s \<Longrightarrow> rw_ok (rws s r)"
proof (induction arbitrary: r rule: rw_reachable.induct)
  case (init s)
  then show ?case using rw_ok_create unfolding rw_init_def by metis
next
  case (step s s')
  then show ?case using rw_ok_step by blast
qed

text \<open>
  C9: shared and exclusive latches exclude each other. In every state reachable by any interleaving of
  lock, unlock, nowait and ownership-moving calls, the checks of \<open>rw_lock_validate\<close> hold for every lock;
  nobody holds a shared latch while somebody holds an exclusive one; and two exclusive latches that
  were not passed on are held by the same thread.
\<close>

theorem rw_lock_exclusion:
  assumes "rw_reachable n rounds s"
  shows "rw_lock_validate (rws s r) \<and>
    \<not> (rw_lock_own t RW_LOCK_SHARED (rws s r) \<and> rw_lock_own u RW_LOCK_EX (rws s r)) \<and>
    (rw_lock_own t RW_LOCK_EX (rws s r) \<and> rw_lock_own u RW_LOCK_EX (rws s r) \<longrightarrow> t = u)"
proof (intro conjI notI impI)
  note ok = rw_ok_reachable [OF assms, of r]
  show "rw_lock_validate (rws s r)" by (rule rw_okD(3) [OF ok])
  have ex: "writer (rws s r) = RW_LOCK_EX" "writer_thread (rws s r) = v" if o: "rw_lock_own v RW_LOCK_EX (rws s r)" for v
  proof -
    obtain e where e: "e \<in> set (debug_list (rws s r))" "dbg_type e = RW_LOCK_EX" "dbg_thread e = v" "dbg_pass e = 0"
      using o unfolding rw_lock_own_def by blast
    then show "writer (rws s r) = RW_LOCK_EX" using rw_okD(5,6,10) [OF ok] by fastforce
    show "writer_thread (rws s r) = v" using rw_okD(2) [OF ok e(1)] e by (simp add: entry_ok_def)
  qed
  show False if own: "rw_lock_own t RW_LOCK_SHARED (rws s r) \<and> rw_lock_own u RW_LOCK_EX (rws s r)"
  proof -
    obtain d where "d \<in> set (debug_list (rws s r))" "dbg_type d = RW_LOCK_SHARED"
      using own unfolding rw_lock_own_def by blast
    then have "reader_count (rws s r) > 0" using rw_okD(4,10) [OF ok] by fastforce
    then show False using rw_okD(7) [OF ok] ex(1) [of u] own by simp
  qed
  show "t = u" if "rw_lock_own t RW_LOCK_EX (rws s r) \<and> rw_lock_own u RW_LOCK_EX (rws s r)"
    using ex(2) that by blast
qed

subsection \<open>Sections, waiting writers and cells\<close>

lemma remove_info_keep:
  assumes "rw_lock_remove_debug_info t p type l = Some l'"
  shows "rw_event l' = rw_event l \<and> reader_count l' = reader_count l \<and> writer l' = writer l \<and>
    writer_thread l' = writer_thread l \<and> writer_count l' = writer_count l \<and> rw_pass l' = rw_pass l \<and>
    rw_waiters l' = rw_waiters l"
  using remove_info_fields [OF assms] by simp

text \<open>What an attempt does to the fields other than the debug list.\<close>

lemma attempt_event: "rw_attempt k t p l = Some (st, l') \<Longrightarrow> rw_event l' = rw_event l \<and> rw_waiters l' = rw_waiters l"
  by (cases k) (auto simp: rw_attempt_def rw_lock_s_lock_low_def rw_lock_x_lock_low_def split: if_splits
      dest!: remove_info_keep)

text \<open>The writer that waits for the readers is inside its call for the lock.\<close>

definition writer_inv :: "rw_sys \<Rightarrow> bool" where
  "writer_inv s \<longleftrightarrow> (\<forall>r. writer (rws s r) = RW_LOCK_WAIT_EX \<longrightarrow>
     call_of (rpcs s (writer_thread (rws s r))) = Some (Exclusive, r, rw_pass (rws s r)))"

text \<open>How the writer fields change: an attempt ends the call, or leaves the lock to a waiting writer.\<close>

lemma attempt_writer:
  assumes "rw_attempt k t p l = Some (st, l')"
  shows "writer l' = RW_LOCK_WAIT_EX \<Longrightarrow>
     st \<noteq> RW_LOCK_EX \<and> k = Exclusive \<and> writer_thread l' = t \<and> rw_pass l' = p \<and> writer l \<noteq> RW_LOCK_WAIT_EX \<or> l' = l \<and>
       (writer_thread l = t \<longrightarrow> st \<noteq> RW_LOCK_EX \<or> k = Shared)"
  using assms
  by (cases k) (auto simp: rw_attempt_def rw_lock_s_lock_low_def rw_lock_x_lock_low_def split: if_splits
      dest!: remove_info_keep)

lemma s_attempt_wait: "writer l = RW_LOCK_WAIT_EX \<Longrightarrow> rw_attempt Shared t p l = Some (RW_LOCK_NOT_LOCKED, l)"
  by (simp add: rw_attempt_def rw_lock_s_lock_low_def)

lemma unlock_writer:
  "rw_lock_s_unlock_func t p l = Some (sg, l') \<Longrightarrow>
     writer l' = writer l \<and> writer_thread l' = writer_thread l \<and> rw_pass l' = rw_pass l \<and> rw_event l' = rw_event l \<and>
     reader_count l' = reader_count l - 1 \<and> (sg \<longrightarrow> rw_waiters l \<noteq> 0 \<and> rw_waiters l' = 0) \<and>
     (\<not> sg \<longrightarrow> rw_waiters l' = rw_waiters l \<and> (rw_waiters l = 0 \<or> reader_count l' \<noteq> 0))"
  "rw_lock_x_unlock_func t p l = Some (sg, l') \<Longrightarrow>
     writer l' = (if writer_count l \<le> 1 then RW_LOCK_NOT_LOCKED else writer l) \<and>
     writer_thread l' = writer_thread l \<and> rw_pass l' = rw_pass l \<and> rw_event l' = rw_event l \<and>
     reader_count l' = reader_count l \<and> (sg \<longrightarrow> rw_waiters l \<noteq> 0 \<and> rw_waiters l' = 0) \<and>
     (\<not> sg \<longrightarrow> rw_waiters l' = rw_waiters l \<and> (rw_waiters l = 0 \<or> writer l' = writer l))"
proof -
  show "rw_lock_s_unlock_func t p l = Some (sg, l') \<Longrightarrow> writer l' = writer l \<and> writer_thread l' = writer_thread l \<and> rw_pass l' = rw_pass l \<and> rw_event l' = rw_event l \<and>
     reader_count l' = reader_count l - 1 \<and> (sg \<longrightarrow> rw_waiters l \<noteq> 0 \<and> rw_waiters l' = 0) \<and>
     (\<not> sg \<longrightarrow> rw_waiters l' = rw_waiters l \<and> (rw_waiters l = 0 \<or> reader_count l' \<noteq> 0))"
    by (auto simp: rw_lock_s_unlock_func_def split: if_splits dest!: remove_info_keep)
  assume "rw_lock_x_unlock_func t p l = Some (sg, l')"
  then obtain l1 where r: "rw_lock_remove_debug_info t p RW_LOCK_EX (take_writer l) = Some l1"
    and l': "(sg, l') = (if rw_waiters l1 \<noteq> 0 \<and> writer_count l1 = 0 then (True, l1\<lparr>rw_waiters := 0\<rparr>) else (False, l1))"
    by (auto simp: rw_lock_x_unlock_func_def)
  note f = remove_info_fields [OF r]
  have tw: "rw_event (take_writer l) = rw_event l" "writer_count (take_writer l) = writer_count l - 1"
    "writer (take_writer l) = (if writer_count l \<le> 1 then RW_LOCK_NOT_LOCKED else writer l)"
    "writer_thread (take_writer l) = writer_thread l" "rw_pass (take_writer l) = rw_pass l"
    "reader_count (take_writer l) = reader_count l" "rw_waiters (take_writer l) = rw_waiters l"
    by (auto simp: take_writer_def Let_def)
  show "writer l' = (if writer_count l \<le> 1 then RW_LOCK_NOT_LOCKED else writer l) \<and>
     writer_thread l' = writer_thread l \<and> rw_pass l' = rw_pass l \<and> rw_event l' = rw_event l \<and>
     reader_count l' = reader_count l \<and> (sg \<longrightarrow> rw_waiters l \<noteq> 0 \<and> rw_waiters l' = 0) \<and>
     (\<not> sg \<longrightarrow> rw_waiters l' = rw_waiters l \<and> (rw_waiters l = 0 \<or> writer l' = writer l))"
    using l' f(1-7) unfolding tw by (auto split: if_splits)
qed

lemma x_unlock_ex:
  assumes "rw_ok l" and "rw_lock_x_unlock_func t p l = Some (sg, l')"
  shows "writer l = RW_LOCK_EX"
proof -
  obtain l1 where r: "rw_lock_remove_debug_info t p RW_LOCK_EX (take_writer l) = Some l1"
    using assms(2) by (auto simp: rw_lock_x_unlock_func_def)
  have "n_type RW_LOCK_EX (take_writer l) > 0" using n_type_remove [OF r, of RW_LOCK_EX] by simp
  then have "n_type RW_LOCK_EX l > 0" by (simp add: n_type_def take_writer_def Let_def split: if_splits)
  then show ?thesis using rw_okD(5,6) [OF assms(1)] by simp
qed

lemma writer_inv_attempt:
  assumes inv: "writer_inv s" and c: "call_of (rpcs s t) = Some (k, r, p)"
    and at: "rw_attempt k t p (rws s r) = Some (st, l)" and p': "st \<noteq> RW_LOCK_EX \<longrightarrow> call_of p' = Some (k, r, p)"
    and s': "rws s' = (rws s)(r := l)" "rpcs s' = (rpcs s)(t := p')"
  shows "writer_inv s'"
  unfolding writer_inv_def
proof (intro allI impI)
  fix x assume w: "writer (rws s' x) = RW_LOCK_WAIT_EX"
  have i: "call_of (rpcs s (writer_thread (rws s x))) = Some (Exclusive, x, rw_pass (rws s x))"
    if "writer (rws s x) = RW_LOCK_WAIT_EX" using inv that by (simp add: writer_inv_def)
  show "call_of (rpcs s' (writer_thread (rws s' x))) = Some (Exclusive, x, rw_pass (rws s' x))"
  proof (cases "x = r")
    case False
    then have "writer (rws s x) = RW_LOCK_WAIT_EX" using w s' by simp
    moreover from i [OF this] have "writer_thread (rws s x) \<noteq> t" using c False by auto
    ultimately show ?thesis using i s' False by simp
  next
    case True
    then have wl: "writer l = RW_LOCK_WAIT_EX" using w s' by simp
    from attempt_writer [OF at wl] show ?thesis
    proof
      assume "st \<noteq> RW_LOCK_EX \<and> k = Exclusive \<and> writer_thread l = t \<and> rw_pass l = p \<and> writer (rws s r) \<noteq> RW_LOCK_WAIT_EX"
      then show ?thesis using p' s' True by simp
    next
      assume l: "l = rws s r \<and> (writer_thread (rws s r) = t \<longrightarrow> st \<noteq> RW_LOCK_EX \<or> k = Shared)"
      then have ii: "call_of (rpcs s (writer_thread (rws s r))) = Some (Exclusive, r, rw_pass (rws s r))"
        using i wl True by simp
      show ?thesis
      proof (cases "writer_thread (rws s r) = t")
        case t: True
        then show ?thesis using ii c l p' s' True by auto
      qed (use ii l s' True in simp)
    qed
  qed
qed

lemma writer_inv_same:
  assumes inv: "writer_inv s" and "call_of p' = call_of (rpcs s t)" and "rpcs s' = (rpcs s)(t := p')"
    and same: "\<And>x. writer (rws s' x) = writer (rws s x)" "\<And>x. writer_thread (rws s' x) = writer_thread (rws s x)"
      "\<And>x. rw_pass (rws s' x) = rw_pass (rws s x)"
  shows "writer_inv s'"
  using inv assms(2,3) by (auto simp: writer_inv_def same)

lemma writer_inv_step:
  assumes ok: "\<And>r. rw_ok (rws s r)" and inv: "writer_inv s" and "rw_sys_step n rounds s s'"
  shows "writer_inv s'"
proof -
  have i: "call_of (rpcs s (writer_thread (rws s r))) = Some (Exclusive, r, rw_pass (rws s r))"
    if "writer (rws s r) = RW_LOCK_WAIT_EX" for r
    using inv that by (simp add: writer_inv_def)
  have idle: "writer_thread (rws s r) \<noteq> t" if "writer (rws s r) = RW_LOCK_WAIT_EX" "rpcs s t = R_idle" for r t
    using i [OF that(1)] that(2) by auto
  show ?thesis using assms(3)
  proof cases
    case (call t)
    from call(2) show ?thesis
    proof (cases rule: rw_call_cases)
      case (attempt k r p st l)
      show ?thesis
        by (rule writer_inv_attempt [OF inv _ attempt(3)]) (use attempt in \<open>simp_all split: if_splits\<close>)
    next
      case (again1 k r p l)
      show ?thesis by (rule writer_inv_attempt [OF inv _ again1(3)]) (use again1 in simp_all)
    next
      case (again2 k r p st l)
      show ?thesis by (rule writer_inv_attempt [OF inv _ again2(3)]) (use again2 in simp_all)
    next
      case (free k r p cell arr)
      show ?thesis unfolding free(3) by (rule writer_inv_same [OF inv]) (use free(1) in simp_all)
    qed (simp_all, (rule writer_inv_same [OF inv, where t = t]; simp)+)
  next
    case (s_unlock t r p sg l)
    then show ?thesis using i idle [OF _ s_unlock(3)] unlock_writer(1) [OF s_unlock(5)] by (auto simp: writer_inv_def)
  next
    case (x_unlock t r p sg l)
    then show ?thesis using i idle [OF _ x_unlock(3)] unlock_writer(2) [OF x_unlock(5)] x_unlock_ex [OF ok x_unlock(5)]
      by (auto simp: writer_inv_def)
  next
    case (s_nowait t r)
    then show ?thesis using i by (auto simp: writer_inv_def rw_lock_s_lock_func_nowait_def)
  next
    case (x_nowait t r)
    then show ?thesis using i by (auto simp: writer_inv_def rw_lock_x_lock_func_nowait_def)
  next
    case (move t r)
    then show ?thesis using i by (auto simp: writer_inv_def rw_lock_x_lock_move_ownership_def)
  qed (use i idle in \<open>auto simp: writer_inv_def\<close>)
qed

text \<open>The mutex of a lock is held over several steps exactly by the thread that is in its section.\<close>

definition section_inv :: "rw_sys \<Rightarrow> bool" where
  "section_inv s \<longleftrightarrow> (\<forall>r t. rw_mx s r = Some t \<longleftrightarrow> (\<exists>k. in_section (rpcs s t) = Some (k, r)))"

lemma section_inv_step:
  assumes inv: "section_inv s" and "rw_sys_step n rounds s s'"
  shows "section_inv s'"
  unfolding section_inv_def
proof (intro allI)
  fix r u
  have i: "rw_mx s r = Some t \<longleftrightarrow> (\<exists>k. in_section (rpcs s t) = Some (k, r))" for r t
    using inv by (simp add: section_inv_def)
  show "rw_mx s' r = Some u \<longleftrightarrow> (\<exists>k. in_section (rpcs s' u) = Some (k, r))"
    using assms(2)
  proof cases
    case (call t)
    from call(2) show ?thesis
      by (cases rule: rw_call_cases) (use i [of r u] i [of r t] in \<open>auto split: if_splits\<close>)
  qed (use i [of r u] in \<open>auto split: if_splits\<close>)
qed

subsection \<open>Cells\<close>

definition rw_view :: "rw_sys \<Rightarrow> thread_id \<Rightarrow> cell_use option" where
  "rw_view s t = rw_use (rpcs s t)"

lemma rw_view_simps [simp]:
  "rw_view (at_pc t p s) = (rw_view s)(t := rw_use p)" "rw_view (set_rw r l s) = rw_view s"
  "rw_view (set_mx r ow s) = rw_view s" "rw_view (set_arr a s) = rw_view s"
  by (auto simp: rw_view_def)

definition rw_cells :: "nat \<Rightarrow> rw_sys \<Rightarrow> bool" where
  "rw_cells n s \<longleftrightarrow> users_ok n (rw_arr s) (rw_view s) \<and> (\<forall>t \<ge> n. rpcs s t = R_idle)"

lemma rw_cells_same:
  assumes "rw_cells n s" and "t < n" and "rw_use p = rw_use (rpcs s t)" and "rw_arr s' = rw_arr s" and "rpcs s' = rpcs s"
  shows "rw_cells n (at_pc t p s')"
proof -
  have "rw_view (at_pc t p s') = rw_view s" using assms(3,5) by (auto simp: rw_view_def)
  then show ?thesis using assms by (simp add: rw_cells_def)
qed

lemma rw_cells_arr:
  assumes "rw_cells n s" and "t < n" and "users_ok n arr ((rw_view s)(t := rw_use p))"
    and "rw_arr s' = arr" and "rpcs s' = rpcs s"
  shows "rw_cells n (at_pc t p s')"
proof -
  have "rw_view (at_pc t p s') = (rw_view s)(t := rw_use p)" using assms(5) by (auto simp: rw_view_def)
  then show ?thesis using assms by (simp add: rw_cells_def)
qed

lemma rw_cells_step:
  assumes inv: "rw_cells n s" and "rw_sys_step n rounds s s'"
  shows "rw_cells n s'"
  using assms(2)
proof cases
  case (call t)
  have ok: "users_ok n (rw_arr s) (rw_view s)" using inv by (simp add: rw_cells_def)
  note same = rw_cells_same [OF inv call(1)] and arr = rw_cells_arr [OF inv call(1)]
  have v: "rw_view s t = rw_use (rpcs s t)" by (simp add: rw_view_def)
  from call(2) show ?thesis
  proof (cases rule: rw_call_cases)
    case (reserve k r p cell a)
    show ?thesis unfolding reserve(3)
      by (rule arr) (use users_take [OF ok _ call(1) reserve(2)] v reserve(1) in simp_all)
  next
    case (reset k r p cell)
    have u: "rw_view s t = Some \<lparr>use_obj = Rw_obj r, use_type = request_of k, use_cell = cell, use_parked = False\<rparr>"
      using v reset(1) by simp
    show ?thesis unfolding reset(2)
      by (rule arr) (use users_store(1) [OF ok u] u in \<open>simp_all add: fun_upd_idem\<close>)
  next
    case (wait k r p cell a)
    have u: "rw_view s t = Some \<lparr>use_obj = Rw_obj r, use_type = request_of k, use_cell = cell, use_parked = False\<rparr>"
      using v wait(1) by simp
    show ?thesis unfolding wait(3)
      by (rule arr) (use users_wait [OF ok u] wait(2) in simp_all)
  next
    case (free k r p cell a)
    have u: "rw_view s t = Some \<lparr>use_obj = Rw_obj r, use_type = request_of k, use_cell = cell, use_parked = True\<rparr>"
      using v free(1) by simp
    show ?thesis unfolding free(3)
      by (rule arr) (use users_free(1) [OF ok u] free(2) in simp_all)
  next
    case signalled
    have "(rw_view s)(t := None) = rw_view s" using v signalled(1) by auto
    then show ?thesis unfolding signalled(2)
      by (intro arr) (use users_signalled [OF ok] in simp_all)
  qed (use same in simp_all)
next
  case (s_lock t r p)
  then show ?thesis using rw_cells_same [OF inv, of t "Try Shared r p" s] by simp
next
  case (x_lock t r p)
  then show ?thesis using rw_cells_same [OF inv, of t "Try Exclusive r p" s] by simp
next
  case (s_unlock t r p sg l)
  then show ?thesis using rw_cells_same [OF inv, of t "if sg then Signal r else R_idle" "set_rw r l s"] by simp
next
  case (x_unlock t r p sg l)
  then show ?thesis using rw_cells_same [OF inv, of t "if sg then Signal r else R_idle" "set_rw r l s"] by simp
qed (use inv in \<open>simp_all add: rw_cells_def\<close>)

lemma rw_other_cells:
  assumes inv: "rw_cells n s" and "rw_call_step rounds t s = Next s'" and "u \<noteq> t" and u: "rw_use (rpcs s u) = Some x"
  shows "cells (rw_arr s') ! use_cell x = cells (rw_arr s) ! use_cell x"
proof -
  have ok: "users_ok n (rw_arr s) (rw_view s)" using inv by (simp add: rw_cells_def)
  have vu: "rw_view s u = Some x" using u by (simp add: rw_view_def)
  have vt: "rw_view s t = rw_use (rpcs s t)" by (simp add: rw_view_def)
  have len: "use_cell x < length (cells (rw_arr s))" using users_okD(2,5) [OF ok] vu by auto
  have ne: "use_cell y \<noteq> use_cell x" if "rw_use (rpcs s t) = Some y" for y
    using users_okD(7) [OF ok, of t y u x] that vu vt assms(3) by auto
  from assms(2) show ?thesis
  proof (cases rule: rw_call_cases)
    case (reserve k r p cell a)
    then show ?thesis
      using reserve_cells(7) [OF users_okD(1) [OF ok] reserve(2), of t u "use_cell x"] vu vt by simp
  next
    case (free k r p cell a)
    then show ?thesis using users_free(2) [OF ok _ _ assms(3) vu] vt by simp
  next
    case (reset k r p cell)
    then show ?thesis using ne len by (simp add: sync_cell_store_def)
  next
    case (wait k r p cell a)
    then show ?thesis using ne len by (auto simp: sync_array_wait_event_def split: option.splits if_splits)
  next
    case signalled
    then show ?thesis by (simp add: sync_array_object_signalled_def)
  qed simp_all
qed

subsection \<open>Counts\<close>

text \<open>The count of the event's reset with which a thread will wait for a lock.\<close>

fun rw_waits :: "rpc \<Rightarrow> sync_cell list \<Rightarrow> (rw_mode \<times> rw_ptr \<times> nat) option" where
  "rw_waits (Flag k r p i) cs = Some (k, r, cell_count (cs ! i))"
| "rw_waits (Wait_event k r p i) cs = Some (k, r, cell_count (cs ! i))"
| "rw_waits (Wait_low k r p i) cs = Some (k, r, cell_count (cs ! i))"
| "rw_waits (Waiting k r p i old) cs = Some (k, r, old)"
| "rw_waits _ cs = None"

lemma rw_waits_target [simp]:
  "rw_waits (case k of Shared \<Rightarrow> Spin Shared False r p 0 | Exclusive \<Rightarrow> Try Exclusive r p) cs = None"
  by (cases k) simp_all

definition rw_counts :: "rw_sys \<Rightarrow> bool" where
  "rw_counts s \<longleftrightarrow> (\<forall>r. event_ok (rw_event (rws s r))) \<and>
     (\<forall>t k r c. rw_waits (rpcs s t) (cells (rw_arr s)) = Some (k, r, c) \<longrightarrow> count_fresh (rw_event (rws s r)) c)"

lemma rw_countsD:
  assumes "rw_counts s"
  shows "event_ok (rw_event (rws s r))"
    "rw_waits (rpcs s t) (cells (rw_arr s)) = Some (k, r, c) \<Longrightarrow> count_fresh (rw_event (rws s r)) c"
  using assms by (auto simp: rw_counts_def)

lemma rw_waits_cong:
  assumes "\<And>x. rw_use p = Some x \<Longrightarrow> cells a' ! use_cell x = cells a ! use_cell x"
  shows "rw_waits p (cells a') = rw_waits p (cells a)"
  using assms by (cases "(p, cells a)" rule: rw_waits.cases) auto

lemma rw_call_other:
  assumes "rw_call_step rounds t s = Next s'" and "u \<noteq> t"
  shows "rpcs s' u = rpcs s u"
  using assms by (cases rule: rw_call_cases) simp_all

lemma rw_waits_other:
  assumes "rw_cells n s" and "rw_call_step rounds t s = Next s'" and "u \<noteq> t"
  shows "rw_waits (rpcs s' u) (cells (rw_arr s')) = rw_waits (rpcs s u) (cells (rw_arr s))"
  unfolding rw_call_other [OF assms(2,3)] by (rule rw_waits_cong) (rule rw_other_cells [OF assms])

lemma rw_call_event:
  assumes "rw_call_step rounds t s = Next s'"
  shows "rw_event (rws s' r) = rw_event (rws s r) \<or> rw_event (rws s' r) = snd (os_event_reset (rw_event (rws s r))) \<or>
    rw_event (rws s' r) = os_event_set (rw_event (rws s r)) \<and> rpcs s t = Signal r"
  using assms by (cases rule: rw_call_cases) (auto dest: attempt_event)

text \<open>The steps of idle threads and of the monitor leave the waiting threads and their events, or signal.\<close>

lemma rw_idle_step:
  assumes "rw_sys_step n rounds s s'"
  obtains t where "t < n" "rw_call_step rounds t s = Next s'"
  | r where "s' = set_rw r ((rws s r)\<lparr>rw_event := os_event_set (rw_event (rws s r))\<rparr>) s"
  | t p where "rpcs s t = R_idle" "rpcs s' = (rpcs s)(t := p)" "rw_arr s' = rw_arr s" "rw_mx s' = rw_mx s"
      "rw_waits p (cells (rw_arr s)) = None" "in_section p = None"
      "\<And>r. rw_event (rws s' r) = rw_event (rws s r)"
      "\<And>r. rws s' r = rws s r \<or> rw_mx s r = None"
      "\<And>r. rws s' r = rws s r \<or>
        (\<exists>q. rw_lock_s_lock_func_nowait t (rws s r) = (q, rws s' r)) \<or>
        (\<exists>q. rw_lock_x_lock_func_nowait t (rws s r) = (q, rws s' r)) \<or>
        (\<exists>x sg. rw_lock_s_unlock_func t x (rws s r) = Some (sg, rws s' r) \<and> (sg \<longrightarrow> p = Signal r)) \<or>
        (\<exists>x sg. rw_lock_x_unlock_func t x (rws s r) = Some (sg, rws s' r) \<and> (sg \<longrightarrow> p = Signal r)) \<or>
        writer (rws s r) = RW_LOCK_EX \<and> rws s' r = rw_lock_x_lock_move_ownership t (rws s r)"
  using assms
proof cases
  case (s_lock t r p)
  then show ?thesis using that(3) [of t "Try Shared r p"] by simp
next
  case (x_lock t r p)
  then show ?thesis using that(3) [of t "Try Exclusive r p"] by simp
next
  case (s_nowait t r)
  show ?thesis
    by (rule that(3) [of t R_idle])
      (use s_nowait in \<open>auto simp: prod_eq_iff rw_lock_s_lock_func_nowait_def\<close>)
next
  case (x_nowait t r)
  show ?thesis
    by (rule that(3) [of t R_idle])
      (use x_nowait in \<open>auto simp: prod_eq_iff rw_lock_x_lock_func_nowait_def\<close>)
next
  case (s_unlock t r p sg l)
  show ?thesis
    by (rule that(3) [of t "if sg then Signal r else R_idle"])
      (use s_unlock unlock_writer(1) [OF s_unlock(5)] in auto)
next
  case (x_unlock t r p sg l)
  show ?thesis
    by (rule that(3) [of t "if sg then Signal r else R_idle"])
      (use x_unlock unlock_writer(2) [OF x_unlock(5)] in auto)
next
  case (move t r)
  show ?thesis
    by (rule that(3) [of t R_idle])
      (use move in \<open>auto simp: rw_lock_x_lock_move_ownership_def\<close>)
next
  case (call t)
  then show ?thesis using that(1) by blast
next
  case (monitor r)
  then show ?thesis using that(2) by blast
qed

lemma rw_counts_step:
  assumes cell: "rw_cells n s" and inv: "rw_counts s" and "rw_sys_step n rounds s s'"
  shows "rw_counts s'"
  using assms(3)
proof (cases rule: rw_idle_step)
  case (2 r)
  then show ?thesis using inv by (auto simp: rw_counts_def)
next
  case (3 t p)
  then show ?thesis using inv by (auto simp: rw_counts_def split: if_splits)
next
  case (1 t)
  note call = 1(2)
  have "event_ok (rw_event (rws s' r))" for r using rw_call_event [OF call, of r] rw_countsD(1) [OF inv, of r] by auto
  moreover have "count_fresh (rw_event (rws s' r)) c"
    if w: "rw_waits (rpcs s' u) (cells (rw_arr s')) = Some (k, r, c)" for u k r c
  proof (cases "u = t")
    case False
    then show ?thesis
      using rw_countsD(2) [OF inv, of u k r c] w rw_waits_other [OF cell call False] rw_call_event [OF call, of r] by auto
  next
    case True
    have ok: "users_ok n (rw_arr s) (rw_view s)" using cell by (simp add: rw_cells_def)
    have len: "use_cell x < length (cells (rw_arr s))" if "rw_use (rpcs s t) = Some x" for x
      using users_okD(2) [OF ok] users_okD(5) [OF ok, of t x] that by (simp add: rw_view_def)
    from call show ?thesis
    proof (cases rule: rw_call_cases)
      case (reset k' r' p' cell')
      then show ?thesis using True w len rw_countsD(1) [OF inv, of r'] by (auto simp: sync_cell_store_def)
    next
      case (wait k' r' p' cell' a)
      then show ?thesis using True w len rw_countsD(2) [OF inv, of t k r c]
        by (auto simp: sync_array_wait_event_def split: option.splits if_splits)
    next
      case (low k' r' p' cell')
      then show ?thesis using True w rw_countsD(2) [OF inv, of t k' r']
        by (auto simp: os_event_old_count_def count_fresh_def)
    next
      case (flag k' r' p' cell')
      then show ?thesis using True w rw_countsD(2) [OF inv, of t k' r'] by auto
    qed (use True w in \<open>auto split: if_splits\<close>)
  qed
  ultimately show ?thesis by (simp add: rw_counts_def)
qed


subsection \<open>Waiting\<close>

text \<open>Why a thread may not have the lock in its mode.\<close>

definition must_wait :: "rw_mode \<Rightarrow> thread_id \<Rightarrow> rw_lock \<Rightarrow> bool" where
  "must_wait k t l \<longleftrightarrow> writer l \<noteq> RW_LOCK_NOT_LOCKED \<and>
     (k = Exclusive \<longrightarrow> \<not> (writer l = RW_LOCK_WAIT_EX \<and> writer_thread l = t \<and> reader_count l = 0))"

definition wake_due :: "rw_sys \<Rightarrow> rw_ptr \<Rightarrow> bool" where
  "wake_due s r \<longleftrightarrow> (\<exists>u. rpcs s u = Signal r)"

definition rw_wake :: "rw_sys \<Rightarrow> bool" where
  "rw_wake s \<longleftrightarrow>
     (\<forall>t k r. in_section (rpcs s t) = Some (k, r) \<longrightarrow> must_wait k t (rws s r)) \<and>
     (\<forall>t k r. rw_waits (rpcs s t) (cells (rw_arr s)) = Some (k, r, signal_count (rw_event (rws s r))) \<longrightarrow>
        in_section (rpcs s t) = None \<longrightarrow> wake_due s r \<or> rw_waiters (rws s r) \<noteq> 0 \<and> must_wait k t (rws s r))"

lemma rw_wakeD:
  assumes "rw_wake s"
  shows "in_section (rpcs s t) = Some (k, r) \<Longrightarrow> must_wait k t (rws s r)"
    "rw_waits (rpcs s t) (cells (rw_arr s)) = Some (k, r, signal_count (rw_event (rws s r))) \<Longrightarrow>
       in_section (rpcs s t) = None \<Longrightarrow> wake_due s r \<or> rw_waiters (rws s r) \<noteq> 0 \<and> must_wait k t (rws s r)"
  using assms unfolding rw_wake_def by blast+

lemma attempt_fails: "rw_attempt k t p l = Some (st, l') \<Longrightarrow> st \<noteq> RW_LOCK_EX \<Longrightarrow> must_wait k t l'"
  by (cases k) (auto simp: rw_attempt_def rw_lock_s_lock_low_def rw_lock_x_lock_low_def must_wait_def
      split: if_splits)

lemma attempt_keeps: "rw_attempt k' t p l = Some (st, l') \<Longrightarrow> u \<noteq> t \<Longrightarrow> must_wait k u l \<Longrightarrow> must_wait k u l'"
  by (cases k') (auto simp: rw_attempt_def rw_lock_s_lock_low_def rw_lock_x_lock_low_def must_wait_def
      split: if_splits dest!: remove_info_keep)

text \<open>What the calls of an idle thread do to the reason why another thread waits: keep it, or signal.\<close>

lemma idle_keeps:
  assumes wait: "must_wait k u l" "rw_waiters l \<noteq> 0"
    and op: "l' = l \<or> (\<exists>q. rw_lock_s_lock_func_nowait t l = (q, l')) \<or> (\<exists>q. rw_lock_x_lock_func_nowait t l = (q, l')) \<or>
        (\<exists>x sg. rw_lock_s_unlock_func t x l = Some (sg, l') \<and> (sg \<longrightarrow> P)) \<or>
        (\<exists>x sg. rw_lock_x_unlock_func t x l = Some (sg, l') \<and> (sg \<longrightarrow> P)) \<or>
        writer l = RW_LOCK_EX \<and> l' = rw_lock_x_lock_move_ownership t l"
  shows "P \<or> rw_waiters l' \<noteq> 0 \<and> must_wait k u l'"
  using op
proof (elim disjE exE conjE)
  fix x sg assume "rw_lock_s_unlock_func t x l = Some (sg, l')" "sg \<longrightarrow> P"
  then show ?thesis using unlock_writer(1) [of t x l sg l'] wait by (cases sg) (auto simp: must_wait_def)
next
  fix x sg assume "rw_lock_x_unlock_func t x l = Some (sg, l')" "sg \<longrightarrow> P"
  then show ?thesis using unlock_writer(2) [of t x l sg l'] wait by (cases sg) (auto simp: must_wait_def)
qed (use wait in \<open>auto simp: must_wait_def rw_lock_s_lock_func_nowait_def rw_lock_x_lock_func_nowait_def
      rw_lock_x_lock_move_ownership_def split: if_splits\<close>)

lemma rw_set_wakes:
  assumes "rw_counts s" and "rw_waits (rpcs s u) (cells (rw_arr s)) = Some (k, r, c)"
  shows "signal_count (os_event_set (rw_event (rws s r))) \<noteq> c"
  using rw_countsD(2) [OF assms] by (rule set_passes)

lemma wake_due_keep:
  assumes "rw_call_step rounds t s = Next s'" and "wake_due s r" and "rpcs s t \<noteq> Signal r"
  shows "wake_due s' r"
  using assms rw_call_other [OF assms(1)] unfolding wake_due_def by metis

lemma rw_call_lock:
  assumes run: "rw_call_step rounds t s = Next s'" and "u \<noteq> t" and "rpcs s t \<noteq> Signal r"
  shows "must_wait k u (rws s r) \<Longrightarrow> must_wait k u (rws s' r)"
    "rw_waiters (rws s r) \<noteq> 0 \<Longrightarrow> rw_waiters (rws s' r) \<noteq> 0"
    "signal_count (rw_event (rws s' r)) = signal_count (rw_event (rws s r))"
proof -
  have f: "must_wait k u (l\<lparr>rw_event := e\<rparr>) = must_wait k u l" "must_wait k u (l\<lparr>rw_waiters := w\<rparr>) = must_wait k u l"
    for l e w by (simp_all add: must_wait_def)
  show "must_wait k u (rws s r) \<Longrightarrow> must_wait k u (rws s' r)"
    using run by (cases rule: rw_call_cases) (use assms(2) in \<open>auto simp: f dest: attempt_keeps\<close>)
  show "rw_waiters (rws s r) \<noteq> 0 \<Longrightarrow> rw_waiters (rws s' r) \<noteq> 0"
    "signal_count (rw_event (rws s' r)) = signal_count (rw_event (rws s r))"
    using run by (cases rule: rw_call_cases; use assms(3) in \<open>auto dest: attempt_event\<close>)+
qed

lemma rw_wake_call:
  assumes cell: "rw_cells n s" and count: "rw_counts s" and inv: "rw_wake s"
    and run: "rw_call_step rounds t s = Next s'"
  shows "rw_wake s'"
  unfolding rw_wake_def
proof (intro conjI allI impI)
  fix u k r assume sec: "in_section (rpcs s' u) = Some (k, r)"
  show "must_wait k u (rws s' r)"
  proof (cases "u = t")
    case False
    then have "in_section (rpcs s u) = Some (k, r)" using sec rw_call_other [OF run] by simp
    then have m: "must_wait k u (rws s r)" by (rule rw_wakeD(1) [OF inv])
    show ?thesis
    proof (cases "rpcs s t = Signal r")
      case True
      from run m show ?thesis by (cases rule: rw_call_cases) (use True in \<open>auto simp: must_wait_def\<close>)
    qed (use rw_call_lock(1) [OF run False] m in blast)
  next
    case True
    note m = rw_wakeD(1) [OF inv, of t]
    from run show ?thesis
    proof (cases rule: rw_call_cases)
      case (again2 k' r' p st l)
      then show ?thesis using True sec attempt_fails [OF again2(3,4)] by simp
    next
      case (reset k' r' p cell')
      then show ?thesis using True sec m [of k' r'] by (simp add: must_wait_def)
    qed (use True sec m in \<open>auto split: if_splits\<close>)
  qed
next
  fix u k r
  assume w: "rw_waits (rpcs s' u) (cells (rw_arr s')) = Some (k, r, signal_count (rw_event (rws s' r)))"
    and out: "in_section (rpcs s' u) = None"
  show "wake_due s' r \<or> rw_waiters (rws s' r) \<noteq> 0 \<and> must_wait k u (rws s' r)"
  proof (cases "u = t")
    case False
    have w0: "rw_waits (rpcs s u) (cells (rw_arr s)) = Some (k, r, signal_count (rw_event (rws s' r)))"
      using w rw_waits_other [OF cell run False] by simp
    have ns: "rpcs s t \<noteq> Signal r"
    proof
      assume "rpcs s t = Signal r"
      with run have "rw_event (rws s' r) = os_event_set (rw_event (rws s r))"
        by (cases rule: rw_call_cases) auto
      then show False using rw_set_wakes [OF count w0] by simp
    qed
    note l = rw_call_lock [OF run False ns]
    have "wake_due s r \<or> rw_waiters (rws s r) \<noteq> 0 \<and> must_wait k u (rws s r)"
      by (rule rw_wakeD(2) [OF inv]) (use w0 l(3) out rw_call_other [OF run False] in simp_all)
    then show ?thesis using wake_due_keep [OF run _ ns] l(1,2) by blast
  next
    case True
    have ok: "users_ok n (rw_arr s) (rw_view s)" using cell by (simp add: rw_cells_def)
    have len: "use_cell x < length (cells (rw_arr s))" if "rw_use (rpcs s t) = Some x" for x
      using users_okD(2) [OF ok] users_okD(5) [OF ok, of t x] that by (simp add: rw_view_def)
    have ns: "rpcs s t \<noteq> Signal r" if "rw_use (rpcs s t) = Some x" for x using that by auto
    note old = rw_wakeD(2) [OF inv, of t k r] and keep = wake_due_keep [OF run, of r]
    from run show ?thesis
    proof (cases rule: rw_call_cases)
      case (flag k' r' p cell')
      then show ?thesis using True w rw_wakeD(1) [OF inv, of t k' r'] by (simp add: must_wait_def)
    next
      case (wait k' r' p cell' a)
      then show ?thesis using True w old keep len by (auto simp: sync_array_wait_event_def split: option.splits if_splits)
    next
      case (low k' r' p cell')
      have "count_fresh (rw_event (rws s r')) (cell_count (cells (rw_arr s) ! cell'))"
        using rw_countsD(2) [OF count, of t] low(1) by simp
      then show ?thesis using low True w old keep by (auto simp: os_event_old_count_def count_fresh_def)
    qed (use True w out in \<open>auto split: if_splits\<close>)
  qed
qed

lemma rw_wake_step:
  assumes cell: "rw_cells n s" and count: "rw_counts s" and sec: "section_inv s" and inv: "rw_wake s"
    and "rw_sys_step n rounds s s'"
  shows "rw_wake s'"
  using assms(5)
proof (cases rule: rw_idle_step)
  case (1 t)
  then show ?thesis using rw_wake_call [OF cell count inv] by simp
next
  case (2 r)
  have due: "wake_due s' x = wake_due s x" for x using 2 by (simp add: wake_due_def)
  show ?thesis
    unfolding rw_wake_def
  proof (intro conjI allI impI)
    fix u k x assume "in_section (rpcs s' u) = Some (k, x)"
    then show "must_wait k u (rws s' x)" using rw_wakeD(1) [OF inv, of u k x] 2 by (auto simp: must_wait_def)
  next
    fix u k x
    assume w: "rw_waits (rpcs s' u) (cells (rw_arr s')) = Some (k, x, signal_count (rw_event (rws s' x)))"
      and out: "in_section (rpcs s' u) = None"
    have "x \<noteq> r" using w 2 rw_set_wakes [OF count, of u k r] by auto
    then show "wake_due s' x \<or> rw_waiters (rws s' x) \<noteq> 0 \<and> must_wait k u (rws s' x)"
      using rw_wakeD(2) [OF inv, of u k x] w out 2 due by simp
  qed
next
  case (3 t p)
  have due: "wake_due s r \<Longrightarrow> wake_due s' r" for r
    using 3(1,2) unfolding wake_due_def by (metis fun_upd_apply rpc.distinct(21))
  show ?thesis
    unfolding rw_wake_def
  proof (intro conjI allI impI)
    fix u k r assume a: "in_section (rpcs s' u) = Some (k, r)"
    then have b: "in_section (rpcs s u) = Some (k, r)" using 3(2,6) by (auto split: if_splits)
    then have "rw_mx s r \<noteq> None" using sec by (auto simp: section_inv_def)
    then show "must_wait k u (rws s' r)" using rw_wakeD(1) [OF inv b] 3(8) [of r] by auto
  next
    fix u k r
    assume w: "rw_waits (rpcs s' u) (cells (rw_arr s')) = Some (k, r, signal_count (rw_event (rws s' r)))"
      and out: "in_section (rpcs s' u) = None"
    have ut: "u \<noteq> t" using w 3(2,3,5) by auto
    have "wake_due s r \<or> rw_waiters (rws s r) \<noteq> 0 \<and> must_wait k u (rws s r)"
      by (rule rw_wakeD(2) [OF inv]) (use w out ut 3(2,3,7) in simp_all)
    then show "wake_due s' r \<or> rw_waiters (rws s' r) \<noteq> 0 \<and> must_wait k u (rws s' r)"
      using due idle_keeps [OF _ _ 3(9) [of r], of k u] 3(2) unfolding wake_due_def by (metis fun_upd_same)
  qed
qed

section \<open>Theorems on the read-write lock\<close>

lemma rw_reachable_inv:
  "rw_reachable n rounds s \<Longrightarrow> writer_inv s \<and> section_inv s \<and> rw_cells n s \<and> rw_counts s \<and> rw_wake s"
proof (induction rule: rw_reachable.induct)
  case (init s)
  have v: "rw_view s = (\<lambda>_. None)" using init by (auto simp: rw_init_def rw_view_def)
  have e: "rw_event (rws s r) = os_event_create" "writer (rws s r) = RW_LOCK_NOT_LOCKED" for r
  proof -
    obtain junk where "rws s r = rw_lock_create_func junk" using init unfolding rw_init_def by blast
    then show "rw_event (rws s r) = os_event_create" "writer (rws s r) = RW_LOCK_NOT_LOCKED"
      by (simp_all add: rw_lock_create_func_def)
  qed
  show ?case
    using init v e users_create
    by (auto simp: rw_init_def writer_inv_def section_inv_def rw_cells_def rw_counts_def rw_wake_def)
next
  case (step s s')
  then show ?case
    using writer_inv_step [OF rw_ok_reachable [OF step(1)] _ step(2)] section_inv_step [OF _ step(2)] rw_cells_step [OF _ step(2)]
      rw_counts_step [OF _ _ step(2)] rw_wake_step [OF _ _ _ _ step(2)] by blast
qed

text \<open>
  Two threads and two cells: thread 0 takes lock 7 exclusively, thread 1 then wants it in shared mode,
  reserves a cell and sleeps.
\<close>

definition demo_rw :: rw_sys where
  "demo_rw = \<lparr>rws = \<lambda>_. rw_lock_create_func \<lparr>rw_event = os_event_create, reader_count = 0, writer = 0, writer_thread = 0,
       writer_count = 0, rw_pass = 0, rw_waiters = 0, writer_is_wait_ex = False, debug_list = []\<rparr>,
     rw_mx = \<lambda>_. None,
     rw_arr = the (sync_array_create (replicate 2 \<lparr>wait_object = None, request_type = 0, cell_waiting = False,
       cell_count = 0, cell_thread = 0\<rparr>)), rpcs = \<lambda>_. R_idle\<rparr>"

fun rw_run :: "thread_id \<Rightarrow> nat \<Rightarrow> rw_sys \<Rightarrow> rw_sys" where
  "rw_run t 0 s = s"
| "rw_run t (Suc k) s = (case rw_call_step 0 t s of Next s' \<Rightarrow> rw_run t k s' | _ \<Rightarrow> s)"

definition demo_x :: rw_sys where
  "demo_x = rw_run 0 1 (at_pc 0 (Try Exclusive 7 0) demo_rw)"

definition demo_s_waits :: rw_sys where
  "demo_s_waits = rw_run 1 8 (at_pc 1 (Try Shared 7 0) demo_x)"

lemma rw_run_reachable: "rw_reachable n 0 s \<Longrightarrow> t < n \<Longrightarrow> rw_reachable n 0 (rw_run t k s)"
proof (induction t k s rule: rw_run.induct)
  case (2 t k s)
  show ?case
  proof (cases "rw_call_step 0 t s")
    case (Next s')
    then have "rw_reachable n 0 s'" using 2(2,3) rw_reachable.step rw_sys_step.call by blast
    then show ?thesis using 2(1) [OF Next] 2(3) Next by simp
  qed (use 2 in simp_all)
qed simp

lemma demo_rw_init: "rw_init 2 demo_rw"
proof -
  let ?junk = "replicate 2 \<lparr>wait_object = None, request_type = 0, cell_waiting = False, cell_count = 0, cell_thread = 0\<rparr>"
  have "length ?junk = 2" "sync_array_create ?junk = Some (the (sync_array_create ?junk))"
    by (simp_all add: sync_array_create_def)
  then show ?thesis unfolding rw_init_def demo_rw_def by (simp; metis)
qed

lemma demo_x_reachable: "rw_reachable 2 0 demo_x"
  unfolding demo_x_def
  by (intro rw_run_reachable rw_reachable.step [OF rw_reachable.init [OF demo_rw_init]] rw_sys_step.x_lock)
    (simp_all add: demo_rw_def)

lemma demo_x_fields: "rpcs demo_x 1 = R_idle" "\<not> rw_lock_own 1 RW_LOCK_SHARED (rws demo_x 7)"
  "rw_lock_own 0 RW_LOCK_EX (rws demo_x 7)"
  unfolding demo_x_def by code_simp+

lemma demo_s_waits_reachable: "rw_reachable 2 0 demo_s_waits"
  unfolding demo_s_waits_def
  by (intro rw_run_reachable rw_reachable.step [OF demo_x_reachable] rw_sys_step.s_lock)
    (use demo_x_fields in simp_all)

lemma demo_s_waits_fields:
  "rpcs demo_s_waits 1 = Waiting Shared 7 0 0 1" "is_set (rw_event (rws demo_s_waits 7)) = False"
  "signal_count (rw_event (rws demo_s_waits 7)) = 1" "rpcs demo_s_waits 0 = R_idle"
  unfolding demo_s_waits_def demo_x_def by code_simp+

theorem rw_lock_exclusion_witness: "\<not> rw_lock_own 1 RW_LOCK_SHARED (rws demo_x 7)"
  using rw_lock_exclusion [OF demo_x_reachable, of 7 1 0] demo_x_fields(3) by simp

text \<open>
  C7: no wake-up is lost on a read-write lock. If in a reachable state a thread waits on the event of
  a lock, then some thread is about to signal that event; or the \<open>waiters\<close> field is set and the latch
  that stands in the way is really held, so that its last unlock will signal: an exclusive latch, or
  shared latches for which a writer waits; or the shared latches are gone and the writer that has the
  next turn is another thread inside its call, which does not wait.
\<close>

theorem rw_no_lost_wakeup:
  assumes "rw_reachable n rounds s" and t: "rpcs s t = Waiting k r p cell old" and "rw_call_step rounds t s = Blocked"
  shows "(\<exists>u. rpcs s u = Signal r) \<or>
    rw_waiters (rws s r) \<noteq> 0 \<and>
      ((\<exists>d \<in> set (debug_list (rws s r)). dbg_type d = RW_LOCK_EX) \<or>
       writer (rws s r) = RW_LOCK_WAIT_EX \<and>
         ((\<exists>d \<in> set (debug_list (rws s r)). dbg_type d = RW_LOCK_SHARED) \<or>
          (\<exists>u q. u \<noteq> t \<and> call_of (rpcs s u) = Some (Exclusive, r, q) \<and>
             (\<forall>cell' old'. rpcs s u = Waiting Exclusive r q cell' old' \<longrightarrow> rw_call_step rounds u s \<noteq> Blocked))))"
proof -
  have inv: "writer_inv s" "rw_wake s" using rw_reachable_inv [OF assms(1)] by simp_all
  note ok = rw_ok_reachable [OF assms(1), of r]
  have asleep: "wake_due s r \<or> rw_waiters (rws s r) \<noteq> 0 \<and> must_wait k' u (rws s r)"
    if "rpcs s u = Waiting k' r q c o'" "rw_call_step rounds u s = Blocked" for u k' q c o'
    using that rw_wakeD(2) [OF inv(2), of u k' r]
    by (simp add: rw_call_step_def os_event_passes_def split: if_splits)
  show ?thesis
  proof (cases "wake_due s r")
    case True
    then show ?thesis by (simp add: wake_due_def)
  next
    case False
    then have w: "rw_waiters (rws s r) \<noteq> 0" "must_wait k t (rws s r)" using asleep [OF t assms(3)] by simp_all
    have entry: "\<exists>d \<in> set (debug_list (rws s r)). dbg_type d = type" if "n_type type (rws s r) > 0" for type
      using that n_type_0 [of type "rws s r"] by auto
    show ?thesis
    proof (rule rw_ok_cases [OF ok])
      assume "writer (rws s r) = RW_LOCK_NOT_LOCKED"
      then show ?thesis using w(2) by (simp add: must_wait_def)
    next
      assume "writer_count (rws s r) > 0"
      then have "n_type RW_LOCK_EX (rws s r) > 0" using rw_okD(5) [OF ok] by simp
      from entry [OF this] show ?thesis using w(1) by simp
    next
      assume wx: "writer (rws s r) = RW_LOCK_WAIT_EX"
      let ?u = "writer_thread (rws s r)" and ?q = "rw_pass (rws s r)"
      have c: "call_of (rpcs s ?u) = Some (Exclusive, r, ?q)" using inv(1) wx by (simp add: writer_inv_def)
      show ?thesis
      proof (cases "reader_count (rws s r) = 0")
        case False
        then have "n_type RW_LOCK_SHARED (rws s r) > 0" using rw_okD(4) [OF ok] by simp
        from entry [OF this] show ?thesis using w(1) wx by simp
      next
        case True
        have "?u \<noteq> t" using w(2) wx True c t by (cases k) (auto simp: must_wait_def)
        moreover have "rw_call_step rounds ?u s \<noteq> Blocked" if "rpcs s ?u = Waiting Exclusive r ?q c' o'" for c' o'
        proof
          assume "rw_call_step rounds ?u s = Blocked"
          from asleep [OF that this] show False using False wx True by (simp add: must_wait_def)
        qed
        ultimately show ?thesis using w(1) wx c by blast
      qed
    qed
  qed
qed

theorem rw_no_lost_wakeup_witness:
  "(\<exists>u. rpcs demo_s_waits u = Signal 7) \<or> 0 < rw_waiters (rws demo_s_waits 7)"
proof -
  have "rw_call_step 0 1 demo_s_waits = Blocked"
    using demo_s_waits_fields(1-3) unfolding rw_call_step_def by (simp add: os_event_passes_def)
  from rw_no_lost_wakeup [OF demo_s_waits_reachable demo_s_waits_fields(1) this] show ?thesis
    by (auto simp: word_neq_0_conv)
qed

text \<open>
  C22: no assertion on a read-write lock fails. In every reachable state, the next step of a thread
  inside a lock call never stops the server, provided the wait array has a cell for every thread, and
  a thread that has a shared or exclusive latch can unlock it.
\<close>

theorem rw_never_fails:
  assumes "rw_reachable n rounds s" and "t < n"
  shows "rw_call_step rounds t s \<noteq> Failed \<and>
    (rw_lock_own t RW_LOCK_SHARED (rws s r) \<longrightarrow> rw_lock_s_unlock_func t 0 (rws s r) \<noteq> None) \<and>
    (rw_lock_own t RW_LOCK_EX (rws s r) \<longrightarrow> rw_lock_x_unlock_func t 0 (rws s r) \<noteq> None)"
proof (intro conjI impI)
  have inv: "writer_inv s" "rw_cells n s" using rw_reachable_inv [OF assms(1)] by simp_all
  note ok = rw_ok_reachable [OF assms(1)]
  have cells: "users_ok n (rw_arr s) (rw_view s)" using inv(2) by (simp add: rw_cells_def)
  have attempt: "rw_attempt k t p (rws s x) \<noteq> None" if "call_of (rpcs s t) = Some (k, x, p)" for k x p
  proof (cases k)
    case Exclusive
    have "rw_pass (rws s x) = p" if "writer (rws s x) = RW_LOCK_WAIT_EX" "writer_thread (rws s x) = t"
      using inv(1) that \<open>call_of (rpcs s t) = Some (k, x, p)\<close> by (auto simp: writer_inv_def)
    then show ?thesis using x_lock_total [OF ok [of x], of t p] Exclusive by (auto simp: rw_attempt_def)
  qed (simp add: rw_attempt_def)
  have v: "rw_view s t = rw_use (rpcs s t)" by (simp add: rw_view_def)
  show "rw_call_step rounds t s \<noteq> Failed"
  proof (cases "rpcs s t")
    case (Try k x p)
    then show ?thesis using attempt [of k x p] by (auto simp: rw_call_step_def split: option.splits)
  next
    case (Again k x p)
    then show ?thesis using attempt [of k x p] by (auto simp: rw_call_step_def split: option.splits)
  next
    case (Reserve k x p)
    then show ?thesis using users_left [OF cells assms(2)] v
      by (auto simp: rw_call_step_def sync_array_reserve_cell_def split: option.splits)
  next
    case (Reset k x p c)
    then show ?thesis by (simp add: rw_call_step_def case_prod_unfold)
  next
    case (Wait_event k x p c)
    then show ?thesis
      using users_wait(1) [OF cells, of t "\<lparr>use_obj = Rw_obj x, use_type = request_of k, use_cell = c, use_parked = False\<rparr>"] v
      by (simp add: rw_call_step_def)
  next
    case (Free_cell k x p c)
    then show ?thesis
      using users_free_total [OF cells, of t "\<lparr>use_obj = Rw_obj x, use_type = request_of k, use_cell = c, use_parked = True\<rparr>"] v
      by (auto simp: rw_call_step_def)
  qed (simp_all add: rw_call_step_def)
  show "rw_lock_s_unlock_func t 0 (rws s r) \<noteq> None" if own: "rw_lock_own t RW_LOCK_SHARED (rws s r)"
  proof -
    obtain d where d: "d \<in> set (debug_list (rws s r))" "dbg_match t 0 RW_LOCK_SHARED d"
      using own unfolding rw_lock_own_def dbg_match_def by fastforce
    have "reader_count (rws s r) > 0" using rw_okD(4,10) [OF ok] d by (fastforce simp: dbg_match_def)
    then show ?thesis
      using remove_info_total [of d "(rws s r)\<lparr>reader_count := reader_count (rws s r) - 1\<rparr>" t 0 RW_LOCK_SHARED] d
      by (auto simp: rw_lock_s_unlock_func_def)
  qed
  show "rw_lock_x_unlock_func t 0 (rws s r) \<noteq> None" if own: "rw_lock_own t RW_LOCK_EX (rws s r)"
  proof -
    obtain d where d: "d \<in> set (debug_list (rws s r))" "dbg_match t 0 RW_LOCK_EX d"
      using own unfolding rw_lock_own_def dbg_match_def by fastforce
    have "debug_list (take_writer (rws s r)) = debug_list (rws s r)" by (simp add: take_writer_def Let_def)
    then show ?thesis
      using remove_info_total [of d "take_writer (rws s r)" t 0 RW_LOCK_EX] d
      by (auto simp: rw_lock_x_unlock_func_def)
  qed
qed

theorem rw_never_fails_witness:
  "rw_call_step 0 1 demo_s_waits \<noteq> Failed \<and> rw_lock_x_unlock_func 0 0 (rws demo_x 7) \<noteq> None"
  using rw_never_fails [OF demo_s_waits_reachable, of 1] rw_never_fails [OF demo_x_reachable, of 0 7] demo_x_fields(3)
  by simp

end
