(* ===== verification/DynArr.thy ===== *)
theory DynArr
  imports MachData
begin

text \<open>
  The dynamically growing byte array of \<open>dyn/dyn0dyn.c\<close> and \<open>include/dyn0dyn.ic\<close>, which holds the
  log of a mini-transaction, with its abstraction to a list of bytes, and the interface of an
  append-only byte log that this array and the log buffer share.
\<close>

section \<open>Copying bytes\<close>

text \<open>\<open>memcpy(m + b, d, length d)\<close> for a source given as a list of bytes.\<close>

definition mem_put :: "mem \<Rightarrow> nat \<Rightarrow> byte list \<Rightarrow> mem" where
  "mem_put m b d = copy_out m b d (length d)"

lemma copy_out_apply: "copy_out m b d k a = (if b \<le> a \<and> a < b + k then d ! (a - b) else m a)"
  by (induction k) (auto simp: copy_out_def)

lemma mem_put_apply: "mem_put m b d a = (if b \<le> a \<and> a < b + length d then d ! (a - b) else m a)"
  by (simp add: mem_put_def copy_out_apply)

lemma length_copy_in [simp]: "length (copy_in m b k) = k"
  by (simp add: copy_in_def)

lemma nth_copy_in [simp]: "i < k \<Longrightarrow> copy_in m b k ! i = m (b + i)"
  by (simp add: copy_in_def)

lemma copy_in_0 [simp]: "copy_in m b 0 = []"
  by (simp add: copy_in_def)

lemma copy_in_cong: "(\<And>i. i < k \<Longrightarrow> m (b + i) = m' (b' + i)) \<Longrightarrow> copy_in m b k = copy_in m' b' k"
  by (simp add: copy_in_def)

lemma copy_in_add: "copy_in m b (j + k) = copy_in m b j @ copy_in m (b + j) k"
  by (rule nth_equalityI) (auto simp: nth_append)

lemma copy_in_put: "copy_in (mem_put m b d) b (length d) = d"
  by (rule nth_equalityI) (simp_all add: mem_put_apply)

lemma copy_in_put_other: "b + k \<le> c \<or> c + length d \<le> b \<Longrightarrow> copy_in (mem_put m c d) b k = copy_in m b k"
  by (rule copy_in_cong) (auto simp: mem_put_apply)

lemma mem_put_copy_in: "mem_put m b (copy_in m' c k) a = (if b \<le> a \<and> a < b + k then m' (c + (a - b)) else m a)"
  by (auto simp: mem_put_apply)

section \<open>Append-only logs\<close>

text \<open>
  What a writer of log relies on: \<open>append\<close> adds a byte string at the end of what the log holds.
\<close>

locale append_log =
  fixes content :: "'a \<Rightarrow> byte list"
    and log_ok :: "'a \<Rightarrow> bool"
    and append :: "byte list \<Rightarrow> 'a \<Rightarrow> 'a"
  assumes append_content: "log_ok a \<Longrightarrow> content (append bs a) = content a @ bs"
    and append_ok: "log_ok a \<Longrightarrow> log_ok (append bs a)"
begin

lemma append_all_ok: "log_ok a \<Longrightarrow> log_ok (fold append bss a)"
  by (induction bss arbitrary: a) (auto simp: append_ok)

lemma append_all_content: "log_ok a \<Longrightarrow> content (fold append bss a) = content a @ concat bss"
  by (induction bss arbitrary: a) (auto simp: append_ok append_content)

lemma append_all_prefix: "log_ok a \<Longrightarrow> \<exists>more. content (fold append bss a) = content a @ more"
  by (simp add: append_all_content)

end

section \<open>The array\<close>

text \<open>
  \<open>dyn_block_t\<close>: the bytes of a block and how many are used, with the flag of a full block. The
  array is its first block and the blocks allocated from its heap, which exists as soon as there
  are such blocks; a pointer to a block is its position in the list \<open>base\<close>. \<open>dyn_heap k\<close> is what
  the memory of the \<open>k\<close>-th allocated block holds before it is used.
\<close>

definition DYN_ARRAY_DATA_SIZE :: nat where "DYN_ARRAY_DATA_SIZE = 512"
definition DYN_BLOCK_FULL_FLAG :: ulint where "DYN_BLOCK_FULL_FLAG = 0x1000000"

record dyn_block =
  blk_used :: ulint
  blk_data :: mem

record dyn_array =
  first_blk :: dyn_block
  more_blks :: "dyn_block list"
  dyn_heap :: "nat \<Rightarrow> mem"

definition dyn_blk :: "dyn_array \<Rightarrow> nat \<Rightarrow> dyn_block" where
  "dyn_blk a k = (first_blk a # more_blks a) ! k"

definition upd_blk :: "nat \<Rightarrow> (dyn_block \<Rightarrow> dyn_block) \<Rightarrow> dyn_array \<Rightarrow> dyn_array" where
  "upd_blk k f a = (case k of
      0 \<Rightarrow> a\<lparr>first_blk := f (first_blk a)\<rparr>
    | Suc j \<Rightarrow> a\<lparr>more_blks := (more_blks a)[j := f (more_blks a ! j)]\<rparr>)"

definition dyn_array_get_first_block :: "dyn_array \<Rightarrow> nat" where
  "dyn_array_get_first_block a = 0"

definition dyn_array_get_last_block :: "dyn_array \<Rightarrow> nat" where
  "dyn_array_get_last_block a = (if more_blks a = [] then 0 else length (more_blks a))"

definition dyn_array_get_next_block :: "dyn_array \<Rightarrow> nat \<Rightarrow> nat option" where
  "dyn_array_get_next_block a k =
     (if more_blks a = [] then None else if k < length (more_blks a) then Some (k + 1) else None)"

definition dyn_block_get_used :: "dyn_block \<Rightarrow> nat" where
  "dyn_block_get_used b = unat (blk_used b AND NOT DYN_BLOCK_FULL_FLAG)"

definition dyn_block_get_data :: "dyn_block \<Rightarrow> mem" where
  "dyn_block_get_data b = blk_data b"

definition dyn_array_create :: "mem \<Rightarrow> (nat \<Rightarrow> mem) \<Rightarrow> dyn_array" where
  "dyn_array_create junk heap = \<lparr>first_blk = \<lparr>blk_used = 0, blk_data = junk\<rparr>, more_blks = [], dyn_heap = heap\<rparr>"

definition dyn_array_add_block :: "dyn_array \<Rightarrow> nat \<times> dyn_array" where
  "dyn_array_add_block a =
     (let k = dyn_array_get_last_block a;
          a1 = upd_blk k (\<lambda>b. b\<lparr>blk_used := blk_used b OR DYN_BLOCK_FULL_FLAG\<rparr>) a
      in (k + 1, a1\<lparr>more_blks := more_blks a1 @ [\<lparr>blk_used = 0, blk_data = dyn_heap a k\<rparr>]\<rparr>))"

text \<open>
  The block that \<open>dyn_array_push\<close> and \<open>dyn_array_open\<close> find room in: the first, the last, or a new
  one. Both require \<open>size <= DYN_ARRAY_DATA_SIZE\<close>.
\<close>

definition dyn_find_room :: "nat \<Rightarrow> dyn_array \<Rightarrow> nat \<times> dyn_array" where
  "dyn_find_room sz a =
     (if unat (blk_used (first_blk a)) + sz \<le> DYN_ARRAY_DATA_SIZE then (0, a)
      else let k = dyn_array_get_last_block a
           in if unat (blk_used (dyn_blk a k)) + sz \<le> DYN_ARRAY_DATA_SIZE then (k, a)
              else dyn_array_add_block a)"

definition dyn_array_push :: "nat \<Rightarrow> dyn_array \<Rightarrow> (nat \<times> nat) \<times> dyn_array" where
  "dyn_array_push sz a = (case dyn_find_room sz a of (k, a1) \<Rightarrow>
     let used = blk_used (dyn_blk a1 k)
     in ((k, unat used), upd_blk k (\<lambda>b. b\<lparr>blk_used := used + of_nat sz\<rparr>) a1))"

definition dyn_array_open :: "nat \<Rightarrow> dyn_array \<Rightarrow> (nat \<times> nat) \<times> dyn_array" where
  "dyn_array_open sz a = (case dyn_find_room sz a of (k, a1) \<Rightarrow>
     ((k, unat (blk_used (dyn_blk a1 k))), a1))"

text \<open>\<open>ptr\<close> is an offset into the data of the last block.\<close>

definition dyn_array_close :: "nat \<Rightarrow> dyn_array \<Rightarrow> dyn_array" where
  "dyn_array_close ptr a = upd_blk (dyn_array_get_last_block a) (\<lambda>b. b\<lparr>blk_used := of_nat ptr\<rparr>) a"

text \<open>The caller's writes through a pointer into a block.\<close>

definition dyn_write :: "nat \<Rightarrow> mem \<Rightarrow> dyn_array \<Rightarrow> dyn_array" where
  "dyn_write k m a = upd_blk k (\<lambda>b. b\<lparr>blk_data := m\<rparr>) a"

text \<open>The loop over the blocks; \<open>None\<close> is the walk off the end of the list, asserted not to happen.\<close>

fun dyn_element_scan :: "dyn_block list \<Rightarrow> nat \<Rightarrow> nat \<Rightarrow> (nat \<times> nat) option" where
  "dyn_element_scan [] k pos = None"
| "dyn_element_scan (b # bs) k pos =
     (if pos \<ge> dyn_block_get_used b then dyn_element_scan bs (k + 1) (pos - dyn_block_get_used b)
      else Some (k, pos))"

definition dyn_array_get_element :: "dyn_array \<Rightarrow> nat \<Rightarrow> (nat \<times> nat) option" where
  "dyn_array_get_element a pos =
     (if more_blks a = [] then Some (0, pos)
      else dyn_element_scan (first_blk a # more_blks a) 0 pos)"

definition dyn_array_get_data_size :: "dyn_array \<Rightarrow> nat" where
  "dyn_array_get_data_size a =
     (if more_blks a = [] then unat (blk_used (first_blk a))
      else fold (\<lambda>b sum. sum + dyn_block_get_used b) (first_blk a # more_blks a) 0)"

text \<open>\<open>dyn_push_string\<close> copies in pieces of at most the size of a block.\<close>

function dyn_push_string :: "byte list \<Rightarrow> dyn_array \<Rightarrow> dyn_array" where
  "dyn_push_string str a =
     (if length str > 0 then
        let n_copied = (if length str > DYN_ARRAY_DATA_SIZE then DYN_ARRAY_DATA_SIZE else length str)
        in case dyn_array_push n_copied a of ((k, used), a1) \<Rightarrow>
             dyn_push_string (drop n_copied str)
               (dyn_write k (mem_put (blk_data (dyn_blk a1 k)) used (take n_copied str)) a1)
      else a)"
  by pat_completeness auto
termination
  by (relation "measure (length \<circ> fst)") (auto simp: DYN_ARRAY_DATA_SIZE_def)

declare dyn_push_string.simps [simp del]

section \<open>What the array holds\<close>

definition dyn_blocks :: "dyn_array \<Rightarrow> dyn_block list" where
  "dyn_blocks a = first_blk a # more_blks a"

definition block_bytes :: "dyn_block \<Rightarrow> byte list" where
  "block_bytes b = copy_in (dyn_block_get_data b) 0 (dyn_block_get_used b)"

definition dyn_content :: "dyn_array \<Rightarrow> byte list" where
  "dyn_content a = concat (map block_bytes (dyn_blocks a))"

definition full_block :: "dyn_block \<Rightarrow> bool" where
  "full_block b \<longleftrightarrow> (\<exists>n \<le> DYN_ARRAY_DATA_SIZE. 0 < n \<and> blk_used b = of_nat n OR DYN_BLOCK_FULL_FLAG)"

text \<open>All blocks but the last are full, and a full block is not empty.\<close>

definition dyn_ok :: "dyn_array \<Rightarrow> bool" where
  "dyn_ok a \<longleftrightarrow> (\<forall>b \<in> set (butlast (dyn_blocks a)). full_block b) \<and>
     unat (blk_used (last (dyn_blocks a))) \<le> DYN_ARRAY_DATA_SIZE"

lemma flag_bit: "bit DYN_BLOCK_FULL_FLAG i \<longleftrightarrow> i = 24"
proof -
  have "DYN_BLOCK_FULL_FLAG = 2 ^ 24" by (simp add: DYN_BLOCK_FULL_FLAG_def)
  then have "bit DYN_BLOCK_FULL_FLAG i \<longleftrightarrow> bit (2 ^ 24 :: ulint) i" by (simp only:)
  also have "\<dots> \<longleftrightarrow> i = 24" unfolding bit_exp_iff by auto
  finally show ?thesis .
qed

lemma small_no_flag:
  assumes "n \<le> DYN_ARRAY_DATA_SIZE"
  shows "(of_nat n OR DYN_BLOCK_FULL_FLAG) AND NOT DYN_BLOCK_FULL_FLAG = (of_nat n :: ulint)"
    and "of_nat n AND NOT DYN_BLOCK_FULL_FLAG = (of_nat n :: ulint)"
    and "DYN_ARRAY_DATA_SIZE < unat (of_nat n OR DYN_BLOCK_FULL_FLAG :: ulint)"
proof -
  have n: "unat (of_nat n :: ulint) = n"
    using assms by (intro unat_of_nat_small) (simp add: DYN_ARRAY_DATA_SIZE_def)
  have "take_bit 24 (of_nat n :: ulint) = of_nat n"
    using assms n by (simp add: word_unat_eq_iff unat_take_bit_mod DYN_ARRAY_DATA_SIZE_def)
  then have 24: "\<not> bit (of_nat n :: ulint) 24" by (metis bit_take_bit_iff less_irrefl)
  show "(of_nat n OR DYN_BLOCK_FULL_FLAG) AND NOT DYN_BLOCK_FULL_FLAG = (of_nat n :: ulint)"
    using 24 by (intro bit_word_eqI) (auto simp: bit_simps flag_bit)
  show "of_nat n AND NOT DYN_BLOCK_FULL_FLAG = (of_nat n :: ulint)"
    using 24 by (intro bit_word_eqI) (auto simp: bit_simps flag_bit)
  have "DYN_BLOCK_FULL_FLAG \<le> of_nat n OR DYN_BLOCK_FULL_FLAG" by (subst or.commute) (rule le_word_or2)
  then show "DYN_ARRAY_DATA_SIZE < unat (of_nat n OR DYN_BLOCK_FULL_FLAG :: ulint)"
    by (simp add: DYN_ARRAY_DATA_SIZE_def DYN_BLOCK_FULL_FLAG_def word_le_nat_alt)
qed

lemma used_small:
  assumes "unat (blk_used b) \<le> DYN_ARRAY_DATA_SIZE"
  shows "dyn_block_get_used b = unat (blk_used b)"
  using small_no_flag(2) [OF assms] by (simp add: dyn_block_get_used_def)

lemma full_block_too_big: "full_block b \<Longrightarrow> DYN_ARRAY_DATA_SIZE < unat (blk_used b)"
  unfolding full_block_def using small_no_flag(3) by fastforce

lemma dyn_blocks_upd: "k < length (dyn_blocks a) \<Longrightarrow>
    dyn_blocks (upd_blk k f a) = (dyn_blocks a)[k := f (dyn_blk a k)]"
  by (auto simp: dyn_blocks_def upd_blk_def dyn_blk_def split: nat.split)

lemma dyn_blk_nth: "dyn_blk a k = dyn_blocks a ! k"
  by (simp add: dyn_blk_def dyn_blocks_def)

lemma last_block_index: "dyn_array_get_last_block a = length (dyn_blocks a) - 1"
  by (simp add: dyn_array_get_last_block_def dyn_blocks_def)

lemma dyn_heap_upd [simp]: "dyn_heap (upd_blk k f a) = dyn_heap a"
  by (simp add: upd_blk_def split: nat.split)

lemma dyn_blocks_more: "dyn_blocks (a\<lparr>more_blks := more_blks a @ bs\<rparr>) = dyn_blocks a @ bs"
  by (simp add: dyn_blocks_def)

text \<open>The list of blocks as the full ones and the last one.\<close>

lemma dyn_ok_cases:
  assumes "dyn_ok a"
  obtains pre b where "dyn_blocks a = pre @ [b]" "\<forall>x \<in> set pre. full_block x"
    "unat (blk_used b) \<le> DYN_ARRAY_DATA_SIZE" "dyn_array_get_last_block a = length pre"
proof -
  have ne: "dyn_blocks a \<noteq> []" by (simp add: dyn_blocks_def)
  show ?thesis
  proof (rule that)
    show "dyn_blocks a = butlast (dyn_blocks a) @ [last (dyn_blocks a)]" using ne by simp
  qed (use assms ne in \<open>auto simp: dyn_ok_def last_block_index\<close>)
qed

lemma dyn_okI: "dyn_blocks a = pre @ [b] \<Longrightarrow> \<forall>x \<in> set pre. full_block x \<Longrightarrow>
    unat (blk_used b) \<le> DYN_ARRAY_DATA_SIZE \<Longrightarrow> dyn_ok a"
  by (simp add: dyn_ok_def)

lemma dyn_content_snoc: "dyn_blocks a = pre @ [b] \<Longrightarrow>
    dyn_content a = concat (map block_bytes pre) @ block_bytes b"
  by (simp add: dyn_content_def)

lemma dyn_array_create_ok: "dyn_ok (dyn_array_create junk heap)" "dyn_content (dyn_array_create junk heap) = []"
  by (simp_all add: dyn_ok_def dyn_array_create_def dyn_blocks_def dyn_content_def block_bytes_def dyn_block_get_used_def)

text \<open>Room is found in the last block, whose bytes and those before it do not change.\<close>

lemma dyn_find_room:
  assumes "dyn_ok a" "sz \<le> DYN_ARRAY_DATA_SIZE"
  obtains pre b a1 where "dyn_find_room sz a = (length pre, a1)" "dyn_blocks a1 = pre @ [b]"
    "\<forall>x \<in> set pre. full_block x" "unat (blk_used b) + sz \<le> DYN_ARRAY_DATA_SIZE"
    "concat (map block_bytes pre) @ block_bytes b = dyn_content a"
proof -
  obtain pre b where a: "dyn_blocks a = pre @ [b]" "\<forall>x \<in> set pre. full_block x"
    "unat (blk_used b) \<le> DYN_ARRAY_DATA_SIZE" "dyn_array_get_last_block a = length pre"
    using assms(1) by (rule dyn_ok_cases)
  have b: "dyn_blk a (length pre) = b" using a(1) by (simp add: dyn_blk_nth)
  show ?thesis
  proof (cases "unat (blk_used b) + sz \<le> DYN_ARRAY_DATA_SIZE")
    case True
    have "dyn_find_room sz a = (length pre, a)"
    proof (cases pre)
      case Nil
      then have "first_blk a = b" using a(1) by (simp add: dyn_blocks_def)
      then show ?thesis using True Nil by (simp add: dyn_find_room_def)
    next
      case (Cons p ps)
      then have "first_blk a = p" using a(1) by (simp add: dyn_blocks_def)
      then have "DYN_ARRAY_DATA_SIZE < unat (blk_used (first_blk a))"
        using Cons a(2) full_block_too_big by auto
      then show ?thesis using True a(4) b by (simp add: dyn_find_room_def Let_def)
    qed
    from that [OF this a(1,2) True] show ?thesis by (simp add: dyn_content_snoc [OF a(1)])
  next
    case False
    let ?f = "\<lambda>x. x\<lparr>blk_used := blk_used x OR DYN_BLOCK_FULL_FLAG\<rparr>"
    let ?n = "\<lparr>blk_used = 0, blk_data = dyn_heap a (length pre)\<rparr>"
    have add: "fst (dyn_array_add_block a) = length (pre @ [?f b])"
      "dyn_blocks (snd (dyn_array_add_block a)) = (pre @ [?f b]) @ [?n]"
      using a(1,4) b by (simp_all add: dyn_array_add_block_def Let_def dyn_blocks_more dyn_blocks_upd)
    have "full_block (?f b)"
      unfolding full_block_def
      by (rule exI [of _ "unat (blk_used b)"]) (use a(3) False assms(2) in \<open>auto intro: gr0I\<close>)
    then have full: "\<forall>x \<in> set (pre @ [?f b]). full_block x" using a(2) by simp
    have "DYN_ARRAY_DATA_SIZE < unat (blk_used (first_blk a)) + sz"
    proof (cases pre)
      case Nil
      then have "first_blk a = b" using a(1) by (simp add: dyn_blocks_def)
      then show ?thesis using False by simp
    next
      case (Cons p ps)
      then have "first_blk a = p" using a(1) by (simp add: dyn_blocks_def)
      then show ?thesis using Cons a(2) full_block_too_big [of p] by auto
    qed
    then have room: "dyn_find_room sz a = (length (pre @ [?f b]), snd (dyn_array_add_block a))"
      using False a(4) b add(1) by (simp add: dyn_find_room_def Let_def prod_eq_iff)
    have "block_bytes (?f b) = block_bytes b"
      using small_no_flag(1) [OF a(3)] used_small [OF a(3)]
      by (simp add: block_bytes_def dyn_block_get_used_def dyn_block_get_data_def)
    then have "concat (map block_bytes (pre @ [?f b])) @ block_bytes ?n = dyn_content a"
      by (simp add: dyn_content_snoc [OF a(1)] block_bytes_def dyn_block_get_used_def)
    from that [OF room add(2) full _ this] show ?thesis using assms(2) by simp
  qed
qed

section \<open>The operations append bytes\<close>

text \<open>Bytes written behind the used part of the last block, which then grows over them.\<close>

lemma last_block_grows:
  assumes "dyn_blocks a = pre @ [b]" "\<forall>x \<in> set pre. full_block x"
    "unat (blk_used b) + k \<le> DYN_ARRAY_DATA_SIZE"
    "dyn_blocks a' = pre @ [\<lparr>blk_used = of_nat (unat (blk_used b) + k), blk_data = m\<rparr>]"
    "\<And>i. i < unat (blk_used b) \<Longrightarrow> m i = blk_data b i"
  shows "dyn_ok a'" "dyn_content a' = dyn_content a @ copy_in m (unat (blk_used b)) k"
proof -
  let ?u = "unat (blk_used b)" and ?b = "\<lparr>blk_used = of_nat (unat (blk_used b) + k), blk_data = m\<rparr>"
  have small: "?u + k < 2 ^ 64" using assms(3) by (simp add: DYN_ARRAY_DATA_SIZE_def)
  then have used: "unat (blk_used ?b) = ?u + k"
    by (simp only: dyn_block.select_convs unat_of_nat_small)
  then show "dyn_ok a'" using assms(2-4) by (intro dyn_okI [OF assms(4)]) simp_all
  have "dyn_block_get_used ?b = ?u + k" using used used_small [of ?b] assms(3) by simp
  moreover have "dyn_block_get_used b = ?u" using assms(3) by (intro used_small) simp
  ultimately have "block_bytes ?b = block_bytes b @ copy_in m ?u k"
    using assms(5) by (simp add: block_bytes_def dyn_block_get_data_def copy_in_add) (simp add: copy_in_def)
  then show "dyn_content a' = dyn_content a @ copy_in m ?u k"
    by (simp add: dyn_content_snoc [OF assms(1)] dyn_content_snoc [OF assms(4)])
qed

lemma dyn_array_push_write:
  assumes "dyn_ok a" "length str \<le> DYN_ARRAY_DATA_SIZE" "dyn_array_push (length str) a = ((k, used), a1)"
  defines "a2 \<equiv> dyn_write k (mem_put (blk_data (dyn_blk a1 k)) used str) a1"
  shows "dyn_ok a2" "dyn_content a2 = dyn_content a @ str"
proof -
  obtain pre b a0 where room: "dyn_find_room (length str) a = (length pre, a0)" "dyn_blocks a0 = pre @ [b]"
    "\<forall>x \<in> set pre. full_block x" "unat (blk_used b) + length str \<le> DYN_ARRAY_DATA_SIZE"
    "concat (map block_bytes pre) @ block_bytes b = dyn_content a"
    using assms(1,2) by (rule dyn_find_room)
  have c0: "dyn_content a0 = dyn_content a" using room(5) by (simp add: dyn_content_snoc [OF room(2)])
  let ?m = "mem_put (blk_data b) (unat (blk_used b)) str"
  have push: "k = length pre" "used = unat (blk_used b)"
    "dyn_blocks a1 = pre @ [b\<lparr>blk_used := of_nat (unat (blk_used b) + length str)\<rparr>]"
    using assms(3) room(1,2) by (auto simp: dyn_array_push_def dyn_blk_nth dyn_blocks_upd Let_def)
  have "dyn_blocks a2 = pre @ [\<lparr>blk_used = of_nat (unat (blk_used b) + length str), blk_data = ?m\<rparr>]"
    using push by (simp add: a2_def dyn_write_def dyn_blk_nth dyn_blocks_upd)
  from last_block_grows [OF room(2,3,4) this]
  show "dyn_ok a2" "dyn_content a2 = dyn_content a @ str"
    by (simp_all add: mem_put_apply copy_in_put c0)
qed

lemma dyn_push_string_appends:
  "dyn_ok a \<Longrightarrow> dyn_ok (dyn_push_string str a) \<and> dyn_content (dyn_push_string str a) = dyn_content a @ str"
proof (induction str a rule: dyn_push_string.induct)
  case (1 str a)
  show ?case
  proof (cases "length str > 0")
    case False
    then show ?thesis using "1.prems" by (simp add: dyn_push_string.simps)
  next
    case True
    let ?n = "if length str > DYN_ARRAY_DATA_SIZE then DYN_ARRAY_DATA_SIZE else length str"
    obtain k used a1 where p: "dyn_array_push ?n a = ((k, used), a1)" by (metis prod.exhaust_sel)
    let ?a2 = "dyn_write k (mem_put (blk_data (dyn_blk a1 k)) used (take ?n str)) a1"
    have n: "length (take ?n str) = ?n" by simp
    have le: "length (take ?n str) \<le> DYN_ARRAY_DATA_SIZE" unfolding n by simp
    have p': "dyn_array_push (length (take ?n str)) a = ((k, used), a1)" unfolding n by (rule p)
    note step = dyn_array_push_write [OF "1.prems" le p']
    have "dyn_ok (dyn_push_string (drop ?n str) ?a2) \<and>
        dyn_content (dyn_push_string (drop ?n str) ?a2) = dyn_content ?a2 @ drop ?n str"
      by (rule "1.IH" [OF True refl p [symmetric] refl step(1)])
    moreover have "dyn_push_string str a = dyn_push_string (drop ?n str) ?a2"
      by (subst dyn_push_string.simps) (simp only: Let_def p True if_True prod.case)
    moreover have "dyn_content ?a2 = dyn_content a @ take ?n str" using step(2) .
    ultimately show ?thesis by (simp del: if_split)
  qed
qed

text \<open>
  A buffer opened in the array, written behind its start and closed at \<open>ptr\<close>: what was written
  between the two is appended. \<open>sz\<close> bounds what the caller may write.
\<close>

lemma dyn_open_close:
  assumes "dyn_ok a" "sz \<le> DYN_ARRAY_DATA_SIZE" "dyn_array_open sz a = ((k, off), a1)"
    "off \<le> ptr" "ptr \<le> off + sz" "\<And>i. i < off \<Longrightarrow> m i = blk_data (dyn_blk a1 k) i"
  defines "a2 \<equiv> dyn_array_close ptr (dyn_write k m a1)"
  shows "dyn_ok a2" "dyn_content a2 = dyn_content a @ copy_in m off (ptr - off)"
proof -
  obtain pre b a0 where room: "dyn_find_room sz a = (length pre, a0)" "dyn_blocks a0 = pre @ [b]"
    "\<forall>x \<in> set pre. full_block x" "unat (blk_used b) + sz \<le> DYN_ARRAY_DATA_SIZE"
    "concat (map block_bytes pre) @ block_bytes b = dyn_content a"
    using assms(1,2) by (rule dyn_find_room)
  have c0: "dyn_content a0 = dyn_content a" using room(5) by (simp add: dyn_content_snoc [OF room(2)])
  have op: "k = length pre" "off = unat (blk_used b)" "a1 = a0"
    using assms(3) room(1,2) by (auto simp: dyn_array_open_def dyn_blk_nth)
  have w: "dyn_blocks (dyn_write k m a1) = pre @ [b\<lparr>blk_data := m\<rparr>]"
    using op room(2) by (simp add: dyn_write_def dyn_blk_nth dyn_blocks_upd)
  then have "dyn_blocks a2 = pre @ [\<lparr>blk_used = of_nat (unat (blk_used b) + (ptr - off)), blk_data = m\<rparr>]"
    using op assms(4) by (simp add: a2_def dyn_array_close_def last_block_index dyn_blocks_upd dyn_blk_nth)
  from last_block_grows [OF room(2,3) _ this]
  show "dyn_ok a2" "dyn_content a2 = dyn_content a @ copy_in m off (ptr - off)"
    using room(4) assms(4-6) op room(2) by (simp_all add: c0 dyn_blk_nth)
qed

interpretation dyn: append_log dyn_content dyn_ok dyn_push_string
  by unfold_locales (simp_all add: dyn_push_string_appends)

section \<open>Reading the array\<close>

lemma length_block_bytes: "length (block_bytes b) = dyn_block_get_used b"
  by (simp add: block_bytes_def)

lemma dyn_element_scan_reads:
  assumes "pos < length (concat (map block_bytes bs))"
  shows "\<exists>j off. dyn_element_scan bs k pos = Some (k + j, off) \<and> j < length bs \<and>
    blk_data (bs ! j) off = concat (map block_bytes bs) ! pos"
  using assms
proof (induction bs k pos rule: dyn_element_scan.induct)
  case (2 b bs k pos)
  show ?case
  proof (cases "pos \<ge> dyn_block_get_used b")
    case True
    have "pos < dyn_block_get_used b + length (concat (map block_bytes bs))"
      using "2.prems" by (simp add: length_block_bytes)
    with True have "pos - dyn_block_get_used b < length (concat (map block_bytes bs))" by linarith
    from "2.IH" [OF True this] obtain j off where "dyn_element_scan bs (k + 1) (pos - dyn_block_get_used b) = Some (k + 1 + j, off)"
      "j < length bs" "blk_data (bs ! j) off = concat (map block_bytes bs) ! (pos - dyn_block_get_used b)"
      by blast
    then show ?thesis
      using True by (intro exI [of _ "Suc j"] exI [of _ off]) (simp add: nth_append length_block_bytes)
  next
    case False
    then show ?thesis
      by (intro exI [of _ 0] exI [of _ pos])
        (simp add: nth_append length_block_bytes block_bytes_def dyn_block_get_data_def)
  qed
qed simp

lemma dyn_array_get_element_reads:
  assumes "dyn_ok a" "pos < length (dyn_content a)"
  obtains k off where "dyn_array_get_element a pos = Some (k, off)" "blk_data (dyn_blk a k) off = dyn_content a ! pos"
proof (cases "more_blks a = []")
  case True
  then have b: "dyn_blocks a = [first_blk a]" by (simp add: dyn_blocks_def)
  then have "dyn_content a = block_bytes (first_blk a)" by (simp add: dyn_content_def)
  then show ?thesis
    using that [of 0 pos] assms(2) True
    by (simp add: dyn_array_get_element_def dyn_blk_def length_block_bytes block_bytes_def dyn_block_get_data_def)
next
  case False
  then have "dyn_array_get_element a pos = dyn_element_scan (dyn_blocks a) 0 pos"
    by (simp add: dyn_array_get_element_def dyn_blocks_def)
  moreover obtain j off where "dyn_element_scan (dyn_blocks a) 0 pos = Some (0 + j, off)"
    "blk_data (dyn_blocks a ! j) off = dyn_content a ! pos"
    using dyn_element_scan_reads [of pos "dyn_blocks a" 0] assms(2) unfolding dyn_content_def by blast
  ultimately show ?thesis using that [of j off] by (simp add: dyn_blk_nth)
qed

lemma dyn_array_get_data_size_length:
  assumes "dyn_ok a"
  shows "dyn_array_get_data_size a = length (dyn_content a)"
proof -
  have "fold (\<lambda>b sum. sum + dyn_block_get_used b) bs n = n + length (concat (map block_bytes bs))" for bs n
    by (induction bs arbitrary: n) (simp_all add: length_block_bytes)
  from this [of "dyn_blocks a" 0] show ?thesis
    using assms used_small [of "first_blk a"]
    by (auto simp: dyn_array_get_data_size_def dyn_content_def dyn_blocks_def dyn_ok_def length_block_bytes)
qed

end
