(* ===== verification/Mtr.thy ===== *)
theory Mtr
  imports DynArr
begin

text \<open>
  Mini-transactions (\<open>mtr/mtr0mtr.c\<close>, \<open>include/mtr0mtr.ic\<close>) and the writing and parsing of their
  log records (\<open>mtr/mtr0log.c\<close>, \<open>include/mtr0log.ic\<close>): the memo of latched objects, the log of the
  mini-transaction in a dynamic array, and the logged writes of 1 to 8 bytes and of strings.
\<close>

section \<open>The mini-transaction\<close>

definition UNIV_PAGE_SIZE :: nat where "UNIV_PAGE_SIZE = 16384"
definition FIL_PAGE_OFFSET :: nat where "FIL_PAGE_OFFSET = 4"
definition FIL_PAGE_LSN :: nat where "FIL_PAGE_LSN = 16"
definition FIL_PAGE_TYPE :: nat where "FIL_PAGE_TYPE = 24"
definition FIL_PAGE_ARCH_LOG_NO_OR_SPACE_ID :: nat where "FIL_PAGE_ARCH_LOG_NO_OR_SPACE_ID = 34"
definition FIL_PAGE_DATA :: nat where "FIL_PAGE_DATA = 38"
definition FIL_PAGE_INDEX :: ulint where "FIL_PAGE_INDEX = 17855"

definition MTR_LOG_ALL :: ulint where "MTR_LOG_ALL = 21"
definition MTR_LOG_NONE :: ulint where "MTR_LOG_NONE = 22"
definition MTR_LOG_SHORT_INSERTS :: ulint where "MTR_LOG_SHORT_INSERTS = 24"

definition MTR_MEMO_PAGE_S_FIX :: ulint where "MTR_MEMO_PAGE_S_FIX = 1"
definition MTR_MEMO_PAGE_X_FIX :: ulint where "MTR_MEMO_PAGE_X_FIX = 2"
definition MTR_MEMO_BUF_FIX :: ulint where "MTR_MEMO_BUF_FIX = 3"
definition MTR_MEMO_MODIFY :: ulint where "MTR_MEMO_MODIFY = 54"
definition MTR_MEMO_S_LOCK :: ulint where "MTR_MEMO_S_LOCK = 55"
definition MTR_MEMO_X_LOCK :: ulint where "MTR_MEMO_X_LOCK = 56"

text \<open>
  A page is named by its space id and page number. An object of the memo is a buffer block, named by
  its page, or a latch; \<open>slot_object\<close> is \<open>None\<close> once it is released. The memo is the list of its slots
  in the order they were pushed.
\<close>

type_synonym page_id = "ulint \<times> ulint"

datatype memo_object = Block page_id | Latch nat

record mtr_memo_slot =
  slot_object :: "memo_object option"
  slot_type :: ulint

record mtr_t =
  memo :: "mtr_memo_slot list"
  mlog :: dyn_array
  modifications :: bool
  n_log_recs :: nat
  log_mode :: ulint
  start_lsn :: nat
  end_lsn :: nat

text \<open>\<open>junk\<close> is what the memory the caller gives holds; its blocks of log come from \<open>heap\<close>.\<close>

definition mtr_start :: "mtr_t \<Rightarrow> mtr_t" where
  "mtr_start junk = junk\<lparr>memo := [], mlog := dyn_array_create (blk_data (first_blk (mlog junk))) (dyn_heap (mlog junk)),
     log_mode := MTR_LOG_ALL, modifications := False, n_log_recs := 0\<rparr>"

definition mtr_memo_push :: "memo_object \<Rightarrow> ulint \<Rightarrow> mtr_t \<Rightarrow> mtr_t" where
  "mtr_memo_push object type mtr = mtr\<lparr>memo := memo mtr @ [\<lparr>slot_object = Some object, slot_type = type\<rparr>]\<rparr>"

text \<open>Savepoints and positions in the memo count slots.\<close>

definition mtr_set_savepoint :: "mtr_t \<Rightarrow> nat" where
  "mtr_set_savepoint mtr = length (memo mtr)"

text \<open>What releasing a slot does to the outside, in the order it is done.\<close>

datatype release = Page_release page_id ulint | S_unlock nat | X_unlock nat

definition slot_release :: "mtr_memo_slot \<Rightarrow> release list" where
  "slot_release slot = (case slot_object slot of
      None \<Rightarrow> []
    | Some obj \<Rightarrow>
        (if slot_type slot \<le> MTR_MEMO_BUF_FIX then
           (case obj of Block b \<Rightarrow> [Page_release b (slot_type slot)] | Latch _ \<Rightarrow> [])
         else if slot_type slot = MTR_MEMO_S_LOCK then (case obj of Latch l \<Rightarrow> [S_unlock l] | Block _ \<Rightarrow> [])
         else if slot_type slot \<noteq> MTR_MEMO_X_LOCK then []
         else (case obj of Latch l \<Rightarrow> [X_unlock l] | Block _ \<Rightarrow> [])))"

definition clear_slot :: "nat \<Rightarrow> mtr_t \<Rightarrow> mtr_t" where
  "clear_slot k mtr = mtr\<lparr>memo := (memo mtr)[k := (memo mtr ! k)\<lparr>slot_object := None\<rparr>]\<rparr>"

definition mtr_memo_slot_release :: "nat \<Rightarrow> release list \<times> mtr_t \<Rightarrow> release list \<times> mtr_t" where
  "mtr_memo_slot_release k = (\<lambda>(rs, mtr). (rs @ slot_release (memo mtr ! k), clear_slot k mtr))"

text \<open>The loops over the memo go from its end towards its start.\<close>

definition mtr_memo_pop_all :: "mtr_t \<Rightarrow> release list \<times> mtr_t" where
  "mtr_memo_pop_all mtr = fold mtr_memo_slot_release (rev [0..<length (memo mtr)]) ([], mtr)"

definition mtr_rollback_to_savepoint :: "nat \<Rightarrow> mtr_t \<Rightarrow> release list \<times> mtr_t" where
  "mtr_rollback_to_savepoint savepoint mtr =
     fold mtr_memo_slot_release (rev [savepoint..<length (memo mtr)]) ([], mtr)"

fun memo_search :: "memo_object \<Rightarrow> ulint \<Rightarrow> mtr_memo_slot list \<Rightarrow> nat \<Rightarrow> nat option" where
  "memo_search object type slots 0 = None"
| "memo_search object type slots (Suc off) =
     (if slot_object (slots ! off) = Some object \<and> slot_type (slots ! off) = type then Some off
      else memo_search object type slots off)"

definition mtr_memo_release :: "memo_object \<Rightarrow> ulint \<Rightarrow> mtr_t \<Rightarrow> release list \<times> mtr_t" where
  "mtr_memo_release object type mtr = (case memo_search object type (memo mtr) (length (memo mtr)) of
      None \<Rightarrow> ([], mtr)
    | Some k \<Rightarrow> mtr_memo_slot_release k ([], mtr))"

definition mtr_memo_contains :: "mtr_t \<Rightarrow> memo_object \<Rightarrow> ulint \<Rightarrow> bool" where
  "mtr_memo_contains mtr object type \<longleftrightarrow> memo_search object type (memo mtr) (length (memo mtr)) \<noteq> None"

definition mtr_memo_contains_page :: "mtr_t \<Rightarrow> page_id \<Rightarrow> ulint \<Rightarrow> bool" where
  "mtr_memo_contains_page mtr page type = mtr_memo_contains mtr (Block page) type"

text \<open>\<open>None\<close> if the slot is not the s-latch the caller says, which is asserted.\<close>

definition mtr_release_s_latch_at_savepoint :: "nat \<Rightarrow> nat \<Rightarrow> mtr_t \<Rightarrow> (release list \<times> mtr_t) option" where
  "mtr_release_s_latch_at_savepoint savepoint lock mtr =
     (if savepoint < length (memo mtr) \<and> memo mtr ! savepoint = \<lparr>slot_object = Some (Latch lock), slot_type = MTR_MEMO_S_LOCK\<rparr>
      then Some ([S_unlock lock], clear_slot savepoint mtr) else None)"

definition mtr_get_log_mode :: "mtr_t \<Rightarrow> ulint" where
  "mtr_get_log_mode mtr = log_mode mtr"

definition mtr_set_log_mode :: "ulint \<Rightarrow> mtr_t \<Rightarrow> ulint \<times> mtr_t" where
  "mtr_set_log_mode mode mtr =
     (let old_mode = log_mode mtr
      in (old_mode, if mode = MTR_LOG_SHORT_INSERTS \<and> old_mode = MTR_LOG_NONE then mtr else mtr\<lparr>log_mode := mode\<rparr>))"

definition mtr_read_ulint :: "mem \<Rightarrow> nat \<Rightarrow> ulint \<Rightarrow> ulint" where
  "mtr_read_ulint page ptr type =
     (if type = 1 then mach_read_from_1 page ptr
      else if type = 2 then mach_read_from_2 page ptr
      else mach_read_from_4 page ptr)"

definition mtr_read_dulint :: "mem \<Rightarrow> nat \<Rightarrow> dulint" where
  "mtr_read_dulint page ptr = mach_read_from_8 page ptr"

section \<open>Writing log records\<close>

definition MLOG_SINGLE_REC_FLAG :: byte where "MLOG_SINGLE_REC_FLAG = 128"
definition MLOG_1BYTE :: byte where "MLOG_1BYTE = 1"
definition MLOG_2BYTES :: byte where "MLOG_2BYTES = 2"
definition MLOG_4BYTES :: byte where "MLOG_4BYTES = 4"
definition MLOG_8BYTES :: byte where "MLOG_8BYTES = 8"
definition MLOG_WRITE_STRING :: byte where "MLOG_WRITE_STRING = 30"
definition MLOG_MULTI_REC_END :: byte where "MLOG_MULTI_REC_END = 31"
definition MLOG_BIGGEST_TYPE :: byte where "MLOG_BIGGEST_TYPE = 51"

lemmas mlog_types = MLOG_SINGLE_REC_FLAG_def MLOG_1BYTE_def MLOG_2BYTES_def MLOG_4BYTES_def MLOG_8BYTES_def
  MLOG_WRITE_STRING_def MLOG_MULTI_REC_END_def MLOG_BIGGEST_TYPE_def

text \<open>\<open>NULL\<close>, the \<open>None\<close> here, is returned if the mini-transaction does no logging.\<close>

definition mlog_open :: "nat \<Rightarrow> mtr_t \<Rightarrow> (nat \<times> nat) option \<times> mtr_t" where
  "mlog_open sz mtr =
     (let mtr1 = mtr\<lparr>modifications := True\<rparr>
      in if mtr_get_log_mode mtr1 = MTR_LOG_NONE then (None, mtr1)
         else case dyn_array_open sz (mlog mtr1) of (p, a) \<Rightarrow> (Some p, mtr1\<lparr>mlog := a\<rparr>))"

definition mlog_close :: "nat \<Rightarrow> mtr_t \<Rightarrow> mtr_t" where
  "mlog_close ptr mtr = mtr\<lparr>mlog := dyn_array_close ptr (mlog mtr)\<rparr>"

text \<open>What the code writes through the pointer into block \<open>k\<close> of the log that \<open>mlog_open\<close> returned.\<close>

definition mlog_buf :: "nat \<Rightarrow> mtr_t \<Rightarrow> mem" where
  "mlog_buf k mtr = blk_data (dyn_blk (mlog mtr) k)"

definition mlog_set_buf :: "nat \<Rightarrow> mem \<Rightarrow> mtr_t \<Rightarrow> mtr_t" where
  "mlog_set_buf k m mtr = mtr\<lparr>mlog := dyn_write k m (mlog mtr)\<rparr>"

definition mlog_catenate_string :: "byte list \<Rightarrow> mtr_t \<Rightarrow> mtr_t" where
  "mlog_catenate_string str mtr =
     (if mtr_get_log_mode mtr = MTR_LOG_NONE then mtr else mtr\<lparr>mlog := dyn_push_string str (mlog mtr)\<rparr>)"

text \<open>Only the type \<open>MLOG_1BYTE\<close> is asserted in the last case.\<close>

definition mlog_catenate_ulint :: "ulint \<Rightarrow> byte \<Rightarrow> mtr_t \<Rightarrow> mtr_t" where
  "mlog_catenate_ulint val type mtr =
     (if mtr_get_log_mode mtr = MTR_LOG_NONE then mtr
      else case dyn_array_push (unat type) (mlog mtr) of ((k, ptr), a) \<Rightarrow>
        let m = blk_data (dyn_blk a k)
        in mtr\<lparr>mlog := dyn_write k
             (if type = MLOG_4BYTES then mach_write_to_4 m ptr val
              else if type = MLOG_2BYTES then mach_write_to_2 m ptr val
              else mach_write_to_1 m ptr val) a\<rparr>)"

definition mlog_catenate_ulint_compressed :: "ulint \<Rightarrow> mtr_t \<Rightarrow> mtr_t" where
  "mlog_catenate_ulint_compressed val mtr = (case mlog_open 10 mtr of
      (None, mtr1) \<Rightarrow> mtr1
    | (Some (k, log_ptr), mtr1) \<Rightarrow>
        (case mach_write_compressed (mlog_buf k mtr1) log_ptr val of
           (m, n) \<Rightarrow> mlog_close (log_ptr + n) (mlog_set_buf k m mtr1)))"

definition mlog_catenate_dulint_compressed :: "dulint \<Rightarrow> mtr_t \<Rightarrow> mtr_t" where
  "mlog_catenate_dulint_compressed val mtr = (case mlog_open 15 mtr of
      (None, mtr1) \<Rightarrow> mtr1
    | (Some (k, log_ptr), mtr1) \<Rightarrow>
        (case mach_dulint_write_compressed (mlog_buf k mtr1) log_ptr val of
           (m, n) \<Rightarrow> mlog_close (log_ptr + n) (mlog_set_buf k m mtr1)))"

text \<open>
  \<open>page\<close> is the frame \<open>ptr\<close> points into; the space id and the page number are read from its header.
  The result is the log buffer, the new \<open>log_ptr\<close> and the mini-transaction.
\<close>

definition mlog_write_initial_log_record_fast ::
    "mem \<Rightarrow> byte \<Rightarrow> mem \<Rightarrow> nat \<Rightarrow> mtr_t \<Rightarrow> mem \<times> nat \<times> mtr_t" where
  "mlog_write_initial_log_record_fast page type m log_ptr mtr =
     (let space = mach_read_from_4 page FIL_PAGE_ARCH_LOG_NO_OR_SPACE_ID;
          offset = mach_read_from_4 page FIL_PAGE_OFFSET;
          m1 = mach_write_to_1 m log_ptr (ucast type)
      in case mach_write_compressed m1 (log_ptr + 1) space of (m2, n2) \<Rightarrow>
         case mach_write_compressed m2 (log_ptr + 1 + n2) offset of (m3, n3) \<Rightarrow>
           (let block = Block (space, offset);
                mtr1 = mtr\<lparr>n_log_recs := n_log_recs mtr + 1\<rparr>
            in (m3, log_ptr + 1 + n2 + n3,
                if mtr_memo_contains mtr1 block MTR_MEMO_MODIFY then mtr1
                else mtr_memo_push block MTR_MEMO_MODIFY mtr1)))"

definition mlog_write_initial_log_record_for_file_op ::
    "byte \<Rightarrow> ulint \<Rightarrow> ulint \<Rightarrow> mem \<Rightarrow> nat \<Rightarrow> mtr_t \<Rightarrow> mem \<times> nat \<times> mtr_t" where
  "mlog_write_initial_log_record_for_file_op type space_id page_no m log_ptr mtr =
     (let m1 = mach_write_to_1 m log_ptr (ucast type)
      in case mach_write_compressed m1 (log_ptr + 1) space_id of (m2, n2) \<Rightarrow>
         case mach_write_compressed m2 (log_ptr + 1 + n2) page_no of (m3, n3) \<Rightarrow>
           (m3, log_ptr + 1 + n2 + n3, mtr\<lparr>n_log_recs := n_log_recs mtr + 1\<rparr>))"

definition mlog_write_initial_log_record :: "mem \<Rightarrow> byte \<Rightarrow> mtr_t \<Rightarrow> mtr_t" where
  "mlog_write_initial_log_record page type mtr = (case mlog_open 11 mtr of
      (None, mtr1) \<Rightarrow> mtr1
    | (Some (k, log_ptr), mtr1) \<Rightarrow>
        (case mlog_write_initial_log_record_fast page type (mlog_buf k mtr1) log_ptr mtr1 of
           (m, log_ptr', mtr2) \<Rightarrow> mlog_close log_ptr' (mlog_set_buf k m mtr2)))"

text \<open>
  The logged writes, at offset \<open>ptr\<close> of a frame. \<open>None\<close> is \<open>ut_error\<close> for another type than 1, 2 or 4
  bytes.
\<close>

definition mach_write_type :: "byte \<Rightarrow> mem \<Rightarrow> nat \<Rightarrow> ulint \<Rightarrow> mem option" where
  "mach_write_type type page ptr val =
     (if type = MLOG_1BYTE then Some (mach_write_to_1 page ptr val)
      else if type = MLOG_2BYTES then Some (mach_write_to_2 page ptr val)
      else if type = MLOG_4BYTES then Some (mach_write_to_4 page ptr val)
      else None)"

definition mlog_write_ulint :: "nat \<Rightarrow> ulint \<Rightarrow> byte \<Rightarrow> mem \<times> mtr_t \<Rightarrow> (mem \<times> mtr_t) option" where
  "mlog_write_ulint ptr val type = (\<lambda>(page, mtr). case mach_write_type type page ptr val of
      None \<Rightarrow> None
    | Some page1 \<Rightarrow>
        (case mlog_open (11 + 2 + 5) mtr of
           (None, mtr1) \<Rightarrow> Some (page1, mtr1)
         | (Some (k, log_ptr), mtr1) \<Rightarrow>
             (case mlog_write_initial_log_record_fast page1 type (mlog_buf k mtr1) log_ptr mtr1 of
                (m, log_ptr', mtr2) \<Rightarrow>
                  (case mach_write_compressed (mach_write_to_2 m log_ptr' (of_nat ptr)) (log_ptr' + 2) val of
                     (m', n) \<Rightarrow> Some (page1, mlog_close (log_ptr' + 2 + n) (mlog_set_buf k m' mtr2))))))"

definition mlog_write_dulint :: "nat \<Rightarrow> dulint \<Rightarrow> mem \<times> mtr_t \<Rightarrow> mem \<times> mtr_t" where
  "mlog_write_dulint ptr val = (\<lambda>(page, mtr).
     let page1 = mach_write_to_8 page ptr val
     in case mlog_open (11 + 2 + 9) mtr of
          (None, mtr1) \<Rightarrow> (page1, mtr1)
        | (Some (k, log_ptr), mtr1) \<Rightarrow>
            (case mlog_write_initial_log_record_fast page1 MLOG_8BYTES (mlog_buf k mtr1) log_ptr mtr1 of
               (m, log_ptr', mtr2) \<Rightarrow>
                 (case mach_dulint_write_compressed (mach_write_to_2 m log_ptr' (of_nat ptr)) (log_ptr' + 2) val of
                    (m', n) \<Rightarrow> (page1, mlog_close (log_ptr' + 2 + n) (mlog_set_buf k m' mtr2)))))"

definition mlog_log_string :: "nat \<Rightarrow> nat \<Rightarrow> mem \<Rightarrow> mtr_t \<Rightarrow> mtr_t" where
  "mlog_log_string ptr len page mtr = (case mlog_open 30 mtr of
      (None, mtr1) \<Rightarrow> mtr1
    | (Some (k, log_ptr), mtr1) \<Rightarrow>
        (case mlog_write_initial_log_record_fast page MLOG_WRITE_STRING (mlog_buf k mtr1) log_ptr mtr1 of
           (m, log_ptr', mtr2) \<Rightarrow>
             let m' = mach_write_to_2 (mach_write_to_2 m log_ptr' (of_nat ptr)) (log_ptr' + 2) (of_nat len)
             in mlog_catenate_string (copy_in page ptr len)
                  (mlog_close (log_ptr' + 4) (mlog_set_buf k m' mtr2))))"

definition mlog_write_string :: "nat \<Rightarrow> byte list \<Rightarrow> mem \<times> mtr_t \<Rightarrow> (mem \<times> mtr_t) option" where
  "mlog_write_string ptr str = (\<lambda>(page, mtr).
     if length str < UNIV_PAGE_SIZE then
       (let page1 = mem_put page ptr str in Some (page1, mlog_log_string ptr (length str) page1 mtr))
     else None)"

section \<open>Parsing log records\<close>

text \<open>
  A parser finds the buffer to end before the record does, finds the log corrupt (and sets
  \<open>recv_sys->found_corrupt_log\<close>), fails an assertion, or returns the end of the record. The block a
  record is applied to is its frame and, for a compressed page, \<open>page_zip->data\<close>.
\<close>

datatype 'a parsed = Incomplete | Corrupt | Assert_failed | Parsed nat 'a

type_synonym block = "mem \<times> mem option"

definition block_write :: "(mem \<Rightarrow> mem) \<Rightarrow> block option \<Rightarrow> block option" where
  "block_write f = map_option (\<lambda>(page, zip). (f page, map_option f zip))"

definition zip_index_page :: "block option \<Rightarrow> bool" where
  "zip_index_page b \<longleftrightarrow> (case b of
      Some (page, Some _) \<Rightarrow> mach_read_from_2 page FIL_PAGE_TYPE = FIL_PAGE_INDEX
    | _ \<Rightarrow> False)"

definition mlog_parse_initial_log_record :: "mem \<Rightarrow> nat \<Rightarrow> nat \<Rightarrow> (byte \<times> ulint \<times> ulint) parsed" where
  "mlog_parse_initial_log_record m ptr end_ptr =
     (if end_ptr < ptr + 1 then Incomplete
      else
        let type = m ptr AND NOT MLOG_SINGLE_REC_FLAG
        in if end_ptr < ptr + 1 + 2 then Incomplete
           else case mach_parse_compressed m (ptr + 1) end_ptr of
                  None \<Rightarrow> Incomplete
                | Some (ptr1, space) \<Rightarrow>
                    (case mach_parse_compressed m ptr1 end_ptr of
                       None \<Rightarrow> Incomplete
                     | Some (ptr2, page_no) \<Rightarrow> Parsed ptr2 (type, space, page_no)))"

definition mlog_parse_nbytes :: "byte \<Rightarrow> mem \<Rightarrow> nat \<Rightarrow> nat \<Rightarrow> block option \<Rightarrow> block option parsed" where
  "mlog_parse_nbytes type m ptr end_ptr block =
     (if \<not> type \<le> MLOG_8BYTES \<or> zip_index_page block then Assert_failed
      else if end_ptr < ptr + 2 then Incomplete
      else
        let offset = unat (mach_read_from_2 m ptr)
        in if offset \<ge> UNIV_PAGE_SIZE then Corrupt
           else if type = MLOG_8BYTES then
             (case mach_dulint_parse_compressed m (ptr + 2) end_ptr of
                None \<Rightarrow> Incomplete
              | Some (ptr1, dval) \<Rightarrow> Parsed ptr1 (block_write (\<lambda>p. mach_write_to_8 p offset dval) block))
           else
             (case mach_parse_compressed m (ptr + 2) end_ptr of
                None \<Rightarrow> Incomplete
              | Some (ptr1, val) \<Rightarrow>
                  if type = MLOG_1BYTE then
                    (if val > 0xFF then Corrupt
                     else Parsed ptr1 (block_write (\<lambda>p. mach_write_to_1 p offset val) block))
                  else if type = MLOG_2BYTES then
                    (if val > 0xFFFF then Corrupt
                     else Parsed ptr1 (block_write (\<lambda>p. mach_write_to_2 p offset val) block))
                  else if type = MLOG_4BYTES then
                    Parsed ptr1 (block_write (\<lambda>p. mach_write_to_4 p offset val) block)
                  else Corrupt))"

definition mlog_parse_string :: "mem \<Rightarrow> nat \<Rightarrow> nat \<Rightarrow> block option \<Rightarrow> block option parsed" where
  "mlog_parse_string m ptr end_ptr block =
     (if zip_index_page block then Assert_failed
      else if end_ptr < ptr + 4 then Incomplete
      else
        let offset = unat (mach_read_from_2 m ptr);
            len = unat (mach_read_from_2 m (ptr + 2));
            ptr1 = ptr + 4
        in if offset \<ge> UNIV_PAGE_SIZE \<or> len + offset > UNIV_PAGE_SIZE then Corrupt
           else if end_ptr < ptr1 + len then Incomplete
           else Parsed (ptr1 + len) (block_write (\<lambda>p. mem_put p offset (copy_in m ptr1 len)) block))"

section \<open>The bytes of a record\<close>

text \<open>The bytes a writer of the file format leaves, as a list.\<close>

definition comp_bytes :: "ulint \<Rightarrow> byte list" where
  "comp_bytes v = copy_in (fst (mach_write_compressed (\<lambda>_. 0) 0 v)) 0 (mach_get_compressed_size v)"

definition dcomp_bytes :: "dulint \<Rightarrow> byte list" where
  "dcomp_bytes v = copy_in (fst (mach_dulint_write_compressed (\<lambda>_. 0) 0 v)) 0 (mach_dulint_get_compressed_size v)"

definition be2_bytes :: "ulint \<Rightarrow> byte list" where
  "be2_bytes v = copy_in (mach_write_to_2 (\<lambda>_. 0) 0 v) 0 2"

definition header_bytes :: "byte \<Rightarrow> ulint \<Rightarrow> ulint \<Rightarrow> byte list" where
  "header_bytes type space page_no = type # comp_bytes space @ comp_bytes page_no"

lemma length_bytes [simp]:
  "length (comp_bytes v) = mach_get_compressed_size v"
  "length (dcomp_bytes d) = mach_dulint_get_compressed_size d"
  "length (be2_bytes v) = 2"
  by (simp_all add: comp_bytes_def dcomp_bytes_def be2_bytes_def)

lemma write_compressed_nth:
  assumes "i < mach_get_compressed_size v"
  shows "fst (mach_write_compressed m b v) (b + i) = comp_bytes v ! i"
proof -
  note defs = mach_write_compressed_def mach_get_compressed_size_def comp_bytes_def
    mach_write_to_1_def mach_write_to_2_def mach_write_to_3_def mach_write_to_4_def
  consider "v < 0x80" | "\<not> v < 0x80" "v < 0x4000" | "\<not> v < 0x80" "\<not> v < 0x4000" "v < 0x200000"
    | "\<not> v < 0x80" "\<not> v < 0x4000" "\<not> v < 0x200000" "v < 0x10000000"
    | "\<not> v < 0x80" "\<not> v < 0x4000" "\<not> v < 0x200000" "\<not> v < 0x10000000" by blast
  then show ?thesis
    by cases (use assms in \<open>auto simp: defs less_Suc_eq numeral_eq_Suc\<close>)
qed

lemma write_4_nth: "i < 4 \<Longrightarrow> mach_write_to_4 m b v (b + i) = mach_write_to_4 m' b' v (b' + i)"
  by (auto simp: mach_write_to_4_def less_Suc_eq numeral_eq_Suc)

lemma write_dulint_compressed_nth:
  assumes "i < mach_dulint_get_compressed_size v"
  shows "fst (mach_dulint_write_compressed m b v) (b + i) = dcomp_bytes v ! i"
proof -
  let ?s = "mach_get_compressed_size (dul_high v)"
  have len: "mach_dulint_get_compressed_size v = 4 + ?s"
    by (simp add: mach_dulint_get_compressed_size_def dulint_access)
  have nth: "fst (mach_dulint_write_compressed m b v) (b + i) =
      (if i < ?s then comp_bytes (dul_high v) ! i else mach_write_to_4 (\<lambda>_. 0) 0 (dul_low v) (i - ?s))" for m b
  proof (cases "i < ?s")
    case True
    then show ?thesis by (simp add: dulint_write_compressed_eq f4.put_frame write_compressed_nth)
  next
    case False
    then have "b + i = b + ?s + (i - ?s)" by simp
    then show ?thesis using False assms len
      write_4_nth [of "i - ?s" "fst (mach_write_compressed m b (dul_high v))" "b + ?s" "dul_low v" "\<lambda>_. 0" 0]
      by (simp add: dulint_write_compressed_eq)
  qed
  have "dcomp_bytes v ! i = fst (mach_dulint_write_compressed (\<lambda>_. 0) 0 v) (0 + i)"
    using assms by (simp add: dcomp_bytes_def)
  then show ?thesis unfolding nth by simp
qed

lemma write_2_nth: "i < 2 \<Longrightarrow> mach_write_to_2 m b v (b + i) = be2_bytes v ! i"
  by (auto simp: be2_bytes_def mach_write_to_2_def less_Suc_eq numeral_eq_Suc)

text \<open>
  The memory from \<open>b\<close> on holds the bytes \<open>bs\<close>, as far as the buffer reaches, which ends at \<open>e\<close>.
\<close>

definition reads :: "mem \<Rightarrow> nat \<Rightarrow> nat \<Rightarrow> byte list \<Rightarrow> bool" where
  "reads m b e bs \<longleftrightarrow> (\<forall>i < length bs. b + i < e \<longrightarrow> m (b + i) = bs ! i)"

lemma reads_append: "reads m b e (xs @ ys) \<longleftrightarrow> reads m b e xs \<and> reads m (b + length xs) e ys"
proof
  assume a: "reads m b e (xs @ ys)"
  have "m (b + length xs + i) = ys ! i" if "i < length ys" "b + length xs + i < e" for i
    using a [unfolded reads_def, rule_format, of "length xs + i"] that by (simp add: nth_append add.assoc)
  moreover have "m (b + i) = xs ! i" if "i < length xs" "b + i < e" for i
    using a [unfolded reads_def, rule_format, of i] that by (simp add: nth_append)
  ultimately show "reads m b e xs \<and> reads m (b + length xs) e ys" by (simp add: reads_def)
next
  assume a: "reads m b e xs \<and> reads m (b + length xs) e ys"
  have "m (b + i) = (xs @ ys) ! i" if "i < length xs + length ys" "b + i < e" for i
    using a that by (cases "i < length xs")
      (auto simp: reads_def nth_append dest!: spec [of _ "i - length xs"])
  then show "reads m b e (xs @ ys)" by (simp add: reads_def)
qed

lemma reads_Cons: "reads m b e (x # xs) \<longleftrightarrow> (b < e \<longrightarrow> m b = x) \<and> reads m (b + 1) e xs"
  using reads_append [of m b e "[x]" xs] by (simp add: reads_def)

lemma reads_Nil [simp]: "reads m b e []"
  by (simp add: reads_def)

lemma reads_shorter: "reads m b e bs \<Longrightarrow> e' \<le> e \<Longrightarrow> reads m b e' bs"
  by (simp add: reads_def)

lemma reads_copy_in: "reads m b e bs \<Longrightarrow> b + length bs \<le> e \<Longrightarrow> copy_in m b (length bs) = bs"
  by (rule nth_equalityI) (simp_all add: reads_def)

lemma copy_in_reads: "copy_in m b (length bs) = bs \<Longrightarrow> reads m b e bs"
  unfolding reads_def by (metis nth_copy_in)

text \<open>What a parser does with such bytes.\<close>

lemma parse_comp:
  assumes "reads m b e (comp_bytes v)" "v \<le> 0xFFFFFFFF"
  shows "mach_parse_compressed m b e =
    (if e < b + mach_get_compressed_size v then None else Some (b + mach_get_compressed_size v, v))"
  by (rule comp.parse_prefix [where m = m])
    (use assms in \<open>auto simp: reads_def write_compressed_nth\<close>)

lemma parse_dcomp:
  assumes "reads m b e (dcomp_bytes v)" "dulint_ok v"
  shows "mach_dulint_parse_compressed m b e =
    (if e < b + mach_dulint_get_compressed_size v then None else Some (b + mach_dulint_get_compressed_size v, v))"
  by (rule dcomp.parse_prefix [where m = m])
    (use assms in \<open>auto simp: reads_def write_dulint_compressed_nth\<close>)

lemma read_be2:
  assumes "reads m b e (be2_bytes v)" "v \<le> 0xFFFF" "b + 2 \<le> e"
  shows "mach_read_from_2 m b = v"
proof -
  have "mach_read_from_2 m b = mach_read_from_2 (mach_write_to_2 (\<lambda>_. 0) b v) b"
    by (rule f2.get_cong) (use assms in \<open>simp add: reads_def write_2_nth\<close>)
  then show ?thesis using assms(2) by (simp add: f2.get_put)
qed

lemma no_single_flag:
  assumes "type \<le> MLOG_BIGGEST_TYPE"
  shows "type AND NOT MLOG_SINGLE_REC_FLAG = type" "(type OR MLOG_SINGLE_REC_FLAG) AND NOT MLOG_SINGLE_REC_FLAG = type"
    "type AND MLOG_SINGLE_REC_FLAG = 0" "(type OR MLOG_SINGLE_REC_FLAG) AND MLOG_SINGLE_REC_FLAG \<noteq> 0"
proof -
  have f: "bit MLOG_SINGLE_REC_FLAG i \<longleftrightarrow> i = 7" for i
  proof -
    have "MLOG_SINGLE_REC_FLAG = 2 ^ 7" by (simp add: MLOG_SINGLE_REC_FLAG_def)
    then have "bit MLOG_SINGLE_REC_FLAG i \<longleftrightarrow> bit (2 ^ 7 :: byte) i" by (simp only:)
    also have "\<dots> \<longleftrightarrow> i = 7" unfolding bit_exp_iff by auto
    finally show ?thesis .
  qed
  have "unat (take_bit 7 type) = unat type mod 128"
    unfolding unsigned_take_bit_eq by (simp add: take_bit_eq_mod)
  also have "\<dots> = unat type" using assms by (simp add: MLOG_BIGGEST_TYPE_def word_le_nat_alt)
  finally have "take_bit 7 type = type" by (simp only: word_unat_eq_iff)
  then have t: "\<not> bit type 7" by (metis bit_take_bit_iff less_irrefl)
  show "type AND NOT MLOG_SINGLE_REC_FLAG = type" "(type OR MLOG_SINGLE_REC_FLAG) AND NOT MLOG_SINGLE_REC_FLAG = type"
    "type AND MLOG_SINGLE_REC_FLAG = 0"
    using t by (auto intro!: bit_word_eqI simp: bit_simps f)
  have "bit ((type OR MLOG_SINGLE_REC_FLAG) AND MLOG_SINGLE_REC_FLAG) 7" by (simp add: bit_simps f)
  then show "(type OR MLOG_SINGLE_REC_FLAG) AND MLOG_SINGLE_REC_FLAG \<noteq> 0" by auto
qed

lemma parse_initial:
  assumes "reads m ptr e (header_bytes t space page_no)" "t = type \<or> t = type OR MLOG_SINGLE_REC_FLAG"
    "type \<le> MLOG_BIGGEST_TYPE" "space \<le> 0xFFFFFFFF" "page_no \<le> 0xFFFFFFFF"
  shows "mlog_parse_initial_log_record m ptr e =
    (if e < ptr + length (header_bytes t space page_no) then Incomplete
     else Parsed (ptr + length (header_bytes t space page_no)) (type, space, page_no))"
proof -
  let ?p1 = "ptr + 1 + mach_get_compressed_size space"
  have r: "ptr < e \<Longrightarrow> m ptr = t" "reads m (ptr + 1) e (comp_bytes space)" "reads m ?p1 e (comp_bytes page_no)"
    using assms(1) by (simp_all add: header_bytes_def reads_Cons reads_append)
  have "t AND NOT MLOG_SINGLE_REC_FLAG = type" using assms(2,3) no_single_flag by auto
  moreover have "1 \<le> mach_get_compressed_size space" "1 \<le> mach_get_compressed_size page_no"
    using mach_get_compressed_size_bounds by blast+
  ultimately show ?thesis
    using r(1) parse_comp [OF r(2) assms(4)] parse_comp [OF r(3) assms(5)]
    by (auto simp: mlog_parse_initial_log_record_def header_bytes_def Let_def)
qed

section \<open>What a logged write appends\<close>

text \<open>\<open>m'\<close> is \<open>m\<close> with \<open>bs\<close> written at \<open>p\<close>, and anything behind them.\<close>

definition wrote :: "mem \<Rightarrow> nat \<Rightarrow> byte list \<Rightarrow> mem \<Rightarrow> bool" where
  "wrote m p bs m' \<longleftrightarrow> copy_in m' p (length bs) = bs \<and> (\<forall>a < p. m' a = m a)"

lemma wrote_append:
  assumes "wrote m p xs m1" "wrote m1 (p + length xs) ys m2"
  shows "wrote m p (xs @ ys) m2"
proof -
  have "copy_in m2 p (length xs) = copy_in m1 p (length xs)"
    by (rule copy_in_cong) (use assms(2) in \<open>simp add: wrote_def\<close>)
  then show ?thesis using assms by (simp add: wrote_def copy_in_add)
qed

lemma wrote_1: "wrote m p [t] (mach_write_to_1 m p (ucast t))"
proof -
  have "ucast (ucast t :: ulint) = t" by (simp add: word_unat_eq_iff unat_byte_of_0 unat_ucast_byte byte_less)
  then show ?thesis by (simp add: wrote_def copy_in_def mach_write_to_1_def)
qed

lemma wrote_2: "wrote m p (be2_bytes v) (mach_write_to_2 m p v)"
proof -
  have "copy_in (mach_write_to_2 m p v) p 2 = be2_bytes v"
    by (rule nth_equalityI) (simp_all add: write_2_nth)
  then show ?thesis by (simp add: wrote_def f2.put_frame)
qed

lemma wrote_comp: "mach_write_compressed m p v = (m', n) \<Longrightarrow> wrote m p (comp_bytes v) m' \<and> n = length (comp_bytes v)"
proof -
  assume w: "mach_write_compressed m p v = (m', n)"
  have "copy_in m' p (mach_get_compressed_size v) = comp_bytes v"
    by (rule nth_equalityI) (use write_compressed_nth [of _ v m p] w in simp_all)
  moreover have "m' a = m a" if "a < p" for a using comp.put_frame [of a p v m] that w by simp
  ultimately show ?thesis using comp.put_len [of m p v] w by (simp add: wrote_def)
qed

lemma wrote_dcomp: "mach_dulint_write_compressed m p v = (m', n) \<Longrightarrow> wrote m p (dcomp_bytes v) m' \<and> n = length (dcomp_bytes v)"
proof -
  assume w: "mach_dulint_write_compressed m p v = (m', n)"
  have "copy_in m' p (mach_dulint_get_compressed_size v) = dcomp_bytes v"
    by (rule nth_equalityI) (use write_dulint_compressed_nth [of _ v m p] w in simp_all)
  moreover have "m' a = m a" if "a < p" for a using dcomp.put_frame [of a p v m] that w by simp
  ultimately show ?thesis using dcomp.put_len [of m p v] w by (simp add: wrote_def)
qed

definition page_space :: "mem \<Rightarrow> ulint" where
  "page_space page = mach_read_from_4 page FIL_PAGE_ARCH_LOG_NO_OR_SPACE_ID"

definition page_number :: "mem \<Rightarrow> ulint" where
  "page_number page = mach_read_from_4 page FIL_PAGE_OFFSET"

lemma header_fast_wrote:
  assumes "mlog_write_initial_log_record_fast page type m p mtr = (m', p', mtr')"
  shows "wrote m p (header_bytes type (page_space page) (page_number page)) m'"
    "p' = p + length (header_bytes type (page_space page) (page_number page))"
    "mlog mtr' = mlog mtr" "n_log_recs mtr' = n_log_recs mtr + 1" "modifications mtr' = modifications mtr"
    "log_mode mtr' = log_mode mtr"
proof -
  let ?m1 = "mach_write_to_1 m p (ucast type)"
  obtain m2 n2 where c2: "mach_write_compressed ?m1 (p + 1) (page_space page) = (m2, n2)" by fastforce
  obtain m3 n3 where c3: "mach_write_compressed m2 (p + 1 + n2) (page_number page) = (m3, n3)" by fastforce
  note w2 = wrote_comp [OF c2] and w3 = wrote_comp [OF c3]
  have r: "m' = m3" "p' = p + 1 + n2 + n3"
    "mtr' = (let mtr1 = mtr\<lparr>n_log_recs := n_log_recs mtr + 1\<rparr>; block = Block (page_space page, page_number page)
       in if mtr_memo_contains mtr1 block MTR_MEMO_MODIFY then mtr1 else mtr_memo_push block MTR_MEMO_MODIFY mtr1)"
    using assms c2 c3 by (auto simp: mlog_write_initial_log_record_fast_def Let_def page_space_def page_number_def)
  have "wrote m p ([type] @ comp_bytes (page_space page)) m2"
    using wrote_append [OF wrote_1 [of m p type]] w2 by simp
  then have "wrote m p (([type] @ comp_bytes (page_space page)) @ comp_bytes (page_number page)) m3"
    by (rule wrote_append) (use w2 w3 in simp)
  then show "wrote m p (header_bytes type (page_space page) (page_number page)) m'"
    using r(1) by (simp add: header_bytes_def)
  show "p' = p + length (header_bytes type (page_space page) (page_number page))"
    using r(2) w2 w3 by (simp add: header_bytes_def)
  show "mlog mtr' = mlog mtr" "n_log_recs mtr' = n_log_recs mtr + 1" "modifications mtr' = modifications mtr"
    "log_mode mtr' = log_mode mtr"
    unfolding r(3) by (simp_all add: Let_def mtr_memo_push_def)
qed

text \<open>A record written between \<open>mlog_open\<close> and \<open>mlog_close\<close>.\<close>

lemma mlog_open_close:
  assumes ok: "dyn_ok (mlog mtr)" and size: "sz \<le> DYN_ARRAY_DATA_SIZE"
    and op: "mlog_open sz mtr = (Some (k, p), mtr1)"
    and w: "wrote (mlog_buf k mtr1) p bs m" and len: "length bs \<le> sz" and mtr2: "mlog mtr2 = mlog mtr1"
  defines "mtr3 \<equiv> mlog_close (p + length bs) (mlog_set_buf k m mtr2)"
  shows "dyn_ok (mlog mtr3)" "dyn_content (mlog mtr3) = dyn_content (mlog mtr) @ bs"
proof -
  obtain a where a: "dyn_array_open sz (mlog mtr) = ((k, p), a)" "mlog mtr1 = a"
    using op by (auto simp: mlog_open_def Let_def split: if_splits prod.splits)
  have l: "mlog mtr3 = dyn_array_close (p + length bs) (dyn_write k m a)"
    by (simp add: mtr3_def mlog_close_def mlog_set_buf_def mtr2 a(2))
  have same: "\<And>i. i < p \<Longrightarrow> m i = blk_data (dyn_blk a k) i"
    using w by (simp add: wrote_def mlog_buf_def a(2))
  note c = dyn_open_close [OF ok size a(1), of "p + length bs" m]
  show "dyn_ok (mlog mtr3)" unfolding l using c(1) same len by simp
  show "dyn_content (mlog mtr3) = dyn_content (mlog mtr) @ bs"
    unfolding l using c(2) same len w by (simp add: wrote_def)
qed

text \<open>The logged writes, what they do to a page, and the record of each.\<close>

datatype page_write =
  Ulint_write nat ulint byte
| Dulint_write nat dulint
| String_write nat "byte list"

fun run_write :: "page_write \<Rightarrow> mem \<times> mtr_t \<Rightarrow> (mem \<times> mtr_t) option" where
  "run_write (Ulint_write off val type) s = mlog_write_ulint off val type s"
| "run_write (Dulint_write off val) s = Some (mlog_write_dulint off val s)"
| "run_write (String_write off str) s = mlog_write_string off str s"

fun page_effect :: "page_write \<Rightarrow> mem \<Rightarrow> mem" where
  "page_effect (Ulint_write off val type) page =
     (if type = MLOG_1BYTE then mach_write_to_1 page off val
      else if type = MLOG_2BYTES then mach_write_to_2 page off val
      else mach_write_to_4 page off val)"
| "page_effect (Dulint_write off val) page = mach_write_to_8 page off val"
| "page_effect (String_write off str) page = mem_put page off str"

fun write_ok :: "page_write \<Rightarrow> bool" where
  "write_ok (Ulint_write off val type) \<longleftrightarrow> off < UNIV_PAGE_SIZE \<and>
     (type = MLOG_1BYTE \<and> val \<le> 0xFF \<or> type = MLOG_2BYTES \<and> val \<le> 0xFFFF \<or> type = MLOG_4BYTES \<and> val \<le> 0xFFFFFFFF)"
| "write_ok (Dulint_write off val) \<longleftrightarrow> off < UNIV_PAGE_SIZE \<and> dulint_ok val"
| "write_ok (String_write off str) \<longleftrightarrow> off < UNIV_PAGE_SIZE \<and> off + length str \<le> UNIV_PAGE_SIZE \<and>
     length str < UNIV_PAGE_SIZE"

fun write_type :: "page_write \<Rightarrow> byte" where
  "write_type (Ulint_write off val type) = type"
| "write_type (Dulint_write off val) = MLOG_8BYTES"
| "write_type (String_write off str) = MLOG_WRITE_STRING"

fun body_bytes :: "page_write \<Rightarrow> byte list" where
  "body_bytes (Ulint_write off val type) = be2_bytes (of_nat off) @ comp_bytes val"
| "body_bytes (Dulint_write off val) = be2_bytes (of_nat off) @ dcomp_bytes val"
| "body_bytes (String_write off str) = be2_bytes (of_nat off) @ be2_bytes (of_nat (length str)) @ str"

definition rec_bytes :: "page_write \<Rightarrow> mem \<Rightarrow> byte list" where
  "rec_bytes w page = header_bytes (write_type w) (page_space page) (page_number page) @ body_bytes w"

lemma header_bytes_le: "length (header_bytes t s p) \<le> 11"
  using mach_get_compressed_size_bounds [of s] mach_get_compressed_size_bounds [of p]
  by (simp add: header_bytes_def)

lemma dcomp_bytes_le: "length (dcomp_bytes v) \<le> 9"
  using mach_get_compressed_size_bounds [of "ut_dulint_get_high v"]
  by (simp add: mach_dulint_get_compressed_size_def)

lemma mlog_open_logging:
  assumes "log_mode mtr \<noteq> MTR_LOG_NONE"
  obtains k p mtr1 where "mlog_open sz mtr = (Some (k, p), mtr1)" "modifications mtr1"
    "n_log_recs mtr1 = n_log_recs mtr" "log_mode mtr1 = log_mode mtr"
  using that assms by (cases "dyn_array_open sz (mlog mtr)") (auto simp: mlog_open_def mtr_get_log_mode_def Let_def)

lemma mlog_close_fields [simp]:
  "n_log_recs (mlog_close p mtr) = n_log_recs mtr" "modifications (mlog_close p mtr) = modifications mtr"
  "log_mode (mlog_close p mtr) = log_mode mtr" "n_log_recs (mlog_set_buf k m mtr) = n_log_recs mtr"
  "modifications (mlog_set_buf k m mtr) = modifications mtr" "log_mode (mlog_set_buf k m mtr) = log_mode mtr"
  by (simp_all add: mlog_close_def mlog_set_buf_def)

definition logged :: "mtr_t \<Rightarrow> byte list \<Rightarrow> mtr_t \<Rightarrow> bool" where
  "logged mtr bs mtr' \<longleftrightarrow> dyn_ok (mlog mtr') \<and> dyn_content (mlog mtr') = dyn_content (mlog mtr) @ bs \<and>
     n_log_recs mtr' = n_log_recs mtr + 1 \<and> modifications mtr' \<and> log_mode mtr' = log_mode mtr"

lemma wrote_2_then: "wrote m p bs m1 \<Longrightarrow> wrote m p (bs @ be2_bytes v) (mach_write_to_2 m1 (p + length bs) v)"
  by (rule wrote_append [OF _ wrote_2])

lemma wrote_comp_then: "wrote m p bs m1 \<Longrightarrow> mach_write_compressed m1 (p + length bs) v = (m2, n) \<Longrightarrow>
    wrote m p (bs @ comp_bytes v) m2"
  using wrote_append [of m p bs m1 "comp_bytes v" m2] wrote_comp [of m1 "p + length bs" v m2 n] by blast

lemma wrote_dcomp_then: "wrote m p bs m1 \<Longrightarrow> mach_dulint_write_compressed m1 (p + length bs) v = (m2, n) \<Longrightarrow>
    wrote m p (bs @ dcomp_bytes v) m2"
  using wrote_append [of m p bs m1 "dcomp_bytes v" m2] wrote_dcomp [of m1 "p + length bs" v m2 n] by blast

lemma mlog_write_ulint_logs:
  fixes page :: mem
  assumes ok: "dyn_ok (mlog mtr)" "log_mode mtr \<noteq> MTR_LOG_NONE" and w: "write_ok (Ulint_write off val type)"
  defines "page1 \<equiv> page_effect (Ulint_write off val type) page"
  shows "\<exists>mtr'. mlog_write_ulint off val type (page, mtr) = Some (page1, mtr') \<and>
    logged mtr (rec_bytes (Ulint_write off val type) page1) mtr'"
proof -
  let ?H = "header_bytes type (page_space page1) (page_number page1)"
  obtain k p mtr1 where op: "mlog_open 18 mtr = (Some (k, p), mtr1)" "modifications mtr1"
    "n_log_recs mtr1 = n_log_recs mtr" "log_mode mtr1 = log_mode mtr"
    using mlog_open_logging [OF ok(2)] by blast
  obtain m p' mtr2 where h: "mlog_write_initial_log_record_fast page1 type (mlog_buf k mtr1) p mtr1 = (m, p', mtr2)"
    by (metis prod_cases3)
  note hw = header_fast_wrote [OF h]
  obtain m2 n where c: "mach_write_compressed (mach_write_to_2 m p' (of_nat off)) (p' + 2) val = (m2, n)" by fastforce
  let ?bs = "(?H @ be2_bytes (of_nat off)) @ comp_bytes val"
  have n: "p' + 2 + n = p + length ?bs" using hw(2) wrote_comp [OF c] by simp
  have "wrote (mlog_buf k mtr1) p (?H @ be2_bytes (of_nat off)) (mach_write_to_2 m p' (of_nat off))"
    using wrote_2_then [OF hw(1)] by (simp only: hw(2))
  from wrote_comp_then [OF this] have full: "wrote (mlog_buf k mtr1) p ?bs m2" using c hw(2) by (simp add: add.assoc)
  have len: "length ?bs \<le> 18"
    using header_bytes_le [of type "page_space page1" "page_number page1"] mach_get_compressed_size_bounds [of val] by simp
  let ?mtr = "mlog_close (p + length ?bs) (mlog_set_buf k m2 mtr2)"
  note res = mlog_open_close [OF ok(1) _ op(1) full len hw(3)]
  have "mach_write_type type page off val = Some page1"
    using w by (auto simp: mach_write_type_def page1_def)
  then have "mlog_write_ulint off val type (page, mtr) = Some (page1, ?mtr)"
    unfolding n [symmetric] using op(1) h c by (simp add: mlog_write_ulint_def)
  moreover have "logged mtr (rec_bytes (Ulint_write off val type) page1) ?mtr"
    using res op(2-4) hw(4-6) by (simp add: logged_def rec_bytes_def DYN_ARRAY_DATA_SIZE_def)
  ultimately show ?thesis by blast
qed

lemma mlog_write_dulint_logs:
  fixes page :: mem and off :: nat and val :: dulint
  assumes ok: "dyn_ok (mlog mtr)" "log_mode mtr \<noteq> MTR_LOG_NONE"
  defines "page1 \<equiv> page_effect (Dulint_write off val) page"
  shows "\<exists>mtr'. mlog_write_dulint off val (page, mtr) = (page1, mtr') \<and>
    logged mtr (rec_bytes (Dulint_write off val) page1) mtr'"
proof -
  let ?H = "header_bytes MLOG_8BYTES (page_space page1) (page_number page1)"
  obtain k p mtr1 where op: "mlog_open 22 mtr = (Some (k, p), mtr1)" "modifications mtr1"
    "n_log_recs mtr1 = n_log_recs mtr" "log_mode mtr1 = log_mode mtr"
    using mlog_open_logging [OF ok(2)] by blast
  obtain m p' mtr2 where h: "mlog_write_initial_log_record_fast page1 MLOG_8BYTES (mlog_buf k mtr1) p mtr1 = (m, p', mtr2)"
    by (metis prod_cases3)
  note hw = header_fast_wrote [OF h]
  obtain m2 n where c: "mach_dulint_write_compressed (mach_write_to_2 m p' (of_nat off)) (p' + 2) val = (m2, n)" by fastforce
  let ?bs = "(?H @ be2_bytes (of_nat off)) @ dcomp_bytes val"
  have n: "p' + 2 + n = p + length ?bs" using hw(2) wrote_dcomp [OF c] by simp
  have "wrote (mlog_buf k mtr1) p (?H @ be2_bytes (of_nat off)) (mach_write_to_2 m p' (of_nat off))"
    using wrote_2_then [OF hw(1)] by (simp only: hw(2))
  from wrote_dcomp_then [OF this] have full: "wrote (mlog_buf k mtr1) p ?bs m2" using c hw(2) by (simp add: add.assoc)
  have len: "length ?bs \<le> 22"
    using header_bytes_le [of MLOG_8BYTES "page_space page1" "page_number page1"] dcomp_bytes_le [of val] by simp
  let ?mtr = "mlog_close (p + length ?bs) (mlog_set_buf k m2 mtr2)"
  note res = mlog_open_close [OF ok(1) _ op(1) full len hw(3)]
  have "mlog_write_dulint off val (page, mtr) = (page1, ?mtr)"
    unfolding n [symmetric] using op(1) h c by (simp add: mlog_write_dulint_def page1_def)
  moreover have "logged mtr (rec_bytes (Dulint_write off val) page1) ?mtr"
    using res op(2-4) hw(4-6) by (simp add: logged_def rec_bytes_def DYN_ARRAY_DATA_SIZE_def)
  ultimately show ?thesis by blast
qed

lemma mlog_write_string_logs:
  fixes page :: mem
  assumes ok: "dyn_ok (mlog mtr)" "log_mode mtr \<noteq> MTR_LOG_NONE" and w: "write_ok (String_write off str)"
  defines "page1 \<equiv> page_effect (String_write off str) page"
  shows "\<exists>mtr'. mlog_write_string off str (page, mtr) = Some (page1, mtr') \<and>
    logged mtr (rec_bytes (String_write off str) page1) mtr'"
proof -
  let ?H = "header_bytes MLOG_WRITE_STRING (page_space page1) (page_number page1)"
  obtain k p mtr1 where op: "mlog_open 30 mtr = (Some (k, p), mtr1)" "modifications mtr1"
    "n_log_recs mtr1 = n_log_recs mtr" "log_mode mtr1 = log_mode mtr"
    using mlog_open_logging [OF ok(2)] by blast
  obtain m p' mtr2 where h: "mlog_write_initial_log_record_fast page1 MLOG_WRITE_STRING (mlog_buf k mtr1) p mtr1 = (m, p', mtr2)"
    by (metis prod_cases3)
  note hw = header_fast_wrote [OF h]
  let ?bs = "(?H @ be2_bytes (of_nat off)) @ be2_bytes (of_nat (length str))"
  let ?m = "mach_write_to_2 (mach_write_to_2 m p' (of_nat off)) (p' + 2) (of_nat (length str))"
  have n: "p' + 4 = p + length ?bs" using hw(2) by simp
  have "wrote (mlog_buf k mtr1) p (?H @ be2_bytes (of_nat off)) (mach_write_to_2 m p' (of_nat off))"
    using wrote_2_then [OF hw(1)] by (simp only: hw(2))
  from wrote_2_then [OF this, of "of_nat (length str)"] have full: "wrote (mlog_buf k mtr1) p ?bs ?m"
    using hw(2) by (simp add: add.assoc)
  have len: "length ?bs \<le> 30"
    using header_bytes_le [of MLOG_WRITE_STRING "page_space page1" "page_number page1"] by simp
  let ?mtr = "mlog_close (p + length ?bs) (mlog_set_buf k ?m mtr2)"
  note res = mlog_open_close [OF ok(1) _ op(1) full len hw(3)]
  have str: "copy_in page1 off (length str) = str" by (simp add: page1_def copy_in_put)
  have mode: "log_mode ?mtr \<noteq> MTR_LOG_NONE" using ok(2) op(4) hw(6) by simp
  let ?final = "mlog_catenate_string str ?mtr"
  have "mlog_write_string off str (page, mtr) = Some (page1, ?final)"
    unfolding n [symmetric] using op(1) h w str
    by (simp add: mlog_write_string_def mlog_log_string_def page1_def Let_def)
  moreover have "logged mtr (rec_bytes (String_write off str) page1) ?final"
    using res op(2-4) hw(4-6) mode dyn.append_content dyn.append_ok
    by (simp add: logged_def rec_bytes_def DYN_ARRAY_DATA_SIZE_def mlog_catenate_string_def mtr_get_log_mode_def)
  ultimately show ?thesis by blast
qed

lemma run_write_logs:
  assumes "dyn_ok (mlog mtr)" "log_mode mtr \<noteq> MTR_LOG_NONE" "write_ok w"
  shows "\<exists>mtr'. run_write w (page, mtr) = Some (page_effect w page, mtr') \<and>
    logged mtr (rec_bytes w (page_effect w page)) mtr'"
proof (cases w)
  case (Ulint_write off val type)
  show ?thesis using mlog_write_ulint_logs [OF assms(1,2), of off val type page] assms(3) unfolding Ulint_write by simp
next
  case (Dulint_write off val)
  show ?thesis using mlog_write_dulint_logs [OF assms(1,2), of off val page] unfolding Dulint_write by simp
next
  case (String_write off str)
  show ?thesis using mlog_write_string_logs [OF assms(1,2), of off str page] assms(3) unfolding String_write by simp
qed

section \<open>What recovery reads back\<close>

text \<open>The parser of the record type, on the body of the record of a logged write.\<close>

definition parse_write_body :: "byte \<Rightarrow> mem \<Rightarrow> nat \<Rightarrow> nat \<Rightarrow> block option \<Rightarrow> block option parsed" where
  "parse_write_body type m ptr end_ptr block =
     (if type = MLOG_WRITE_STRING then mlog_parse_string m ptr end_ptr block
      else mlog_parse_nbytes type m ptr end_ptr block)"

lemma page_effect_fun:
  "page_effect (Dulint_write off d) = (\<lambda>p. mach_write_to_8 p off d)"
  "page_effect (String_write off str) = (\<lambda>p. mem_put p off str)"
  by (rule ext, simp)+

lemma unat_offset: "off < UNIV_PAGE_SIZE \<Longrightarrow> unat (of_nat off :: ulint) = off \<and> (of_nat off :: ulint) \<le> 0xFFFF"
  by (simp add: UNIV_PAGE_SIZE_def word_le_nat_alt unat_of_nat_small)

lemma parse_write:
  assumes r: "reads m ptr e (body_bytes w)" and w: "write_ok w" and b: "\<not> zip_index_page block"
  shows "parse_write_body (write_type w) m ptr e block =
    (if e < ptr + length (body_bytes w) then Incomplete
     else Parsed (ptr + length (body_bytes w)) (block_write (page_effect w) block))"
proof (cases w)
  case (Ulint_write off val type)
  have off: "off < UNIV_PAGE_SIZE" "val \<le> 0xFFFFFFFF"
    using w by (auto simp: Ulint_write word_le_nat_alt)
  have t: "type \<noteq> MLOG_WRITE_STRING" "type \<le> MLOG_8BYTES" "type \<noteq> MLOG_8BYTES"
    using w by (auto simp: Ulint_write mlog_types word_le_nat_alt)
  have rr: "reads m ptr e (be2_bytes (of_nat off))" "reads m (ptr + 2) e (comp_bytes val)"
    using r by (simp_all add: Ulint_write reads_append)
  have o: "mach_read_from_2 m ptr = of_nat off" if "ptr + 2 \<le> e"
    by (rule read_be2 [OF rr(1) _ that]) (use unat_offset [OF off(1)] in simp)
  have val: "type = MLOG_1BYTE \<Longrightarrow> val \<le> 0xFF" "type = MLOG_2BYTES \<Longrightarrow> val \<le> 0xFFFF"
    "type = MLOG_1BYTE \<or> type = MLOG_2BYTES \<or> type = MLOG_4BYTES"
    using w by (auto simp: Ulint_write mlog_types)
  note o' = unat_offset [OF off(1)] and c = parse_comp [OF rr(2) off(2)]
  have ne: "MLOG_1BYTE \<noteq> MLOG_8BYTES" "MLOG_2BYTES \<noteq> MLOG_8BYTES" "MLOG_4BYTES \<noteq> MLOG_8BYTES"
    "MLOG_2BYTES \<noteq> MLOG_1BYTE" "MLOG_4BYTES \<noteq> MLOG_1BYTE" "MLOG_4BYTES \<noteq> MLOG_2BYTES"
    by (simp_all add: mlog_types)
  have len: "length (body_bytes w) = 2 + mach_get_compressed_size val" by (simp add: Ulint_write)
  have pe: "page_effect w = (\<lambda>page. if type = MLOG_1BYTE then mach_write_to_1 page off val
      else if type = MLOG_2BYTES then mach_write_to_2 page off val else mach_write_to_4 page off val)"
    by (rule ext) (simp add: Ulint_write)
  have "mlog_parse_nbytes type m ptr e block = (if e < ptr + (2 + mach_get_compressed_size val) then Incomplete
      else Parsed (ptr + (2 + mach_get_compressed_size val)) (block_write (page_effect w) block))"
  proof (cases "e < ptr + 2")
    case True
    then show ?thesis using b t(2) by (simp add: mlog_parse_nbytes_def)
  next
    case False
    then have o2: "mach_read_from_2 m ptr = of_nat off" using o by simp
    from val(3) show ?thesis
    proof (elim disjE)
      assume ty: "type = MLOG_1BYTE"
      then show ?thesis using False b t(2) o2 o' off(1) c leD [OF val(1) [OF ty]] ne pe by (simp add: mlog_parse_nbytes_def Let_def)
    next
      assume ty: "type = MLOG_2BYTES"
      then show ?thesis using False b t(2) o2 o' off(1) c leD [OF val(2) [OF ty]] ne pe by (simp add: mlog_parse_nbytes_def Let_def)
    next
      assume ty: "type = MLOG_4BYTES"
      then show ?thesis using False b t(2) o2 o' off(1) c ne pe by (simp add: mlog_parse_nbytes_def Let_def)
    qed
  qed
  then show ?thesis using t(1) unfolding len by (simp add: parse_write_body_def Ulint_write)
next
  case (Dulint_write off val)
  have off: "off < UNIV_PAGE_SIZE" "dulint_ok val" using w by (simp_all add: Dulint_write)
  have rr: "reads m ptr e (be2_bytes (of_nat off))" "reads m (ptr + 2) e (dcomp_bytes val)"
    using r by (simp_all add: Dulint_write reads_append)
  have o: "mach_read_from_2 m ptr = of_nat off" if "ptr + 2 \<le> e"
    by (rule read_be2 [OF rr(1) _ that]) (use unat_offset [OF off(1)] in simp)
  show ?thesis
    using b o off(1) unat_offset [OF off(1)] parse_dcomp [OF rr(2) off(2)]
    by (auto simp: parse_write_body_def mlog_parse_nbytes_def Dulint_write Let_def mlog_types page_effect_fun)
next
  case (String_write off str)
  have off: "off < UNIV_PAGE_SIZE" "length str < UNIV_PAGE_SIZE" "off + length str \<le> UNIV_PAGE_SIZE"
    using w by (simp_all add: String_write)
  have rr: "reads m ptr e (be2_bytes (of_nat off))" "reads m (ptr + 2) e (be2_bytes (of_nat (length str)))"
    "reads m (ptr + 4) e str"
    using r by (simp_all add: String_write reads_append numeral_eq_Suc)
  have o: "mach_read_from_2 m ptr = of_nat off" "mach_read_from_2 m (ptr + 2) = of_nat (length str)" if "ptr + 4 \<le> e"
    using read_be2 [OF rr(1)] read_be2 [OF rr(2)] unat_offset [OF off(1)] unat_offset [OF off(2)] that by simp_all
  have "copy_in m (ptr + 4) (length str) = str" if "ptr + 4 + length str \<le> e"
    using reads_copy_in [OF rr(3)] that by simp
  then show ?thesis
    using b o off unat_offset [OF off(1)] unat_offset [OF off(2)]
    by (auto simp: parse_write_body_def mlog_parse_string_def String_write Let_def page_effect_fun)
qed

lemma write_type_le: "write_ok w \<Longrightarrow> write_type w \<le> MLOG_BIGGEST_TYPE"
  by (cases w) (auto simp: mlog_types)

lemma page_ids_32: "page_space page \<le> 0xFFFFFFFF" "page_number page \<le> 0xFFFFFFFF"
proof -
  have "mach_read_from_4 m b \<le> 0xFFFFFFFF" for m b
    using unat_read_4 [of m b] byte_less [of "m b"] byte_less [of "m (b + 1)"] byte_less [of "m (b + 2)"]
      byte_less [of "m (b + 3)"] by (simp add: word_le_nat_alt)
  then show "page_space page \<le> 0xFFFFFFFF" "page_number page \<le> 0xFFFFFFFF"
    by (simp_all add: page_space_def page_number_def)
qed

text \<open>
  C16: redo of a logged write. Every write of 1 to 8 bytes or of a string through a mini-transaction
  appends to its log the bytes of one record. Where a buffer holds them, whatever else it holds,
  recovery parses a record of that type and page, and applying it to the page as it was before the
  write gives the page the write left. Where the buffer ends before the record does, both parsers
  report it incomplete and neither applies anything.
\<close>

theorem logged_write_replays:
  assumes "dyn_ok (mlog mtr)" "log_mode mtr \<noteq> MTR_LOG_NONE" "write_ok w"
  shows "\<exists>page' mtr' bs n. run_write w (page, mtr) = Some (page', mtr') \<and>
    dyn_content (mlog mtr') = dyn_content (mlog mtr) @ bs \<and> n \<le> length bs \<and>
    (\<forall>m ptr e. reads m ptr e bs \<longrightarrow>
       mlog_parse_initial_log_record m ptr e =
         (if e < ptr + n then Incomplete else Parsed (ptr + n) (write_type w, page_space page', page_number page')) \<and>
       parse_write_body (write_type w) m (ptr + n) e (Some (page, None)) =
         (if e < ptr + length bs then Incomplete else Parsed (ptr + length bs) (Some (page', None))))"
proof -
  let ?p = "page_effect w page"
  let ?H = "header_bytes (write_type w) (page_space ?p) (page_number ?p)"
  obtain mtr' where w: "run_write w (page, mtr) = Some (?p, mtr')" "logged mtr (rec_bytes w ?p) mtr'"
    using run_write_logs [OF assms] by blast
  have "mlog_parse_initial_log_record m ptr e =
      (if e < ptr + length ?H then Incomplete else Parsed (ptr + length ?H) (write_type w, page_space ?p, page_number ?p)) \<and>
    parse_write_body (write_type w) m (ptr + length ?H) e (Some (page, None)) =
      (if e < ptr + length (rec_bytes w ?p) then Incomplete else Parsed (ptr + length (rec_bytes w ?p)) (Some (?p, None)))"
    if "reads m ptr e (rec_bytes w ?p)" for m ptr e
  proof -
    have r: "reads m ptr e ?H" "reads m (ptr + length ?H) e (body_bytes w)"
      using that by (simp_all add: rec_bytes_def reads_append)
    show ?thesis
      using parse_initial [OF r(1) _ write_type_le [OF assms(3)] page_ids_32]
        parse_write [OF r(2) assms(3), of "Some (page, None)"]
      by (simp add: rec_bytes_def zip_index_page_def block_write_def add.assoc)
  qed
  moreover have "length ?H \<le> length (rec_bytes w ?p)" by (simp add: rec_bytes_def)
  ultimately show ?thesis using w unfolding logged_def by blast
qed

definition demo_mtr :: mtr_t where
  "demo_mtr = mtr_start \<lparr>memo = [], mlog = dyn_array_create (\<lambda>_. 0) (\<lambda>_ _. 0), modifications = False, n_log_recs = 0,
     log_mode = 0, start_lsn = 0, end_lsn = 0\<rparr>"

lemma demo_mtr: "dyn_ok (mlog demo_mtr)" "log_mode demo_mtr = MTR_LOG_ALL" "log_mode demo_mtr \<noteq> MTR_LOG_NONE"
  "dyn_content (mlog demo_mtr) = []" "n_log_recs demo_mtr = 0" "modifications demo_mtr = False"
  by (simp_all add: demo_mtr_def mtr_start_def dyn_array_create_ok MTR_LOG_ALL_def MTR_LOG_NONE_def)

theorem logged_write_replays_witness:
  "\<exists>page' mtr' bs n. run_write (Ulint_write 100 7 MLOG_4BYTES) (\<lambda>_. 0, demo_mtr) = Some (page', mtr') \<and>
    dyn_content (mlog mtr') = dyn_content (mlog demo_mtr) @ bs"
proof -
  have "write_ok (Ulint_write 100 7 MLOG_4BYTES)" by (simp add: UNIV_PAGE_SIZE_def mlog_types word_le_nat_alt)
  from logged_write_replays [OF demo_mtr(1,3) this, of "\<lambda>_. 0"] show ?thesis by blast
qed

end
