(* ===== verification/LogBlk.thy ===== *)
theory LogBlk
  imports DynArr
begin

text \<open>
  Log blocks (\<open>include/log0log.ic\<close>) and the writing of bytes into the log buffer
  (\<open>log/log0log.c\<close>): the header and trailer of a block, its checksum, \<open>log_write_low\<close>, which splits a
  string over blocks, and the sequence of data bytes a log segment holds.
\<close>

section \<open>The format of a block\<close>

definition OS_FILE_LOG_BLOCK_SIZE :: nat where "OS_FILE_LOG_BLOCK_SIZE = 512"
definition LOG_BLOCK_HDR_NO :: nat where "LOG_BLOCK_HDR_NO = 0"
definition LOG_BLOCK_FLUSH_BIT_MASK :: ulint where "LOG_BLOCK_FLUSH_BIT_MASK = 0x80000000"
definition LOG_BLOCK_HDR_DATA_LEN :: nat where "LOG_BLOCK_HDR_DATA_LEN = 4"
definition LOG_BLOCK_FIRST_REC_GROUP :: nat where "LOG_BLOCK_FIRST_REC_GROUP = 6"
definition LOG_BLOCK_CHECKPOINT_NO :: nat where "LOG_BLOCK_CHECKPOINT_NO = 8"
definition LOG_BLOCK_HDR_SIZE :: nat where "LOG_BLOCK_HDR_SIZE = 12"
definition LOG_BLOCK_CHECKSUM :: nat where "LOG_BLOCK_CHECKSUM = 4"
definition LOG_BLOCK_TRL_SIZE :: nat where "LOG_BLOCK_TRL_SIZE = 4"

lemmas log_block_consts = OS_FILE_LOG_BLOCK_SIZE_def LOG_BLOCK_HDR_NO_def LOG_BLOCK_HDR_DATA_LEN_def
  LOG_BLOCK_FIRST_REC_GROUP_def LOG_BLOCK_CHECKPOINT_NO_def LOG_BLOCK_HDR_SIZE_def LOG_BLOCK_CHECKSUM_def
  LOG_BLOCK_TRL_SIZE_def

text \<open>A block is the memory from the offset \<open>b\<close> of its first byte on.\<close>

definition log_block_get_flush_bit :: "mem \<Rightarrow> nat \<Rightarrow> bool" where
  "log_block_get_flush_bit m b \<longleftrightarrow> LOG_BLOCK_FLUSH_BIT_MASK AND mach_read_from_4 m (b + LOG_BLOCK_HDR_NO) \<noteq> 0"

definition log_block_set_flush_bit :: "mem \<Rightarrow> nat \<Rightarrow> bool \<Rightarrow> mem" where
  "log_block_set_flush_bit m b val =
     (let field = mach_read_from_4 m (b + LOG_BLOCK_HDR_NO);
          field' = (if val then field OR LOG_BLOCK_FLUSH_BIT_MASK else field AND NOT LOG_BLOCK_FLUSH_BIT_MASK)
      in mach_write_to_4 m (b + LOG_BLOCK_HDR_NO) field')"

definition log_block_get_hdr_no :: "mem \<Rightarrow> nat \<Rightarrow> ulint" where
  "log_block_get_hdr_no m b = NOT LOG_BLOCK_FLUSH_BIT_MASK AND mach_read_from_4 m (b + LOG_BLOCK_HDR_NO)"

definition log_block_set_hdr_no :: "mem \<Rightarrow> nat \<Rightarrow> ulint \<Rightarrow> mem" where
  "log_block_set_hdr_no m b n = mach_write_to_4 m (b + LOG_BLOCK_HDR_NO) n"

definition log_block_get_data_len :: "mem \<Rightarrow> nat \<Rightarrow> nat" where
  "log_block_get_data_len m b = unat (mach_read_from_2 m (b + LOG_BLOCK_HDR_DATA_LEN))"

definition log_block_set_data_len :: "mem \<Rightarrow> nat \<Rightarrow> nat \<Rightarrow> mem" where
  "log_block_set_data_len m b len = mach_write_to_2 m (b + LOG_BLOCK_HDR_DATA_LEN) (of_nat len)"

definition log_block_get_first_rec_group :: "mem \<Rightarrow> nat \<Rightarrow> nat" where
  "log_block_get_first_rec_group m b = unat (mach_read_from_2 m (b + LOG_BLOCK_FIRST_REC_GROUP))"

definition log_block_set_first_rec_group :: "mem \<Rightarrow> nat \<Rightarrow> nat \<Rightarrow> mem" where
  "log_block_set_first_rec_group m b off = mach_write_to_2 m (b + LOG_BLOCK_FIRST_REC_GROUP) (of_nat off)"

definition log_block_get_checkpoint_no :: "mem \<Rightarrow> nat \<Rightarrow> ulint" where
  "log_block_get_checkpoint_no m b = mach_read_from_4 m (b + LOG_BLOCK_CHECKPOINT_NO)"

definition log_block_set_checkpoint_no :: "mem \<Rightarrow> nat \<Rightarrow> ulint \<Rightarrow> mem" where
  "log_block_set_checkpoint_no m b no = mach_write_to_4 m (b + LOG_BLOCK_CHECKPOINT_NO) no"

text \<open>
  Log sequence numbers are natural numbers here: a 64-bit \<open>ib_uint64_t\<close> that counts the bytes ever
  written does not wrap around.
\<close>

definition log_block_convert_lsn_to_no :: "nat \<Rightarrow> ulint" where
  "log_block_convert_lsn_to_no lsn = ((of_nat (lsn div OS_FILE_LOG_BLOCK_SIZE)) AND 0x3FFFFFFF) + 1"

text \<open>One round of the loop of \<open>log_block_calc_checksum\<close>, on the variables \<open>sum\<close> and \<open>sh\<close>.\<close>

definition checksum_round :: "mem \<Rightarrow> nat \<Rightarrow> nat \<Rightarrow> ulint \<times> nat \<Rightarrow> ulint \<times> nat" where
  "checksum_round m block i = (\<lambda>(sum, sh).
     let b = (ucast (m (block + i)) :: ulint);
         sum = sum AND 0x7FFFFFFF;
         sum = sum + b;
         sum = sum + push_bit sh b;
         sh = sh + 1
     in (sum, if sh > 24 then 0 else sh))"

definition log_block_calc_checksum :: "mem \<Rightarrow> nat \<Rightarrow> ulint" where
  "log_block_calc_checksum m block =
     fst (fold (checksum_round m block) [0..<OS_FILE_LOG_BLOCK_SIZE - LOG_BLOCK_TRL_SIZE] (1, 0))"

definition log_block_get_checksum :: "mem \<Rightarrow> nat \<Rightarrow> ulint" where
  "log_block_get_checksum m b = mach_read_from_4 m (b + OS_FILE_LOG_BLOCK_SIZE - LOG_BLOCK_CHECKSUM)"

definition log_block_set_checksum :: "mem \<Rightarrow> nat \<Rightarrow> ulint \<Rightarrow> mem" where
  "log_block_set_checksum m b checksum =
     mach_write_to_4 m (b + OS_FILE_LOG_BLOCK_SIZE - LOG_BLOCK_CHECKSUM) checksum"

definition log_block_store_checksum :: "mem \<Rightarrow> nat \<Rightarrow> mem" where
  "log_block_store_checksum m block = log_block_set_checksum m block (log_block_calc_checksum m block)"

definition log_block_checksum_is_ok_or_old_format :: "mem \<Rightarrow> nat \<Rightarrow> bool" where
  "log_block_checksum_is_ok_or_old_format m block \<longleftrightarrow>
     (if log_block_calc_checksum m block = log_block_get_checksum m block then True
      else if log_block_get_hdr_no m block = log_block_get_checksum m block then True
      else False)"

definition log_block_init :: "mem \<Rightarrow> nat \<Rightarrow> nat \<Rightarrow> mem" where
  "log_block_init m b lsn =
     (let no = log_block_convert_lsn_to_no lsn;
          m1 = log_block_set_hdr_no m b no;
          m2 = log_block_set_data_len m1 b LOG_BLOCK_HDR_SIZE
      in log_block_set_first_rec_group m2 b 0)"

definition log_block_init_in_old_format :: "mem \<Rightarrow> nat \<Rightarrow> nat \<Rightarrow> mem" where
  "log_block_init_in_old_format m b lsn =
     (let no = log_block_convert_lsn_to_no lsn;
          m1 = log_block_set_hdr_no m b no;
          m2 = mach_write_to_4 m1 (b + OS_FILE_LOG_BLOCK_SIZE - LOG_BLOCK_CHECKSUM) no;
          m3 = log_block_set_data_len m2 b LOG_BLOCK_HDR_SIZE
      in log_block_set_first_rec_group m3 b 0)"

section \<open>The log buffer\<close>

text \<open>
  The fields of \<open>log_sys\<close> the buffer uses; \<open>buf\<close> is aligned to the block size. \<open>align_down\<close> is
  \<open>ut_align_down\<close> on offsets into it.
\<close>

record log_t =
  lbuf :: mem
  buf_free :: nat
  lsn :: nat
  buf_size :: nat
  max_buf_free :: nat
  check_flush_or_checkpoint :: bool
  next_checkpoint_no :: ulint
  buf_next_to_write :: nat
  written_to_all_lsn :: nat
  write_lsn :: nat
  write_end_offset :: nat
  n_pending_writes :: nat
  flushed_to_disk_lsn :: nat
  log_group_capacity :: nat
  last_checkpoint_lsn :: nat
  max_modified_age_async :: nat
  max_checkpoint_age_async :: nat

definition align_down :: "nat \<Rightarrow> nat" where
  "align_down n = n - n mod OS_FILE_LOG_BLOCK_SIZE"

definition LOG_START_LSN :: nat where "LOG_START_LSN = 16 * OS_FILE_LOG_BLOCK_SIZE"

text \<open>
  One round of \<open>part_loop\<close>: the length of the part that goes into the current block, and the log
  with it.
\<close>

definition log_write_part :: "byte list \<Rightarrow> log_t \<Rightarrow> nat \<times> log_t" where
  "log_write_part str log =
     (let in_block = buf_free log mod OS_FILE_LOG_BLOCK_SIZE;
          fits = in_block + length str \<le> OS_FILE_LOG_BLOCK_SIZE - LOG_BLOCK_TRL_SIZE;
          data_len = (if fits then in_block + length str else OS_FILE_LOG_BLOCK_SIZE - LOG_BLOCK_TRL_SIZE);
          len = (if fits then length str else OS_FILE_LOG_BLOCK_SIZE - in_block - LOG_BLOCK_TRL_SIZE);
          m1 = mem_put (lbuf log) (buf_free log) (take len str);
          log_block = align_down (buf_free log);
          m2 = log_block_set_data_len m1 log_block data_len
      in if data_len = OS_FILE_LOG_BLOCK_SIZE - LOG_BLOCK_TRL_SIZE then
           (let m3 = log_block_set_data_len m2 log_block OS_FILE_LOG_BLOCK_SIZE;
                m4 = log_block_set_checkpoint_no m3 log_block (next_checkpoint_no log);
                len' = len + (LOG_BLOCK_HDR_SIZE + LOG_BLOCK_TRL_SIZE);
                lsn' = lsn log + len'
            in (len, log\<lparr>lbuf := log_block_init m4 (log_block + OS_FILE_LOG_BLOCK_SIZE) lsn',
                 lsn := lsn', buf_free := buf_free log + len'\<rparr>))
         else (len, log\<lparr>lbuf := m2, lsn := lsn log + len, buf_free := buf_free log + len\<rparr>))"

lemma log_write_part_rest:
  assumes "log_write_part str log = (len, log1)" "len < length str"
  shows "len = 508 - buf_free log mod 512" "buf_free log1 = buf_free log + (508 - buf_free log mod 512) + 16"
  using assms by (auto simp: log_write_part_def Let_def log_block_consts split: if_splits)

lemma log_write_part_mod:
  assumes "n' = (n :: nat) + (508 - n mod 512) + 16"
  shows "n' mod 512 = (if n mod 512 < 508 then 12 else n mod 512 - 496)"
proof (cases "n mod 512 < 508")
  case True
  then have "n' = 512 * (n div 512 + 1) + 12" 
  proof -
    define q r where "q = n div 512" and "r = n mod 512"
    then have "n = 512 * q + r" "r < 508" using True by simp_all
    then show ?thesis using assms unfolding r_def [symmetric] q_def [symmetric] by simp
  qed
  moreover have "(512 * k + 12) mod 512 = (12 :: nat)" for k by simp
  ultimately show ?thesis using True by metis
next
  case False
  have "n' mod 512 = (n mod 512 + 16) mod 512" using False assms by (simp add: mod_simps)
  also have "\<dots> = n mod 512 + 16 - 512" using False mod_less_divisor [of 512 n] by (simp add: mod_if [of "n mod 512 + 16"])
  finally show ?thesis using False by simp
qed

function log_write_low :: "byte list \<Rightarrow> log_t \<Rightarrow> log_t" where
  "log_write_low str log =
     (case log_write_part str log of (len, log1) \<Rightarrow>
        if length str - len > 0 then log_write_low (drop len str) log1 else log1)"
  by pat_completeness auto
termination
proof (relation "measure (\<lambda>(str, log). 2 * length str + (if buf_free log mod 512 < 508 then 0 else 1))", goal_cases)
  case 1
  show ?case by simp
next
  case (2 str log len log1)
  then have r: "len = 508 - buf_free log mod 512" "buf_free log1 = buf_free log + (508 - buf_free log mod 512) + 16"
    using log_write_part_rest [of str log len log1] by auto
  have "buf_free log1 mod 512 < 508"
    using log_write_part_mod [OF r(2)] mod_less_divisor [of 512 "buf_free log"] by (auto split: if_splits)
  then show ?case using 2 r(1) by (cases "buf_free log mod 512 < 508") auto
qed

declare log_write_low.simps [simp del]

section \<open>The fields of a block\<close>

lemma log_block_set_frames:
  "a < b + 4 \<or> b + 6 \<le> a \<Longrightarrow> log_block_set_data_len m b len a = m a"
  "a < b + 8 \<or> b + 12 \<le> a \<Longrightarrow> log_block_set_checkpoint_no m b no a = m a"
  "a < b + 6 \<or> b + 8 \<le> a \<Longrightarrow> log_block_set_first_rec_group m b off a = m a"
  "a < b \<or> b + 4 \<le> a \<Longrightarrow> log_block_set_hdr_no m b n a = m a"
  "a < b \<or> b + 4 \<le> a \<Longrightarrow> log_block_set_flush_bit m b v a = m a"
  "a < b + 508 \<or> b + 512 \<le> a \<Longrightarrow> log_block_set_checksum m b c a = m a"
  "a < b + 508 \<or> b + 512 \<le> a \<Longrightarrow> log_block_store_checksum m b a = m a"
  "a < b \<or> b + 8 \<le> a \<Longrightarrow> log_block_init m b lsn0 a = m a"
  by (auto simp: log_block_set_data_len_def log_block_set_checkpoint_no_def log_block_set_first_rec_group_def
      log_block_set_hdr_no_def log_block_set_flush_bit_def log_block_set_checksum_def log_block_store_checksum_def
      log_block_init_def Let_def log_block_consts mach_write_to_2_def mach_write_to_4_def)

lemma log_block_get_cong:
  "(\<And>i. i < 4 \<Longrightarrow> m' (b + i) = m (b + i)) \<Longrightarrow> log_block_get_hdr_no m' b = log_block_get_hdr_no m b"
  "(\<And>i. i < 4 \<Longrightarrow> m' (b + i) = m (b + i)) \<Longrightarrow> log_block_get_flush_bit m' b = log_block_get_flush_bit m b"
  "(\<And>i. i < 2 \<Longrightarrow> m' (b + 4 + i) = m (b + 4 + i)) \<Longrightarrow> log_block_get_data_len m' b = log_block_get_data_len m b"
  "(\<And>i. i < 2 \<Longrightarrow> m' (b + 6 + i) = m (b + 6 + i)) \<Longrightarrow>
     log_block_get_first_rec_group m' b = log_block_get_first_rec_group m b"
  "(\<And>i. i < 4 \<Longrightarrow> m' (b + 8 + i) = m (b + 8 + i)) \<Longrightarrow>
     log_block_get_checkpoint_no m' b = log_block_get_checkpoint_no m b"
  "(\<And>i. i < 4 \<Longrightarrow> m' (b + 508 + i) = m (b + 508 + i)) \<Longrightarrow> log_block_get_checksum m' b = log_block_get_checksum m b"
  unfolding log_block_get_hdr_no_def log_block_get_flush_bit_def log_block_get_data_len_def
    log_block_get_first_rec_group_def log_block_get_checkpoint_no_def log_block_get_checksum_def log_block_consts
  using f4.get_cong [of m' b m] f2.get_cong [of m' "b + 4" m] f2.get_cong [of m' "b + 6" m]
    f4.get_cong [of m' "b + 8" m] f4.get_cong [of m' "b + 508" m]
  by (simp_all add: ac_simps)

lemma log_block_data_len_set [simp]: "len \<le> 512 \<Longrightarrow> log_block_get_data_len (log_block_set_data_len m b len) b = len"
  by (simp add: log_block_get_data_len_def log_block_set_data_len_def f2.get_put word_le_nat_alt unat_of_nat_small)

lemma convert_lsn_to_no_bounds:
  "0 < log_block_convert_lsn_to_no lsn0" "log_block_convert_lsn_to_no lsn0 \<le> 0x40000000"
proof -
  let ?w = "(of_nat (lsn0 div OS_FILE_LOG_BLOCK_SIZE) :: ulint) AND 0x3FFFFFFF"
  have "?w \<le> 0x3FFFFFFF" by (rule word_and_le1)
  then have "unat ?w \<le> 0x3FFFFFFF" by (simp add: word_le_nat_alt)
  then have "unat (?w + 1) = unat ?w + 1" by (subst unat_plus_small) simp_all
  then show "0 < log_block_convert_lsn_to_no lsn0" "log_block_convert_lsn_to_no lsn0 \<le> 0x40000000"
    using \<open>unat ?w \<le> 0x3FFFFFFF\<close>
    by (simp_all add: log_block_convert_lsn_to_no_def word_less_nat_alt word_le_nat_alt)
qed

lemma flush_bit_mask: "bit LOG_BLOCK_FLUSH_BIT_MASK i \<longleftrightarrow> i = 31"
proof -
  have "LOG_BLOCK_FLUSH_BIT_MASK = 2 ^ 31" by (simp add: LOG_BLOCK_FLUSH_BIT_MASK_def)
  then have "bit LOG_BLOCK_FLUSH_BIT_MASK i \<longleftrightarrow> bit (2 ^ 31 :: ulint) i" by (simp only:)
  also have "\<dots> \<longleftrightarrow> i = 31" unfolding bit_exp_iff by auto
  finally show ?thesis .
qed

lemma no_flush_bit:
  assumes "n < LOG_BLOCK_FLUSH_BIT_MASK"
  shows "NOT LOG_BLOCK_FLUSH_BIT_MASK AND n = n"
proof -
  have "take_bit 31 n = n"
    using assms by (simp add: word_unat_eq_iff unat_take_bit_mod LOG_BLOCK_FLUSH_BIT_MASK_def word_less_nat_alt)
  then have "\<not> bit n 31" by (metis bit_take_bit_iff less_irrefl)
  then show ?thesis by (intro bit_word_eqI) (auto simp: bit_simps flush_bit_mask)
qed

lemma log_block_hdr_no_set:
  assumes "n < LOG_BLOCK_FLUSH_BIT_MASK"
  shows "log_block_get_hdr_no (log_block_set_hdr_no m b n) b = n"
proof -
  have "n \<le> 0xFFFFFFFF" using assms by (simp add: LOG_BLOCK_FLUSH_BIT_MASK_def word_le_nat_alt word_less_nat_alt)
  then show ?thesis using no_flush_bit [OF assms]
    by (simp add: log_block_get_hdr_no_def log_block_set_hdr_no_def f4.get_put)
qed

lemma lsn_no_below_mask: "log_block_convert_lsn_to_no lsn0 < LOG_BLOCK_FLUSH_BIT_MASK"
  using convert_lsn_to_no_bounds(2) [of lsn0]
  by (simp add: LOG_BLOCK_FLUSH_BIT_MASK_def word_le_nat_alt word_less_nat_alt)

text \<open>Setting the flush bit does not change the block number; the number has room for it.\<close>

lemma log_block_hdr_no_flush_bit [simp]:
  "log_block_get_hdr_no (log_block_set_flush_bit m b v) b = log_block_get_hdr_no m b"
proof -
  let ?f = "mach_read_from_4 m b"
  have f: "?f \<le> 0xFFFFFFFF"
    using unat_read_4 [of m b] byte_less [of "m b"] byte_less [of "m (b + 1)"] byte_less [of "m (b + 2)"]
      byte_less [of "m (b + 3)"] by (simp add: word_le_nat_alt)
  have or_le: "?f OR LOG_BLOCK_FLUSH_BIT_MASK \<le> 0xFFFFFFFF"
  proof -
    have "take_bit 32 ?f = ?f" using f by (simp add: word_unat_eq_iff unat_take_bit_mod word_le_nat_alt)
    moreover have "take_bit 32 LOG_BLOCK_FLUSH_BIT_MASK = LOG_BLOCK_FLUSH_BIT_MASK"
      by (simp add: word_unat_eq_iff unat_take_bit_mod LOG_BLOCK_FLUSH_BIT_MASK_def)
    ultimately have "take_bit 32 (?f OR LOG_BLOCK_FLUSH_BIT_MASK) = ?f OR LOG_BLOCK_FLUSH_BIT_MASK"
      by (simp add: take_bit_or)
    then show ?thesis using take_bit_32_le by metis
  qed
  have and_le: "?f AND NOT LOG_BLOCK_FLUSH_BIT_MASK \<le> 0xFFFFFFFF"
    using f word_and_le2 order_trans by blast
  show ?thesis
    using or_le and_le
    by (intro bit_word_eqI)
      (auto simp: log_block_get_hdr_no_def log_block_set_flush_bit_def log_block_consts Let_def f4.get_put
        bit_simps flush_bit_mask)
qed

lemma log_block_init_fields:
  "log_block_get_hdr_no (log_block_init m b lsn0) b = log_block_convert_lsn_to_no lsn0"
  "log_block_get_data_len (log_block_init m b lsn0) b = 12"
  "log_block_get_first_rec_group (log_block_init m b lsn0) b = 0"
proof -
  let ?m1 = "log_block_set_hdr_no m b (log_block_convert_lsn_to_no lsn0)"
  let ?m2 = "log_block_set_data_len ?m1 b 12"
  have i: "log_block_init m b lsn0 = log_block_set_first_rec_group ?m2 b 0"
    by (simp add: log_block_init_def Let_def log_block_consts)
  have "log_block_get_hdr_no (log_block_init m b lsn0) b = log_block_get_hdr_no ?m1 b"
    unfolding i by (rule log_block_get_cong) (simp add: log_block_set_frames)
  then show "log_block_get_hdr_no (log_block_init m b lsn0) b = log_block_convert_lsn_to_no lsn0"
    by (simp add: log_block_hdr_no_set lsn_no_below_mask)
  have "log_block_get_data_len (log_block_init m b lsn0) b = log_block_get_data_len ?m2 b"
    unfolding i by (rule log_block_get_cong) (simp add: log_block_set_frames)
  then show "log_block_get_data_len (log_block_init m b lsn0) b = 12" by simp
  show "log_block_get_first_rec_group (log_block_init m b lsn0) b = 0"
    unfolding i by (simp add: log_block_get_first_rec_group_def log_block_set_first_rec_group_def f2.get_put)
qed

section \<open>The checksum\<close>

lemma checksum_round_cong: "m' (b' + i) = m (b + i) \<Longrightarrow> checksum_round m' b' i = checksum_round m b i"
  by (simp add: checksum_round_def)

lemma calc_checksum_cong:
  assumes "\<And>i. i < 508 \<Longrightarrow> m' (b' + i) = m (b + i)"
  shows "log_block_calc_checksum m' b' = log_block_calc_checksum m b"
proof -
  have "fold (checksum_round m' b') [0..<508] s = fold (checksum_round m b) [0..<508] s" for s
    by (rule fold_cong) (auto intro: checksum_round_cong assms)
  then show ?thesis by (simp add: log_block_calc_checksum_def log_block_consts)
qed

text \<open>
  The shift count runs through 0 to 24. A shift by 24 takes the sum over 32 bits, but the last of the
  508 rounds shifts by 7 only, so that the checksum fits into its four bytes.
\<close>

lemma checksum_shift: "snd (fold (checksum_round m b) [0..<n] (s, 0)) = n mod 25"
proof (induction n)
  case (Suc n)
  have "snd (checksum_round m b n p) = (if snd p + 1 > 24 then 0 else snd p + 1)" for p
    by (simp add: checksum_round_def case_prod_beta Let_def)
  moreover have "n mod 25 = 24 \<or> n mod 25 < 24" using mod_less_divisor [of 25 n] by linarith
  ultimately show ?case using Suc by (auto simp: mod_Suc)
qed simp

lemma checksum_bound: "log_block_calc_checksum m b \<le> 0xFFFFFFFF"
proof -
  let ?p = "fold (checksum_round m b) [0..<507] (1, 0)"
  have "Suc 507 = 508" by simp
  then have "[0..<508] = [0..<507] @ [507 :: nat]" using upt_Suc_append [of 0 507] by (simp only: le0)
  then have "log_block_calc_checksum m b = fst (checksum_round m b 507 ?p)"
    by (simp add: log_block_calc_checksum_def log_block_consts del: upt_rec_numeral)
  moreover have "snd ?p = 7" using checksum_shift [of m b 507 1] by simp
  moreover have "fst (checksum_round m b 507 (s, 7)) \<le> 0xFFFFFFFF" for s
  proof -
    let ?x = "ucast (m (b + 507)) :: ulint" and ?s = "s AND 0x7FFFFFFF"
    have "?s \<le> 0x7FFFFFFF" by (rule word_and_le1)
    then have s: "unat ?s \<le> 0x7FFFFFFF" by (simp add: word_le_nat_alt)
    have x: "unat ?x < 256" by (simp add: unat_ucast_byte byte_less)
    have sh: "unat (push_bit 7 ?x) = unat (m (b + 507)) * 2 ^ 7" by (rule unat_shift_byte) simp
    then have sh': "unat (push_bit 7 ?x) < 256 * 128" using byte_less [of "m (b + 507)"] by simp
    have "unat (?s + ?x) = unat ?s + unat ?x" using s x by (subst unat_plus_small) simp_all
    moreover from this have "unat (?s + ?x + push_bit 7 ?x) = unat (?s + ?x) + unat (push_bit 7 ?x)"
      using s x sh' by (subst unat_plus_small) simp_all
    ultimately have "unat (?s + ?x + push_bit 7 ?x) \<le> 0xFFFFFFFF" using s x sh' by linarith
    then show ?thesis by (simp add: checksum_round_def Let_def word_le_nat_alt)
  qed
  ultimately show ?thesis by (metis prod.collapse)
qed

lemma store_checksum_ok: "log_block_checksum_is_ok_or_old_format (log_block_store_checksum m b) b"
proof -
  have "log_block_calc_checksum (log_block_store_checksum m b) b = log_block_calc_checksum m b"
    by (rule calc_checksum_cong) (simp add: log_block_set_frames)
  also have "\<dots> = log_block_get_checksum (log_block_store_checksum m b) b"
    using checksum_bound [of m b]
    by (simp add: log_block_store_checksum_def log_block_get_checksum_def log_block_set_checksum_def f4.get_put)
  finally show ?thesis by (simp add: log_block_checksum_is_ok_or_old_format_def)
qed

section \<open>Segments of blocks\<close>

text \<open>
  The data bytes of the blocks from number \<open>p\<close> up to offset \<open>r\<close> in block \<open>q\<close>. In a well-formed segment
  every block has the number of its place in the log, \<open>n\<close> being that of block \<open>q\<close>, all blocks before
  the last are full, and the last has room.
\<close>

definition seg_data :: "mem \<Rightarrow> nat \<Rightarrow> nat \<Rightarrow> nat \<Rightarrow> byte list" where
  "seg_data m p q r = concat (map (\<lambda>k. copy_in m (512 * k + 12) 496) [p..<q]) @ copy_in m (512 * q + 12) (r - 12)"

definition blk_is :: "mem \<Rightarrow> nat \<Rightarrow> nat \<Rightarrow> nat \<Rightarrow> bool" where
  "blk_is m k n len \<longleftrightarrow> log_block_get_hdr_no m (512 * k) = log_block_convert_lsn_to_no (512 * n) \<and>
     log_block_get_data_len m (512 * k) = len"

definition seg_ok :: "mem \<Rightarrow> nat \<Rightarrow> nat \<Rightarrow> nat \<Rightarrow> nat \<Rightarrow> bool" where
  "seg_ok m p q r n \<longleftrightarrow> p \<le> q \<and> 12 \<le> r \<and> r < 508 \<and> q - p \<le> n \<and>
     (\<forall>k. p \<le> k \<and> k < q \<longrightarrow> blk_is m k (n - (q - k)) 512) \<and> blk_is m q n r"

definition log_data :: "nat \<Rightarrow> log_t \<Rightarrow> byte list" where
  "log_data p l = seg_data (lbuf l) p (buf_free l div 512) (buf_free l mod 512)"

definition log_ok :: "nat \<Rightarrow> log_t \<Rightarrow> bool" where
  "log_ok p l \<longleftrightarrow> lsn l mod 512 = buf_free l mod 512 \<and>
     seg_ok (lbuf l) p (buf_free l div 512) (buf_free l mod 512) (lsn l div 512)"

lemma blk_is_cong:
  "(\<And>i. i < 6 \<Longrightarrow> m' (512 * k + i) = m (512 * k + i)) \<Longrightarrow> blk_is m' k n len = blk_is m k n len"
  using log_block_get_cong(1) [of m' "512 * k" m] log_block_get_cong(3) [of m' "512 * k" m]
  by (simp add: blk_is_def add.assoc)

lemma seg_data_cong:
  assumes "\<And>k i. p \<le> k \<Longrightarrow> k \<le> q \<Longrightarrow> 12 \<le> i \<Longrightarrow> i < (if k = q then r else 508) \<Longrightarrow>
    m' (512 * k + i) = m (512 * k + i)" "p \<le> q"
  shows "seg_data m' p q r = seg_data m p q r"
proof -
  have c: "copy_in m' (512 * k + 12) j = copy_in m (512 * k + 12) j"
    if "p \<le> k" "k \<le> q" "12 + j \<le> (if k = q then r else 508) \<or> j = 0" for k j
    by (rule copy_in_cong) (use assms(1) [of k "12 + _"] that in \<open>auto simp: add.assoc\<close>)
  have "map (\<lambda>k. copy_in m' (512 * k + 12) 496) [p..<q] = map (\<lambda>k. copy_in m (512 * k + 12) 496) [p..<q]"
    by (rule map_cong [OF refl]) (use c in auto)
  moreover have "copy_in m' (512 * q + 12) (r - 12) = copy_in m (512 * q + 12) (r - 12)"
    by (rule c) (use assms(2) in auto)
  ultimately show ?thesis unfolding seg_data_def by (simp only:)
qed

lemma seg_data_more:
  "12 \<le> r \<Longrightarrow> seg_data m p q (r + k) = seg_data m p q r @ copy_in m (512 * q + r) k"
  using copy_in_add [of m "512 * q + 12" "r - 12" k] by (simp add: seg_data_def add.assoc)

lemma seg_data_roll: "p \<le> q \<Longrightarrow> seg_data m p (Suc q) 12 = seg_data m p q 508"
  by (simp add: seg_data_def)

lemma seg_data_split:
  assumes "p \<le> p'" "p' \<le> q"
  shows "seg_data m p q r = seg_data m p p' 12 @ seg_data m p' q r"
proof -
  have "[p..<q] = [p..<p'] @ [p'..<q]" using assms by (metis le_Suc_ex upt_add_eq_append)
  then show ?thesis by (simp add: seg_data_def)
qed

section \<open>Writing appends to the data\<close>

lemma align_down_block: "r < 512 \<Longrightarrow> align_down (512 * q + r) = 512 * q"
  by (simp add: align_down_def log_block_consts)

text \<open>A part that leaves room in the block, and one that fills it.\<close>

lemma part_fits:
  assumes seg: "seg_ok m p q r n" and room: "r + length str < 508"
  defines "m' \<equiv> log_block_set_data_len (mem_put m (512 * q + r) str) (512 * q) (r + length str)"
  shows "seg_ok m' p q (r + length str) n" "seg_data m' p q (r + length str) = seg_data m p q r @ str"
    "\<And>a. a < 512 * q \<Longrightarrow> m' a = m a"
proof -
  have r: "12 \<le> r" "p \<le> q" using seg by (simp_all add: seg_ok_def)
  have same: "m' a = m a" if "a < 512 * q + 4 \<or> 512 * q + 6 \<le> a" "a < 512 * q + r" for a
    using that r by (auto simp: m'_def log_block_set_frames mem_put_apply)
  show "\<And>a. a < 512 * q \<Longrightarrow> m' a = m a" by (rule same) auto
  have old: "blk_is m' k j l = blk_is m k j l" if "k < q" for k j l
    by (rule blk_is_cong, rule same) (use that in auto)
  have "log_block_get_hdr_no m' (512 * q) = log_block_get_hdr_no m (512 * q)"
    by (rule log_block_get_cong, rule same) (use r in auto)
  then have "blk_is m' q n (r + length str)"
    using seg room by (simp add: blk_is_def seg_ok_def) (simp add: m'_def)
  then show "seg_ok m' p q (r + length str) n" using seg room old by (auto simp: seg_ok_def)
  have "seg_data m' p q r = seg_data m p q r"
    by (rule seg_data_cong [OF same r(2)]) (auto split: if_splits)
  moreover have "copy_in m' (512 * q + r) (length str) = str"
  proof (rule nth_equalityI)
    fix i assume "i < length (copy_in m' (512 * q + r) (length str))"
    then show "copy_in m' (512 * q + r) (length str) ! i = str ! i"
      using r by (simp add: m'_def log_block_set_frames mem_put_apply)
  qed simp
  ultimately show "seg_data m' p q (r + length str) = seg_data m p q r @ str"
    using seg_data_more [OF r(1), of m' p q "length str"] by simp
qed

lemma part_fills:
  fixes cp :: ulint and m4 :: mem
  assumes seg: "seg_ok m p q r n" and room: "r + length str = 508"
  defines "m4 \<equiv> log_block_set_checkpoint_no (log_block_set_data_len (log_block_set_data_len
      (mem_put m (512 * q + r) str) (512 * q) 508) (512 * q) 512) (512 * q) cp"
    and "m' \<equiv> log_block_init m4 (512 * Suc q) (512 * n + 524)"
  shows "seg_ok m' p (Suc q) 12 (Suc n)" "seg_data m' p (Suc q) 12 = seg_data m p q r @ str"
    "\<And>a. a < 512 * q \<Longrightarrow> m' a = m a"
proof -
  have r: "12 \<le> r" "p \<le> q" using seg by (simp_all add: seg_ok_def)
  have same: "m' a = m a" if "a < 512 * q + 4 \<or> 512 * q + 6 \<le> a" "a < 512 * q + 8 \<or> 512 * q + 12 \<le> a"
    "a < 512 * q + r" for a
    using that r room by (auto simp: m'_def m4_def log_block_set_frames mem_put_apply)
  show "\<And>a. a < 512 * q \<Longrightarrow> m' a = m a" by (rule same) auto
  have old: "blk_is m' k j l = blk_is m k j l" if "k < q" for k j l
    by (rule blk_is_cong, rule same) (use that in auto)
  have "log_block_get_hdr_no m' (512 * q) = log_block_get_hdr_no m (512 * q)"
    by (rule log_block_get_cong, rule same) (use r in auto)
  moreover have "log_block_get_data_len m' (512 * q) = 512"
  proof -
    have "log_block_get_data_len m' (512 * q) =
        log_block_get_data_len (log_block_set_data_len (log_block_set_data_len
          (mem_put m (512 * q + r) str) (512 * q) 508) (512 * q) 512) (512 * q)"
      by (rule log_block_get_cong) (simp add: m'_def m4_def log_block_set_frames)
    then show ?thesis by simp
  qed
  ultimately have "blk_is m' q n 512" using seg by (simp add: blk_is_def seg_ok_def)
  moreover have "blk_is m' (Suc q) (Suc n) 12"
  proof -
    have "log_block_convert_lsn_to_no (512 * n + 524) = log_block_convert_lsn_to_no (512 * Suc n)"
      by (simp add: log_block_convert_lsn_to_no_def log_block_consts)
    then show ?thesis unfolding blk_is_def m'_def by (simp only: log_block_init_fields simp_thms)
  qed
  ultimately show "seg_ok m' p (Suc q) 12 (Suc n)"
    using seg old by (auto simp: seg_ok_def less_Suc_eq Suc_diff_le)
  have "seg_data m' p q r = seg_data m p q r"
    by (rule seg_data_cong [OF same r(2)]) (auto split: if_splits)
  moreover have "copy_in m' (512 * q + r) (length str) = str"
  proof (rule nth_equalityI)
    fix i assume "i < length (copy_in m' (512 * q + r) (length str))"
    then show "copy_in m' (512 * q + r) (length str) ! i = str ! i"
      using r room by (simp add: m'_def m4_def log_block_set_frames mem_put_apply)
  qed simp
  ultimately show "seg_data m' p (Suc q) 12 = seg_data m p q r @ str"
    using seg_data_more [OF r(1), of m' p q "length str"] room seg_data_roll [OF r(2)] by simp
qed

text \<open>The two cases of a part, on the position \<open>512 * q + r\<close> of the buffer and \<open>512 * n + r\<close> of the log.\<close>

lemma log_pos:
  assumes "log_ok p l"
  obtains q r n where "buf_free l = 512 * q + r" "lsn l = 512 * n + r" "12 \<le> r" "r < 508" "seg_ok (lbuf l) p q r n"
    "log_data p l = seg_data (lbuf l) p q r"
proof -
  have "buf_free l = 512 * (buf_free l div 512) + buf_free l mod 512" by simp
  moreover have "512 * (lsn l div 512) + lsn l mod 512 = lsn l" by simp
  then have "lsn l = 512 * (lsn l div 512) + buf_free l mod 512" using assms by (simp only: log_ok_def)
  ultimately show ?thesis
    using that [of "buf_free l div 512" "buf_free l mod 512" "lsn l div 512"] assms
    by (simp add: log_ok_def log_data_def seg_ok_def)
qed

lemma log_posI:
  assumes "buf_free l = 512 * q + r" "lsn l = 512 * n + r" "seg_ok (lbuf l) p q r n"
  shows "log_ok p l" "log_data p l = seg_data (lbuf l) p q r"
proof -
  have "r < 508" using assms(3) by (simp add: seg_ok_def)
  then have "buf_free l div 512 = q" "buf_free l mod 512 = r" "lsn l div 512 = n" "lsn l mod 512 = r"
    using assms(1,2) by simp_all
  then show "log_ok p l" "log_data p l = seg_data (lbuf l) p q r"
    using assms(3) by (simp_all add: log_ok_def log_data_def)
qed

lemma log_write_part_fits:
  assumes "buf_free l = 512 * q + r" "lsn l = 512 * n + r" "seg_ok (lbuf l) p q r n" "r + length str < 508"
    "log_write_part str l = (len, l1)"
  shows "len = length str" "buf_free l1 = 512 * q + (r + length str)" "lsn l1 = 512 * n + (r + length str)"
    "seg_ok (lbuf l1) p q (r + length str) n" "seg_data (lbuf l1) p q (r + length str) = seg_data (lbuf l) p q r @ str"
    "\<And>a. a < 512 * q \<Longrightarrow> lbuf l1 a = lbuf l a"
proof -
  have r: "(512 * q + r) mod 512 = r" using assms(4) by simp
  have w: "len = length str \<and> l1 = l\<lparr>lbuf := log_block_set_data_len (mem_put (lbuf l) (512 * q + r) str) (512 * q) (r + length str),
      lsn := lsn l + length str, buf_free := buf_free l + length str\<rparr>"
    using assms(4,5) r by (auto simp: log_write_part_def log_block_consts assms(1) align_down_block Let_def)
  show "len = length str" "buf_free l1 = 512 * q + (r + length str)" "lsn l1 = 512 * n + (r + length str)"
    using w assms(1,2) by simp_all
  show "seg_ok (lbuf l1) p q (r + length str) n" "seg_data (lbuf l1) p q (r + length str) = seg_data (lbuf l) p q r @ str"
    "\<And>a. a < 512 * q \<Longrightarrow> lbuf l1 a = lbuf l a"
    using w part_fits [OF assms(3,4)] by simp_all
qed

lemma log_write_part_fills:
  assumes "buf_free l = 512 * q + r" "lsn l = 512 * n + r" "seg_ok (lbuf l) p q r n" "508 \<le> r + length str"
    "log_write_part str l = (len, l1)"
  shows "len = 508 - r" "buf_free l1 = 512 * Suc q + 12" "lsn l1 = 512 * Suc n + 12"
    "seg_ok (lbuf l1) p (Suc q) 12 (Suc n)" "seg_data (lbuf l1) p (Suc q) 12 = seg_data (lbuf l) p q r @ take (508 - r) str"
    "\<And>a. a < 512 * q \<Longrightarrow> lbuf l1 a = lbuf l a"
proof -
  have r: "r < 508" using assms(3) by (simp add: seg_ok_def)
  have m: "(512 * q + r) mod 512 = r" using r by simp
  have len: "r + length (take (508 - r) str) = 508" using assms(4) r by simp
  let ?m = "log_block_set_checkpoint_no (log_block_set_data_len (log_block_set_data_len
      (mem_put (lbuf l) (512 * q + r) (take (508 - r) str)) (512 * q) 508) (512 * q) 512) (512 * q) (next_checkpoint_no l)"
  have h: "r + length str = 508 \<Longrightarrow> 512 * k + r + (length str + 16) = 512 * k + 524" for k by simp
  have w: "len = 508 - r \<and> l1 = l\<lparr>lbuf := log_block_init ?m (512 * q + 512) (512 * n + 524),
      lsn := 512 * n + 524, buf_free := 512 * q + 524\<rparr>"
    using assms(4,5) r m h
    by (cases "r + length str = 508")
      (auto simp: log_write_part_def log_block_consts assms(1,2) align_down_block Let_def)
  have e: "512 * q + 512 = 512 * Suc q" by simp
  show "len = 508 - r" "buf_free l1 = 512 * Suc q + 12" "lsn l1 = 512 * Suc n + 12"
    using w by simp_all
  show "seg_ok (lbuf l1) p (Suc q) 12 (Suc n)" "seg_data (lbuf l1) p (Suc q) 12 = seg_data (lbuf l) p q r @ take (508 - r) str"
    "\<And>a. a < 512 * q \<Longrightarrow> lbuf l1 a = lbuf l a"
    using w [unfolded e] part_fills [OF assms(3) len] by simp_all
qed

lemma log_write_part_appends:
  assumes "log_ok p l" "log_write_part str l = (len, l1)"
  shows "log_ok p l1" "log_data p l1 = log_data p l @ take len str" "len \<le> length str"
    "\<And>a. a < 512 * (buf_free l div 512) \<Longrightarrow> lbuf l1 a = lbuf l a"
proof -
  obtain q r n where l: "buf_free l = 512 * q + r" "lsn l = 512 * n + r" "12 \<le> r" "r < 508" "seg_ok (lbuf l) p q r n"
    "log_data p l = seg_data (lbuf l) p q r"
    using assms(1) by (rule log_pos)
  have q: "buf_free l div 512 = q" using l by simp
  have "log_ok p l1 \<and> log_data p l1 = log_data p l @ take len str \<and> len \<le> length str \<and>
    (\<forall>a < 512 * (buf_free l div 512). lbuf l1 a = lbuf l a)"
  proof (cases "r + length str < 508")
    case True
    note w = log_write_part_fits [OF l(1,2,5) True assms(2)]
    show ?thesis using log_posI [OF w(2,3,4)] w(1,5,6) l(6) q by simp
  next
    case False
    then have f: "508 \<le> r + length str" by simp
    note w = log_write_part_fills [OF l(1,2,5) f assms(2)]
    show ?thesis using log_posI [OF w(2,3,4)] w(1,5,6) l(6) q f by simp
  qed
  then show "log_ok p l1" "log_data p l1 = log_data p l @ take len str" "len \<le> length str"
    "\<And>a. a < 512 * (buf_free l div 512) \<Longrightarrow> lbuf l1 a = lbuf l a" by auto
qed

lemma log_write_part_mono: "log_ok p l \<Longrightarrow> log_write_part str l = (len, l1) \<Longrightarrow> buf_free l \<le> buf_free l1"
  by (auto simp: log_write_part_def Let_def split: if_splits)

lemma log_write_low_appends:
  "log_ok p l \<Longrightarrow> log_ok p (log_write_low str l) \<and> log_data p (log_write_low str l) = log_data p l @ str \<and>
    buf_free l \<le> buf_free (log_write_low str l) \<and>
    (\<forall>a < 512 * (buf_free l div 512). lbuf (log_write_low str l) a = lbuf l a)"
proof (induction str l rule: log_write_low.induct)
  case (1 str l)
  obtain len l1 where p: "log_write_part str l = (len, l1)" by fastforce
  note w = log_write_part_appends [OF "1.prems" p] and mono = log_write_part_mono [OF "1.prems" p]
  have le: "512 * (buf_free l div 512) \<le> 512 * (buf_free l1 div 512)" using mono by (simp add: div_le_mono)
  show ?case
  proof (cases "length str - len > 0")
    case True
    then have "log_write_low str l = log_write_low (drop len str) l1"
      by (subst log_write_low.simps) (simp add: p)
    then show ?thesis using "1.IH" [OF p [symmetric] True w(1)] w mono le by auto
  next
    case False
    then have "log_write_low str l = l1" by (subst log_write_low.simps) (simp add: p)
    then show ?thesis using w mono False by simp
  qed
qed

interpretation lb: append_log "log_data p" "log_ok p" log_write_low for p
  by unfold_locales (simp_all add: log_write_low_appends)

section \<open>Positions in the log\<close>

text \<open>
  \<open>recv_calc_lsn_on_data_add\<close> of \<open>log/log0recv.c\<close>: where recovery expects the log to stand after
  \<open>len\<close> more bytes of data. It is where \<open>log_write_low\<close> has left it.
\<close>

definition recv_calc_lsn_on_data_add :: "nat \<Rightarrow> nat \<Rightarrow> nat" where
  "recv_calc_lsn_on_data_add lsn0 len =
     (let frag_len = lsn0 mod OS_FILE_LOG_BLOCK_SIZE - LOG_BLOCK_HDR_SIZE;
          lsn_len = len + (len + frag_len) div (OS_FILE_LOG_BLOCK_SIZE - LOG_BLOCK_HDR_SIZE - LOG_BLOCK_TRL_SIZE)
            * (LOG_BLOCK_HDR_SIZE + LOG_BLOCK_TRL_SIZE)
      in lsn0 + lsn_len)"

lemma recv_calc_pos:
  assumes "12 \<le> r" "r < 512"
  shows "recv_calc_lsn_on_data_add (512 * n + r) len = 512 * n + r + len + (len + (r - 12)) div 496 * 16"
  using assms by (simp add: recv_calc_lsn_on_data_add_def log_block_consts)

text \<open>The position of the data byte number \<open>k\<close>, and the number of the data byte at a position.\<close>

definition data_no :: "nat \<Rightarrow> nat" where
  "data_no l = 496 * (l div 512) + (l mod 512 - 12)"

lemma data_no_pos: "r < 512 \<Longrightarrow> data_no (512 * n + r) = 496 * n + (r - 12)"
  by (simp add: data_no_def)

lemma data_no_lsn_add:
  assumes "12 \<le> l mod 512" "l mod 512 < 508"
  shows "data_no (recv_calc_lsn_on_data_add l len) = data_no l + len"
    and "12 \<le> recv_calc_lsn_on_data_add l len mod 512" and "recv_calc_lsn_on_data_add l len mod 512 < 508"
proof -
  define n r where "n = l div 512" and "r = l mod 512"
  have l: "l = 512 * n + r" and r: "12 \<le> r" "r < 508" using assms by (simp_all add: n_def r_def)
  define k j where "k = (len + (r - 12)) div 496" and "j = (len + (r - 12)) mod 496"
  have kj: "len + (r - 12) = 496 * k + j" "j < 496" by (simp_all add: k_def j_def)
  have e: "recv_calc_lsn_on_data_add l len = 512 * (n + k) + (j + 12)"
    using kj r recv_calc_pos [of r n len] by (simp add: l k_def [symmetric])
  show "data_no (recv_calc_lsn_on_data_add l len) = data_no l + len"
  proof -
    have "data_no (512 * (n + k) + (j + 12)) = 496 * (n + k) + j" using kj(2) by (subst data_no_pos) simp_all
    also have "\<dots> = 496 * n + (r - 12) + len" using kj(1) by simp
    also have "\<dots> = data_no l + len" using data_no_pos [of r n] r by (simp only: l)
    finally show ?thesis using e by (simp only:)
  qed
  have "recv_calc_lsn_on_data_add l len mod 512 = j + 12"
    unfolding e using kj(2) by (simp only: mod_mult_self4) simp
  then show "12 \<le> recv_calc_lsn_on_data_add l len mod 512" "recv_calc_lsn_on_data_add l len mod 512 < 508"
    using kj(2) by simp_all
qed

text \<open>Two positions in data areas with the same number of data bytes before them are the same.\<close>

lemma data_no_inj:
  assumes "data_no l = data_no l'" "12 \<le> l mod 512" "l mod 512 < 508" "12 \<le> l' mod 512" "l' mod 512 < 508"
  shows "l = l'"
proof -
  have d: "data_no x div 496 = x div 512 \<and> data_no x mod 496 = x mod 512 - 12" if "12 \<le> x mod 512" "x mod 512 < 508" for x
  proof -
    have "y < 496 \<Longrightarrow> (496 * a + y) div 496 = a \<and> (496 * a + y) mod 496 = y" for a y :: nat by simp
    moreover have "x mod 512 - 12 < 496" using that by simp
    ultimately show ?thesis unfolding data_no_def by blast
  qed
  have "l div 512 = l' div 512" "l mod 512 - 12 = l' mod 512 - 12"
    using d [OF assms(2,3)] d [OF assms(4,5)] assms(1) by simp_all
  moreover from this have "l mod 512 = l' mod 512" using assms(2,4) by linarith
  ultimately have "l div 512 = l' div 512" "l mod 512 = l' mod 512" by simp_all
  then show ?thesis by (metis mult_div_mod_eq)
qed

lemma lsn_add_add:
  assumes "12 \<le> l mod 512" "l mod 512 < 508"
  shows "recv_calc_lsn_on_data_add (recv_calc_lsn_on_data_add l a) b = recv_calc_lsn_on_data_add l (a + b)"
  by (rule data_no_inj) (use assms in \<open>simp_all add: data_no_lsn_add\<close>)

lemma data_no_log_part:
  assumes "log_ok p l" "log_write_part str l = (len, l1)"
  shows "data_no (lsn l1) = data_no (lsn l) + len" "lsn l1 - lsn l = buf_free l1 - buf_free l" "lsn l \<le> lsn l1"
    "buf_free l \<le> buf_free l1"
proof -
  obtain q r n where l: "buf_free l = 512 * q + r" "lsn l = 512 * n + r" "12 \<le> r" "r < 508" "seg_ok (lbuf l) p q r n"
    "log_data p l = seg_data (lbuf l) p q r"
    using assms(1) by (rule log_pos)
  have "data_no (lsn l1) = data_no (lsn l) + len \<and> lsn l1 - lsn l = buf_free l1 - buf_free l \<and> lsn l \<le> lsn l1
    \<and> buf_free l \<le> buf_free l1"
  proof (cases "r + length str < 508")
    case True
    from log_write_part_fits [OF l(1,2,5) True assms(2)] show ?thesis
      using l(1-4) data_no_pos [of r n] data_no_pos [of "r + length str" n] True by simp
  next
    case False
    then have f: "508 \<le> r + length str" by simp
    from log_write_part_fills [OF l(1,2,5) f assms(2)] show ?thesis
      using l(1-4) data_no_pos [of r n] data_no_pos [of 12 "Suc n"] by simp
  qed
  then show "data_no (lsn l1) = data_no (lsn l) + len" "lsn l1 - lsn l = buf_free l1 - buf_free l" "lsn l \<le> lsn l1"
    "buf_free l \<le> buf_free l1"
    by simp_all
qed

lemma log_ok_in_data: "log_ok p l \<Longrightarrow> 12 \<le> lsn l mod 512 \<and> lsn l mod 512 < 508"
  by (simp add: log_ok_def seg_ok_def)

lemma log_write_low_lsn_aux:
  "log_ok p l \<Longrightarrow> data_no (lsn (log_write_low str l)) = data_no (lsn l) + length str \<and>
    lsn (log_write_low str l) - lsn l = buf_free (log_write_low str l) - buf_free l \<and>
    lsn l \<le> lsn (log_write_low str l) \<and> buf_free l \<le> buf_free (log_write_low str l)"
proof (induction str l rule: log_write_low.induct)
  case (1 str l)
  obtain len l1 where p: "log_write_part str l = (len, l1)" by fastforce
  note w = log_write_part_appends [OF "1.prems" p] and d = data_no_log_part [OF "1.prems" p]
  show ?case
  proof (cases "length str - len > 0")
    case True
    then have "log_write_low str l = log_write_low (drop len str) l1"
      by (subst log_write_low.simps) (simp add: p)
    then show ?thesis using "1.IH" [OF p [symmetric] True w(1)] d True by auto
  next
    case False
    then have "log_write_low str l = l1" by (subst log_write_low.simps) (simp add: p)
    then show ?thesis using d False w(3) by simp
  qed
qed

lemma log_write_low_lsn:
  assumes "log_ok p l"
  shows "lsn (log_write_low str l) = recv_calc_lsn_on_data_add (lsn l) (length str)"
    "buf_free (log_write_low str l) = buf_free l + (lsn (log_write_low str l) - lsn l)"
proof -
  have ok: "log_ok p (log_write_low str l)" using log_write_low_appends [OF assms] by simp
  note a = log_ok_in_data [OF assms] and b = log_ok_in_data [OF ok] and w = log_write_low_lsn_aux [OF assms, of str]
  show "lsn (log_write_low str l) = recv_calc_lsn_on_data_add (lsn l) (length str)"
    by (rule data_no_inj) (use a b w in \<open>simp_all add: data_no_lsn_add\<close>)
  show "buf_free (log_write_low str l) = buf_free l + (lsn (log_write_low str l) - lsn l)"
    using w by simp
qed

section \<open>Reserving, closing, starting\<close>

definition log_reserve_and_write_fast :: "byte list \<Rightarrow> log_t \<Rightarrow> (nat \<times> nat \<times> log_t) option" where
  "log_reserve_and_write_fast str log =
     (let data_len = length str + buf_free log mod OS_FILE_LOG_BLOCK_SIZE
      in if data_len \<ge> OS_FILE_LOG_BLOCK_SIZE - LOG_BLOCK_TRL_SIZE then None
         else
           (let m1 = mem_put (lbuf log) (buf_free log) str;
                m2 = log_block_set_data_len m1 (align_down (buf_free log)) data_len;
                log1 = log\<lparr>lbuf := m2, buf_free := buf_free log + length str, lsn := lsn log + length str\<rparr>
            in Some (lsn log, lsn log1, log1)))"

definition LOG_BUF_WRITE_MARGIN :: nat where "LOG_BUF_WRITE_MARGIN = 4 * OS_FILE_LOG_BLOCK_SIZE"

text \<open>
  The test of \<open>log_reserve_and_open\<close>, after \<open>ut_a(len < buf_size / 2)\<close>: is there room for \<open>len\<close>
  bytes, or has the buffer to be flushed first.
\<close>

definition log_has_room :: "nat \<Rightarrow> log_t \<Rightarrow> bool" where
  "log_has_room len log \<longleftrightarrow> \<not> buf_free log + (LOG_BUF_WRITE_MARGIN + (5 * len) div 4) > buf_size log"

text \<open>\<open>oldest_lsn\<close> is \<open>buf_pool_get_oldest_modification\<close>. The warning it may print is left out.\<close>

definition log_close :: "nat \<Rightarrow> log_t \<Rightarrow> nat \<times> log_t" where
  "log_close oldest_lsn log =
     (let log_block = align_down (buf_free log);
          log1 = (if log_block_get_first_rec_group (lbuf log) log_block = 0
                  then log\<lparr>lbuf := log_block_set_first_rec_group (lbuf log) log_block
                                   (log_block_get_data_len (lbuf log) log_block)\<rparr>
                  else log);
          log2 = (if buf_free log1 > max_buf_free log1 then log1\<lparr>check_flush_or_checkpoint := True\<rparr> else log1);
          checkpoint_age = lsn log - last_checkpoint_lsn log2
      in if checkpoint_age \<le> max_modified_age_async log2 then (lsn log, log2)
         else if oldest_lsn = 0 \<or> lsn log - oldest_lsn > max_modified_age_async log2
           \<or> checkpoint_age > max_checkpoint_age_async log2
         then (lsn log, log2\<lparr>check_flush_or_checkpoint := True\<rparr>)
         else (lsn log, log2))"

definition LOG_BUF_FLUSH_MARGIN :: "nat \<Rightarrow> nat" where
  "LOG_BUF_FLUSH_MARGIN univ_page_size = LOG_BUF_WRITE_MARGIN + 4 * univ_page_size"

text \<open>
  \<open>log_init\<close> with a buffer of \<open>LOG_BUFFER_SIZE\<close> bytes, as far as the fields go; \<open>log0\<close> holds what the
  memory of \<open>log_sys\<close> held before.
\<close>

definition log_init :: "nat \<Rightarrow> nat \<Rightarrow> log_t \<Rightarrow> log_t option" where
  "log_init log_buffer_size univ_page_size log0 =
     (if log_buffer_size < 16 * OS_FILE_LOG_BLOCK_SIZE \<or> log_buffer_size < 4 * univ_page_size then None
      else
        (let b1 = log_block_init (\<lambda>_. 0) 0 LOG_START_LSN;
             b2 = log_block_set_first_rec_group b1 0 LOG_BLOCK_HDR_SIZE
         in Some (log0\<lparr>lbuf := b2, buf_size := log_buffer_size,
               max_buf_free := log_buffer_size div 2 - LOG_BUF_FLUSH_MARGIN univ_page_size,
               check_flush_or_checkpoint := True, buf_next_to_write := 0, write_lsn := 0,
               flushed_to_disk_lsn := 0, written_to_all_lsn := LOG_START_LSN, n_pending_writes := 0,
               next_checkpoint_no := 0, last_checkpoint_lsn := LOG_START_LSN,
               buf_free := LOG_BLOCK_HDR_SIZE, lsn := LOG_START_LSN + LOG_BLOCK_HDR_SIZE\<rparr>)))"

text \<open>\<open>log_pad_current_log_block\<close> between \<open>log_reserve_and_open\<close> and \<open>log_close\<close>: dummy records, byte by byte.\<close>

definition MLOG_DUMMY_RECORD :: byte where "MLOG_DUMMY_RECORD = 32"

definition log_pad_current_log_block :: "log_t \<Rightarrow> log_t" where
  "log_pad_current_log_block log =
     (let pad_length = OS_FILE_LOG_BLOCK_SIZE - buf_free log mod OS_FILE_LOG_BLOCK_SIZE - LOG_BLOCK_TRL_SIZE
      in fold (\<lambda>i. log_write_low [MLOG_DUMMY_RECORD]) [0..<pad_length] log)"

lemma log_init_ok:
  assumes "log_init n u l0 = Some l"
  shows "log_ok 0 l" "log_data 0 l = []" "lsn l = LOG_START_LSN + 12" "buf_size l = n"
proof -
  have l: "buf_free l = 512 * 0 + 12" "lsn l = 512 * 16 + 12" "buf_size l = n"
    "lbuf l = log_block_set_first_rec_group (log_block_init (\<lambda>_. 0) 0 (512 * 16)) 0 12"
    using assms by (auto simp: log_init_def Let_def LOG_START_LSN_def log_block_consts split: if_splits)
  have "blk_is (log_block_init (\<lambda>_. 0) 0 (512 * 16)) 0 16 12"
    by (simp add: blk_is_def log_block_init_fields)
  then have "blk_is (lbuf l) 0 16 12"
    unfolding l(4) by (subst blk_is_cong) (auto simp: log_block_set_frames)
  then have "seg_ok (lbuf l) 0 0 12 16" by (simp add: seg_ok_def)
  from log_posI [OF l(1,2) this] show "log_ok 0 l" "log_data 0 l = []" by (simp_all add: seg_data_def)
  show "lsn l = LOG_START_LSN + 12" "buf_size l = n" using l by (simp_all add: LOG_START_LSN_def log_block_consts)
qed

lemma log_write_fast_eq:
  assumes "log_ok p log" "log_reserve_and_write_fast str log = Some (s, e, log1)"
  shows "log1 = log_write_low str log" "s = lsn log" "e = lsn log1"
proof -
  have c: "length str + buf_free log mod 512 < 508"
    using assms(2) by (auto simp: log_reserve_and_write_fast_def Let_def log_block_consts split: if_splits)
  then have "log_write_part str log = (length str, log1)"
    using assms(2) by (auto simp: log_reserve_and_write_fast_def log_write_part_def Let_def log_block_consts ac_simps)
  then show "log1 = log_write_low str log" by (subst log_write_low.simps) simp
  show "s = lsn log" "e = lsn log1"
    using assms(2) by (auto simp: log_reserve_and_write_fast_def Let_def split: if_splits)
qed

lemma log_ok_cong:
  assumes "log_ok p l" "buf_free l' = buf_free l" "lsn l' = lsn l"
    "\<And>k i. i < 6 \<or> 8 \<le> i \<and> i < 512 \<Longrightarrow> lbuf l' (512 * k + i) = lbuf l (512 * k + i)"
  shows "log_ok p l'" "log_data p l' = log_data p l"
proof -
  have b: "blk_is (lbuf l') k n len = blk_is (lbuf l) k n len" for k n len
    by (rule blk_is_cong) (simp add: assms(4))
  show "log_ok p l'" using assms(1-3) b by (simp add: log_ok_def seg_ok_def)
  have "p \<le> buf_free l div 512" using assms(1) by (simp add: log_ok_def seg_ok_def)
  then show "log_data p l' = log_data p l"
    unfolding log_data_def assms(2)
    by (intro seg_data_cong assms(4)) (use mod_less_divisor [of 512 "buf_free l"] in \<open>auto split: if_splits\<close>)
qed

lemma log_close_ok:
  assumes "log_ok p l"
  shows "log_ok p (snd (log_close oldest l))" "log_data p (snd (log_close oldest l)) = log_data p l"
    "lsn (snd (log_close oldest l)) = lsn l" "fst (log_close oldest l) = lsn l"
    "buf_free (snd (log_close oldest l)) = buf_free l"
proof -
  have f: "lsn (snd (log_close oldest l)) = lsn l \<and> fst (log_close oldest l) = lsn l \<and>
      buf_free (snd (log_close oldest l)) = buf_free l"
    by (simp add: log_close_def Let_def)
  then show "lsn (snd (log_close oldest l)) = lsn l" "fst (log_close oldest l) = lsn l"
    "buf_free (snd (log_close oldest l)) = buf_free l" by simp_all
  have "lbuf (snd (log_close oldest l)) (512 * k + i) = lbuf l (512 * k + i)"
    if "i < 6 \<or> 8 \<le> i \<and> i < 512" for k i
  proof -
    let ?b = "512 * (buf_free l div 512)"
    have b: "align_down (buf_free l) = ?b" by (simp add: align_down_def log_block_consts minus_mod_eq_mult_div)
    have "512 * k + i < ?b + 6 \<or> ?b + 8 \<le> 512 * k + i"
    proof (rule linorder_cases [of k "buf_free l div 512"])
      assume "k < buf_free l div 512"
      then have "512 * Suc k \<le> ?b" by (intro mult_le_mono2) simp
      then show ?thesis using that by auto
    next
      assume "k > buf_free l div 512"
      then have "512 * Suc (buf_free l div 512) \<le> 512 * k" by (intro mult_le_mono2) simp
      then show ?thesis by simp
    qed (use that in auto)
    then show ?thesis by (auto simp: log_close_def Let_def b log_block_set_frames)
  qed
  from log_ok_cong [OF assms _ _ this]
  show "log_ok p (snd (log_close oldest l))" "log_data p (snd (log_close oldest l)) = log_data p l"
    using f by simp_all
qed

lemma write_all_pos:
  assumes "log_ok p l"
  shows "lsn (fold log_write_low strs l) = recv_calc_lsn_on_data_add (lsn l) (length (concat strs))"
    "buf_free (fold log_write_low strs l) = buf_free l + (lsn (fold log_write_low strs l) - lsn l)"
proof -
  have "lsn (fold log_write_low strs l) = recv_calc_lsn_on_data_add (lsn l) (length (concat strs)) \<and>
    buf_free (fold log_write_low strs l) = buf_free l + (lsn (fold log_write_low strs l) - lsn l)"
    using assms
  proof (induction strs arbitrary: l)
    case Nil
    then have "12 \<le> lsn l mod 512 \<and> lsn l mod 512 < 508" by (rule log_ok_in_data)
    then have "lsn l mod 512 - 12 < 496" by linarith
    then have "(lsn l mod 512 - 12) div 496 = 0" by (rule div_less)
    then show ?case by (simp add: recv_calc_lsn_on_data_add_def log_block_consts)
  next
    case (Cons str strs)
    let ?l = "log_write_low str l"
    have ok: "log_ok p ?l" using log_write_low_appends [OF Cons.prems] by simp
    note in_data = log_ok_in_data [OF Cons.prems]
    note w = log_write_low_lsn [OF Cons.prems, of str] and ih = Cons.IH [OF ok]
    have "lsn l \<le> lsn ?l" unfolding w(1) by (simp add: recv_calc_lsn_on_data_add_def Let_def)
    moreover have "lsn ?l \<le> lsn (fold log_write_low strs ?l)"
      using ih by (simp add: recv_calc_lsn_on_data_add_def Let_def)
    ultimately have "buf_free (fold log_write_low strs ?l) = buf_free l + (lsn (fold log_write_low strs ?l) - lsn l)"
      using ih w(2) by linarith
    moreover have "lsn (fold log_write_low strs ?l) = recv_calc_lsn_on_data_add (lsn l) (length (concat (str # strs)))"
      using ih w(1) in_data by (simp add: lsn_add_add)
    ultimately show ?case by simp
  qed
  then show "lsn (fold log_write_low strs l) = recv_calc_lsn_on_data_add (lsn l) (length (concat strs))"
    "buf_free (fold log_write_low strs l) = buf_free l + (lsn (fold log_write_low strs l) - lsn l)" by simp_all
qed

text \<open>
  C17: the log buffer does not overflow. When the test of \<open>log_reserve_and_open\<close> has found room for
  \<open>len\<close> bytes, writing them in any pieces, with the headers and trailers of all the blocks they fill,
  ends at least three blocks before the end of the buffer: there is still room for the copy of the
  last block that \<open>log_write_up_to\<close> makes.
\<close>

theorem log_buffer_no_overflow:
  assumes "log_ok p l" "log_has_room (length (concat strs)) l"
  shows "buf_free (fold log_write_low strs l) + 3 * OS_FILE_LOG_BLOCK_SIZE \<le> buf_size l"
proof -
  let ?n = "length (concat strs)"
  have r: "lsn l mod 512 - 12 \<le> 495" using log_ok_in_data [OF assms(1)] by linarith
  then have "(?n + (lsn l mod 512 - 12)) div 496 \<le> (?n + 495) div 496" by (intro div_le_mono) simp
  also have "\<dots> * 64 \<le> ?n + 512"
    using div_times_less_eq_dividend [of "?n + 495" 496] by linarith
  finally have "(?n + (lsn l mod 512 - 12)) div 496 * 64 \<le> ?n + 512" by simp
  moreover have "buf_free (fold log_write_low strs l) = buf_free l + ?n + (?n + (lsn l mod 512 - 12)) div 496 * 16"
    using write_all_pos [OF assms(1), of strs] by (simp add: recv_calc_lsn_on_data_add_def Let_def log_block_consts)
  moreover have "buf_free l + (2048 + (5 * ?n) div 4) \<le> buf_size l"
    using assms(2) by (simp add: log_has_room_def LOG_BUF_WRITE_MARGIN_def log_block_consts)
  moreover have "5 * ?n \<le> 4 * ((5 * ?n) div 4) + 3"
    using mult_div_mod_eq [of 4 "5 * ?n"] mod_less_divisor [of 4 "5 * ?n"] by linarith
  ultimately show ?thesis unfolding log_block_consts by linarith
qed

definition blank_log :: log_t where
  "blank_log = \<lparr>lbuf = \<lambda>_. 0, buf_free = 0, lsn = 0, buf_size = 0, max_buf_free = 0,
     check_flush_or_checkpoint = False, next_checkpoint_no = 0, buf_next_to_write = 0, written_to_all_lsn = 0,
     write_lsn = 0, write_end_offset = 0, n_pending_writes = 0, flushed_to_disk_lsn = 0, log_group_capacity = 0,
     last_checkpoint_lsn = 0, max_modified_age_async = 0, max_checkpoint_age_async = 0\<rparr>"

definition demo_log :: log_t where
  "demo_log = the (log_init 65536 16384 blank_log)"

lemma demo_log: "log_ok 0 demo_log" "log_data 0 demo_log = []" "buf_free demo_log = 12" "buf_size demo_log = 65536"
  "lsn demo_log = 8204"
proof -
  have "log_init 65536 16384 blank_log = Some demo_log"
    by (simp add: demo_log_def log_init_def log_block_consts Let_def)
  from log_init_ok [OF this] this
  show "log_ok 0 demo_log" "log_data 0 demo_log = []" "buf_free demo_log = 12" "buf_size demo_log = 65536"
    "lsn demo_log = 8204"
    by (auto simp: log_init_def Let_def LOG_START_LSN_def log_block_consts dest: arg_cong [of _ _ buf_free])
qed

theorem log_buffer_no_overflow_witness:
  "buf_free (fold log_write_low (replicate 30 (replicate 1000 7)) demo_log) \<le> 64000"
proof -
  have "log_has_room (length (concat (replicate 30 (replicate 1000 (7 :: byte))))) demo_log"
    by (simp add: log_has_room_def LOG_BUF_WRITE_MARGIN_def log_block_consts demo_log length_concat sum_list_replicate)
  from log_buffer_no_overflow [OF demo_log(1) this] show ?thesis
    by (simp add: demo_log log_block_consts)
qed

end
