(* ===== verification/MtrCommit.thy ===== *)
theory MtrCommit
  imports Mtr LogBlk
begin

text \<open>
  The commit of a mini-transaction (\<open>mtr/mtr0mtr.c\<close>): its records go to the log as one group, then
  what the memo holds is released.
\<close>

section \<open>Committing\<close>

text \<open>
  \<open>log_reserve_and_open\<close>: \<open>None\<close> if \<open>len\<close> is asserted not to be that big, or if the buffer has to be
  flushed before the function tries again.
\<close>

definition log_reserve_and_open :: "nat \<Rightarrow> log_t \<Rightarrow> nat option" where
  "log_reserve_and_open len log =
     (if len < buf_size log div 2 \<and> log_has_room len log then Some (lsn log) else None)"

text \<open>The end mark of a group, or the flag of a single record in its first byte.\<close>

definition mtr_mark_group :: "mtr_t \<Rightarrow> mtr_t" where
  "mtr_mark_group mtr =
     (if n_log_recs mtr > 1 then mlog_catenate_ulint (ucast MLOG_MULTI_REC_END) MLOG_1BYTE mtr
      else
        let first_data = dyn_block_get_data (dyn_blk (mlog mtr) (dyn_array_get_first_block (mlog mtr)))
        in mtr\<lparr>mlog := dyn_write 0 (first_data(0 := first_data 0 OR MLOG_SINGLE_REC_FLAG)) (mlog mtr)\<rparr>)"

text \<open>The loop over the blocks of the log of the mini-transaction.\<close>

function write_blocks :: "dyn_array \<Rightarrow> nat option \<Rightarrow> log_t \<Rightarrow> log_t" where
  "write_blocks a None log = log"
| "write_blocks a (Some k) log =
     write_blocks a (dyn_array_get_next_block a k)
       (log_write_low (copy_in (dyn_block_get_data (dyn_blk a k)) 0 (dyn_block_get_used (dyn_blk a k))) log)"
  by pat_completeness auto
termination
  by (relation "measure (\<lambda>(a, k, log). case k of None \<Rightarrow> 0 | Some k \<Rightarrow> Suc (length (more_blks a) - k))")
    (auto simp: dyn_array_get_next_block_def)

definition mtr_log_reserve_and_write :: "nat \<Rightarrow> mtr_t \<Rightarrow> log_t \<Rightarrow> (mtr_t \<times> log_t) option" where
  "mtr_log_reserve_and_write oldest_lsn mtr log =
     (let mtr1 = mtr_mark_group mtr;
          a = mlog mtr1;
          first = dyn_blk a 0;
          fast = (if more_blks a = []
                  then log_reserve_and_write_fast (copy_in (dyn_block_get_data first) 0 (dyn_block_get_used first)) log
                  else None)
      in case fast of
           Some (start, end, log1) \<Rightarrow> Some (mtr1\<lparr>start_lsn := start, end_lsn := end\<rparr>, log1)
         | None \<Rightarrow>
             (case log_reserve_and_open (dyn_array_get_data_size a) log of
                None \<Rightarrow> None
              | Some start \<Rightarrow>
                  (let log1 = (if log_mode mtr1 = MTR_LOG_ALL then write_blocks a (Some 0) log else log)
                   in case log_close oldest_lsn log1 of (end, log2) \<Rightarrow>
                        Some (mtr1\<lparr>start_lsn := start, end_lsn := end\<rparr>, log2))))"

definition mtr_commit :: "nat \<Rightarrow> mtr_t \<Rightarrow> log_t \<Rightarrow> (release list \<times> mtr_t \<times> log_t) option" where
  "mtr_commit oldest_lsn mtr log =
     (case (if modifications mtr \<and> n_log_recs mtr \<noteq> 0 then mtr_log_reserve_and_write oldest_lsn mtr log
            else Some (mtr, log)) of
        None \<Rightarrow> None
      | Some (mtr1, log1) \<Rightarrow> (case mtr_memo_pop_all mtr1 of (rs, mtr2) \<Rightarrow> Some (rs, mtr2, log1)))"

declare write_blocks.simps [simp del]

section \<open>The group in the log\<close>

definition mtr_group :: "nat \<Rightarrow> byte list \<Rightarrow> byte list" where
  "mtr_group n bs = (if n > 1 then bs @ [MLOG_MULTI_REC_END] else (hd bs OR MLOG_SINGLE_REC_FLAG) # tl bs)"

lemma catenate_byte:
  fixes b :: byte
  assumes "dyn_ok (mlog mtr)" "log_mode mtr \<noteq> MTR_LOG_NONE"
  defines "mtr' \<equiv> mlog_catenate_ulint (ucast b) MLOG_1BYTE mtr"
  shows "dyn_ok (mlog mtr')" "dyn_content (mlog mtr') = dyn_content (mlog mtr) @ [b]"
    "log_mode mtr' = log_mode mtr" "n_log_recs mtr' = n_log_recs mtr"
proof -
  obtain k p a where push: "dyn_array_push (length [b]) (mlog mtr) = ((k, p), a)" by (metis prod_cases3 prod.collapse)
  have one: "unat MLOG_1BYTE = length [b]" by (simp add: MLOG_1BYTE_def)
  have put: "mach_write_to_1 m p (ucast b) = mem_put m p [b]" for m
    by (rule ext) (simp add: mach_write_to_1_def mem_put_apply word_unat_eq_iff unat_byte_of_0 unat_ucast_byte byte_less)
  have eq: "mtr' = mtr\<lparr>mlog := dyn_write k (mem_put (blk_data (dyn_blk a k)) p [b]) a\<rparr>"
    using assms(2) push unfolding mtr'_def mlog_catenate_ulint_def one
    by (simp add: mtr_get_log_mode_def Let_def put mlog_types)
  note w = dyn_array_push_write [OF assms(1) _ push]
  show "dyn_ok (mlog mtr')" "dyn_content (mlog mtr') = dyn_content (mlog mtr) @ [b]"
    "log_mode mtr' = log_mode mtr" "n_log_recs mtr' = n_log_recs mtr"
    using w by (simp_all add: eq DYN_ARRAY_DATA_SIZE_def)
qed

lemma first_block_used:
  assumes "dyn_ok a" "dyn_content a \<noteq> []"
  shows "0 < dyn_block_get_used (first_blk a)"
proof (cases "more_blks a = []")
  case True
  then show ?thesis using assms(2) by (auto simp: dyn_content_def dyn_blocks_def length_block_bytes [symmetric])
next
  case False
  then have "full_block (first_blk a)" using assms(1) by (simp add: dyn_ok_def dyn_blocks_def)
  then obtain n where n: "n \<le> DYN_ARRAY_DATA_SIZE" "0 < n" "blk_used (first_blk a) = of_nat n OR DYN_BLOCK_FULL_FLAG"
    by (auto simp: full_block_def)
  then have "dyn_block_get_used (first_blk a) = n"
    using small_no_flag(1) [OF n(1)] by (simp add: dyn_block_get_used_def unat_of_nat_small DYN_ARRAY_DATA_SIZE_def)
  then show ?thesis using n(2) by simp
qed

lemma flag_first_byte:
  assumes "dyn_ok a" "dyn_content a \<noteq> []"
  defines "m \<equiv> dyn_block_get_data (first_blk a)"
  defines "a' \<equiv> dyn_write 0 (m(0 := m 0 OR MLOG_SINGLE_REC_FLAG)) a"
  shows "dyn_ok a'" "dyn_content a' = (hd (dyn_content a) OR MLOG_SINGLE_REC_FLAG) # tl (dyn_content a)"
    "more_blks a' = more_blks a"
proof -
  let ?b = "first_blk a" and ?f = "\<lambda>x :: byte. x OR MLOG_SINGLE_REC_FLAG"
  have bl: "dyn_blocks a' = ?b\<lparr>blk_data := m(0 := ?f (m 0))\<rparr> # more_blks a"
    by (simp add: a'_def dyn_write_def upd_blk_def dyn_blocks_def)
  show "more_blks a' = more_blks a" by (simp add: a'_def dyn_write_def upd_blk_def)
  show "dyn_ok a'" using assms(1)
    by (cases "more_blks a = []") (auto simp: dyn_ok_def bl full_block_def dyn_blocks_def [of a])
  obtain n where n: "dyn_block_get_used ?b = Suc n" using first_block_used [OF assms(1,2)] gr0_implies_Suc by blast
  have suc: "copy_in x 0 (Suc n) = x 0 # copy_in x 1 n" for x
    using copy_in_add [of x 0 1 n] by (simp add: copy_in_def)
  have "copy_in (m(0 := ?f (m 0))) 1 n = copy_in m 1 n" by (rule copy_in_cong) simp
  then have "block_bytes (?b\<lparr>blk_data := m(0 := ?f (m 0))\<rparr>) = ?f (m 0) # copy_in m 1 n"
    using n by (simp add: block_bytes_def dyn_block_get_data_def dyn_block_get_used_def suc)
  moreover have "block_bytes ?b = m 0 # copy_in m 1 n"
    using n by (simp add: block_bytes_def m_def suc)
  ultimately show "dyn_content a' = ?f (hd (dyn_content a)) # tl (dyn_content a)"
    by (simp add: dyn_content_def bl dyn_blocks_def [of a])
qed

lemma mtr_mark_group_content:
  assumes "dyn_ok (mlog mtr)" "log_mode mtr \<noteq> MTR_LOG_NONE" "dyn_content (mlog mtr) \<noteq> []"
  shows "dyn_ok (mlog (mtr_mark_group mtr))"
    "dyn_content (mlog (mtr_mark_group mtr)) = mtr_group (n_log_recs mtr) (dyn_content (mlog mtr))"
    "log_mode (mtr_mark_group mtr) = log_mode mtr"
  using catenate_byte [OF assms(1,2), of MLOG_MULTI_REC_END] flag_first_byte [OF assms(1,3)]
  by (auto simp: mtr_mark_group_def mtr_group_def Let_def dyn_array_get_first_block_def dyn_blk_def)

lemma write_blocks_fold:
  assumes "k < length (dyn_blocks a)"
  shows "write_blocks a (Some k) log = fold log_write_low (map block_bytes (drop k (dyn_blocks a))) log"
  using assms
proof (induction "length (dyn_blocks a) - k" arbitrary: k log)
  case (Suc n)
  have d: "drop k (dyn_blocks a) = dyn_blk a k # drop (Suc k) (dyn_blocks a)"
    using Suc.prems by (simp add: dyn_blk_nth Cons_nth_drop_Suc)
  show ?case
  proof (cases "Suc k < length (dyn_blocks a)")
    case True
    then have "dyn_array_get_next_block a k = Some (Suc k)"
      by (auto simp: dyn_array_get_next_block_def dyn_blocks_def)
    then show ?thesis using Suc.hyps(1) [of "Suc k"] Suc.hyps(2) True
      by (simp add: d block_bytes_def write_blocks.simps)
  next
    case False
    then have "dyn_array_get_next_block a k = None"
      by (auto simp: dyn_array_get_next_block_def dyn_blocks_def)
    then show ?thesis using False by (simp add: d block_bytes_def write_blocks.simps)
  qed
qed simp

lemma write_blocks_content:
  assumes "log_ok p log"
  shows "log_ok p (write_blocks a (Some 0) log)" "log_data p (write_blocks a (Some 0) log) = log_data p log @ dyn_content a"
    "lsn (write_blocks a (Some 0) log) = recv_calc_lsn_on_data_add (lsn log) (length (dyn_content a))"
proof -
  have w: "write_blocks a (Some 0) log = fold log_write_low (map block_bytes (dyn_blocks a)) log"
    by (subst write_blocks_fold) (simp_all add: dyn_blocks_def)
  show "log_ok p (write_blocks a (Some 0) log)" "log_data p (write_blocks a (Some 0) log) = log_data p log @ dyn_content a"
    "lsn (write_blocks a (Some 0) log) = recv_calc_lsn_on_data_add (lsn log) (length (dyn_content a))"
    unfolding w using lb.append_all_ok [OF assms] lb.append_all_content [OF assms] write_all_pos(1) [OF assms]
    by (simp_all add: dyn_content_def)
qed

lemma mtr_log_written:
  assumes log: "log_ok p log" and ok: "dyn_ok (mlog mtr)" "log_mode mtr = MTR_LOG_ALL" "dyn_content (mlog mtr) \<noteq> []"
    and w: "mtr_log_reserve_and_write oldest mtr log = Some (mtr', log')"
  defines "bs \<equiv> mtr_group (n_log_recs mtr) (dyn_content (mlog mtr))"
  shows "log_ok p log'" "log_data p log' = log_data p log @ bs"
    "lsn log' = recv_calc_lsn_on_data_add (lsn log) (length bs)" "start_lsn mtr' = lsn log" "end_lsn mtr' = lsn log'"
proof -
  let ?m = "mtr_mark_group mtr"
  let ?fast = "log_reserve_and_write_fast (block_bytes (first_blk (mlog ?m))) log"
  have none: "log_mode mtr \<noteq> MTR_LOG_NONE" using ok(2) by (simp add: MTR_LOG_ALL_def MTR_LOG_NONE_def)
  note g = mtr_mark_group_content [OF ok(1) none ok(3), folded bs_def]
  have "log_ok p log' \<and> log_data p log' = log_data p log @ bs \<and> lsn log' = recv_calc_lsn_on_data_add (lsn log) (length bs)
    \<and> start_lsn mtr' = lsn log \<and> end_lsn mtr' = lsn log'"
  proof (cases "more_blks (mlog ?m) = [] \<and> ?fast \<noteq> None")
    case True
    then obtain s e log1 where f: "?fast = Some (s, e, log1)" by auto
    have c: "block_bytes (first_blk (mlog ?m)) = bs" using True g(2) by (simp add: dyn_content_def dyn_blocks_def)
    have "log' = log1 \<and> mtr' = ?m\<lparr>start_lsn := s, end_lsn := e\<rparr>"
      using w f True by (auto simp: mtr_log_reserve_and_write_def Let_def dyn_blk_def block_bytes_def)
    then show ?thesis
      using log_write_fast_eq [OF log f] log_write_low_appends [OF log, of bs] log_write_low_lsn(1) [OF log, of bs]
      by (simp add: c)
  next
    case False
    then have slow: "(if more_blks (mlog ?m) = [] then ?fast else None) = None" by (cases ?fast) auto
    let ?l = "write_blocks (mlog ?m) (Some 0) log"
    have "mtr_log_reserve_and_write oldest mtr log =
        (case log_reserve_and_open (dyn_array_get_data_size (mlog ?m)) log of
           None \<Rightarrow> None
         | Some st \<Rightarrow> Some (?m\<lparr>start_lsn := st, end_lsn := fst (log_close oldest ?l)\<rparr>, snd (log_close oldest ?l)))"
      unfolding mtr_log_reserve_and_write_def Let_def dyn_blk_def nth_Cons_0 slow [unfolded block_bytes_def]
      using g(3) ok(2) by (simp split: option.split prod.split)
    then obtain st where o: "log_reserve_and_open (dyn_array_get_data_size (mlog ?m)) log = Some st"
      "log' = snd (log_close oldest ?l)" "mtr' = ?m\<lparr>start_lsn := st, end_lsn := fst (log_close oldest ?l)\<rparr>"
      using w by (auto split: option.splits)
    have "st = lsn log" using o(1) by (auto simp: log_reserve_and_open_def split: if_splits)
    then show ?thesis
      using write_blocks_content [OF log, of "mlog ?m"] g(2) o(2,3)
        log_close_ok [OF write_blocks_content(1) [OF log, of "mlog ?m"], of oldest] by simp
  qed
  then show "log_ok p log'" "log_data p log' = log_data p log @ bs"
    "lsn log' = recv_calc_lsn_on_data_add (lsn log) (length bs)" "start_lsn mtr' = lsn log" "end_lsn mtr' = lsn log'"
    by simp_all
qed

section \<open>Releasing the memo\<close>

text \<open>The slots from \<open>s\<close> up to \<open>n\<close> are released, the last first, and marked as released.\<close>

lemma release_range:
  assumes "s \<le> n" "n \<le> length (memo mtr)"
  shows "fold mtr_memo_slot_release (rev [s..<n]) (rs, mtr) =
    (rs @ concat (map slot_release (rev (drop s (take n (memo mtr))))),
     mtr\<lparr>memo := take s (memo mtr) @ map (\<lambda>x. x\<lparr>slot_object := None\<rparr>) (drop s (take n (memo mtr))) @ drop n (memo mtr)\<rparr>)"
  using assms
proof (induction "n - s" arbitrary: n rs mtr)
  case 0
  then have "s = n" by simp
  then show ?case by simp
next
  case (Suc k)
  then obtain j where n: "n = Suc j" "s \<le> j" "j < length (memo mtr)" by (cases n) auto
  let ?x = "memo mtr ! j"
  let ?mtr1 = "clear_slot j mtr"
  have m1: "memo ?mtr1 = (memo mtr)[j := ?x\<lparr>slot_object := None\<rparr>]"
    by (simp_all add: clear_slot_def)
  have upd: "?mtr1\<lparr>memo := ms\<rparr> = mtr\<lparr>memo := ms\<rparr>" for ms by (simp add: clear_slot_def)
  have tk: "take (Suc j) (memo mtr) = take j (memo mtr) @ [?x]" using n by (simp add: take_Suc_conv_app_nth)
  have dr: "drop j ((memo mtr)[j := y]) = y # drop (Suc j) (memo mtr)" for y
    using n Cons_nth_drop_Suc [of j "(memo mtr)[j := y]"] by simp
  have "fold mtr_memo_slot_release (rev [s..<n]) (rs, mtr) =
      fold mtr_memo_slot_release (rev [s..<j]) (rs @ slot_release ?x, ?mtr1)"
    using n by (simp add: mtr_memo_slot_release_def)
  also have "\<dots> = ((rs @ slot_release ?x) @ concat (map slot_release (rev (drop s (take j (memo ?mtr1))))),
      ?mtr1\<lparr>memo := take s (memo ?mtr1) @ map (\<lambda>x. x\<lparr>slot_object := None\<rparr>) (drop s (take j (memo ?mtr1))) @ drop j (memo ?mtr1)\<rparr>)"
    by (rule Suc.hyps(1)) (use Suc.hyps(2) n m1(1) in auto)
  finally show ?case
    using n m1(1) by (simp add: upd dr tk)
qed


end
