(* ===== verification/LogRecv.thy ===== *)
theory LogRecv
  imports MtrCommit UtRnd
begin

text \<open>
  Crash recovery from the redo log (\<open>log/log0recv.c\<close>): scanning log blocks into the parsing buffer,
  parsing the groups of records of mini-transactions into the hash table, and applying the hashed
  records to pages. Reading files, the order in which pages are read in, and printing are left out.
\<close>

section \<open>The recovery system\<close>

definition RECV_PARSING_BUF_SIZE :: nat where "RECV_PARSING_BUF_SIZE = 2 * 1024 * 1024"
definition RECV_DATA_BLOCK_SIZE :: nat where "RECV_DATA_BLOCK_SIZE = UNIV_PAGE_SIZE - 200 - 8"
definition FIL_PAGE_END_LSN_OLD_CHKSUM :: nat where "FIL_PAGE_END_LSN_OLD_CHKSUM = 8"
definition MLOG_INIT_FILE_PAGE :: byte where "MLOG_INIT_FILE_PAGE = 29"
definition MLOG_FILE_CREATE :: byte where "MLOG_FILE_CREATE = 33"
definition MLOG_FILE_RENAME :: byte where "MLOG_FILE_RENAME = 34"
definition MLOG_FILE_DELETE :: byte where "MLOG_FILE_DELETE = 35"
definition MLOG_ZIP_FILE_CREATE :: byte where "MLOG_ZIP_FILE_CREATE = 47"

text \<open>\<open>recv_t\<close>, its body being the chain of its data blocks, \<open>recv_addr_t\<close> and \<open>recv_sys_t\<close>.\<close>

record recv_t =
  recv_type :: byte
  recv_len :: nat
  recv_data :: "byte list list"
  recv_start_lsn :: nat
  recv_end_lsn :: nat

datatype recv_state = RECV_NOT_PROCESSED | RECV_BEING_READ | RECV_BEING_PROCESSED | RECV_PROCESSED

record recv_addr =
  addr_state :: recv_state
  addr_space :: ulint
  addr_page_no :: ulint
  rec_list :: "recv_t list"

record recv_sys =
  rbuf :: mem
  rlen :: nat
  parse_start_lsn :: nat
  scanned_lsn :: nat
  scanned_checkpoint_no :: ulint
  recovered_offset :: nat
  recovered_lsn :: nat
  found_corrupt_log :: bool
  hash_cells :: ulint
  addr_hash :: "ulint \<Rightarrow> recv_addr list"
  n_addrs :: nat
  apply_log_recs :: bool
  recv_max_page_lsn :: nat

section \<open>Parsing one record\<close>

text \<open>
  The parsers of the record types of index pages, undo logs, the insert buffer, file operations and
  compressed pages belong to those parts of the program: they are the argument \<open>other\<close>, applied to the
  type, the buffer, the start and end of the body and the block.
\<close>

type_synonym body_parser = "byte \<Rightarrow> mem \<Rightarrow> nat \<Rightarrow> nat \<Rightarrow> block option \<Rightarrow> block option parsed"

definition other_type :: "byte \<Rightarrow> bool" where
  "other_type type \<longleftrightarrow> type \<in> {9, 10, 11} \<or> 13 \<le> type \<and> type \<le> 27 \<or> type = 29 \<or> 33 \<le> type \<and> type \<le> 51"

definition recv_parse_or_apply_log_rec_body :: "body_parser \<Rightarrow> body_parser" where
  "recv_parse_or_apply_log_rec_body other type m ptr end_ptr block =
     (if type = MLOG_1BYTE \<or> type = MLOG_2BYTES \<or> type = MLOG_4BYTES \<or> type = MLOG_8BYTES
      then mlog_parse_nbytes type m ptr end_ptr block
      else if type = MLOG_WRITE_STRING then mlog_parse_string m ptr end_ptr block
      else if other_type type then other type m ptr end_ptr block
      else Corrupt)"

text \<open>
  \<open>recv_parse_log_rec\<close>: the record's type, page and the start of its body. The length 0 it returns
  when the record is not complete is \<open>Incomplete\<close>. The space and page of an end mark or a dummy record
  are not set and not used.
\<close>

definition recv_parse_log_rec :: "body_parser \<Rightarrow> mem \<Rightarrow> nat \<Rightarrow> nat \<Rightarrow> (byte \<times> ulint \<times> ulint \<times> nat) parsed" where
  "recv_parse_log_rec other m ptr end_ptr =
     (if ptr = end_ptr then Incomplete
      else if m ptr = MLOG_MULTI_REC_END then Parsed (ptr + 1) (m ptr, 0, 0, 0)
      else if m ptr = MLOG_DUMMY_RECORD then Parsed (ptr + 1) (m ptr, 0xFFFFFFFFFFFFFFFE, 0, 0)
      else case mlog_parse_initial_log_record m ptr end_ptr of
             Incomplete \<Rightarrow> Incomplete
           | Corrupt \<Rightarrow> Corrupt
           | Assert_failed \<Rightarrow> Assert_failed
           | Parsed body (type, space, page_no) \<Rightarrow>
               if page_no > 0x8FFFFFFF then Corrupt
               else case recv_parse_or_apply_log_rec_body other type m body end_ptr None of
                      Incomplete \<Rightarrow> Incomplete
                    | Corrupt \<Rightarrow> Corrupt
                    | Assert_failed \<Rightarrow> Assert_failed
                    | Parsed new_ptr _ \<Rightarrow> Parsed new_ptr (type, space, page_no, body))"

section \<open>The hash table of records\<close>

definition recv_fold :: "ulint \<Rightarrow> ulint \<Rightarrow> ulint" where
  "recv_fold space page_no = ut_fold_ulint_pair space page_no"

definition recv_hash :: "ulint \<Rightarrow> ulint \<Rightarrow> recv_sys \<Rightarrow> ulint" where
  "recv_hash space page_no rs = ut_hash_ulint (recv_fold space page_no) (hash_cells rs)"

text \<open>The position of the page's struct in the chain of its cell.\<close>

fun addr_search :: "ulint \<Rightarrow> ulint \<Rightarrow> recv_addr list \<Rightarrow> nat \<Rightarrow> nat option" where
  "addr_search space page_no [] k = None"
| "addr_search space page_no (a # as) k =
     (if addr_space a = space \<and> addr_page_no a = page_no then Some k
      else addr_search space page_no as (k + 1))"

definition recv_get_fil_addr_struct :: "ulint \<Rightarrow> ulint \<Rightarrow> recv_sys \<Rightarrow> nat option" where
  "recv_get_fil_addr_struct space page_no rs =
     addr_search space page_no (addr_hash rs (recv_hash space page_no rs)) 0"

text \<open>The body is stored in blocks of at most \<open>RECV_DATA_BLOCK_SIZE\<close> bytes.\<close>

function data_blocks :: "byte list \<Rightarrow> byte list list" where
  "data_blocks body =
     (if body = [] then []
      else let len = (if length body > RECV_DATA_BLOCK_SIZE then RECV_DATA_BLOCK_SIZE else length body)
           in take len body # data_blocks (drop len body))"
  by pat_completeness auto
termination
  by (relation "measure length") (auto simp: RECV_DATA_BLOCK_SIZE_def UNIV_PAGE_SIZE_def)

declare data_blocks.simps [simp del]

text \<open>\<open>None\<close> is the end of the chain before \<open>len\<close> bytes are copied, a \<open>NULL\<close> that is followed.\<close>

function copy_data :: "nat \<Rightarrow> byte list list \<Rightarrow> byte list option" where
  "copy_data len data =
     (if len = 0 then Some []
      else case data of
             [] \<Rightarrow> None
           | d # ds \<Rightarrow>
               (let part_len = (if len > RECV_DATA_BLOCK_SIZE then RECV_DATA_BLOCK_SIZE else len)
                in map_option (\<lambda>rest. take part_len d @ rest) (copy_data (len - part_len) ds)))"
  by pat_completeness auto
termination
  by (relation "measure (length \<circ> snd)") auto

declare copy_data.simps [simp del]

definition recv_data_copy_to_buf :: "recv_t \<Rightarrow> byte list option" where
  "recv_data_copy_to_buf recv = copy_data (recv_len recv) (recv_data recv)"

text \<open>\<open>deleted\<close> is \<open>fil_tablespace_deleted_or_being_deleted_in_mem(space, -1)\<close>.\<close>

definition recv_add_to_hash_table ::
    "(ulint \<Rightarrow> bool) \<Rightarrow> byte \<Rightarrow> ulint \<Rightarrow> ulint \<Rightarrow> byte list \<Rightarrow> nat \<Rightarrow> nat \<Rightarrow> recv_sys \<Rightarrow> recv_sys" where
  "recv_add_to_hash_table deleted type space page_no body start end rs =
     (if deleted space then rs
      else
        let recv = \<lparr>recv_type = type, recv_len = length body, recv_data = data_blocks body,
                    recv_start_lsn = start, recv_end_lsn = end\<rparr>;
            h = recv_hash space page_no rs;
            rs1 = (case recv_get_fil_addr_struct space page_no rs of
                     Some _ \<Rightarrow> rs
                   | None \<Rightarrow> rs\<lparr>addr_hash := (addr_hash rs)(h := addr_hash rs h @
                        [\<lparr>addr_state = RECV_NOT_PROCESSED, addr_space = space, addr_page_no = page_no, rec_list = []\<rparr>]),
                        n_addrs := n_addrs rs + 1\<rparr>);
            k = the (recv_get_fil_addr_struct space page_no rs1);
            chain = addr_hash rs1 h
        in rs1\<lparr>addr_hash := (addr_hash rs1)(h := chain[k := (chain ! k)\<lparr>rec_list := rec_list (chain ! k) @ [recv]\<rparr>])\<rparr>)"

section \<open>Parsing the groups of records\<close>

text \<open>
  The first loop over a group of several records: it ends at the end mark with the total length.
  \<open>Group_assert\<close> is a failed assertion of a record parser. A loop that does not end is \<open>None\<close>.
\<close>

datatype group_check = Group_incomplete | Group_corrupt | Group_assert | Group_complete nat

partial_function (option) recv_check_group ::
    "body_parser \<Rightarrow> mem \<Rightarrow> bool \<Rightarrow> nat \<Rightarrow> nat \<Rightarrow> nat \<Rightarrow> group_check option" where
  "recv_check_group other m corrupt ptr end_ptr total_len =
     (case recv_parse_log_rec other m ptr end_ptr of
        Incomplete \<Rightarrow> Some (if corrupt then Group_corrupt else Group_incomplete)
      | Corrupt \<Rightarrow> Some Group_corrupt
      | Assert_failed \<Rightarrow> Some Group_assert
      | Parsed new_ptr (type, space, page_no, body) \<Rightarrow>
          if new_ptr - ptr = 0 then Some Group_incomplete
          else if corrupt then Some Group_corrupt
          else if type = MLOG_MULTI_REC_END then Some (Group_complete (total_len + (new_ptr - ptr)))
          else recv_check_group other m corrupt new_ptr end_ptr (total_len + (new_ptr - ptr)))"

text \<open>The second loop, which stores the records. \<open>None\<close> is a failed assertion or no end.\<close>

partial_function (option) recv_store_group ::
    "body_parser \<Rightarrow> (ulint \<Rightarrow> bool) \<Rightarrow> bool \<Rightarrow> nat \<Rightarrow> nat \<Rightarrow> recv_sys \<Rightarrow> recv_sys option" where
  "recv_store_group other deleted store ptr new_recovered_lsn rs =
     (case recv_parse_log_rec other (rbuf rs) ptr (rlen rs) of
        Parsed new_ptr (type, space, page_no, body) \<Rightarrow>
          (if new_ptr - ptr = 0 \<or> rbuf rs ptr AND MLOG_SINGLE_REC_FLAG \<noteq> 0 then None
           else
             (let len = new_ptr - ptr;
                  old_lsn = recovered_lsn rs;
                  rs1 = rs\<lparr>recovered_offset := recovered_offset rs + len,
                           recovered_lsn := recv_calc_lsn_on_data_add old_lsn len\<rparr>
              in if type = MLOG_MULTI_REC_END then Some rs1
                 else recv_store_group other deleted store (ptr + len) new_recovered_lsn
                   (if store then recv_add_to_hash_table deleted type space page_no
                       (copy_in (rbuf rs) body (ptr + len - body)) old_lsn new_recovered_lsn rs1
                    else rs1)))
      | _ \<Rightarrow> None)"

text \<open>
  One round of \<open>recv_parse_log_recs\<close>: whether it goes to \<open>loop\<close> again, and the state. \<open>None\<close> is a
  failed assertion, or a loop over a group that does not end.
\<close>

definition recv_parse_round ::
    "body_parser \<Rightarrow> (ulint \<Rightarrow> bool) \<Rightarrow> bool \<Rightarrow> recv_sys \<Rightarrow> (bool \<times> recv_sys) option" where
  "recv_parse_round other deleted store rs =
     (let ptr = recovered_offset rs; m = rbuf rs
      in if ptr = rlen rs then Some (False, rs)
         else if m ptr AND MLOG_SINGLE_REC_FLAG \<noteq> 0 \<or> m ptr = MLOG_DUMMY_RECORD then
           (case recv_parse_log_rec other m ptr (rlen rs) of
              Incomplete \<Rightarrow> Some (False, rs)
            | Corrupt \<Rightarrow> Some (False, rs\<lparr>found_corrupt_log := True\<rparr>)
            | Assert_failed \<Rightarrow> None
            | Parsed new_ptr (type, space, page_no, body) \<Rightarrow>
                (let len = new_ptr - ptr;
                     old_lsn = recovered_lsn rs;
                     new_recovered_lsn = recv_calc_lsn_on_data_add old_lsn len
                 in if len = 0 \<or> found_corrupt_log rs then Some (False, rs)
                    else if new_recovered_lsn > scanned_lsn rs then Some (False, rs)
                    else
                      (let rs1 = rs\<lparr>recovered_offset := ptr + len, recovered_lsn := new_recovered_lsn\<rparr>
                       in if type = MLOG_DUMMY_RECORD \<or> \<not> store then Some (True, rs1)
                          else if type \<in> {MLOG_FILE_CREATE, MLOG_ZIP_FILE_CREATE, MLOG_FILE_RENAME, MLOG_FILE_DELETE}
                          then (if space = 0 then None else Some (True, rs1))
                          else Some (True, recv_add_to_hash_table deleted type space page_no
                                 (copy_in m body (ptr + len - body)) old_lsn new_recovered_lsn rs1))))
         else
           (case recv_check_group other m (found_corrupt_log rs) ptr (rlen rs) 0 of
              None \<Rightarrow> None
            | Some Group_incomplete \<Rightarrow> Some (False, rs)
            | Some Group_corrupt \<Rightarrow> Some (False, rs\<lparr>found_corrupt_log := True\<rparr>)
            | Some Group_assert \<Rightarrow> None
            | Some (Group_complete total_len) \<Rightarrow>
                (let new_recovered_lsn = recv_calc_lsn_on_data_add (recovered_lsn rs) total_len
                 in if new_recovered_lsn > scanned_lsn rs then Some (False, rs)
                    else map_option (Pair True) (recv_store_group other deleted store ptr new_recovered_lsn rs))))"

partial_function (option) recv_parse_log_recs ::
    "body_parser \<Rightarrow> (ulint \<Rightarrow> bool) \<Rightarrow> bool \<Rightarrow> recv_sys \<Rightarrow> recv_sys option" where
  "recv_parse_log_recs other deleted store rs =
     (case recv_parse_round other deleted store rs of
        None \<Rightarrow> None
      | Some (again, rs1) \<Rightarrow> if again then recv_parse_log_recs other deleted store rs1 else Some rs1)"

section \<open>Scanning log blocks\<close>

text \<open>
  \<open>recv_sys_init\<close>, with the memory of the buffer and of \<open>recv_sys_create\<close> as arguments;
  \<open>recv_max_page_lsn\<close>, a global variable, is a field of the model.
\<close>

definition recv_sys_init :: "ulint \<Rightarrow> recv_sys \<Rightarrow> recv_sys" where
  "recv_sys_init available_memory rs = rs\<lparr>rlen := 0, recovered_offset := 0,
     hash_cells := available_memory div 64, addr_hash := (\<lambda>_. []), n_addrs := 0,
     apply_log_recs := False, found_corrupt_log := False, recv_max_page_lsn := 0\<rparr>"

text \<open>The block is at \<open>b\<close> of the memory \<open>m\<close>; \<open>data_len >= more_len\<close> is asserted in debug versions.
  \<open>None\<close> is the failed assertion on the length.\<close>

definition recv_sys_add_to_parsing_buf :: "mem \<Rightarrow> nat \<Rightarrow> nat \<Rightarrow> recv_sys \<Rightarrow> (bool \<times> recv_sys) option" where
  "recv_sys_add_to_parsing_buf m b lsn0 rs =
     (if parse_start_lsn rs = 0 then Some (False, rs)
      else
        let data_len = log_block_get_data_len m b
        in if parse_start_lsn rs \<ge> lsn0 then Some (False, rs)
           else if scanned_lsn rs \<ge> lsn0 then Some (False, rs)
           else
             let more_len = (if parse_start_lsn rs > scanned_lsn rs then lsn0 - parse_start_lsn rs
                             else lsn0 - scanned_lsn rs)
             in if more_len = 0 then Some (False, rs)
                else
                  let start_offset = max (data_len - more_len) LOG_BLOCK_HDR_SIZE;
                      end_offset = min data_len (OS_FILE_LOG_BLOCK_SIZE - LOG_BLOCK_TRL_SIZE)
                  in if start_offset < end_offset then
                       let rs1 = rs\<lparr>rbuf := mem_put (rbuf rs) (rlen rs) (copy_in m (b + start_offset) (end_offset - start_offset)),
                                    rlen := rlen rs + (end_offset - start_offset)\<rparr>
                       in if rlen rs1 \<le> RECV_PARSING_BUF_SIZE then Some (True, rs1) else None
                     else Some (True, rs))"

definition recv_sys_justify_left_parsing_buf :: "recv_sys \<Rightarrow> recv_sys" where
  "recv_sys_justify_left_parsing_buf rs =
     rs\<lparr>rbuf := mem_put (rbuf rs) 0 (copy_in (rbuf rs) (recovered_offset rs) (rlen rs - recovered_offset rs)),
        rlen := rlen rs - recovered_offset rs, recovered_offset := 0\<rparr>"

text \<open>
  One block of the scan: whether it is finished, \<open>scanned_lsn\<close>, \<open>contiguous_lsn\<close>, \<open>more_data\<close> and the
  recovery system. \<open>recv_init_crash_recovery\<close>, which reads files and the doublewrite buffer, is left out.
\<close>

type_synonym scan_state = "bool \<times> nat \<times> nat \<times> bool \<times> recv_sys"

definition stale_checkpoint :: "mem \<Rightarrow> nat \<Rightarrow> recv_sys \<Rightarrow> bool" where
  "stale_checkpoint m b rs \<longleftrightarrow>
     scanned_checkpoint_no rs > 0 \<and> log_block_get_checkpoint_no m b < scanned_checkpoint_no rs \<and>
     scanned_checkpoint_no rs - log_block_get_checkpoint_no m b > 0x80000000"

definition scan_block :: "bool \<Rightarrow> mem \<Rightarrow> nat \<Rightarrow> nat \<Rightarrow> nat \<Rightarrow> bool \<Rightarrow> recv_sys \<Rightarrow> scan_state option" where
  "scan_block store m b scanned contiguous found rs =
     (if log_block_get_hdr_no m b \<noteq> log_block_convert_lsn_to_no scanned
         \<or> \<not> log_block_checksum_is_ok_or_old_format m b then Some (True, scanned, contiguous, found, rs)
      else
        let contiguous1 = (if log_block_get_flush_bit m b \<and> scanned > contiguous then scanned else contiguous);
            data_len = log_block_get_data_len m b
        in if (store \<or> data_len = OS_FILE_LOG_BLOCK_SIZE) \<and> scanned + data_len > scanned_lsn rs \<and> stale_checkpoint m b rs
           then Some (True, scanned, contiguous1, found, rs)
           else
             let start = scanned + log_block_get_first_rec_group m b;
                 rs1 = (if parse_start_lsn rs = 0 \<and> log_block_get_first_rec_group m b > 0
                        then rs\<lparr>parse_start_lsn := start, scanned_lsn := start, recovered_lsn := start\<rparr> else rs);
                 scanned1 = scanned + data_len;
                 finished = (data_len < OS_FILE_LOG_BLOCK_SIZE)
             in if scanned1 > scanned_lsn rs1 then
                  let added = (if rlen rs1 + 4 * OS_FILE_LOG_BLOCK_SIZE \<ge> RECV_PARSING_BUF_SIZE
                               then Some (found, rs1\<lparr>found_corrupt_log := True\<rparr>)
                               else if \<not> found_corrupt_log rs1 then recv_sys_add_to_parsing_buf m b scanned1 rs1
                               else Some (found, rs1))
                  in map_option (\<lambda>(added1, rs2). (finished, scanned1, contiguous1, added1,
                       rs2\<lparr>scanned_lsn := scanned1, scanned_checkpoint_no := log_block_get_checkpoint_no m b\<rparr>)) added
                else Some (finished, scanned1, contiguous1, found, rs1))"

fun scan_blocks :: "bool \<Rightarrow> mem \<Rightarrow> nat \<Rightarrow> nat \<Rightarrow> nat \<Rightarrow> nat \<Rightarrow> bool \<Rightarrow> recv_sys \<Rightarrow> scan_state option" where
  "scan_blocks store m b 0 scanned contiguous found rs = Some (False, scanned, contiguous, found, rs)"
| "scan_blocks store m b (Suc n) scanned contiguous found rs =
     (case scan_block store m b scanned contiguous found rs of
        None \<Rightarrow> None
      | Some (finished, scanned1, contiguous1, added1, rs1) \<Rightarrow>
          if finished then Some (finished, scanned1, contiguous1, added1, rs1)
          else scan_blocks store m (b + OS_FILE_LOG_BLOCK_SIZE) n scanned1 contiguous1 added1 rs1)"

text \<open>
  \<open>recv_scan_log_recs\<close> on the \<open>len div 512\<close> blocks of the buffer \<open>m\<close>. \<open>apply_hashed\<close> is the test on
  the memory the hash table takes, with \<open>recv_apply_hashed_log_recs(FALSE)\<close>. The result has
  \<open>finished\<close>, \<open>*group_scanned_lsn\<close> and \<open>*contiguous_lsn\<close>.
\<close>

definition recv_scan_log_recs ::
    "body_parser \<Rightarrow> (ulint \<Rightarrow> bool) \<Rightarrow> (recv_sys \<Rightarrow> recv_sys) \<Rightarrow> bool \<Rightarrow> mem \<Rightarrow> nat \<Rightarrow> nat \<Rightarrow> nat \<Rightarrow> recv_sys
     \<Rightarrow> (bool \<times> nat \<times> nat \<times> recv_sys) option" where
  "recv_scan_log_recs other deleted apply_hashed store m len start contiguous rs =
     (case scan_blocks store m 0 (len div OS_FILE_LOG_BLOCK_SIZE) start contiguous False rs of
        None \<Rightarrow> None
      | Some (finished, scanned, contiguous1, found, rs1) \<Rightarrow>
          if found \<and> \<not> found_corrupt_log rs1 then
            (case recv_parse_log_recs other deleted store rs1 of
               None \<Rightarrow> None
             | Some rs2 \<Rightarrow>
                 (let rs3 = (if store then apply_hashed rs2 else rs2);
                      rs4 = (if recovered_offset rs3 > RECV_PARSING_BUF_SIZE div 4
                             then recv_sys_justify_left_parsing_buf rs3 else rs3)
                  in Some (finished, scanned, contiguous1, rs4)))
          else Some (finished, scanned, contiguous1, rs1))"

text \<open>
  \<open>recv_group_scan_log_recs\<close>: \<open>read_seg\<close> is \<open>log_group_read_log_seg\<close>, the segment of the log group that
  starts at an lsn. A scan that does not end is \<open>None\<close>, as is a failed assertion.
\<close>

definition RECV_SCAN_SIZE :: nat where "RECV_SCAN_SIZE = 4 * UNIV_PAGE_SIZE"

partial_function (option) group_scan_loop ::
    "body_parser \<Rightarrow> (ulint \<Rightarrow> bool) \<Rightarrow> (recv_sys \<Rightarrow> recv_sys) \<Rightarrow> (nat \<Rightarrow> mem) \<Rightarrow> nat \<Rightarrow> nat \<Rightarrow> recv_sys
     \<Rightarrow> (nat \<times> nat \<times> recv_sys) option" where
  "group_scan_loop other deleted apply_hashed read_seg start contiguous rs =
     (case recv_scan_log_recs other deleted apply_hashed True (read_seg start) RECV_SCAN_SIZE start contiguous rs of
        None \<Rightarrow> None
      | Some (finished, scanned, contiguous1, rs1) \<Rightarrow>
          if finished then Some (scanned, contiguous1, rs1)
          else group_scan_loop other deleted apply_hashed read_seg (start + RECV_SCAN_SIZE) contiguous1 rs1)"

definition recv_group_scan_log_recs ::
    "body_parser \<Rightarrow> (ulint \<Rightarrow> bool) \<Rightarrow> (recv_sys \<Rightarrow> recv_sys) \<Rightarrow> (nat \<Rightarrow> mem) \<Rightarrow> nat \<Rightarrow> recv_sys
     \<Rightarrow> (nat \<times> nat \<times> recv_sys) option" where
  "recv_group_scan_log_recs other deleted apply_hashed read_seg contiguous rs =
     group_scan_loop other deleted apply_hashed read_seg contiguous contiguous rs"

section \<open>Applying the records of a page\<close>

text \<open>
  The loop over the list of a page: the frame and compressed page, \<open>page_lsn\<close>, the start of the first
  record applied and the end of the last record seen. \<open>newest\<close> is the newest modification of the page
  in the buffer pool, \<open>junk\<close> what is in memory behind the body of a record. A record that does not
  parse leaves the page as it is; \<open>None\<close> is a failed assertion of a parser.
\<close>

definition recv_body :: "recv_t \<Rightarrow> byte list option" where
  "recv_body recv =
     (if recv_len recv > RECV_DATA_BLOCK_SIZE then recv_data_copy_to_buf recv
      else Some (case recv_data recv of [] \<Rightarrow> [] | d # _ \<Rightarrow> d))"

definition write_page_lsn :: "ulint \<Rightarrow> block \<Rightarrow> block" where
  "write_page_lsn l b =
     (mach_write_ull (mach_write_ull (fst b) (UNIV_PAGE_SIZE - FIL_PAGE_END_LSN_OLD_CHKSUM) l) FIL_PAGE_LSN l, snd b)"

fun recover_loop ::
    "body_parser \<Rightarrow> mem \<Rightarrow> nat \<Rightarrow> recv_t list \<Rightarrow> block \<times> nat \<times> nat option \<times> nat \<Rightarrow> (block \<times> nat \<times> nat option \<times> nat) option" where
  "recover_loop other junk newest [] s = Some s"
| "recover_loop other junk newest (recv # recvs) (b, page_lsn, start, end_lsn0) =
     (case recv_body recv of
        None \<Rightarrow> None
      | Some body \<Rightarrow>
          (let buf = mem_put junk 0 body;
               page_lsn1 = (if recv_type recv = MLOG_INIT_FILE_PAGE then newest else page_lsn);
               b1 = (if recv_type recv = MLOG_INIT_FILE_PAGE then write_page_lsn 0 b else b)
           in if recv_start_lsn recv \<ge> page_lsn1 then
                (let start1 = (case start of None \<Rightarrow> Some (recv_start_lsn recv) | _ \<Rightarrow> start);
                     l = of_nat (recv_start_lsn recv + recv_len recv)
                 in case recv_parse_or_apply_log_rec_body other (recv_type recv) buf 0 (recv_len recv) (Some b1) of
                      Assert_failed \<Rightarrow> None
                    | Parsed _ (Some b2) \<Rightarrow>
                        recover_loop other junk newest recvs (write_page_lsn l b2, page_lsn1, start1, recv_end_lsn recv)
                    | _ \<Rightarrow> recover_loop other junk newest recvs (write_page_lsn l b1, page_lsn1, start1, recv_end_lsn recv))
              else recover_loop other junk newest recvs (b1, page_lsn1, start, recv_end_lsn recv)))"

text \<open>
  The page is \<open>(space, page_no)\<close>. The second result is what \<open>buf_flush_recv_note_modification\<close> is told.
\<close>

definition recv_recover_page ::
    "body_parser \<Rightarrow> mem \<Rightarrow> bool \<Rightarrow> nat \<Rightarrow> ulint \<Rightarrow> ulint \<Rightarrow> block \<Rightarrow> recv_sys \<Rightarrow> (block \<times> (nat \<times> nat) option \<times> recv_sys) option" where
  "recv_recover_page other junk recover_backup newest_modification space page_no b rs =
     (if \<not> apply_log_recs rs then Some (b, None, rs)
      else case recv_get_fil_addr_struct space page_no rs of
        None \<Rightarrow> Some (b, None, rs)
      | Some k \<Rightarrow>
          (let h = recv_hash space page_no rs;
               addr = addr_hash rs h ! k
           in if addr_state addr = RECV_BEING_PROCESSED \<or> addr_state addr = RECV_PROCESSED then Some (b, None, rs)
              else
                let newest = (if recover_backup then 0 else newest_modification);
                    page_lsn = (if newest \<noteq> 0 then newest else unat (mach_read_ull (fst b) FIL_PAGE_LSN))
                in case recover_loop other junk newest (rec_list addr) (b, page_lsn, None, 0) of
                     None \<Rightarrow> None
                   | Some (b1, page_lsn1, start, end_lsn0) \<Rightarrow>
                       if n_addrs rs = 0 then None
                       else Some (b1,
                         (if recover_backup then None else map_option (\<lambda>st. (st, end_lsn0)) start),
                         rs\<lparr>recv_max_page_lsn := max (recv_max_page_lsn rs) page_lsn1,
                            n_addrs := n_addrs rs - 1,
                            addr_hash := (addr_hash rs)(h := (addr_hash rs h)[k := addr\<lparr>addr_state := RECV_PROCESSED\<rparr>])\<rparr>)))"

end
