(* ===== verification/LogReplay.thy ===== *)
theory LogReplay
  imports LogRecv
begin

text \<open>
  What recovery makes of the log: parsing stores the records of a mini-transaction all or none, in the
  order of the log; the records stored for a page bring any version of it to the newest.
\<close>

section \<open>Records and groups\<close>

text \<open>
  A record of the log: type, space, page number and body. A group is what one mini-transaction, or
  the padding of a block, leaves in the log.
\<close>

type_synonym log_rec = "byte \<times> ulint \<times> ulint \<times> byte list"

datatype log_group = Single_rec log_rec | Multi_recs "log_rec list" | Dummy_rec

fun rec_enc :: "log_rec \<Rightarrow> byte list" where
  "rec_enc (type, space, page_no, body) = header_bytes type space page_no @ body"

definition flagged_enc :: "log_rec \<Rightarrow> byte list" where
  "flagged_enc r = mtr_group 1 (rec_enc r)"

fun group_enc :: "log_group \<Rightarrow> byte list" where
  "group_enc (Single_rec r) = flagged_enc r"
| "group_enc (Multi_recs rs) = concat (map rec_enc rs) @ [MLOG_MULTI_REC_END]"
| "group_enc Dummy_rec = [MLOG_DUMMY_RECORD]"

definition file_op :: "byte \<Rightarrow> bool" where
  "file_op type \<longleftrightarrow> type \<in> {MLOG_FILE_CREATE, MLOG_ZIP_FILE_CREATE, MLOG_FILE_RENAME, MLOG_FILE_DELETE}"

text \<open>
  A record is well formed for the parsers when the parser of its type takes its body where the buffer
  holds all of it, and finds it incomplete where the buffer ends before.
\<close>

definition body_parses :: "body_parser \<Rightarrow> byte \<Rightarrow> byte list \<Rightarrow> bool" where
  "body_parses other type body \<longleftrightarrow> (\<forall>m p e. reads m p e body \<longrightarrow>
     recv_parse_or_apply_log_rec_body other type m p e None =
       (if e < p + length body then Incomplete else Parsed (p + length body) None))"

fun rec_wf :: "body_parser \<Rightarrow> log_rec \<Rightarrow> bool" where
  "rec_wf other (type, space, page_no, body) \<longleftrightarrow>
     type \<le> MLOG_BIGGEST_TYPE \<and> type \<noteq> MLOG_MULTI_REC_END \<and> type \<noteq> MLOG_DUMMY_RECORD \<and>
     space \<le> 0xFFFFFFFF \<and> page_no \<le> 0x8FFFFFFF \<and> body_parses other type body"

fun group_wf :: "body_parser \<Rightarrow> log_group \<Rightarrow> bool" where
  "group_wf other (Single_rec r) \<longleftrightarrow> rec_wf other r \<and> (file_op (fst r) \<longrightarrow> fst (snd r) \<noteq> 0)"
| "group_wf other (Multi_recs rs) \<longleftrightarrow> list_all (rec_wf other) rs"
| "group_wf other Dummy_rec \<longleftrightarrow> True"

lemma rec_enc_pos: "0 < length (rec_enc r)"
  by (cases r) (simp add: header_bytes_def)

lemma group_enc_pos: "0 < length (group_enc g)"
  by (cases g) (simp_all add: flagged_enc_def mtr_group_def)

lemma single_enc: "flagged_enc (type, space, page_no, body) =
    header_bytes (type OR MLOG_SINGLE_REC_FLAG) space page_no @ body"
  by (simp add: flagged_enc_def mtr_group_def header_bytes_def)

lemma length_single [simp]: "length (flagged_enc r) = length (rec_enc r)"
  by (cases r) (simp add: flagged_enc_def mtr_group_def header_bytes_def)

lemma flag_not_dummy: "(type OR MLOG_SINGLE_REC_FLAG) \<noteq> MLOG_DUMMY_RECORD" "(type OR MLOG_SINGLE_REC_FLAG) \<noteq> MLOG_MULTI_REC_END"
proof -
  have "bit (type OR MLOG_SINGLE_REC_FLAG) 7" by (simp add: bit_or_iff MLOG_SINGLE_REC_FLAG_def)
  moreover have "\<not> bit MLOG_DUMMY_RECORD 7" "\<not> bit MLOG_MULTI_REC_END 7"
    by (simp_all add: MLOG_DUMMY_RECORD_def MLOG_MULTI_REC_END_def)
  ultimately show "(type OR MLOG_SINGLE_REC_FLAG) \<noteq> MLOG_DUMMY_RECORD" "(type OR MLOG_SINGLE_REC_FLAG) \<noteq> MLOG_MULTI_REC_END"
    by auto
qed

lemma parse_rec_at:
  assumes "reads m p e (header_bytes t space page_no @ body)" "t = type \<or> t = type OR MLOG_SINGLE_REC_FLAG"
    "rec_wf other (type, space, page_no, body)" "p \<le> e"
  defines "n \<equiv> length (header_bytes t space page_no)"
  shows "recv_parse_log_rec other m p e =
    (if e < p + (n + length body) then Incomplete else Parsed (p + (n + length body)) (type, space, page_no, p + n))"
proof -
  have r: "reads m p e (header_bytes t space page_no)" "reads m (p + n) e body"
    using assms(1) by (simp_all add: reads_append n_def)
  have wf: "type \<le> MLOG_BIGGEST_TYPE" "type \<noteq> MLOG_MULTI_REC_END" "type \<noteq> MLOG_DUMMY_RECORD"
    "space \<le> 0xFFFFFFFF" "page_no \<le> 0x8FFFFFFF" "body_parses other type body" using assms(3) by simp_all
  have pn: "page_no \<le> 0xFFFFFFFF" "\<not> page_no > 0x8FFFFFFF" using wf(5) by (simp_all add: word_le_nat_alt word_less_nat_alt)
  have "m p = t" if "p \<noteq> e" using r(1) that assms(4) by (simp add: header_bytes_def reads_Cons)
  then have b: "m p \<noteq> MLOG_MULTI_REC_END" "m p \<noteq> MLOG_DUMMY_RECORD" if "p \<noteq> e"
    using that assms(2) wf(2,3) flag_not_dummy [of type] by auto
  have pos: "0 < n" by (simp add: n_def header_bytes_def)
  show ?thesis
  proof (cases "p = e")
    case True
    then show ?thesis using pos by (simp add: recv_parse_log_rec_def)
  next
    case False
    have "recv_parse_or_apply_log_rec_body other type m (p + n) e None =
       (if e < p + n + length body then Incomplete else Parsed (p + n + length body) None)"
      using wf(6) r(2) by (simp add: body_parses_def)
    then show ?thesis
      using b [OF False] False pn parse_initial [OF r(1) assms(2) wf(1,4) pn(1)]
      by (simp add: recv_parse_log_rec_def n_def add.assoc)
  qed
qed

lemma parse_rec:
  assumes "reads m p e (rec_enc (type, space, page_no, body))" "rec_wf other (type, space, page_no, body)" "p \<le> e"
  defines "n \<equiv> length (rec_enc (type, space, page_no, body))"
  shows "recv_parse_log_rec other m p e =
    (if e < p + n then Incomplete else Parsed (p + n) (type, space, page_no, p + (n - length body)))"
  using parse_rec_at [OF _ _ assms(2,3), of m type] assms(1) by (simp add: n_def)

lemma parse_single:
  assumes "reads m p e (flagged_enc (type, space, page_no, body))" "rec_wf other (type, space, page_no, body)" "p \<le> e"
  defines "n \<equiv> length (rec_enc (type, space, page_no, body))"
  shows "recv_parse_log_rec other m p e =
    (if e < p + n then Incomplete else Parsed (p + n) (type, space, page_no, p + (n - length body)))"
proof -
  have l: "length (header_bytes (type OR MLOG_SINGLE_REC_FLAG) space page_no) = length (header_bytes type space page_no)"
    by (simp add: header_bytes_def)
  show ?thesis
    using parse_rec_at [OF _ _ assms(2,3), of m "type OR MLOG_SINGLE_REC_FLAG"] assms(1)
    unfolding single_enc l by (simp add: n_def)
qed

lemma parse_end:
  assumes "reads m p e [MLOG_MULTI_REC_END]" "p \<le> e"
  shows "recv_parse_log_rec other m p e = (if e < p + 1 then Incomplete else Parsed (p + 1) (MLOG_MULTI_REC_END, 0, 0, 0))"
  using assms by (simp add: recv_parse_log_rec_def reads_Cons)

section \<open>What is stored for a page\<close>

definition page_recs :: "ulint \<Rightarrow> ulint \<Rightarrow> recv_sys \<Rightarrow> recv_t list" where
  "page_recs space page_no rs = (case recv_get_fil_addr_struct space page_no rs of
      None \<Rightarrow> []
    | Some k \<Rightarrow> rec_list (addr_hash rs (recv_hash space page_no rs) ! k))"

definition is_addr :: "ulint \<Rightarrow> ulint \<Rightarrow> recv_addr \<Rightarrow> bool" where
  "is_addr space page_no a \<longleftrightarrow> addr_space a = space \<and> addr_page_no a = page_no"

lemma addr_search_append:
  "addr_search s p (xs @ ys) k =
    (case addr_search s p xs k of None \<Rightarrow> addr_search s p ys (k + length xs) | Some j \<Rightarrow> Some j)"
  by (induction xs arbitrary: k) (simp_all split: option.split)

lemma addr_search_None: "addr_search s p xs k = None \<longleftrightarrow> (\<forall>a \<in> set xs. \<not> is_addr s p a)"
  by (induction xs arbitrary: k) (auto simp: is_addr_def)

lemma addr_search_Some:
  assumes "addr_search s p xs k = Some j"
  obtains ys a zs where "xs = ys @ a # zs" "j = k + length ys" "is_addr s p a" "\<forall>y \<in> set ys. \<not> is_addr s p y"
  using assms
proof (induction xs arbitrary: k thesis)
  case (Cons x xs)
  show ?case
  proof (cases "is_addr s p x")
    case True
    then show ?thesis using Cons.prems(1) [of "[]" x xs] Cons.prems(2) by (simp add: is_addr_def)
  next
    case False
    then have "addr_search s p xs (k + 1) = Some j" using Cons.prems(2) by (auto simp: is_addr_def)
    from Cons.IH [OF _ this] obtain ys a zs where
      "xs = ys @ a # zs" "j = k + 1 + length ys" "is_addr s p a" "\<forall>y \<in> set ys. \<not> is_addr s p y" by blast
    then show ?thesis using Cons.prems(1) [of "x # ys" a zs] False by simp
  qed
qed simp

definition new_recv :: "byte \<Rightarrow> byte list \<Rightarrow> nat \<Rightarrow> nat \<Rightarrow> recv_t" where
  "new_recv type body start end = \<lparr>recv_type = type, recv_len = length body, recv_data = data_blocks body,
     recv_start_lsn = start, recv_end_lsn = end\<rparr>"

definition chain_recs :: "ulint \<Rightarrow> ulint \<Rightarrow> recv_addr list \<Rightarrow> recv_t list" where
  "chain_recs s p xs = (case addr_search s p xs 0 of None \<Rightarrow> [] | Some k \<Rightarrow> rec_list (xs ! k))"

lemma chain_recs_split:
  "is_addr s p a \<Longrightarrow> \<forall>y \<in> set ys. \<not> is_addr s p y \<Longrightarrow> chain_recs s p (ys @ a # zs) = rec_list a"
  by (simp add: chain_recs_def addr_search_append addr_search_None [THEN iffD2] is_addr_def)

lemma chain_recs_skip:
  "\<not> is_addr s p a \<Longrightarrow> \<not> is_addr s p b \<Longrightarrow> chain_recs s p (ys @ a # zs) = chain_recs s p (ys @ b # zs)"
proof -
  assume "\<not> is_addr s p a" "\<not> is_addr s p b"
  moreover have "rec_list ((ys @ a # zs) ! k) = rec_list ((ys @ b # zs) ! k)" if "addr_search s p ys 0 = Some k" for k
    using that by (elim addr_search_Some) (simp add: nth_append)
  moreover have "rec_list ((ys @ a # zs) ! k) = rec_list ((ys @ b # zs) ! k)" if "addr_search s p zs (length ys + 1) = Some k" for k
    using that by (elim addr_search_Some) (simp add: nth_append)
  ultimately show ?thesis
    by (auto simp: chain_recs_def addr_search_append is_addr_def split: option.splits)
qed

lemma chain_recs_snoc:
  "chain_recs s p (xs @ [a]) = (if (\<exists>x \<in> set xs. is_addr s p x) then chain_recs s p xs
    else if is_addr s p a then rec_list a else [])"
proof (cases "addr_search s p xs 0")
  case None
  then have "\<forall>a \<in> set xs. \<not> is_addr s p a" by (simp only: addr_search_None)
  then show ?thesis using None by (auto simp: chain_recs_def addr_search_append is_addr_def)
next
  case (Some k)
  from Some obtain ys x zs where x: "xs = ys @ x # zs" "k = 0 + length ys" "is_addr s p x" "\<forall>y \<in> set ys. \<not> is_addr s p y"
    by (rule addr_search_Some)
  then show ?thesis using chain_recs_split [OF x(3,4), of zs] chain_recs_split [OF x(3,4), of "zs @ [a]"] by auto
qed

lemma page_recs_chain: "page_recs s p rs = chain_recs s p (addr_hash rs (recv_hash s p rs))"
  by (simp add: page_recs_def chain_recs_def recv_get_fil_addr_struct_def)

lemma chain_recs_add:
  assumes "addr_search s p xs 0 = Some k"
  shows "chain_recs s' p' (xs[k := (xs ! k)\<lparr>rec_list := rec_list (xs ! k) @ rl\<rparr>]) =
    (if s' = s \<and> p' = p then chain_recs s p xs @ rl else chain_recs s' p' xs)"
proof -
  from assms obtain ys a zs where x: "xs = ys @ a # zs" "k = 0 + length ys" "is_addr s p a" "\<forall>y \<in> set ys. \<not> is_addr s p y"
    by (rule addr_search_Some)
  let ?a = "a\<lparr>rec_list := rec_list a @ rl\<rparr>"
  have u: "xs[k := (xs ! k)\<lparr>rec_list := rec_list (xs ! k) @ rl\<rparr>] = ys @ ?a # zs" using x by simp
  show ?thesis
  proof (cases "s' = s \<and> p' = p")
    case True
    have "chain_recs s p (ys @ ?a # zs) = rec_list a @ rl"
      using chain_recs_split [of s p ?a ys zs] x(3,4) by (simp add: is_addr_def)
    then show ?thesis by (subst u) (use True chain_recs_split [OF x(3,4), of zs] x(1) in simp)
  next
    case False
    then have "chain_recs s' p' (ys @ ?a # zs) = chain_recs s' p' (ys @ a # zs)"
      using x(3) by (intro chain_recs_skip) (auto simp: is_addr_def)
    then show ?thesis by (subst u) (use False x(1) in auto)
  qed
qed

lemma chain_recs_missing: "addr_search s p xs 0 = None \<Longrightarrow> chain_recs s p xs = []"
  by (simp add: chain_recs_def)

lemma page_recs_add:
  "page_recs s' p' (recv_add_to_hash_table deleted type s p body start end rs) =
    page_recs s' p' rs @ (if s' = s \<and> p' = p \<and> \<not> deleted s then [new_recv type body start end] else [])"
proof (cases "deleted s")
  case False
  let ?h = "recv_hash s p rs" and ?r = "new_recv type body start end"
  let ?new = "\<lparr>addr_state = RECV_NOT_PROCESSED, addr_space = s, addr_page_no = p, rec_list = []\<rparr>"
  define xs where "xs = (case recv_get_fil_addr_struct s p rs of
      None \<Rightarrow> addr_hash rs ?h @ [?new] | Some _ \<Rightarrow> addr_hash rs ?h)"
  define k where "k = the (addr_search s p xs 0)"
  have xs0: "chain_recs s' p' xs = chain_recs s' p' (addr_hash rs ?h)"
  proof (cases "recv_get_fil_addr_struct s p rs")
    case None
    then have x: "xs = addr_hash rs ?h @ [?new]" by (simp add: xs_def)
    show ?thesis
    proof (cases "addr_search s' p' (addr_hash rs ?h) 0")
      case None
      then have "\<forall>a \<in> set (addr_hash rs ?h). \<not> is_addr s' p' a" by (simp only: addr_search_None)
      then show ?thesis using None chain_recs_snoc [of s' p' "addr_hash rs ?h" ?new] by (auto simp: x chain_recs_def)
    next
      case (Some j)
      then have "\<exists>a \<in> set (addr_hash rs ?h). is_addr s' p' a" using addr_search_None [of s' p' "addr_hash rs ?h" 0] by auto
      then show ?thesis by (simp add: x chain_recs_snoc)
    qed
  qed (simp add: xs_def)
  have k: "addr_search s p xs 0 = Some k"
  proof (cases "recv_get_fil_addr_struct s p rs")
    case None
    then show ?thesis by (simp add: k_def xs_def recv_get_fil_addr_struct_def addr_search_append)
  next
    case (Some j)
    then show ?thesis by (simp add: k_def xs_def recv_get_fil_addr_struct_def)
  qed
  have hash: "recv_hash a b (rs\<lparr>addr_hash := f, n_addrs := n\<rparr>) = recv_hash a b rs"
    "recv_hash a b (rs\<lparr>addr_hash := f\<rparr>) = recv_hash a b rs" for a b f n
    by (simp_all add: recv_hash_def)
  let ?rs = "recv_add_to_hash_table deleted type s p body start end rs"
  have ah: "addr_hash ?rs = (addr_hash rs)(?h := xs[k := (xs ! k)\<lparr>rec_list := rec_list (xs ! k) @ [?r]\<rparr>])" "hash_cells ?rs = hash_cells rs"
    using False k by (auto simp: recv_add_to_hash_table_def Let_def xs_def k_def new_recv_def hash
      recv_get_fil_addr_struct_def split: option.splits)
  have "recv_hash a b ?rs = recv_hash a b rs" for a b by (simp add: recv_hash_def ah(2))
  then show ?thesis
    using chain_recs_add [OF k, of s' p' "[?r]"] False ah(1) xs0
    by (auto simp: page_recs_chain)
qed (simp add: recv_add_to_hash_table_def)

lemma add_to_hash_fields [simp]:
  fixes deleted type s p body start fin rs
  defines "rs' \<equiv> recv_add_to_hash_table deleted type s p body start fin rs"
  shows "rbuf rs' = rbuf rs" "rlen rs' = rlen rs" "recovered_offset rs' = recovered_offset rs"
    "recovered_lsn rs' = recovered_lsn rs" "scanned_lsn rs' = scanned_lsn rs" "found_corrupt_log rs' = found_corrupt_log rs"
  unfolding rs'_def recv_add_to_hash_table_def
  by (simp_all add: Let_def split: option.splits)

section \<open>Replaying groups\<close>

text \<open>What parsing is to do with a group that is complete: its records, from where the log stands on.\<close>

definition skipped :: "nat \<Rightarrow> recv_sys \<Rightarrow> recv_sys" where
  "skipped n rs = rs\<lparr>recovered_offset := recovered_offset rs + n,
     recovered_lsn := recv_calc_lsn_on_data_add (recovered_lsn rs) n\<rparr>"

fun store_rec :: "(ulint \<Rightarrow> bool) \<Rightarrow> nat \<Rightarrow> log_rec \<Rightarrow> recv_sys \<Rightarrow> recv_sys" where
  "store_rec deleted fin (type, space, page_no, body) rs =
     recv_add_to_hash_table deleted type space page_no body (recovered_lsn rs) fin
       (skipped (length (rec_enc (type, space, page_no, body))) rs)"

definition group_end :: "log_group \<Rightarrow> recv_sys \<Rightarrow> nat" where
  "group_end g rs = recv_calc_lsn_on_data_add (recovered_lsn rs) (length (group_enc g))"

fun replay_group :: "(ulint \<Rightarrow> bool) \<Rightarrow> log_group \<Rightarrow> recv_sys \<Rightarrow> recv_sys" where
  "replay_group deleted (Single_rec r) rs =
     (if file_op (fst r) then skipped (length (rec_enc r)) rs
      else store_rec deleted (group_end (Single_rec r) rs) r rs)"
| "replay_group deleted (Multi_recs rl) rs =
     skipped 1 (fold (store_rec deleted (group_end (Multi_recs rl) rs)) rl rs)"
| "replay_group deleted Dummy_rec rs = skipped 1 rs"

lemma skipped_fields [simp]:
  "rbuf (skipped n rs) = rbuf rs" "rlen (skipped n rs) = rlen rs"
  "recovered_offset (skipped n rs) = recovered_offset rs + n"
  "recovered_lsn (skipped n rs) = recv_calc_lsn_on_data_add (recovered_lsn rs) n"
  "scanned_lsn (skipped n rs) = scanned_lsn rs" "found_corrupt_log (skipped n rs) = found_corrupt_log rs"
  by (simp_all add: skipped_def)

lemma store_rec_fields [simp]:
  "rbuf (store_rec deleted fin r rs) = rbuf rs" "rlen (store_rec deleted fin r rs) = rlen rs"
  "recovered_offset (store_rec deleted fin r rs) = recovered_offset rs + length (rec_enc r)"
  "recovered_lsn (store_rec deleted fin r rs) = recv_calc_lsn_on_data_add (recovered_lsn rs) (length (rec_enc r))"
  "scanned_lsn (store_rec deleted fin r rs) = scanned_lsn rs"
  "found_corrupt_log (store_rec deleted fin r rs) = found_corrupt_log rs"
  by (cases r, simp)+

lemma store_recs_fields [simp]:
  "rbuf (fold (store_rec deleted fin) rl rs) = rbuf rs" "rlen (fold (store_rec deleted fin) rl rs) = rlen rs"
  "recovered_offset (fold (store_rec deleted fin) rl rs) = recovered_offset rs + length (concat (map rec_enc rl))"
  "scanned_lsn (fold (store_rec deleted fin) rl rs) = scanned_lsn rs"
  "found_corrupt_log (fold (store_rec deleted fin) rl rs) = found_corrupt_log rs"
  by (induction rl arbitrary: rs) simp_all

section \<open>The parsing loops\<close>

lemma check_group:
  assumes "reads m p e (concat (map rec_enc rl) @ [MLOG_MULTI_REC_END])" "list_all (rec_wf other) rl" "p \<le> e"
  defines "n \<equiv> length (concat (map rec_enc rl)) + 1"
  shows "recv_check_group other m False p e t =
    Some (if e < p + n then Group_incomplete else Group_complete (t + n))"
  using assms(1-3) unfolding n_def
proof (induction rl arbitrary: p t)
  case Nil
  then show ?case
    using parse_end [of m p e other] by (subst recv_check_group.simps) simp
next
  case (Cons r rl)
  obtain type space page_no body where r: "r = (type, space, page_no, body)" by (cases r)
  let ?n = "length (rec_enc r)"
  have rd: "reads m p e (rec_enc r)" "reads m (p + ?n) e (concat (map rec_enc rl) @ [MLOG_MULTI_REC_END])"
    using Cons.prems(1) by (simp_all add: reads_append add.assoc)
  have wf: "rec_wf other r" "list_all (rec_wf other) rl" using Cons.prems(2) by simp_all
  note p1 = parse_rec [OF rd(1) [unfolded r] wf(1) [unfolded r] Cons.prems(3), folded r]
  have t: "type \<noteq> MLOG_MULTI_REC_END" using wf(1) by (simp add: r)
  show ?case
  proof (cases "e < p + ?n")
    case True
    then show ?thesis using p1 by (subst recv_check_group.simps) simp
  next
    case False
    then have "recv_check_group other m False p e t = recv_check_group other m False (p + ?n) e (t + ?n)"
      using p1 t rec_enc_pos [of r] by (subst recv_check_group.simps) simp
    also note Cons.IH [OF rd(2) wf(2)]
    finally show ?thesis using False by (simp add: add.assoc)
  qed
qed

lemma length_flagged [simp]: "length (header_bytes (type OR MLOG_SINGLE_REC_FLAG) space page_no) = length (header_bytes type space page_no)"
  by (simp add: header_bytes_def)

lemma header_nonempty [simp]: "header_bytes type space page_no \<noteq> []"
  by (simp add: header_bytes_def)

lemma copy_body:
  assumes "reads m p e (rec_enc (type, space, page_no, body))" "p + length (rec_enc (type, space, page_no, body)) \<le> e"
  shows "copy_in m (p + (length (rec_enc (type, space, page_no, body)) - length body)) (length body) = body"
  using assms reads_copy_in [of m "p + length (header_bytes type space page_no)" e body]
  by (simp add: reads_append add.assoc)

lemma copy_body_single:
  assumes "reads m p e (flagged_enc (type, space, page_no, body))" "p + length (rec_enc (type, space, page_no, body)) \<le> e"
  shows "copy_in m (p + (length (rec_enc (type, space, page_no, body)) - length body)) (length body) = body"
  using assms reads_copy_in [of m "p + length (header_bytes type space page_no)" e body]
  unfolding single_enc by (simp add: reads_append add.assoc)

lemma first_byte_flag:
  assumes "reads m p e (rec_enc r)" "rec_wf other r" "p < e"
  shows "m p AND MLOG_SINGLE_REC_FLAG = 0" "m p \<noteq> MLOG_DUMMY_RECORD" "m p \<noteq> MLOG_MULTI_REC_END"
  using assms no_single_flag(3) by (cases r; simp add: header_bytes_def reads_Cons)+

lemma store_group:
  assumes "reads (rbuf rs) p (rlen rs) (concat (map rec_enc rl) @ [MLOG_MULTI_REC_END])" "list_all (rec_wf other) rl"
    "p + length (concat (map rec_enc rl)) < rlen rs"
  shows "recv_store_group other deleted True p fin rs = Some (skipped 1 (fold (store_rec deleted fin) rl rs))"
  using assms
proof (induction rl arbitrary: p rs)
  case Nil
  then have "rbuf rs p = MLOG_MULTI_REC_END" by (simp add: reads_Cons)
  then show ?case
    using parse_end [of "rbuf rs" p "rlen rs" other] Nil
    by (subst recv_store_group.simps) (simp add: skipped_def mlog_types MLOG_SINGLE_REC_FLAG_def)
next
  case (Cons r rl)
  obtain type space page_no body where r: "r = (type, space, page_no, body)" by (cases r)
  let ?n = "length (rec_enc r)"
  have rd: "reads (rbuf rs) p (rlen rs) (rec_enc r)"
    "reads (rbuf rs) (p + ?n) (rlen rs) (concat (map rec_enc rl) @ [MLOG_MULTI_REC_END])"
    using Cons.prems(1) by (simp_all add: reads_append add.assoc)
  have wf: "rec_wf other r" "list_all (rec_wf other) rl" using Cons.prems(2) by simp_all
  have len: "p \<le> rlen rs" "p < rlen rs" "p + ?n \<le> rlen rs" "length body \<le> ?n" using Cons.prems(3) by (simp_all add: r)
  have t: "type \<noteq> MLOG_MULTI_REC_END" using wf(1) by (simp add: r)
  note p1 = parse_rec [OF rd(1) [unfolded r] wf(1) [unfolded r] len(1), folded r]
    and c = copy_body [OF rd(1) [unfolded r] len(3) [unfolded r], folded r]
  have "p + ?n - (p + (?n - length body)) = length body" using len(4) by simp
  then have "recv_store_group other deleted True p fin rs = recv_store_group other deleted True (p + ?n) fin (store_rec deleted fin r rs)"
    using p1 t c len rec_enc_pos [of r] first_byte_flag [OF rd(1) wf(1) len(2)]
    by (subst recv_store_group.simps) (simp add: r skipped_def Let_def)
  also have "\<dots> = Some (skipped 1 (fold (store_rec deleted fin) rl (store_rec deleted fin r rs)))"
    by (rule Cons.IH) (use rd(2) wf(2) Cons.prems(3) in simp_all)
  finally show ?case by simp
qed

lemma replay_group_fields [simp]:
  "rbuf (replay_group deleted g rs) = rbuf rs" "rlen (replay_group deleted g rs) = rlen rs"
  "recovered_offset (replay_group deleted g rs) = recovered_offset rs + length (group_enc g)"
  "scanned_lsn (replay_group deleted g rs) = scanned_lsn rs"
  "found_corrupt_log (replay_group deleted g rs) = found_corrupt_log rs"
  by (cases g, simp_all)+

definition lsn_in_data :: "nat \<Rightarrow> bool" where
  "lsn_in_data l \<longleftrightarrow> 12 \<le> l mod 512 \<and> l mod 512 < 508"

lemma lsn_in_data_add: "lsn_in_data l \<Longrightarrow> lsn_in_data (recv_calc_lsn_on_data_add l n)"
  by (simp add: lsn_in_data_def data_no_lsn_add(2,3))

lemma lsn_add_lsn_add:
  "lsn_in_data l \<Longrightarrow> recv_calc_lsn_on_data_add (recv_calc_lsn_on_data_add l a) b = recv_calc_lsn_on_data_add l (a + b)"
  by (simp add: lsn_in_data_def lsn_add_add)

lemma lsn_add_0: "recv_calc_lsn_on_data_add l 0 = l" if "lsn_in_data l"
proof -
  have "l mod 512 - 12 < 496" using that by (auto simp: lsn_in_data_def)
  then have "(l mod 512 - 12) div 496 = 0" by (rule div_less)
  then show ?thesis by (simp add: recv_calc_lsn_on_data_add_def log_block_consts)
qed

lemma store_recs_lsn:
  "lsn_in_data (recovered_lsn rs) \<Longrightarrow> recovered_lsn (fold (store_rec deleted fin) rl rs) =
    recv_calc_lsn_on_data_add (recovered_lsn rs) (length (concat (map rec_enc rl)))"
proof (induction rl arbitrary: rs)
  case (Cons r rl)
  then show ?case using lsn_in_data_add by (simp add: lsn_add_lsn_add)
qed (simp add: lsn_add_0)

lemma replay_group_lsn:
  "lsn_in_data (recovered_lsn rs) \<Longrightarrow> recovered_lsn (replay_group deleted g rs) = group_end g rs"
  by (cases g) (simp_all add: group_end_def store_recs_lsn lsn_add_lsn_add)

lemma single_first_byte:
  assumes "reads m p e (flagged_enc r)" "rec_wf other r" "p < e"
  shows "m p AND MLOG_SINGLE_REC_FLAG \<noteq> 0"
proof -
  obtain type space page_no body where r: "r = (type, space, page_no, body)" by (cases r)
  have "m p = type OR MLOG_SINGLE_REC_FLAG" using assms(1,3) by (simp add: r single_enc header_bytes_def reads_Cons)
  then show ?thesis using no_single_flag(4) [of type] assms(2) by (simp add: r)
qed

lemma dummy_flag: "MLOG_DUMMY_RECORD AND MLOG_SINGLE_REC_FLAG = 0" "MLOG_MULTI_REC_END AND MLOG_SINGLE_REC_FLAG = 0"
  "MLOG_MULTI_REC_END \<noteq> MLOG_DUMMY_RECORD"
  by (simp_all add: mlog_types MLOG_SINGLE_REC_FLAG_def MLOG_DUMMY_RECORD_def)

lemma file_op_code: "type \<in> {MLOG_FILE_CREATE, MLOG_ZIP_FILE_CREATE, MLOG_FILE_RENAME, MLOG_FILE_DELETE} \<longleftrightarrow> file_op type"
  by (simp add: file_op_def)

lemma round_group:
  assumes "reads (rbuf rs) (recovered_offset rs) (rlen rs) (group_enc g)" "group_wf other g"
    "recovered_offset rs < rlen rs" "\<not> found_corrupt_log rs"
  shows "recv_parse_round other deleted True rs =
    Some (if recovered_offset rs + length (group_enc g) \<le> rlen rs \<and> group_end g rs \<le> scanned_lsn rs
      then (True, replay_group deleted g rs) else (False, rs))"
proof (cases g)
  case (Single_rec r)
  obtain type space page_no body where r: "r = (type, space, page_no, body)" by (cases r)
  let ?p = "recovered_offset rs" and ?n = "length (rec_enc r)"
  have rd: "reads (rbuf rs) ?p (rlen rs) (flagged_enc r)" and wf: "rec_wf other r"
    "file_op type \<longrightarrow> space \<noteq> 0"
    using assms(1,2) by (simp_all add: Single_rec r)
  have ty: "type \<noteq> MLOG_DUMMY_RECORD" using wf(1) by (simp add: r)
  note p1 = parse_single [OF rd [unfolded r] wf(1) [unfolded r] less_imp_le [OF assms(3)], folded r]
  have c: "copy_in (rbuf rs) (?p + (?n - length body)) (length body) = body" if "?p + ?n \<le> rlen rs"
    using copy_body_single [OF rd [unfolded r]] that by (simp add: r)
  have d: "?p + ?n - (?p + (?n - length body)) = length body" by (simp add: r)
  note f = single_first_byte [OF rd wf(1) assms(3)]
  show ?thesis
  proof (cases "rlen rs < ?p + ?n")
    case True
    then show ?thesis using p1 f assms(3) by (simp add: recv_parse_round_def Single_rec Let_def)
  next
    case False
    then have i: "?p + ?n \<le> rlen rs" by simp
    have "recv_parse_log_rec other (rbuf rs) ?p (rlen rs) = Parsed (?p + ?n) (type, space, page_no, ?p + (?n - length body))"
      using p1 False by simp
    then show ?thesis
      using f less_imp_neq [OF assms(3)] assms(4) i c [OF i] d wf(2) ty
      unfolding recv_parse_round_def Let_def Single_rec file_op_code
      by (simp add: r group_end_def skipped_def not_le)
  qed
next
  case (Multi_recs rl)
  let ?p = "recovered_offset rs" and ?n = "length (concat (map rec_enc rl)) + 1"
  have rd: "reads (rbuf rs) ?p (rlen rs) (concat (map rec_enc rl) @ [MLOG_MULTI_REC_END])"
    and wf: "list_all (rec_wf other) rl" using assms(1,2) by (simp_all add: Multi_recs)
  have f: "rbuf rs ?p AND MLOG_SINGLE_REC_FLAG = 0" "rbuf rs ?p \<noteq> MLOG_DUMMY_RECORD"
  proof -
    have "rbuf rs ?p AND MLOG_SINGLE_REC_FLAG = 0 \<and> rbuf rs ?p \<noteq> MLOG_DUMMY_RECORD"
    proof (cases rl)
      case Nil
      then show ?thesis using rd assms(3) dummy_flag by (simp add: reads_Cons)
    next
      case (Cons r rl')
      then have "reads (rbuf rs) ?p (rlen rs) (rec_enc r)" "rec_wf other r" using rd wf by (simp_all add: reads_append)
      from first_byte_flag [OF this assms(3)] show ?thesis by simp
    qed
    then show "rbuf rs ?p AND MLOG_SINGLE_REC_FLAG = 0" "rbuf rs ?p \<noteq> MLOG_DUMMY_RECORD" by simp_all
  qed
  note ch = check_group [OF rd wf less_imp_le [OF assms(3)], of 0]
  show ?thesis
  proof (cases "rlen rs < ?p + ?n")
    case True
    then show ?thesis using ch f assms(3,4) by (simp add: recv_parse_round_def Multi_recs Let_def)
  next
    case False
    then have "?p + length (concat (map rec_enc rl)) < rlen rs" by simp
    note st = store_group [OF rd wf this, of deleted "group_end g rs"]
    show ?thesis
      using ch f assms(3,4) st False unfolding recv_parse_round_def Let_def
      by (simp add: Multi_recs group_end_def)
  qed
next
  case Dummy_rec
  have "rbuf rs (recovered_offset rs) = MLOG_DUMMY_RECORD" using assms(1,3) by (simp add: Dummy_rec reads_Cons)
  then show ?thesis
    using assms(3,4) dummy_flag(3)
    by (simp add: recv_parse_round_def recv_parse_log_rec_def Dummy_rec Let_def group_end_def skipped_def)
qed

lemma parse_groups:
  assumes "reads (rbuf rs) (recovered_offset rs) (rlen rs) (concat (map group_enc gs))" "list_all (group_wf other) gs"
    "recovered_offset rs \<le> rlen rs" "rlen rs \<le> recovered_offset rs + length (concat (map group_enc gs))"
    "\<not> found_corrupt_log rs" "lsn_in_data (recovered_lsn rs)"
  shows "\<exists>k \<le> length gs. recv_parse_log_recs other deleted True rs = Some (fold (replay_group deleted) (take k gs) rs) \<and>
    recovered_offset rs + length (concat (map group_enc (take k gs))) \<le> rlen rs \<and>
    (0 < k \<longrightarrow> recv_calc_lsn_on_data_add (recovered_lsn rs) (length (concat (map group_enc (take k gs)))) \<le> scanned_lsn rs) \<and>
    (k < length gs \<longrightarrow>
      rlen rs < recovered_offset rs + length (concat (map group_enc (take (Suc k) gs))) \<or>
      scanned_lsn rs < recv_calc_lsn_on_data_add (recovered_lsn rs) (length (concat (map group_enc (take (Suc k) gs)))))"
  using assms
proof (induction gs arbitrary: rs)
  case Nil
  then show ?case by (subst recv_parse_log_recs.simps) (simp add: recv_parse_round_def)
next
  case (Cons g gs)
  let ?n = "length (group_enc g)"
  have rd: "reads (rbuf rs) (recovered_offset rs) (rlen rs) (group_enc g)"
    "reads (rbuf rs) (recovered_offset rs + ?n) (rlen rs) (concat (map group_enc gs))"
    using Cons.prems(1) by (simp_all add: reads_append)
  have wf: "group_wf other g" "list_all (group_wf other) gs" using Cons.prems(2) by simp_all
  show ?case
  proof (cases "recovered_offset rs + ?n \<le> rlen rs \<and> group_end g rs \<le> scanned_lsn rs")
    case True
    let ?rs = "replay_group deleted g rs"
    have lt: "recovered_offset rs < rlen rs" using True group_enc_pos [of g] by linarith
    note l = replay_group_lsn [OF Cons.prems(6), of deleted g]
    have p: "recv_parse_log_recs other deleted True rs = recv_parse_log_recs other deleted True ?rs"
      using round_group [OF rd(1) wf(1) lt Cons.prems(5), of deleted] True
      by (subst recv_parse_log_recs.simps) simp
    have "\<exists>k \<le> length gs. recv_parse_log_recs other deleted True ?rs = Some (fold (replay_group deleted) (take k gs) ?rs) \<and>
      recovered_offset ?rs + length (concat (map group_enc (take k gs))) \<le> rlen ?rs \<and>
      (0 < k \<longrightarrow> recv_calc_lsn_on_data_add (recovered_lsn ?rs) (length (concat (map group_enc (take k gs)))) \<le> scanned_lsn ?rs) \<and>
      (k < length gs \<longrightarrow>
        rlen ?rs < recovered_offset ?rs + length (concat (map group_enc (take (Suc k) gs))) \<or>
        scanned_lsn ?rs < recv_calc_lsn_on_data_add (recovered_lsn ?rs) (length (concat (map group_enc (take (Suc k) gs)))))"
      by (rule Cons.IH) (use rd(2) wf(2) True Cons.prems(4,5) l lsn_in_data_add [OF Cons.prems(6)] in \<open>simp_all add: group_end_def\<close>)
    then obtain k where k: "k \<le> length gs" "recv_parse_log_recs other deleted True ?rs = Some (fold (replay_group deleted) (take k gs) ?rs)"
      "recovered_offset ?rs + length (concat (map group_enc (take k gs))) \<le> rlen rs"
      "0 < k \<longrightarrow> recv_calc_lsn_on_data_add (recovered_lsn ?rs) (length (concat (map group_enc (take k gs)))) \<le> scanned_lsn rs"
      "k < length gs \<longrightarrow>
        rlen rs < recovered_offset ?rs + length (concat (map group_enc (take (Suc k) gs))) \<or>
        scanned_lsn rs < recv_calc_lsn_on_data_add (recovered_lsn ?rs) (length (concat (map group_enc (take (Suc k) gs))))"
      by auto
    have a: "recv_calc_lsn_on_data_add (recovered_lsn ?rs) x = recv_calc_lsn_on_data_add (recovered_lsn rs) (?n + x)" for x
      unfolding l group_end_def by (rule lsn_add_lsn_add [OF Cons.prems(6)])
    have z: "k = 0 \<Longrightarrow> recv_calc_lsn_on_data_add (recovered_lsn rs) ?n \<le> scanned_lsn rs"
      using True by (simp add: group_end_def)
    show ?thesis
      by (rule exI [of _ "Suc k"]) (use k p z in \<open>cases "k = 0"; simp add: a add.assoc\<close>)
  next
    case False
    have "recv_parse_log_recs other deleted True rs = Some rs"
    proof (cases "recovered_offset rs = rlen rs")
      case True
      then show ?thesis by (subst recv_parse_log_recs.simps) (simp add: recv_parse_round_def)
    next
      case lt: False
      then show ?thesis using round_group [OF rd(1) wf(1) _ Cons.prems(5), of deleted] False Cons.prems(3)
        by (subst recv_parse_log_recs.simps) simp
    qed
    then show ?thesis using False Cons.prems(3) by (intro exI [of _ 0]) (auto simp: group_end_def)
  qed
qed

section \<open>The records of a page in the log\<close>

fun recs_of :: "ulint \<Rightarrow> ulint \<Rightarrow> nat \<Rightarrow> log_rec list \<Rightarrow> nat \<Rightarrow> recv_t list" where
  "recs_of s p fin [] l = []"
| "recs_of s p fin ((type, space, page_no, body) # rl) l =
     (if space = s \<and> page_no = p then [new_recv type body l fin] else []) @
     recs_of s p fin rl (recv_calc_lsn_on_data_add l (length (rec_enc (type, space, page_no, body))))"

definition lsn_after :: "nat \<Rightarrow> log_group list \<Rightarrow> nat" where
  "lsn_after l gs = recv_calc_lsn_on_data_add l (length (concat (map group_enc gs)))"

fun group_recs :: "ulint \<Rightarrow> ulint \<Rightarrow> log_group \<Rightarrow> nat \<Rightarrow> recv_t list" where
  "group_recs s p (Single_rec r) l = (if file_op (fst r) then [] else recs_of s p (lsn_after l [Single_rec r]) [r] l)"
| "group_recs s p (Multi_recs rl) l = recs_of s p (lsn_after l [Multi_recs rl]) rl l"
| "group_recs s p Dummy_rec l = []"

fun log_recs :: "ulint \<Rightarrow> ulint \<Rightarrow> log_group list \<Rightarrow> nat \<Rightarrow> recv_t list" where
  "log_recs s p [] l = []"
| "log_recs s p (g # gs) l = group_recs s p g l @ log_recs s p gs (lsn_after l [g])"

lemma lsn_after_Nil [simp]: "lsn_in_data l \<Longrightarrow> lsn_after l [] = l"
  by (simp add: lsn_after_def lsn_add_0)

lemma lsn_after_append: "lsn_in_data l \<Longrightarrow> lsn_after l (gs @ gs') = lsn_after (lsn_after l gs) gs'"
  by (simp add: lsn_after_def lsn_add_lsn_add)

lemma lsn_after_in_data: "lsn_in_data l \<Longrightarrow> lsn_in_data (lsn_after l gs)"
  by (simp add: lsn_after_def lsn_in_data_add)

lemma log_recs_append: "lsn_in_data l \<Longrightarrow> log_recs s p (gs @ gs') l = log_recs s p gs l @ log_recs s p gs' (lsn_after l gs)"
proof (induction gs arbitrary: l)
  case (Cons g gs)
  have "lsn_after l ([g] @ gs) = lsn_after (lsn_after l [g]) gs" by (rule lsn_after_append [OF Cons.prems])
  then show ?case using Cons.IH [OF lsn_after_in_data [OF Cons.prems]] by simp
qed simp

lemma skipped_page_recs [simp]: "page_recs s p (skipped n rs) = page_recs s p rs"
  by (simp add: page_recs_def skipped_def recv_get_fil_addr_struct_def recv_hash_def cong: option.case_cong)

lemma store_recs_page:
  "lsn_in_data (recovered_lsn rs) \<Longrightarrow> page_recs s p (fold (store_rec deleted fin) rl rs) =
    page_recs s p rs @ (if deleted s then [] else recs_of s p fin rl (recovered_lsn rs))"
proof (induction rl arbitrary: rs)
  case (Cons r rl)
  obtain type space page_no body where r: "r = (type, space, page_no, body)" by (cases r)
  have "lsn_in_data (recovered_lsn (store_rec deleted fin r rs))" using Cons.prems lsn_in_data_add by simp
  from Cons.IH [OF this] show ?case by (simp add: r page_recs_add)
qed simp

lemma replay_group_page:
  assumes "lsn_in_data (recovered_lsn rs)"
  shows "page_recs s p (replay_group deleted g rs) =
    page_recs s p rs @ (if deleted s then [] else group_recs s p g (recovered_lsn rs))"
proof (cases g)
  case (Single_rec r)
  then show ?thesis
    using store_recs_page [OF assms, of s p deleted "lsn_after (recovered_lsn rs) [Single_rec r]" "[r]"]
    by (simp add: lsn_after_def group_end_def)
next
  case (Multi_recs rl)
  then show ?thesis using store_recs_page [OF assms] by (simp add: lsn_after_def group_end_def)
qed simp

lemma replay_groups:
  assumes "lsn_in_data (recovered_lsn rs)"
  shows "recovered_lsn (fold (replay_group deleted) gs rs) = lsn_after (recovered_lsn rs) gs"
    "page_recs s p (fold (replay_group deleted) gs rs) =
      page_recs s p rs @ (if deleted s then [] else log_recs s p gs (recovered_lsn rs))"
    "recovered_offset (fold (replay_group deleted) gs rs) = recovered_offset rs + length (concat (map group_enc gs))"
proof -
  have "recovered_lsn (fold (replay_group deleted) gs rs) = lsn_after (recovered_lsn rs) gs \<and>
    page_recs s p (fold (replay_group deleted) gs rs) =
      page_recs s p rs @ (if deleted s then [] else log_recs s p gs (recovered_lsn rs)) \<and>
    recovered_offset (fold (replay_group deleted) gs rs) = recovered_offset rs + length (concat (map group_enc gs))"
    using assms
  proof (induction gs arbitrary: rs)
    case (Cons g gs)
    let ?rs = "replay_group deleted g rs"
    have l: "recovered_lsn ?rs = lsn_after (recovered_lsn rs) [g]"
      using replay_group_lsn [OF Cons.prems] by (simp add: lsn_after_def group_end_def)
    have "lsn_in_data (recovered_lsn ?rs)" unfolding l by (rule lsn_after_in_data [OF Cons.prems])
    note ih = Cons.IH [OF this, unfolded l] and r = replay_group_page [OF Cons.prems, of s p deleted g]
    have "lsn_after (recovered_lsn rs) ([g] @ gs) = lsn_after (lsn_after (recovered_lsn rs) [g]) gs"
      by (rule lsn_after_append [OF Cons.prems])
    then show ?case using ih r by simp
  qed simp
  then show "recovered_lsn (fold (replay_group deleted) gs rs) = lsn_after (recovered_lsn rs) gs"
    "page_recs s p (fold (replay_group deleted) gs rs) =
      page_recs s p rs @ (if deleted s then [] else log_recs s p gs (recovered_lsn rs))"
    "recovered_offset (fold (replay_group deleted) gs rs) = recovered_offset rs + length (concat (map group_enc gs))"
    by simp_all
qed

text \<open>The first \<open>j\<close> groups are in the parsing buffer, and the log is scanned to their end.\<close>

definition groups_there :: "log_group list \<Rightarrow> nat \<Rightarrow> recv_sys \<Rightarrow> bool" where
  "groups_there gs j rs \<longleftrightarrow>
     recovered_offset rs + length (concat (map group_enc (take j gs))) \<le> rlen rs \<and>
     lsn_after (recovered_lsn rs) (take j gs) \<le> scanned_lsn rs"

text \<open>The parsing buffer holds the beginning of the groups \<open>gs\<close>, cut anywhere.\<close>

definition buffer_holds :: "body_parser \<Rightarrow> log_group list \<Rightarrow> recv_sys \<Rightarrow> bool" where
  "buffer_holds other gs rs \<longleftrightarrow> list_all (group_wf other) gs \<and>
     reads (rbuf rs) (recovered_offset rs) (rlen rs) (concat (map group_enc gs)) \<and>
     recovered_offset rs \<le> rlen rs \<and> rlen rs \<le> recovered_offset rs + length (concat (map group_enc gs)) \<and>
     \<not> found_corrupt_log rs \<and> lsn_in_data (recovered_lsn rs)"

text \<open>
  C14: atomicity of mini-transactions in recovery. Where the log holds the groups of any
  mini-transactions and ends anywhere, in the middle of a record or of a group too, parsing ends
  without failing; there is a number \<open>k\<close> such that exactly the first \<open>k\<close> groups were completely in
  the buffer and scanned; and for every page the hash table has got, in the order of the log and
  with their log sequence numbers, the records of those groups and none of a later one, except
  for deleted tablespaces.
\<close>

theorem recovery_atomic:
  assumes "buffer_holds other gs rs"
  shows "\<exists>k rs'. recv_parse_log_recs other deleted True rs = Some rs' \<and> k \<le> length gs \<and>
    (0 < k \<longrightarrow> groups_there gs k rs) \<and> (k < length gs \<longrightarrow> \<not> groups_there gs (Suc k) rs) \<and>
    recovered_lsn rs' = lsn_after (recovered_lsn rs) (take k gs) \<and>
    recovered_offset rs' = recovered_offset rs + length (concat (map group_enc (take k gs))) \<and>
    (\<forall>space page_no. page_recs space page_no rs' = page_recs space page_no rs @
       (if deleted space then [] else log_recs space page_no (take k gs) (recovered_lsn rs)))"
proof -
  have a: "lsn_in_data (recovered_lsn rs)" using assms by (simp add: buffer_holds_def)
  have b: "list_all (group_wf other) gs" "reads (rbuf rs) (recovered_offset rs) (rlen rs) (concat (map group_enc gs))"
    "recovered_offset rs \<le> rlen rs" "rlen rs \<le> recovered_offset rs + length (concat (map group_enc gs))"
    "\<not> found_corrupt_log rs" using assms by (simp_all add: buffer_holds_def)
  have "\<exists>k \<le> length gs. recv_parse_log_recs other deleted True rs = Some (fold (replay_group deleted) (take k gs) rs) \<and>
      (0 < k \<longrightarrow> groups_there gs k rs) \<and> (k < length gs \<longrightarrow> \<not> groups_there gs (Suc k) rs)"
    using parse_groups [OF b(2,1,3-5) a, of deleted]
    unfolding groups_there_def lsn_after_def de_Morgan_conj not_le by blast
  then show ?thesis using replay_groups [OF a] by blast
qed

text \<open>The record of a logged write to a page.\<close>

definition write_rec :: "ulint \<Rightarrow> ulint \<Rightarrow> page_write \<Rightarrow> log_rec" where
  "write_rec space page_no w = (write_type w, space, page_no, body_bytes w)"

lemma write_type_cases:
  "write_ok w \<Longrightarrow> write_type w \<in> {MLOG_1BYTE, MLOG_2BYTES, MLOG_4BYTES, MLOG_8BYTES, MLOG_WRITE_STRING}"
  by (cases w) auto

lemma write_body_parser:
  "write_ok w \<Longrightarrow> recv_parse_or_apply_log_rec_body other (write_type w) = parse_write_body (write_type w)"
  using write_type_cases [of w]
  by (auto simp: fun_eq_iff recv_parse_or_apply_log_rec_body_def parse_write_body_def mlog_types)

lemma write_body_parses: "write_ok w \<Longrightarrow> body_parses other (write_type w) (body_bytes w)"
  by (simp add: body_parses_def write_body_parser parse_write zip_index_page_def block_write_def)

lemma write_types: "write_ok w \<Longrightarrow> write_type w \<noteq> MLOG_MULTI_REC_END \<and> write_type w \<noteq> MLOG_DUMMY_RECORD \<and>
    write_type w \<noteq> MLOG_INIT_FILE_PAGE \<and> \<not> file_op (write_type w)"
  using write_type_cases [of w]
  by (auto simp: mlog_types MLOG_DUMMY_RECORD_def MLOG_INIT_FILE_PAGE_def file_op_def MLOG_FILE_CREATE_def
    MLOG_ZIP_FILE_CREATE_def MLOG_FILE_RENAME_def MLOG_FILE_DELETE_def)

lemma write_rec_wf:
  "write_ok w \<Longrightarrow> space \<le> 0xFFFFFFFF \<Longrightarrow> page_no \<le> 0x8FFFFFFF \<Longrightarrow> rec_wf other (write_rec space page_no w)"
  using write_types [of w] write_type_le [of w] write_body_parses [of w other] by (simp add: write_rec_def)

definition demo_groups :: "log_group list" where
  "demo_groups = [Multi_recs [write_rec 1 5 (Ulint_write 100 7 MLOG_4BYTES), write_rec 1 6 (Ulint_write 200 8 MLOG_2BYTES)],
     Dummy_rec, Single_rec (write_rec 1 5 (Ulint_write 100 9 MLOG_4BYTES))]"

lemma demo_writes_ok: "write_ok (Ulint_write 100 7 MLOG_4BYTES)" "write_ok (Ulint_write 200 8 MLOG_2BYTES)"
  "write_ok (Ulint_write 100 9 MLOG_4BYTES)"
  by (simp_all add: UNIV_PAGE_SIZE_def mlog_types word_le_nat_alt)

lemma demo_groups_wf: "list_all (group_wf other) demo_groups"
proof -
  have "rec_wf other (write_rec 1 5 (Ulint_write 100 7 MLOG_4BYTES))" "rec_wf other (write_rec 1 6 (Ulint_write 200 8 MLOG_2BYTES))"
    "rec_wf other (write_rec 1 5 (Ulint_write 100 9 MLOG_4BYTES))"
    by (rule write_rec_wf [OF demo_writes_ok(1)] write_rec_wf [OF demo_writes_ok(2)] write_rec_wf [OF demo_writes_ok(3)];
      simp add: word_le_nat_alt)+
  then show ?thesis by (simp add: demo_groups_def write_rec_def)
qed

text \<open>A recovery system whose parsing buffer holds the first \<open>n\<close> bytes of the groups.\<close>

definition demo_recv :: "nat \<Rightarrow> recv_sys" where
  "demo_recv n = recv_sys_init 4096 \<lparr>rbuf = (\<lambda>a. concat (map group_enc demo_groups) ! a), rlen = 0, parse_start_lsn = 8204,
     scanned_lsn = 8500, scanned_checkpoint_no = 1, recovered_offset = 0, recovered_lsn = 8204,
     found_corrupt_log = False, hash_cells = 0, addr_hash = (\<lambda>_. []), n_addrs = 0, apply_log_recs = True,
     recv_max_page_lsn = 0\<rparr>\<lparr>rlen := n, apply_log_recs := True\<rparr>"

lemma demo_holds: "n \<le> length (concat (map group_enc demo_groups)) \<Longrightarrow> buffer_holds other demo_groups (demo_recv n)"
  by (simp add: buffer_holds_def demo_groups_wf demo_recv_def recv_sys_init_def reads_def lsn_in_data_def)

lemma demo_length: "3 \<le> length (concat (map group_enc demo_groups))"
  by (simp add: demo_groups_def write_rec_def)

definition no_parser :: body_parser where
  "no_parser type m ptr end_ptr block = Assert_failed"

theorem recovery_atomic_witness:
  "\<exists>n k rs'. n + 3 = length (concat (map group_enc demo_groups)) \<and>
    recv_parse_log_recs no_parser (\<lambda>_. False) True (demo_recv n) = Some rs' \<and> k \<le> length demo_groups \<and>
    page_recs 1 5 rs' = page_recs 1 5 (demo_recv n) @ log_recs 1 5 (take k demo_groups) (recovered_lsn (demo_recv n))"
proof -
  obtain n where n: "n + 3 = length (concat (map group_enc demo_groups))"
    by (metis add.commute le_add_diff_inverse2 demo_length)
  show ?thesis using recovery_atomic [OF demo_holds [of n no_parser], of "\<lambda>_. False"] n by fastforce
qed

end
