(* ===== verification/Recovery.thy ===== *)
theory Recovery
  imports LogReplay
begin

text \<open>
  Applying the stored records to a page (\<open>recv_recover_page\<close>), and the whole of crash recovery from
  the redo log: what parsing stores and what applying it gives.
\<close>

section \<open>Bodies of records\<close>

lemma RECV_DATA_BLOCK_SIZE_pos: "0 < RECV_DATA_BLOCK_SIZE"
  by (simp add: RECV_DATA_BLOCK_SIZE_def UNIV_PAGE_SIZE_def)

lemma copy_data_blocks: "copy_data (length body) (data_blocks body) = Some body"
proof (induction body rule: data_blocks.induct)
  case (1 body)
  show ?case
  proof (cases "body = []")
    case True
    then show ?thesis by (simp add: copy_data.simps)
  next
    case False
    let ?n = "if length body > RECV_DATA_BLOCK_SIZE then RECV_DATA_BLOCK_SIZE else length body"
    have d: "data_blocks body = take ?n body # data_blocks (drop ?n body)"
      using False by (subst data_blocks.simps) (simp add: Let_def)
    have "copy_data (length body - ?n) (data_blocks (drop ?n body)) = Some (drop ?n body)"
      using "1.IH" [OF False refl] by simp
    then show ?thesis unfolding d using False by (subst copy_data.simps) (simp add: Let_def)
  qed
qed

lemma recv_body_new [simp]: "recv_body (new_recv type body start fin) = Some body"
proof (cases "length body > RECV_DATA_BLOCK_SIZE")
  case True
  then show ?thesis by (simp add: recv_body_def new_recv_def recv_data_copy_to_buf_def copy_data_blocks)
next
  case False
  then have "data_blocks body = (if body = [] then [] else [body])"
    by (subst data_blocks.simps) (simp add: data_blocks.simps Let_def)
  then show ?thesis using False by (simp add: recv_body_def new_recv_def)
qed

section \<open>Versions of a page\<close>

text \<open>Two versions that agree but for the two fields of the page's log sequence number.\<close>

definition lsn_field :: "nat \<Rightarrow> bool" where
  "lsn_field a \<longleftrightarrow> FIL_PAGE_LSN \<le> a \<and> a < FIL_PAGE_LSN + 8 \<or>
     UNIV_PAGE_SIZE - FIL_PAGE_END_LSN_OLD_CHKSUM \<le> a \<and> a < UNIV_PAGE_SIZE"

definition same_page :: "mem \<Rightarrow> mem \<Rightarrow> bool" where
  "same_page p q \<longleftrightarrow> (\<forall>a. \<not> lsn_field a \<longrightarrow> p a = q a)"

lemma same_page_refl [simp]: "same_page p p"
  by (simp add: same_page_def)

lemma same_page_trans: "same_page p q \<Longrightarrow> same_page q r \<Longrightarrow> same_page p r"
  by (simp add: same_page_def)

lemma same_page_effect: "same_page p q \<Longrightarrow> same_page (page_effect w p) (page_effect w q)"
  by (cases w)
    (simp_all add: same_page_def mach_write_to_1_def mach_write_to_2_def mach_write_to_4_def mach_write_to_8_def mem_put_apply)

lemma same_page_effects: "same_page p q \<Longrightarrow> same_page (fold page_effect ws p) (fold page_effect ws q)"
  by (induction ws arbitrary: p q) (simp_all add: same_page_effect)

lemma same_page_lsn: "same_page (fst (write_page_lsn l b)) (fst b)"
  using full.put_frame by (auto simp: same_page_def write_page_lsn_def lsn_field_def UNIV_PAGE_SIZE_def FIL_PAGE_END_LSN_OLD_CHKSUM_def)

section \<open>The loop over the records of a page\<close>

text \<open>A logged write with the start of its record and the end of its mini-transaction.\<close>

type_synonym placed_write = "page_write \<times> nat \<times> nat"

definition write_recv :: "placed_write \<Rightarrow> recv_t" where
  "write_recv = (\<lambda>(w, start, fin). new_recv (write_type w) (body_bytes w) start fin)"

lemma copy_in_mem_put: "copy_in (mem_put m p bs) p (length bs) = bs"
  by (simp add: copy_in_put)

lemma recover_loop_writes:
  assumes "list_all (\<lambda>x. write_ok (fst x)) ws"
  shows "\<exists>q st' fin'. recover_loop other junk newest (map write_recv ws) ((p, None), l, st, fin) = Some ((q, None), l, st', fin') \<and>
    same_page q (fold page_effect (map fst (filter (\<lambda>(w, start, fin). l \<le> start) ws)) p) \<and>
    (st' = None \<longleftrightarrow> st = None \<and> filter (\<lambda>(w, start, fin). l \<le> start) ws = [])"
  using assms
proof (induction ws arbitrary: p st fin)
  case (Cons x ws)
  obtain w start e where x: "x = (w, start, e)" by (cases x)
  have ok: "write_ok w" "list_all (\<lambda>x. write_ok (fst x)) ws" using Cons.prems by (simp_all add: x)
  let ?buf = "mem_put junk 0 (body_bytes w)"
  have "reads ?buf 0 (length (body_bytes w)) (body_bytes w)"
    by (rule copy_in_reads [OF copy_in_mem_put])
  from parse_write [OF this ok(1), of "Some (p, None)"]
  have parse: "recv_parse_or_apply_log_rec_body other (write_type w) ?buf 0 (length (body_bytes w)) (Some (p, None)) =
      Parsed (length (body_bytes w)) (Some (page_effect w p, None))"
    by (simp add: write_body_parser [OF ok(1)] zip_index_page_def block_write_def)
  have ty: "write_type w \<noteq> MLOG_INIT_FILE_PAGE" using write_types [OF ok(1)] by simp
  have f: "recv_type (write_recv x) = write_type w" "recv_len (write_recv x) = length (body_bytes w)"
    "recv_start_lsn (write_recv x) = start" "recv_end_lsn (write_recv x) = e"
    "recv_body (write_recv x) = Some (body_bytes w)"
    by (simp_all add: x write_recv_def) (simp_all add: new_recv_def)
  show ?case
  proof (cases "l \<le> start")
    case True
    let ?l = "of_nat (start + length (body_bytes w)) :: ulint"
    let ?st = "case st of None \<Rightarrow> Some start | Some y \<Rightarrow> st"
    define p1 where "p1 = fst (write_page_lsn ?l (page_effect w p, None))"
    have p1: "write_page_lsn ?l (page_effect w p, None) = (p1, None)" by (simp add: p1_def write_page_lsn_def)
    have step: "recover_loop other junk newest (map write_recv (x # ws)) ((p, None), l, st, fin) =
        recover_loop other junk newest (map write_recv ws) ((p1, None), l, ?st, e)"
      using True parse ty p1 by (cases st) (simp_all add: f Let_def)
    have "same_page p1 (page_effect w p)" using same_page_lsn [of ?l "(page_effect w p, None)"] by (simp add: p1_def)
    note s = same_page_effects [OF this, of "map fst (filter (\<lambda>(w, start, fin). l \<le> start) ws)"]
    from Cons.IH [OF ok(2), of p1 ?st e] show ?thesis
      unfolding step using s True by (auto simp: x split: option.splits dest: same_page_trans)
  next
    case False
    then have "recover_loop other junk newest (map write_recv (x # ws)) ((p, None), l, st, fin) =
        recover_loop other junk newest (map write_recv ws) ((p, None), l, st, e)"
      using ty by (simp add: f Let_def)
    then show ?thesis using Cons.IH [OF ok(2), of p st e] False by (simp add: x)
  qed
qed simp

section \<open>Recovering a page\<close>

text \<open>The page waits to be recovered: it is in the hash table and not processed.\<close>

definition page_pending :: "ulint \<Rightarrow> ulint \<Rightarrow> recv_sys \<Rightarrow> bool" where
  "page_pending space page_no rs \<longleftrightarrow> apply_log_recs rs \<and> 0 < n_addrs rs \<and>
     (case recv_get_fil_addr_struct space page_no rs of
        None \<Rightarrow> False
      | Some k \<Rightarrow> addr_state (addr_hash rs (recv_hash space page_no rs) ! k) = RECV_NOT_PROCESSED)"

lemma recover_page_eq:
  assumes "page_pending space page_no rs"
    "recover_loop other junk 0 (page_recs space page_no rs) (b, unat (mach_read_ull (fst b) FIL_PAGE_LSN), None, 0) =
      Some (b', l, st, fin)"
  shows "\<exists>rs'. recv_recover_page other junk False 0 space page_no b rs = Some (b', map_option (\<lambda>s. (s, fin)) st, rs') \<and>
    n_addrs rs' = n_addrs rs - 1 \<and>
    (\<forall>b. recv_recover_page other junk False 0 space page_no b rs' = Some (b, None, rs'))"
proof -
  let ?h = "recv_hash space page_no rs"
  obtain k where k: "recv_get_fil_addr_struct space page_no rs = Some k"
    and st: "addr_state (addr_hash rs ?h ! k) = RECV_NOT_PROCESSED"
    using assms(1) by (auto simp: page_pending_def split: option.splits)
  have app: "apply_log_recs rs" "n_addrs rs \<noteq> 0" using assms(1) by (auto simp: page_pending_def)
  let ?addr = "addr_hash rs ?h ! k"
  let ?rs = "rs\<lparr>recv_max_page_lsn := max (recv_max_page_lsn rs) l, n_addrs := n_addrs rs - 1,
    addr_hash := (addr_hash rs)(?h := (addr_hash rs ?h)[k := ?addr\<lparr>addr_state := RECV_PROCESSED\<rparr>])\<rparr>"
  have recs: "page_recs space page_no rs = rec_list ?addr" by (simp add: page_recs_def k)
  have run: "recv_recover_page other junk False 0 space page_no b rs = Some (b', map_option (\<lambda>s. (s, fin)) st, ?rs)"
    using k st app assms(2) unfolding recs by (simp add: recv_recover_page_def Let_def)
  obtain ys a zs where x: "addr_hash rs ?h = ys @ a # zs" "k = 0 + length ys" "is_addr space page_no a"
    "\<forall>y \<in> set ys. \<not> is_addr space page_no y"
    using k unfolding recv_get_fil_addr_struct_def by (rule addr_search_Some)
  define rs1 where "rs1 = ?rs"
  have hash: "recv_hash space page_no rs1 = ?h" by (simp add: rs1_def recv_hash_def)
  have chain: "addr_hash rs1 ?h = ys @ a\<lparr>addr_state := RECV_PROCESSED\<rparr> # zs" using x by (simp add: rs1_def)
  have "recv_get_fil_addr_struct space page_no rs1 = Some k"
    using x addr_search_None [of space page_no ys 0]
    by (simp add: recv_get_fil_addr_struct_def hash chain addr_search_append is_addr_def)
  moreover have "addr_state (addr_hash rs1 ?h ! k) = RECV_PROCESSED" "apply_log_recs rs1"
    using x app by (simp_all add: chain) (simp add: rs1_def)
  ultimately have again: "recv_recover_page other junk False 0 space page_no b rs1 = Some (b, None, rs1)" for b
    by (simp add: recv_recover_page_def hash Let_def)
  have "n_addrs rs1 = n_addrs rs - 1" by (simp add: rs1_def)
  then show ?thesis using run again unfolding rs1_def [symmetric] by blast
qed

text \<open>
  Where the hash table holds, in the order of the log, the records of writes to a page, and the page
  has the effect of those that start before its log sequence number and no other, recovering it
  applies the others; a page that has been recovered is left as it is by another call.
\<close>

lemma recovered_page_writes:
  assumes "page_pending space page_no rs" "page_recs space page_no rs = map write_recv (old @ new)"
    "list_all (\<lambda>x. write_ok (fst x)) (old @ new)"
    "\<forall>(w, start, fin) \<in> set old. start < unat (mach_read_ull page FIL_PAGE_LSN)"
    "\<forall>(w, start, fin) \<in> set new. unat (mach_read_ull page FIL_PAGE_LSN) \<le> start"
    "same_page page (fold page_effect (map fst old) page0)"
  shows "\<exists>page' note rs'. recv_recover_page other junk False 0 space page_no (page, None) rs = Some ((page', None), note, rs') \<and>
    same_page page' (fold page_effect (map fst (old @ new)) page0) \<and> (note = None \<longleftrightarrow> new = []) \<and>
    n_addrs rs' = n_addrs rs - 1 \<and>
    (\<forall>b. recv_recover_page other junk False 0 space page_no b rs' = Some (b, None, rs'))"
proof -
  let ?l = "unat (mach_read_ull page FIL_PAGE_LSN)"
  have f: "filter (\<lambda>(w, start, fin). ?l \<le> start) (old @ new) = new"
    using assms(4,5) by (auto simp: filter_empty_conv filter_id_conv not_le split: prod.splits)
  obtain q st fin where loop: "recover_loop other junk 0 (page_recs space page_no rs) ((page, None), ?l, None, 0) = Some ((q, None), ?l, st, fin)"
    "same_page q (fold page_effect (map fst new) page)" "st = None \<longleftrightarrow> new = []"
    using recover_loop_writes [OF assms(3), of other junk 0 page ?l None 0] unfolding f assms(2) by auto
  have "same_page q (fold page_effect (map fst (old @ new)) page0)"
    using same_page_trans [OF loop(2) same_page_effects [OF assms(6), of "map fst new"]] by simp
  then show ?thesis
    using recover_page_eq [OF assms(1), of other junk "(page, None)" "(q, None)" ?l st fin] loop(1,3) by auto
qed

section \<open>Crash recovery\<close>

text \<open>A mini-transaction as its writes to pages, with the group it leaves in the log.\<close>

type_synonym mtr_writes = "(ulint \<times> ulint \<times> page_write) list"

fun mtr_log_group :: "mtr_writes \<Rightarrow> log_group" where
  "mtr_log_group [(space, page_no, w)] = Single_rec (write_rec space page_no w)"
| "mtr_log_group ws = Multi_recs (map (\<lambda>(space, page_no, w). write_rec space page_no w) ws)"

definition page_writes :: "ulint \<Rightarrow> ulint \<Rightarrow> mtr_writes \<Rightarrow> page_write list" where
  "page_writes s p ws = map (\<lambda>(space, page_no, w). w) (filter (\<lambda>(space, page_no, w). space = s \<and> page_no = p) ws)"

lemma lsn_add_ge: "l + n \<le> recv_calc_lsn_on_data_add l n"
  by (simp add: recv_calc_lsn_on_data_add_def Let_def)

lemma lsn_add_mono: "n \<le> n' \<Longrightarrow> recv_calc_lsn_on_data_add l n \<le> recv_calc_lsn_on_data_add l n'"
  by (simp add: recv_calc_lsn_on_data_add_def Let_def add_mono div_le_mono)

lemma recs_of_writes:
  assumes "lsn_in_data l"
  shows "\<exists>pw. recs_of s p fin (map (\<lambda>(space, page_no, w). write_rec space page_no w) ws) l = map write_recv pw \<and>
    map fst pw = page_writes s p ws \<and>
    (\<forall>(w, start, e) \<in> set pw. l \<le> start \<and>
      start < recv_calc_lsn_on_data_add l (length (concat (map rec_enc (map (\<lambda>(space, page_no, w). write_rec space page_no w) ws)))))"
  using assms
proof (induction ws arbitrary: l)
  case (Cons x ws)
  obtain space page_no w where x: "x = (space, page_no, w)" by (cases x)
  let ?r = "write_rec space page_no w" and ?recs = "map (\<lambda>(space, page_no, w). write_rec space page_no w)"
  let ?l = "recv_calc_lsn_on_data_add l (length (rec_enc ?r))"
  obtain pw where pw: "recs_of s p fin (?recs ws) ?l = map write_recv pw" "map fst pw = page_writes s p ws"
    "\<forall>(w, start, e) \<in> set pw. ?l \<le> start \<and> start < recv_calc_lsn_on_data_add ?l (length (concat (map rec_enc (?recs ws))))"
    using Cons.IH [OF lsn_in_data_add [OF Cons.prems]] by blast
  let ?me = "if space = s \<and> page_no = p then [(w, l, fin)] else []"
  have a: "recv_calc_lsn_on_data_add ?l n = recv_calc_lsn_on_data_add l (length (rec_enc ?r) + n)" for n
    by (rule lsn_add_lsn_add [OF Cons.prems])
  have pos: "l < ?l" "?l \<le> recv_calc_lsn_on_data_add l (length (rec_enc ?r) + n)" for n
    using lsn_add_ge [of l "length (rec_enc ?r)"] rec_enc_pos [of ?r] lsn_add_mono [of "length (rec_enc ?r)" "length (rec_enc ?r) + n" l]
    by linarith+
  have "recs_of s p fin (?recs (x # ws)) l = map write_recv (?me @ pw)"
    using pw(1) by (simp add: x write_rec_def write_recv_def)
  moreover have "map fst (?me @ pw) = page_writes s p (x # ws)"
    using pw(2) by (simp add: x page_writes_def)
  moreover have "\<forall>(w, start, e) \<in> set (?me @ pw). l \<le> start \<and>
      start < recv_calc_lsn_on_data_add l (length (concat (map rec_enc (?recs (x # ws)))))"
  proof -
    have "\<forall>(w, start, e) \<in> set pw. l \<le> start \<and> start < recv_calc_lsn_on_data_add l (length (rec_enc ?r) + length (concat (map rec_enc (?recs ws))))"
      using pw(3) pos(1) unfolding a by fastforce
    moreover have "l < recv_calc_lsn_on_data_add l (length (rec_enc ?r) + length (concat (map rec_enc (?recs ws))))"
      using pos(1) pos(2) [of "length (concat (map rec_enc (?recs ws)))"] by linarith
    ultimately show ?thesis by (auto simp: x)
  qed
  ultimately show ?case by blast
qed (simp add: page_writes_def)

lemma mtr_group_recs:
  assumes "list_all (\<lambda>(space, page_no, w). write_ok w) ws"
  shows "group_recs s p (mtr_log_group ws) l =
      recs_of s p (lsn_after l [mtr_log_group ws]) (map (\<lambda>(space, page_no, w). write_rec space page_no w) ws) l"
    "length (concat (map rec_enc (map (\<lambda>(space, page_no, w). write_rec space page_no w) ws))) \<le> length (group_enc (mtr_log_group ws))"
  using assms write_types by (cases ws rule: mtr_log_group.cases; force simp: write_rec_def)+

lemma log_recs_writes:
  assumes "lsn_in_data l" "list_all (list_all (\<lambda>(space, page_no, w). write_ok w)) ms"
  shows "\<exists>pw. log_recs s p (map mtr_log_group ms) l = map write_recv pw \<and>
    map fst pw = concat (map (page_writes s p) ms) \<and>
    (\<forall>(w, start, e) \<in> set pw. l \<le> start \<and> start < lsn_after l (map mtr_log_group ms))"
  using assms
proof (induction ms arbitrary: l)
  case (Cons ws ms)
  let ?g = "mtr_log_group ws" and ?l = "lsn_after l [mtr_log_group ws]"
  let ?all = "lsn_after l (map mtr_log_group (ws # ms))"
  have ok: "list_all (\<lambda>(space, page_no, w). write_ok w) ws" "list_all (list_all (\<lambda>(space, page_no, w). write_ok w)) ms"
    using Cons.prems(2) by simp_all
  obtain pw1 where p1: "group_recs s p ?g l = map write_recv pw1" "map fst pw1 = page_writes s p ws"
    "\<forall>(w, start, e) \<in> set pw1. l \<le> start \<and> start < recv_calc_lsn_on_data_add l
      (length (concat (map rec_enc (map (\<lambda>(space, page_no, w). write_rec space page_no w) ws))))"
    unfolding mtr_group_recs(1) [OF ok(1)] using recs_of_writes [OF Cons.prems(1)] by blast
  obtain pw2 where p2: "log_recs s p (map mtr_log_group ms) ?l = map write_recv pw2" "map fst pw2 = concat (map (page_writes s p) ms)"
    "\<forall>(w, start, e) \<in> set pw2. ?l \<le> start \<and> start < lsn_after ?l (map mtr_log_group ms)"
    using Cons.IH [OF lsn_after_in_data [OF Cons.prems(1)] ok(2)] by blast
  have all: "lsn_after ?l (map mtr_log_group ms) = ?all"
    using lsn_after_append [OF Cons.prems(1), of "[?g]" "map mtr_log_group ms"] by simp
  have le: "l \<le> ?l" "?l \<le> ?all"
    using lsn_add_ge [of l "length (group_enc ?g)"]
      lsn_add_ge [of ?l "length (concat (map group_enc (map mtr_log_group ms)))"] all
    by (simp_all add: lsn_after_def)
  have "recv_calc_lsn_on_data_add l (length (concat (map rec_enc (map (\<lambda>(space, page_no, w). write_rec space page_no w) ws)))) \<le> ?l"
    using lsn_add_mono [OF mtr_group_recs(2) [OF ok(1)], of l] by (simp add: lsn_after_def)
  then have "\<forall>(w, start, e) \<in> set (pw1 @ pw2). l \<le> start \<and> start < ?all"
    using p1(3) p2(3) le unfolding all by fastforce
  then show ?case
    using p1(1,2) p2(1,2) by (intro exI [of _ "pw1 @ pw2"]) simp
qed simp

text \<open>The hash table while parsing: every page in it has records, waits, and is counted.\<close>

definition hash_pending :: "recv_sys \<Rightarrow> bool" where
  "hash_pending rs \<longleftrightarrow>
     (\<forall>h. (\<forall>a \<in> set (addr_hash rs h). addr_state a = RECV_NOT_PROCESSED \<and> rec_list a \<noteq> []) \<and>
          (addr_hash rs h \<noteq> [] \<longrightarrow> 0 < n_addrs rs))"

lemma hash_pending_add:
  assumes "hash_pending rs"
  shows "hash_pending (recv_add_to_hash_table deleted type s p body start fin rs)"
proof (cases "deleted s")
  case True
  then show ?thesis using assms by (simp add: recv_add_to_hash_table_def)
next
  case False
  let ?h = "recv_hash s p rs" and ?rs = "recv_add_to_hash_table deleted type s p body start fin rs"
  let ?new = "\<lparr>addr_state = RECV_NOT_PROCESSED, addr_space = s, addr_page_no = p, rec_list = []\<rparr>"
  let ?r = "\<lparr>recv_type = type, recv_len = length body, recv_data = data_blocks body, recv_start_lsn = start, recv_end_lsn = fin\<rparr>"
  have chains: "\<forall>a \<in> set (addr_hash rs h). addr_state a = RECV_NOT_PROCESSED \<and> rec_list a \<noteq> []" for h
    using assms by (simp add: hash_pending_def)
  have hash: "recv_hash a b (rs\<lparr>addr_hash := f, n_addrs := n\<rparr>) = recv_hash a b rs" for a b f n
    by (simp add: recv_hash_def)
  show ?thesis
  proof (cases "recv_get_fil_addr_struct s p rs")
    case None
    then have n: "addr_search s p (addr_hash rs ?h) 0 = None" by (simp add: recv_get_fil_addr_struct_def)
    have "?rs = rs\<lparr>addr_hash := (addr_hash rs)(?h := addr_hash rs ?h @ [?new\<lparr>rec_list := [?r]\<rparr>]), n_addrs := n_addrs rs + 1\<rparr>"
      using False None n
      by (simp add: recv_add_to_hash_table_def Let_def recv_get_fil_addr_struct_def hash addr_search_append)
    then show ?thesis using assms by (auto simp: hash_pending_def)
  next
    case (Some k)
    have "?rs = rs\<lparr>addr_hash := (addr_hash rs)(?h := (addr_hash rs ?h)[k := (addr_hash rs ?h ! k)\<lparr>rec_list := rec_list (addr_hash rs ?h ! k) @ [?r]\<rparr>])\<rparr>"
      using False Some by (simp add: recv_add_to_hash_table_def Let_def)
    moreover obtain ys a zs where x: "addr_hash rs ?h = ys @ a # zs" "k = length ys"
      using Some unfolding recv_get_fil_addr_struct_def by (auto elim: addr_search_Some)
    moreover have "addr_hash rs ?h \<noteq> [] \<longrightarrow> 0 < n_addrs rs" using assms unfolding hash_pending_def by blast
    then have "0 < n_addrs rs" using x by simp
    ultimately show ?thesis using assms chains [of ?h] by (auto simp: hash_pending_def)
  qed
qed

lemma hash_pending_skipped: "hash_pending rs \<Longrightarrow> hash_pending (skipped n rs)"
  by (simp add: hash_pending_def skipped_def)

lemma hash_pending_groups: "hash_pending rs \<Longrightarrow> hash_pending (fold (replay_group deleted) gs rs)"
proof (induction gs arbitrary: rs)
  case (Cons g gs)
  have st: "hash_pending (store_rec deleted fin r rs)" if "hash_pending rs" for fin r rs
    using that by (cases r) (simp add: hash_pending_add hash_pending_skipped)
  have sts: "hash_pending (fold (store_rec deleted fin) rl rs)" if "hash_pending rs" for fin rl rs
    using that by (induction rl arbitrary: rs) (simp_all add: st)
  have "hash_pending (replay_group deleted g rs)" using Cons.prems
    by (cases g) (simp_all add: st sts hash_pending_skipped)
  then show ?case using Cons.IH by simp
qed simp

text \<open>\<open>recv_apply_hashed_log_recs\<close> sets the flag before it recovers pages.\<close>

definition applying :: "recv_sys \<Rightarrow> recv_sys" where
  "applying rs = rs\<lparr>apply_log_recs := True\<rparr>"

lemma applying_fields [simp]:
  "recv_hash s p (applying rs) = recv_hash s p rs" "addr_hash (applying rs) = addr_hash rs" "n_addrs (applying rs) = n_addrs rs"
  "apply_log_recs (applying rs)"
  by (simp_all add: applying_def recv_hash_def)

lemma applying_recs [simp]:
  "recv_get_fil_addr_struct s p (applying rs) = recv_get_fil_addr_struct s p rs"
  "page_recs s p (applying rs) = page_recs s p rs"
  by (simp_all add: recv_get_fil_addr_struct_def page_recs_chain)

lemma pending_page:
  assumes "hash_pending rs" "page_recs s p rs \<noteq> []"
  shows "page_pending s p (applying rs)"
proof -
  obtain k where k: "recv_get_fil_addr_struct s p rs = Some k"
    using assms(2) by (auto simp: page_recs_def split: option.splits)
  then obtain ys a zs where "addr_hash rs (recv_hash s p rs) = ys @ a # zs" "k = length ys"
    unfolding recv_get_fil_addr_struct_def by (auto elim: addr_search_Some)
  then have a: "addr_hash rs (recv_hash s p rs) ! k = a" "a \<in> set (addr_hash rs (recv_hash s p rs))"
    "addr_hash rs (recv_hash s p rs) \<noteq> []" by simp_all
  then have "addr_state a = RECV_NOT_PROCESSED" "0 < n_addrs rs"
    using assms(1) unfolding hash_pending_def by blast+
  then show ?thesis using k a(1) by (simp add: page_pending_def)
qed

lemma no_page:
  assumes "hash_pending rs" "page_recs s p rs = []"
  shows "recv_recover_page other junk False 0 s p b (applying rs) = Some (b, None, applying rs)"
proof -
  have "recv_get_fil_addr_struct s p rs = None"
  proof (rule ccontr)
    assume "\<not> ?thesis"
    then obtain k where k: "recv_get_fil_addr_struct s p rs = Some k" by auto
    then obtain ys a zs where a: "addr_hash rs (recv_hash s p rs) = ys @ a # zs" "k = length ys"
      unfolding recv_get_fil_addr_struct_def by (auto elim: addr_search_Some)
    then have "a \<in> set (addr_hash rs (recv_hash s p rs))" by simp
    then have "rec_list a \<noteq> []" using assms(1) unfolding hash_pending_def by blast
    then show False using assms(2) a by (simp add: page_recs_def k)
  qed
  then show ?thesis by (simp add: recv_recover_page_def)
qed

lemma groups_there_mono:
  assumes "groups_there gs j rs" "i \<le> j"
  shows "groups_there gs i rs"
proof -
  have t: "take j gs = take i gs @ drop i (take j gs)" using assms(2) by (metis append_take_drop_id min.absorb1 take_take)
  have le: "length (concat (map group_enc (take i gs))) \<le> length (concat (map group_enc (take j gs)))"
    by (subst t) simp
  then have "lsn_after (recovered_lsn rs) (take i gs) \<le> lsn_after (recovered_lsn rs) (take j gs)"
    unfolding lsn_after_def by (rule lsn_add_mono)
  then show ?thesis using assms(1) le unfolding groups_there_def by linarith
qed

text \<open>One page, whose version on disk has the writes of the first \<open>j\<close> of \<open>k\<close> mini-transactions.\<close>

lemma recover_logged_page:
  assumes a: "lsn_in_data l" and ok: "list_all (list_all (\<lambda>(space, page_no, w). write_ok w)) ms" and jk: "j \<le> k"
    and pend: "hash_pending rs" and recs: "page_recs s p rs = log_recs s p (take k (map mtr_log_group ms)) l"
    and disk: "unat (mach_read_ull page FIL_PAGE_LSN) = lsn_after l (take j (map mtr_log_group ms)) \<or>
        j = 0 \<and> unat (mach_read_ull page FIL_PAGE_LSN) \<le> l"
      "same_page page (fold page_effect (concat (map (page_writes s p) (take j ms))) page0)"
  shows "\<exists>page' note rs2. recv_recover_page other junk False 0 s p (page, None) (applying rs) = Some ((page', None), note, rs2) \<and>
    same_page page' (fold page_effect (concat (map (page_writes s p) (take k ms))) page0)"
proof -
  let ?gs = "map mtr_log_group ms" and ?pl = "unat (mach_read_ull page FIL_PAGE_LSN)"
  let ?lj = "lsn_after l (take j ?gs)"
  define old new where "old = take j ms" and "new = drop j (take k ms)"
  have tk: "take k ms = old @ new" unfolding old_def new_def using jk by (metis append_take_drop_id min.absorb1 take_take)
  have gj: "map mtr_log_group old = take j ?gs" by (simp add: old_def take_map)
  have oks: "list_all (list_all (\<lambda>(space, page_no, w). write_ok w)) old" "list_all (list_all (\<lambda>(space, page_no, w). write_ok w)) new"
    using ok unfolding old_def new_def by (auto simp: list_all_iff dest!: in_set_takeD in_set_dropD)
  obtain pw1 where p1: "log_recs s p (take j ?gs) l = map write_recv pw1" "map fst pw1 = concat (map (page_writes s p) old)"
    "\<forall>(w, start, e) \<in> set pw1. l \<le> start \<and> start < ?lj"
    using log_recs_writes [OF a oks(1), of s p] unfolding gj by blast
  obtain pw2 where p2: "log_recs s p (map mtr_log_group new) ?lj = map write_recv pw2" "map fst pw2 = concat (map (page_writes s p) new)"
    "\<forall>(w, start, e) \<in> set pw2. ?lj \<le> start \<and> start < lsn_after ?lj (map mtr_log_group new)"
    using log_recs_writes [OF lsn_after_in_data [OF a] oks(2), of s p] by blast
  have "take k ?gs = take j ?gs @ map mtr_log_group new" using tk gj by (simp add: take_map)
  then have recs': "page_recs s p rs = map write_recv (pw1 @ pw2)"
    using recs log_recs_append [OF a, of s p "take j ?gs"] p1(1) p2(1) by simp
  have eff: "map fst (pw1 @ pw2) = concat (map (page_writes s p) (take k ms))" using p1(2) p2(2) tk by simp
  show ?thesis
  proof (cases "pw1 @ pw2 = []")
    case True
    then have e: "page_recs s p rs = []" "concat (map (page_writes s p) (take k ms)) = []"
      "concat (map (page_writes s p) (take j ms)) = []" using recs' eff p1(2) by (simp_all add: old_def)
    have "same_page page (fold page_effect (concat (map (page_writes s p) (take k ms))) page0)"
      using disk(2) unfolding e(2,3) .
    then show ?thesis using no_page [OF pend e(1)] by blast
  next
    case False
    have "\<forall>(w, start, e) \<in> set pw1. start < ?pl" using p1 disk(1) by (cases "j = 0") fastforce+
    moreover have "\<forall>(w, start, e) \<in> set pw2. ?pl \<le> start" using p2(3) disk(1) a by fastforce
    moreover have "list_all (\<lambda>x. write_ok (fst x)) (pw1 @ pw2)"
    proof -
      have "set (map fst (pw1 @ pw2)) \<subseteq> {w. write_ok w}"
        using p1(2) p2(2) oks by (fastforce simp: page_writes_def list_all_iff)
      then show ?thesis by (auto simp: list_all_iff)
    qed
    moreover have "same_page page (fold page_effect (map fst pw1) page0)" using disk(2) p1(2) by (simp add: old_def)
    moreover have "page_pending s p (applying rs)" by (rule pending_page [OF pend]) (use False recs' in simp)
    ultimately show ?thesis
      using recovered_page_writes [of s p "applying rs" pw1 pw2 page page0 other junk] recs' eff by (metis applying_recs(2))
  qed
qed

text \<open>
  C1: crash recovery. The redo log that is left holds the groups of the mini-transactions \<open>ms\<close> and
  ends anywhere. A page on disk has the writes of the first \<open>j\<close> of them, whose log was flushed before
  the page was, and none of the others, and the log sequence number of the end of the \<open>j\<close>-th, or one
  not above the start of the log. Then parsing the log and recovering the page give the page with the
  writes of exactly the first \<open>k\<close> mini-transactions, \<open>k\<close> being for all pages the number of those
  completely in the log: none is lost, none is applied in part, and none is applied twice.
\<close>

theorem crash_recovery:
  fixes ms :: "mtr_writes list"
  defines "gs \<equiv> map mtr_log_group ms"
  assumes "buffer_holds other gs rs" "list_all (list_all (\<lambda>(space, page_no, w). write_ok w)) ms"
    "\<forall>h. addr_hash rs h = []"
    "recovered_lsn rs \<le> scanned_lsn rs"
  shows "\<exists>k rs1. recv_parse_log_recs other deleted True rs = Some rs1 \<and> k \<le> length ms \<and>
    groups_there gs k rs \<and> (k < length ms \<longrightarrow> \<not> groups_there gs (Suc k) rs) \<and>
    (\<forall>space page_no page page0 j. \<not> deleted space \<longrightarrow> j \<le> length ms \<longrightarrow> groups_there gs j rs \<longrightarrow>
      unat (mach_read_ull page FIL_PAGE_LSN) = lsn_after (recovered_lsn rs) (take j gs) \<or>
        j = 0 \<and> unat (mach_read_ull page FIL_PAGE_LSN) \<le> recovered_lsn rs \<longrightarrow>
      same_page page (fold page_effect (concat (map (page_writes space page_no) (take j ms))) page0) \<longrightarrow>
      (\<exists>page' note rs2. recv_recover_page other junk False 0 space page_no (page, None) (applying rs1) = Some ((page', None), note, rs2) \<and>
        same_page page' (fold page_effect (concat (map (page_writes space page_no) (take k ms))) page0)))"
proof -
  let ?l = "recovered_lsn rs"
  have a: "lsn_in_data ?l" using assms(2) by (simp add: buffer_holds_def)
  have b: "list_all (group_wf other) gs" "reads (rbuf rs) (recovered_offset rs) (rlen rs) (concat (map group_enc gs))"
    "recovered_offset rs \<le> rlen rs" "rlen rs \<le> recovered_offset rs + length (concat (map group_enc gs))"
    "\<not> found_corrupt_log rs" using assms(2) by (simp_all add: buffer_holds_def)
  have "\<exists>k \<le> length gs. recv_parse_log_recs other deleted True rs = Some (fold (replay_group deleted) (take k gs) rs) \<and>
      (0 < k \<longrightarrow> groups_there gs k rs) \<and> (k < length gs \<longrightarrow> \<not> groups_there gs (Suc k) rs)"
    using parse_groups [OF b(2,1,3-5) a, of deleted]
    unfolding groups_there_def lsn_after_def de_Morgan_conj not_le by blast
  then obtain k where k: "k \<le> length ms" "recv_parse_log_recs other deleted True rs = Some (fold (replay_group deleted) (take k gs) rs)"
    "0 < k \<longrightarrow> groups_there gs k rs" "k < length ms \<longrightarrow> \<not> groups_there gs (Suc k) rs"
    by (auto simp: gs_def)
  have "groups_there gs 0 rs" using b(3) a assms(5) by (simp add: groups_there_def)
  then have k0: "groups_there gs k rs" using k(3) by (cases "k = 0") simp_all
  let ?rs1 = "fold (replay_group deleted) (take k gs) rs"
  have pend: "hash_pending ?rs1" by (rule hash_pending_groups) (use assms(4) in \<open>simp add: hash_pending_def\<close>)
  have jk: "j \<le> k" if "j \<le> length ms" "groups_there gs j rs" for j
    using groups_there_mono [OF that(2), of "Suc k"] k(4) that(1) by (cases "j \<le> k") simp_all
  have empty: "page_recs s p rs = []" for s p using assms(4) by (simp add: page_recs_chain chain_recs_def)
  have "page_recs s p ?rs1 = log_recs s p (take k gs) ?l" if "\<not> deleted s" for s p
    using replay_groups(2) [OF a, of s p deleted "take k gs"] that empty by simp
  then show ?thesis
    using k(1,2,4) k0 jk recover_logged_page [OF a assms(3) _ pend, folded gs_def] by blast
qed

definition demo_mtrs :: "mtr_writes list" where
  "demo_mtrs = [[(1, 5, Ulint_write 100 7 MLOG_4BYTES), (1, 6, Ulint_write 200 8 MLOG_2BYTES)],
     [(1, 5, Ulint_write 100 9 MLOG_4BYTES)]]"

definition demo_log_bytes :: "byte list" where
  "demo_log_bytes = concat (map group_enc (map mtr_log_group demo_mtrs))"

definition demo_crash :: "nat \<Rightarrow> recv_sys" where
  "demo_crash n = (demo_recv n)\<lparr>rbuf := (\<lambda>a. demo_log_bytes ! a)\<rparr>"

lemma demo_crash:
  assumes "n \<le> length demo_log_bytes"
  shows "buffer_holds other (map mtr_log_group demo_mtrs) (demo_crash n)"
proof -
  have "rec_wf other (write_rec 1 5 (Ulint_write 100 7 MLOG_4BYTES))" "rec_wf other (write_rec 1 6 (Ulint_write 200 8 MLOG_2BYTES))"
    "rec_wf other (write_rec 1 5 (Ulint_write 100 9 MLOG_4BYTES))"
    by (rule write_rec_wf [OF demo_writes_ok(1)] write_rec_wf [OF demo_writes_ok(2)] write_rec_wf [OF demo_writes_ok(3)];
      simp add: word_le_nat_alt)+
  then have "list_all (group_wf other) (map mtr_log_group demo_mtrs)"
    by (simp add: demo_mtrs_def) (simp add: write_rec_def)
  then show ?thesis using assms
    by (simp add: buffer_holds_def demo_log_bytes_def demo_crash_def demo_recv_def recv_sys_init_def reads_def lsn_in_data_def)
qed

lemma demo_mtrs_ok: "list_all (list_all (\<lambda>(space, page_no, w). write_ok w)) demo_mtrs"
  using demo_writes_ok by (simp only: demo_mtrs_def list.pred_inject prod.case simp_thms)

theorem crash_recovery_witness:
  "\<exists>n k rs1 page' note rs2. n + 1 = length demo_log_bytes \<and>
    recv_parse_log_recs no_parser (\<lambda>_. False) True (demo_crash n) = Some rs1 \<and>
    recv_recover_page no_parser (\<lambda>_. 0) False 0 1 5 (\<lambda>_. 0, None) (applying rs1) = Some ((page', None), note, rs2) \<and>
    same_page page' (fold page_effect (concat (map (page_writes 1 5) (take k demo_mtrs))) (\<lambda>_. 0))"
proof -
  have "0 < length demo_log_bytes" by (simp add: demo_log_bytes_def demo_mtrs_def)
  then obtain n where n: "n + 1 = length demo_log_bytes" by (metis add.commute le_add_diff_inverse2 Suc_leI One_nat_def)
  have f: "addr_hash (demo_crash n) h = []" "recovered_lsn (demo_crash n) = 8204" "scanned_lsn (demo_crash n) = 8500"
    "recovered_offset (demo_crash n) = 0" for h
    by (simp_all add: demo_crash_def demo_recv_def recv_sys_init_def)
  have z: "unat (mach_read_ull (\<lambda>_. 0) FIL_PAGE_LSN) = 0"
    by (simp add: mach_read_ull_def mach_read_from_4_def)
  have g: "groups_there gs 0 (demo_crash n)" for gs
    by (simp add: groups_there_def f lsn_in_data_def)
  have h: "buffer_holds no_parser (map mtr_log_group demo_mtrs) (demo_crash n)" by (rule demo_crash) (use n in simp)
  obtain k rs1 where k: "recv_parse_log_recs no_parser (\<lambda>_. False) True (demo_crash n) = Some rs1"
    "\<forall>space page_no page page0 j. \<not> False \<longrightarrow> j \<le> length demo_mtrs \<longrightarrow> groups_there (map mtr_log_group demo_mtrs) j (demo_crash n) \<longrightarrow>
      unat (mach_read_ull page FIL_PAGE_LSN) = lsn_after (recovered_lsn (demo_crash n)) (take j (map mtr_log_group demo_mtrs)) \<or>
        j = 0 \<and> unat (mach_read_ull page FIL_PAGE_LSN) \<le> recovered_lsn (demo_crash n) \<longrightarrow>
      same_page page (fold page_effect (concat (map (page_writes space page_no) (take j demo_mtrs))) page0) \<longrightarrow>
      (\<exists>page' note rs2. recv_recover_page no_parser (\<lambda>_. 0) False 0 space page_no (page, None) (applying rs1) = Some ((page', None), note, rs2) \<and>
        same_page page' (fold page_effect (concat (map (page_writes space page_no) (take k demo_mtrs))) page0))"
    using crash_recovery [OF h demo_mtrs_ok, of "\<lambda>_. False" "\<lambda>_. 0"] f by auto
  have "\<exists>page' note rs2. recv_recover_page no_parser (\<lambda>_. 0) False 0 1 5 (\<lambda>_. 0, None) (applying rs1) = Some ((page', None), note, rs2) \<and>
      same_page page' (fold page_effect (concat (map (page_writes 1 5) (take k demo_mtrs))) (\<lambda>_. 0))"
    using k(2) [rule_format, of 0 "\<lambda>_. 0" 1 5 "\<lambda>_. 0"] g z f(2) by auto
  then show ?thesis using k(1) n by blast
qed

end
