(* ===== verification/Redo.thy ===== *)
theory Redo
  imports Recovery
begin

text \<open>
  From a mini-transaction to recovery: what a committed mini-transaction leaves in the log buffer, and
  what scanning the blocks of a log gives back.
\<close>

section \<open>The log of a mini-transaction\<close>

text \<open>The pages the mini-transaction holds, changed by its writes in their order.\<close>

type_synonym pages = "page_id \<Rightarrow> mem"

fun run_writes :: "mtr_writes \<Rightarrow> pages \<times> mtr_t \<Rightarrow> (pages \<times> mtr_t) option" where
  "run_writes [] s = Some s"
| "run_writes ((space, page_no, w) # ws) (pages, mtr) =
     (case run_write w (pages (space, page_no), mtr) of
        None \<Rightarrow> None
      | Some (page, mtr1) \<Rightarrow> run_writes ws (pages((space, page_no) := page), mtr1))"

fun write_offset :: "page_write \<Rightarrow> nat" where
  "write_offset (Ulint_write off val type) = off"
| "write_offset (Dulint_write off val) = off"
| "write_offset (String_write off str) = off"

definition write_allowed :: "page_write \<Rightarrow> bool" where
  "write_allowed w \<longleftrightarrow> write_ok w \<and> FIL_PAGE_DATA \<le> write_offset w"

text \<open>A page carries its own number and that of its space.\<close>

definition page_named :: "pages \<Rightarrow> page_id \<Rightarrow> bool" where
  "page_named pages i \<longleftrightarrow> page_space (pages i) = fst i \<and> page_number (pages i) = snd i"

lemma page_effect_below: "a < write_offset w \<Longrightarrow> page_effect w p a = p a"
  by (cases w) (simp_all add: mach_write_to_1_def mach_write_to_2_def mach_write_to_4_def mach_write_to_8_def mem_put_apply)

lemma page_effect_name:
  assumes "write_allowed w"
  shows "page_space (page_effect w p) = page_space p" "page_number (page_effect w p) = page_number p"
proof -
  have "page_effect w p a = p a" if "a < 38" for a
    by (rule page_effect_below) (use assms that in \<open>simp add: write_allowed_def FIL_PAGE_DATA_def\<close>)
  then show "page_space (page_effect w p) = page_space p" "page_number (page_effect w p) = page_number p"
    by (simp_all add: page_space_def page_number_def mach_read_from_4_def FIL_PAGE_OFFSET_def FIL_PAGE_ARCH_LOG_NO_OR_SPACE_ID_def)
qed

lemma run_writes_log:
  assumes "dyn_ok (mlog mtr)" "log_mode mtr \<noteq> MTR_LOG_NONE" "list_all (\<lambda>(space, page_no, w). write_allowed w) ws"
    "\<forall>(space, page_no, w) \<in> set ws. page_named pages (space, page_no)"
  shows "\<exists>pages' mtr'. run_writes ws (pages, mtr) = Some (pages', mtr') \<and> dyn_ok (mlog mtr') \<and>
    dyn_content (mlog mtr') = dyn_content (mlog mtr) @ concat (map (\<lambda>(space, page_no, w). rec_enc (write_rec space page_no w)) ws) \<and>
    n_log_recs mtr' = n_log_recs mtr + length ws \<and> log_mode mtr' = log_mode mtr \<and> (ws \<noteq> [] \<longrightarrow> modifications mtr') \<and>
    (\<forall>s p. pages' (s, p) = fold page_effect (page_writes s p ws) (pages (s, p)))"
  using assms
proof (induction ws arbitrary: pages mtr)
  case (Cons x ws)
  obtain space page_no w where x: "x = (space, page_no, w)" by (cases x)
  let ?i = "(space, page_no)" and ?q = "page_effect w (pages (space, page_no))"
  have ok: "write_ok w" "write_allowed w" "page_named pages ?i" using Cons.prems(3,4) by (simp_all add: x write_allowed_def)
  obtain mtr1 where r: "run_write w (pages ?i, mtr) = Some (?q, mtr1)" "logged mtr (rec_bytes w ?q) mtr1"
    using run_write_logs [OF Cons.prems(1,2) ok(1)] by blast
  have id: "rec_bytes w ?q = rec_enc (write_rec space page_no w)"
    using ok(3) page_effect_name [OF ok(2)] by (simp add: rec_bytes_def write_rec_def page_named_def)
  have named: "\<forall>(s, p, v) \<in> set ws. page_named (pages(?i := ?q)) (s, p)"
  proof -
    have "page_named (pages(?i := ?q)) (s, p)" if "page_named pages (s, p)" for s p
      using that ok(3) page_effect_name [OF ok(2)] by (auto simp: page_named_def)
    then show ?thesis using Cons.prems(4) by fastforce
  qed
  have l: "dyn_ok (mlog mtr1)" "log_mode mtr1 \<noteq> MTR_LOG_NONE" "list_all (\<lambda>(space, page_no, w). write_allowed w) ws"
    "dyn_content (mlog mtr1) = dyn_content (mlog mtr) @ rec_enc (write_rec space page_no w)"
    "n_log_recs mtr1 = n_log_recs mtr + 1" "modifications mtr1" "log_mode mtr1 = log_mode mtr"
    using r(2) id Cons.prems(2,3) by (simp_all add: logged_def)
  obtain pages' mtr' where ih: "run_writes ws (pages(?i := ?q), mtr1) = Some (pages', mtr')" "dyn_ok (mlog mtr')"
    "dyn_content (mlog mtr') = dyn_content (mlog mtr1) @ concat (map (\<lambda>(space, page_no, w). rec_enc (write_rec space page_no w)) ws)"
    "n_log_recs mtr' = n_log_recs mtr1 + length ws" "log_mode mtr' = log_mode mtr1" "ws \<noteq> [] \<longrightarrow> modifications mtr'"
    "\<forall>s p. pages' (s, p) = fold page_effect (page_writes s p ws) ((pages(?i := ?q)) (s, p))"
    using Cons.IH [OF l(1-3) named] by blast
  have "modifications mtr'" using ih(1,6) l(6) by (cases "ws = []") auto
  moreover have "pages' (s, p) = fold page_effect (page_writes s p (x # ws)) (pages (s, p))" for s p
    using ih(7) by (simp add: x page_writes_def)
  ultimately show ?case using ih(1-5) r(1) l by (simp add: x)
qed (simp add: page_writes_def)

lemma mtr_group_writes:
  assumes "ws \<noteq> []"
  shows "mtr_group (length ws) (concat (map (\<lambda>(space, page_no, w). rec_enc (write_rec space page_no w)) ws)) =
    group_enc (mtr_log_group ws)"
proof (cases "length ws = 1")
  case True
  then obtain x where "ws = [x]" by (auto simp: length_Suc_conv)
  then show ?thesis by (cases x) (simp add: flagged_enc_def)
next
  case False
  then have "1 < length ws" using assms by (cases ws) auto
  moreover have "mtr_log_group ws = Multi_recs (map (\<lambda>(space, page_no, w). write_rec space page_no w) ws)"
    using False by (cases ws rule: mtr_log_group.cases) simp_all
  moreover have "map rec_enc (map (\<lambda>(space, page_no, w). write_rec space page_no w) ws) =
      map (\<lambda>(space, page_no, w). rec_enc (write_rec space page_no w)) ws"
    by (simp add: split_beta)
  ultimately show ?thesis by (simp add: mtr_group_def del: map_map)
qed


lemma mtr_commit_succeeds:
  assumes "dyn_ok (mlog mtr)" "log_mode mtr \<noteq> MTR_LOG_NONE" "dyn_content (mlog mtr) \<noteq> []"
    "length (mtr_group (n_log_recs mtr) (dyn_content (mlog mtr))) < buf_size log div 2"
    "log_has_room (length (mtr_group (n_log_recs mtr) (dyn_content (mlog mtr)))) log"
  shows "mtr_commit oldest mtr log \<noteq> None"
proof -
  note g = mtr_mark_group_content [OF assms(1-3)]
  have "dyn_array_get_data_size (mlog (mtr_mark_group mtr)) = length (mtr_group (n_log_recs mtr) (dyn_content (mlog mtr)))"
    using dyn_array_get_data_size_length [OF g(1)] g(2) by simp
  then have "log_reserve_and_open (dyn_array_get_data_size (mlog (mtr_mark_group mtr))) log \<noteq> None"
    using assms(4,5) by (simp add: log_reserve_and_open_def)
  then show ?thesis
    by (auto simp: mtr_commit_def mtr_log_reserve_and_write_def Let_def split: option.splits prod.splits)
qed


end
