(* ===== verification/Scan.thy ===== *)
theory Scan
  imports Redo
begin

text \<open>
  What scanning the blocks of a log gives back: the bytes in the data parts of the blocks, in their
  order, whatever the segments they are read in and wherever parsing has got to in between.
\<close>

section \<open>A log on disk\<close>

text \<open>
  The log on disk as a memory addressed by log sequence number, the bytes in its data parts between
  two numbers, and its blocks: block \<open>K\<close> starts at \<open>512 * K\<close>.
\<close>

definition in_data :: "nat \<Rightarrow> bool" where
  "in_data l \<longleftrightarrow> 12 \<le> l mod 512 \<and> l mod 512 < 508"

definition log_bytes :: "mem \<Rightarrow> nat \<Rightarrow> nat \<Rightarrow> byte list" where
  "log_bytes disk c e = map disk (filter in_data [c..<e])"

definition block_valid :: "mem \<Rightarrow> nat \<Rightarrow> nat \<Rightarrow> bool" where
  "block_valid disk K len \<longleftrightarrow> blk_is disk K K len \<and> log_block_checksum_is_ok_or_old_format disk (512 * K)"

text \<open>The blocks from \<open>K0\<close> to \<open>L\<close> are written, the last with \<open>r\<close> bytes, and those before it are full.\<close>

definition disk_log :: "mem \<Rightarrow> nat \<Rightarrow> nat \<Rightarrow> nat \<Rightarrow> bool" where
  "disk_log disk K0 L r \<longleftrightarrow> K0 \<le> L \<and> r < 512 \<and> block_valid disk L r \<and>
     (\<forall>K. K0 \<le> K \<and> K < L \<longrightarrow> block_valid disk K 512 \<and>
        log_block_get_checkpoint_no disk (512 * K) \<le> log_block_get_checkpoint_no disk (512 * (K + 1)))"

lemma log_bytes_append: "a \<le> b \<Longrightarrow> b \<le> c \<Longrightarrow> log_bytes m a c = log_bytes m a b @ log_bytes m b c"
proof -
  assume "a \<le> b" "b \<le> c"
  then have "[a..<c] = [a..<b] @ [b..<c]" using upt_add_eq_append [of a b "c - b"] by simp
  then show ?thesis by (simp add: log_bytes_def)
qed

lemma log_bytes_same [simp]: "log_bytes m a a = []"
  by (simp add: log_bytes_def)

lemma in_block: "x < 512 \<Longrightarrow> in_data (512 * K + x) \<longleftrightarrow> 12 \<le> x \<and> x < 508"
  by (simp add: in_data_def)

text \<open>Within a block these are the bytes that are copied to the parsing buffer.\<close>

lemma log_bytes_block:
  assumes "x \<le> len" "len \<le> 512"
  shows "log_bytes m (512 * K + x) (512 * K + len) =
    (if max x 12 < min len 508 then copy_in m (512 * K + max x 12) (min len 508 - max x 12) else [])"
proof -
  have f: "filter in_data [512 * K + x..<512 * K + len] = [512 * K + max x 12..<512 * K + min len 508]"
    using assms
  proof (induction len)
    case (Suc n)
    show ?case
    proof (cases "x \<le> n")
      case True
      then have ih: "filter in_data [512 * K + x..<512 * K + n] = [512 * K + max x 12..<512 * K + min n 508]" using Suc by simp
      have s: "[512 * K + x..<512 * K + Suc n] = [512 * K + x..<512 * K + n] @ [512 * K + n]" using True by simp
      have d: "in_data (512 * K + n) \<longleftrightarrow> 12 \<le> n \<and> n < 508" using Suc.prems by (intro in_block) simp
      show ?thesis unfolding s using ih d True by (auto simp: min_def max_def)
    next
      case False
      then have "x = Suc n" using Suc.prems by simp
      then show ?thesis by (auto simp: min_def max_def)
    qed
  qed simp
  show ?thesis
  proof (cases "max x 12 < min len 508")
    case True
    have "[a + p..<a + q] = map ((+) (a + p)) [0..<q - p]" if "p < q" for a p q :: nat
      by (rule nth_equalityI) (use that in auto)
    from this [OF True, of "512 * K"]
    have "[512 * K + max x 12..<512 * K + min len 508] = map ((+) (512 * K + max x 12)) [0..<min len 508 - max x 12]" .
    then show ?thesis using True by (simp add: log_bytes_def f copy_in_def comp_def)
  next
    case False
    then have "512 * K + min len 508 \<le> 512 * K + max x 12" by linarith
    then have "[512 * K + max x 12..<512 * K + min len 508] = []" by (rule upt_conv_Nil)
    then show ?thesis using False by (simp only: log_bytes_def f if_False list.map)
  qed
qed

section \<open>One block\<close>

lemma mem_put_Nil: "mem_put f q [] = f"
  by (rule ext) (auto simp: mem_put_apply)

text \<open>What a scan from \<open>e\<close> up to \<open>e'\<close> does to the recovery system.\<close>

definition scanned_up_to :: "mem \<Rightarrow> nat \<Rightarrow> nat \<Rightarrow> recv_sys \<Rightarrow> recv_sys \<Rightarrow> bool" where
  "scanned_up_to disk e e' rs rs' \<longleftrightarrow> (\<exists>cp. rs' = rs\<lparr>
     rbuf := mem_put (rbuf rs) (rlen rs) (log_bytes disk e e'), rlen := rlen rs + length (log_bytes disk e e'),
     scanned_lsn := e', scanned_checkpoint_no := cp\<rparr>)"

lemma block_valid_read:
  assumes "block_valid disk K len" "\<And>i. i < 512 \<Longrightarrow> m (b + i) = disk (512 * K + i)"
  shows "log_block_get_hdr_no m b = log_block_convert_lsn_to_no (512 * K)" "log_block_get_data_len m b = len"
    "log_block_checksum_is_ok_or_old_format m b"
    "log_block_get_checkpoint_no m b = log_block_get_checkpoint_no disk (512 * K)"
    "log_block_get_flush_bit m b = log_block_get_flush_bit disk (512 * K)"
proof -
  have c: "i < 508 \<Longrightarrow> m (b + i) = disk (512 * K + i)" for i using assms(2) by simp
  have e1: "log_block_get_hdr_no m b = log_block_get_hdr_no disk (512 * K)"
    using assms(2) [of 0] assms(2) [of 1] assms(2) [of 2] assms(2) [of 3]
    by (simp add: log_block_get_hdr_no_def mach_read_from_4_def log_block_consts)
  have e2: "log_block_get_data_len m b = log_block_get_data_len disk (512 * K)"
    using assms(2) [of 4] assms(2) [of 5] by (simp add: log_block_get_data_len_def mach_read_from_2_def log_block_consts add.commute)
  have e3: "log_block_get_checksum m b = log_block_get_checksum disk (512 * K)"
    using assms(2) [of 508] assms(2) [of 509] assms(2) [of 510] assms(2) [of 511]
    by (simp add: log_block_get_checksum_def mach_read_from_4_def log_block_consts add.commute)
  show "log_block_get_checkpoint_no m b = log_block_get_checkpoint_no disk (512 * K)"
    using assms(2) [of 8] assms(2) [of 9] assms(2) [of 10] assms(2) [of 11]
    by (simp add: log_block_get_checkpoint_no_def mach_read_from_4_def log_block_consts add.commute)
  show "log_block_get_flush_bit m b = log_block_get_flush_bit disk (512 * K)"
    using assms(2) [of 0] assms(2) [of 1] assms(2) [of 2] assms(2) [of 3]
    by (simp add: log_block_get_flush_bit_def mach_read_from_4_def log_block_consts)
  show "log_block_get_hdr_no m b = log_block_convert_lsn_to_no (512 * K)" "log_block_get_data_len m b = len"
    using assms(1) e1 e2 by (simp_all add: block_valid_def blk_is_def)
  show "log_block_checksum_is_ok_or_old_format m b"
    using assms(1) e1 e3 calc_checksum_cong [of m b disk "512 * K", OF c]
    by (auto simp: block_valid_def log_block_checksum_is_ok_or_old_format_def split: if_splits)
qed

lemma scan_block_valid:
  assumes v: "block_valid disk K len" and rd: "\<And>i. i < 512 \<Longrightarrow> m (b + i) = disk (512 * K + i)"
    and len: "len \<le> 512" and x: "scanned_lsn rs = 512 * K + x" "x \<le> len" and c: "0 < parse_start_lsn rs" "parse_start_lsn rs \<le> scanned_lsn rs"
    and ok: "\<not> found_corrupt_log rs" "rlen rs + 2048 < RECV_PARSING_BUF_SIZE"
      "scanned_checkpoint_no rs \<le> log_block_get_checkpoint_no disk (512 * K)"
  shows "\<exists>contiguous' rs'. scan_block True m b (512 * K) contiguous found rs =
      Some (len < 512, 512 * K + len, contiguous', found \<or> x < len, rs') \<and>
    scanned_up_to disk (512 * K + x) (512 * K + len) rs rs' \<and>
    scanned_checkpoint_no rs' \<le> log_block_get_checkpoint_no disk (512 * K)"
proof -
  note r = block_valid_read [OF v rd]
  have st: "\<not> stale_checkpoint m b rs" using leD [OF ok(3)] r(4) by (simp add: stale_checkpoint_def)
  let ?cont = "if log_block_get_flush_bit disk (512 * K) \<and> 512 * K > contiguous then 512 * K else contiguous"
  show ?thesis
  proof (cases "x < len")
    case True
    let ?new = "log_bytes disk (512 * K + x) (512 * K + len)"
    let ?rs1 = "rs\<lparr>rbuf := mem_put (rbuf rs) (rlen rs) ?new, rlen := rlen rs + length ?new\<rparr>"
    let ?rs = "?rs1\<lparr>scanned_lsn := 512 * K + len, scanned_checkpoint_no := log_block_get_checkpoint_no disk (512 * K)\<rparr>"
    have small: "length ?new \<le> 512" using x(2) len by (auto simp: log_bytes_block intro: le_trans [OF diff_le_self])
    have new: "copy_in m (b + max x 12) (min len 508 - max x 12) = ?new" if "max x 12 < min len 508"
    proof -
      have "copy_in m (b + max x 12) (min len 508 - max x 12) = copy_in disk (512 * K + max x 12) (min len 508 - max x 12)"
        by (rule copy_in_cong) (use rd [of "max x 12 + _"] that in \<open>simp add: add.assoc\<close>)
      then show ?thesis using x(2) len that by (simp add: log_bytes_block)
    qed
    have nl: "length ?new = min len 508 - max x 12" if "max x 12 < min len 508"
      using new [OF that] length_copy_in by metis
    have none: "?new = []" "length ?new = 0" if "\<not> max x 12 < min len 508"
      using log_bytes_block [OF x(2) len, of disk K] that by (simp_all only: if_False list.size)
    have more: "512 * K + len - scanned_lsn rs = len - x" "len - (len - x) = x" using x True by simp_all
    have add: "recv_sys_add_to_parsing_buf m b (512 * K + len) rs = Some (True, ?rs1)"
      unfolding recv_sys_add_to_parsing_buf_def Let_def
      using c x True more r(2) new nl none small ok(2)
      by (auto simp: log_block_consts mem_put_Nil)
    have "scan_block True m b (512 * K) contiguous found rs = Some (len < 512, 512 * K + len, ?cont, True, ?rs)"
      using r st c x True add ok(1,2) by (simp add: scan_block_def Let_def log_block_consts)
    moreover have "scanned_up_to disk (512 * K + x) (512 * K + len) rs ?rs" unfolding scanned_up_to_def by fastforce
    ultimately show ?thesis using True by auto
  next
    case False
    then have e: "x = len" using x(2) by simp
    have "scan_block True m b (512 * K) contiguous found rs = Some (len < 512, 512 * K + len, ?cont, found, rs)"
      using r st c x e ok(1,2) by (simp add: scan_block_def Let_def log_block_consts)
    moreover have "scanned_up_to disk (512 * K + x) (512 * K + len) rs rs"
    proof -
      show ?thesis using x e mem_put_Nil [of "rbuf rs" "rlen rs"] unfolding scanned_up_to_def by (intro exI [of _ "scanned_checkpoint_no rs"]) simp
    qed
    ultimately show ?thesis using e ok(3) by auto
  qed
qed

section \<open>A segment of blocks\<close>

lemma mem_put_put: "mem_put (mem_put f q xs) (q + length xs) ys = mem_put f q (xs @ ys)"
  by (rule ext) (auto simp: mem_put_apply nth_append)

lemma scanned_up_to_trans:
  assumes "scanned_up_to disk a b rs rs1" "scanned_up_to disk b c rs1 rs2" "a \<le> b" "b \<le> c"
  shows "scanned_up_to disk a c rs rs2"
proof -
  note l = log_bytes_append [OF assms(3,4), of disk]
  show ?thesis using assms(1,2) unfolding scanned_up_to_def by (auto simp: l mem_put_put add.assoc)
qed

lemma scanned_up_to_refl: "scanned_lsn rs = e \<Longrightarrow> scanned_up_to disk e e rs rs"
  unfolding scanned_up_to_def by (rule exI [of _ "scanned_checkpoint_no rs"]) (simp add: mem_put_Nil)

lemma scanned_up_to_fields:
  assumes "scanned_up_to disk e e' rs rs'"
  shows "rbuf rs' = mem_put (rbuf rs) (rlen rs) (log_bytes disk e e')" "rlen rs' = rlen rs + length (log_bytes disk e e')"
    "scanned_lsn rs' = e'" "parse_start_lsn rs' = parse_start_lsn rs" "found_corrupt_log rs' = found_corrupt_log rs"
    "recovered_offset rs' = recovered_offset rs" "recovered_lsn rs' = recovered_lsn rs"
    "page_recs s p rs' = page_recs s p rs" "addr_hash rs' = addr_hash rs" "n_addrs rs' = n_addrs rs"
  using assms by (auto simp: scanned_up_to_def page_recs_chain recv_hash_def)

lemma length_log_bytes: "length (log_bytes disk e e') \<le> e' - e"
  using length_filter_le [of in_data "[e..<e']"] by (simp add: log_bytes_def)

definition log_end :: "nat \<Rightarrow> nat \<Rightarrow> nat \<Rightarrow> nat" where
  "log_end L r K = (if L < K then 512 * L + r else 512 * K)"

lemma scan_blocks_log:
  assumes "disk_log disk K0 L r" "K0 \<le> K" "K \<le> L" "\<And>i. i < 512 * n \<Longrightarrow> m (b + i) = disk (512 * K + i)"
    "scanned_lsn rs = 512 * K + x" "x \<le> (if K = L then r else 512)" "n = 0 \<longrightarrow> x = 0"
    "0 < parse_start_lsn rs" "parse_start_lsn rs \<le> scanned_lsn rs" "\<not> found_corrupt_log rs"
    "rlen rs + 512 * n + 2048 < RECV_PARSING_BUF_SIZE" "scanned_checkpoint_no rs \<le> log_block_get_checkpoint_no disk (512 * K)"
  shows "\<exists>contiguous' rs'. scan_blocks True m b n (512 * K) contiguous found rs =
      Some (L < K + n, log_end L r (K + n), contiguous', found \<or> 512 * K + x < log_end L r (K + n), rs') \<and>
    512 * K + x \<le> log_end L r (K + n) \<and>
    scanned_up_to disk (512 * K + x) (log_end L r (K + n)) rs rs' \<and>
    (K + n \<le> L \<longrightarrow> scanned_checkpoint_no rs' \<le> log_block_get_checkpoint_no disk (512 * (K + n)))"
  using assms(2-)
proof (induction n arbitrary: K b x contiguous found rs)
  case 0
  then have "log_end L r K = 512 * K" by (simp add: log_end_def)
  then show ?case using 0 scanned_up_to_refl [of rs "512 * K" disk] by simp
next
  case (Suc n)
  let ?len = "if K = L then r else 512"
  have v: "block_valid disk K ?len" "?len \<le> 512" using assms(1) Suc.prems(1,2) by (auto simp: disk_log_def)
  have rd: "m (b + i) = disk (512 * K + i)" if "i < 512" for i using Suc.prems(3) that by simp
  obtain c1 rs1 where s: "scan_block True m b (512 * K) contiguous found rs =
      Some (?len < 512, 512 * K + ?len, c1, found \<or> x < ?len, rs1)"
    "scanned_up_to disk (512 * K + x) (512 * K + ?len) rs rs1"
    "scanned_checkpoint_no rs1 \<le> log_block_get_checkpoint_no disk (512 * K)"
    using scan_block_valid [OF v(1) rd v(2) Suc.prems(4,5,7,8,9) _ Suc.prems(11), of contiguous found] Suc.prems(10) by auto
  show ?case
  proof (cases "K = L")
    case True
    have "r < 512" using assms(1) by (simp add: disk_log_def)
    then have "scan_blocks True m b (Suc n) (512 * K) contiguous found rs = Some (True, 512 * K + r, c1, found \<or> x < r, rs1)"
      using s(1) True by simp
    then show ?thesis using s(2) True Suc.prems(5) by (simp add: log_end_def)
  next
    case False
    then have lt: "K < L" using Suc.prems(2) by simp
    have step: "scan_blocks True m b (Suc n) (512 * K) contiguous found rs =
        scan_blocks True m (b + 512) n (512 * (K + 1)) c1 (found \<or> x < 512) rs1"
      using s(1) False by (simp add: log_block_consts add.commute)
    note f = scanned_up_to_fields [OF s(2)]
    have len1: "rlen rs1 \<le> rlen rs + 512" using f(2) length_log_bytes [of disk "512 * K + x" "512 * K + ?len"] False by simp
    have "\<exists>contiguous' rs'. scan_blocks True m (b + 512) n (512 * (K + 1)) c1 (found \<or> x < 512) rs1 =
        Some (L < K + 1 + n, log_end L r (K + 1 + n), contiguous', (found \<or> x < 512) \<or> 512 * (K + 1) + 0 < log_end L r (K + 1 + n), rs') \<and>
      512 * (K + 1) + 0 \<le> log_end L r (K + 1 + n) \<and>
      scanned_up_to disk (512 * (K + 1) + 0) (log_end L r (K + 1 + n)) rs1 rs' \<and>
      (K + 1 + n \<le> L \<longrightarrow> scanned_checkpoint_no rs' \<le> log_block_get_checkpoint_no disk (512 * (K + 1 + n)))"
    proof (rule Suc.IH)
      show "m (b + 512 + i) = disk (512 * (K + 1) + i)" if "i < 512 * n" for i
        using Suc.prems(3) [of "512 + i"] that by (simp add: ac_simps)
      have "log_block_get_checkpoint_no disk (512 * K) \<le> log_block_get_checkpoint_no disk (512 * (K + 1))"
        using assms(1) Suc.prems(1) lt by (simp add: disk_log_def)
      then show "scanned_checkpoint_no rs1 \<le> log_block_get_checkpoint_no disk (512 * (K + 1))" using s(3) by simp
    qed (use Suc.prems lt f len1 False in \<open>simp_all\<close>)
    then obtain c2 rs2 where i: "scan_blocks True m (b + 512) n (512 * (K + 1)) c1 (found \<or> x < 512) rs1 =
        Some (L < K + Suc n, log_end L r (K + Suc n), c2, (found \<or> x < 512) \<or> 512 * (K + 1) < log_end L r (K + Suc n), rs2)"
      "512 * (K + 1) \<le> log_end L r (K + Suc n)" "scanned_up_to disk (512 * (K + 1)) (log_end L r (K + Suc n)) rs1 rs2"
      "K + Suc n \<le> L \<longrightarrow> scanned_checkpoint_no rs2 \<le> log_block_get_checkpoint_no disk (512 * (K + Suc n))" by auto
    have x: "x \<le> 512" "512 * K + x \<le> 512 * (K + 1)" using Suc.prems(5) False by simp_all
    have "scanned_up_to disk (512 * K + x) (log_end L r (K + Suc n)) rs rs2"
      using scanned_up_to_trans [OF _ i(3) x(2) i(2)] s(2) False by (simp add: add.commute)
    moreover have "((found \<or> x < 512) \<or> 512 * (K + 1) < log_end L r (K + Suc n)) \<longleftrightarrow> found \<or> 512 * K + x < log_end L r (K + Suc n)"
      using i(2) x by auto
    ultimately show ?thesis using step i x by auto
  qed
qed

section \<open>Counting the bytes of the log\<close>

definition data_count :: "nat \<Rightarrow> nat" where
  "data_count l = 496 * (l div 512) + min (l mod 512 - 12) 496"

lemma data_count_Suc: "data_count (Suc l) = data_count l + (if in_data l then 1 else 0)"
proof (cases "l mod 512 = 511")
  case True
  then have "Suc l mod 512 = 0" "Suc l div 512 = Suc (l div 512)" by (simp_all add: mod_Suc div_Suc)
  then show ?thesis using True by (simp add: data_count_def in_data_def)
next
  case False
  then have "Suc l mod 512 = Suc (l mod 512)" "Suc l div 512 = l div 512"
    using mod_less_divisor [of 512 l] by (auto simp: mod_Suc div_Suc)
  moreover have "min (Suc m - 12) 496 = min (m - 12) 496 + (if 12 \<le> m \<and> m < 508 then 1 else 0)" for m :: nat
    by (simp add: min_def, arith)
  ultimately show ?thesis by (simp add: data_count_def in_data_def)
qed

lemma length_log_bytes_count: "c \<le> e \<Longrightarrow> length (log_bytes disk c e) = data_count e - data_count c \<and> data_count c \<le> data_count e"
proof (induction e rule: nat_induct_at_least [of c])
  case (Suc e)
  have "log_bytes disk c (Suc e) = log_bytes disk c e @ (if in_data e then [disk e] else [])"
    using Suc.hyps by (simp add: log_bytes_def)
  then show ?case using Suc by (auto simp: data_count_Suc)
qed simp

lemma data_count_mono: "c \<le> e \<Longrightarrow> data_count c \<le> data_count e"
  using length_log_bytes_count by blast

lemma data_count_no: "lsn_in_data l \<Longrightarrow> data_count l = data_no l"
  by (auto simp: data_count_def data_no_def lsn_in_data_def)

lemma data_count_after:
  assumes "lsn_in_data c"
  shows "data_count (lsn_after c gs) = data_count c + length (concat (map group_enc gs))"
proof -
  have "data_no (lsn_after c gs) = data_no c + length (concat (map group_enc gs))"
    using assms unfolding lsn_after_def lsn_in_data_def by (intro data_no_lsn_add(1)) simp_all
  then show ?thesis using data_count_no [OF assms] data_count_no [OF lsn_after_in_data [OF assms]] by simp
qed

section \<open>Scanning and parsing\<close>

text \<open>
  The log from \<open>c\<close> on holds the groups \<open>gs\<close>, of at most a megabyte each; it ends at \<open>E\<close>, in the
  middle of one perhaps.
\<close>

definition log_holds :: "body_parser \<Rightarrow> mem \<Rightarrow> nat \<Rightarrow> nat \<Rightarrow> log_group list \<Rightarrow> bool" where
  "log_holds other disk c E gs \<longleftrightarrow> 0 < c \<and> lsn_in_data c \<and> c \<le> E \<and> list_all (group_wf other) gs \<and>
     (\<forall>g \<in> set gs. length (group_enc g) \<le> 1024 * 1024) \<and>
     (\<exists>ys. concat (map group_enc gs) = log_bytes disk c E @ ys)"

definition group_fits :: "mem \<Rightarrow> nat \<Rightarrow> nat \<Rightarrow> log_group list \<Rightarrow> nat \<Rightarrow> bool" where
  "group_fits disk c e gs k \<longleftrightarrow>
     length (concat (map group_enc (take k gs))) \<le> length (log_bytes disk c e) \<and> lsn_after c (take k gs) \<le> e"

text \<open>The log is scanned up to \<open>e\<close>, and all groups that fit, the first \<open>k\<close>, are parsed.\<close>

definition scan_core :: "(ulint \<Rightarrow> bool) \<Rightarrow> mem \<Rightarrow> nat \<Rightarrow> log_group list \<Rightarrow> nat \<Rightarrow> nat \<Rightarrow> recv_sys \<Rightarrow> bool" where
  "scan_core deleted disk c gs e k rs \<longleftrightarrow> c \<le> e \<and> k \<le> length gs \<and>
     (0 < k \<longrightarrow> group_fits disk c e gs k) \<and> (k < length gs \<longrightarrow> \<not> group_fits disk c e gs (Suc k)) \<and>
     recovered_offset rs \<le> rlen rs \<and>
     log_bytes disk c e = concat (map group_enc (take k gs)) @ copy_in (rbuf rs) (recovered_offset rs) (rlen rs - recovered_offset rs) \<and>
     scanned_lsn rs = e \<and> parse_start_lsn rs = c \<and> \<not> found_corrupt_log rs \<and> recovered_lsn rs = lsn_after c (take k gs) \<and>
     (\<forall>s p. page_recs s p rs = (if deleted s then [] else log_recs s p (take k gs) c)) \<and>
     hash_pending rs"

definition scan_state_ok :: "(ulint \<Rightarrow> bool) \<Rightarrow> mem \<Rightarrow> nat \<Rightarrow> log_group list \<Rightarrow> nat \<Rightarrow> nat \<Rightarrow> recv_sys \<Rightarrow> bool" where
  "scan_state_ok deleted disk c gs e k rs \<longleftrightarrow>
     scan_core deleted disk c gs e k rs \<and> recovered_offset rs \<le> RECV_PARSING_BUF_SIZE div 4"

lemma scan_state_okD:
  assumes "scan_state_ok deleted disk c gs e k rs"
  shows "c \<le> e" "k \<le> length gs" "0 < k \<longrightarrow> group_fits disk c e gs k" "k < length gs \<longrightarrow> \<not> group_fits disk c e gs (Suc k)"
    "recovered_offset rs \<le> rlen rs"
    "log_bytes disk c e = concat (map group_enc (take k gs)) @ copy_in (rbuf rs) (recovered_offset rs) (rlen rs - recovered_offset rs)"
    "scanned_lsn rs = e" "parse_start_lsn rs = c" "\<not> found_corrupt_log rs" "recovered_lsn rs = lsn_after c (take k gs)"
    "recovered_offset rs \<le> RECV_PARSING_BUF_SIZE div 4"
    "page_recs s p rs = (if deleted s then [] else log_recs s p (take k gs) c)" "hash_pending rs"
  using assms unfolding scan_state_ok_def scan_core_def by blast+

lemma concat_take_Suc:
  "k < length gs \<Longrightarrow> concat (map group_enc (take (Suc k) gs)) = concat (map group_enc (take k gs)) @ group_enc (gs ! k)"
  by (simp add: take_Suc_conv_app_nth)

text \<open>What is not parsed is less than a group.\<close>

lemma unparsed_small:
  assumes h: "log_holds other disk c E gs" and s: "scan_state_ok deleted disk c gs e k rs" "e \<le> E"
  shows "rlen rs - recovered_offset rs \<le> 1024 * 1024"
proof -
  note d = scan_state_okD [OF s(1)]
  have c: "lsn_in_data c" using h by (simp add: log_holds_def)
  let ?enc = "\<lambda>k. length (concat (map group_enc (take k gs)))"
  have len: "length (log_bytes disk c e) = ?enc k + (rlen rs - recovered_offset rs)" unfolding d(6) by simp
  obtain ys where ys: "concat (map group_enc gs) = log_bytes disk c E @ ys" using h by (auto simp: log_holds_def)
  have all: "length (log_bytes disk c e) \<le> length (concat (map group_enc gs))"
    unfolding ys log_bytes_append [OF d(1) s(2), of disk] by simp
  show ?thesis
  proof (cases "k < length gs")
    case False
    then show ?thesis using len all d(2) by simp
  next
    case True
    have "length (log_bytes disk c e) \<le> ?enc (Suc k)"
    proof (rule ccontr)
      assume a: "\<not> ?thesis"
      then have "\<not> lsn_after c (take (Suc k) gs) \<le> e" using d(4) True by (simp add: group_fits_def)
      then have "data_count e \<le> data_count (lsn_after c (take (Suc k) gs))" by (intro data_count_mono) simp
      then have "data_count e \<le> data_count c + ?enc (Suc k)" unfolding data_count_after [OF c] .
      then show False using a length_log_bytes_count [OF d(1), of disk] by linarith
    qed
    also have "\<dots> = ?enc k + length (group_enc (gs ! k))" unfolding concat_take_Suc [OF True] by simp
    also have "length (group_enc (gs ! k)) \<le> 1024 * 1024" using h True by (simp add: log_holds_def)
    finally show ?thesis using len by simp
  qed
qed

lemma rlen_small:
  assumes "log_holds other disk c E gs" "scan_state_ok deleted disk c gs e k rs" "e \<le> E"
  shows "rlen rs + RECV_SCAN_SIZE + 2048 < RECV_PARSING_BUF_SIZE"
  using unparsed_small [OF assms] scan_state_okD(5,11) [OF assms(2)]
  by (simp add: RECV_PARSING_BUF_SIZE_def RECV_SCAN_SIZE_def UNIV_PAGE_SIZE_def)

lemma reads_prefix:
  assumes "copy_in m b n = take n bs" "n \<le> length bs"
  shows "reads m b (b + n) bs"
proof -
  have "m (b + i) = bs ! i" if "i < n" for i
  proof -
    have "copy_in m b n ! i = take n bs ! i" using assms(1) by simp
    then show ?thesis using that assms(2) by (simp add: copy_in_def)
  qed
  then show ?thesis by (simp add: reads_def)
qed

lemma group_fits_mono:
  assumes "group_fits disk c e gs k" "e \<le> e'" "c \<le> e"
  shows "group_fits disk c e' gs k"
  using assms log_bytes_append [OF assms(3,2), of disk] by (auto simp: group_fits_def)

lemma justify_core:
  assumes "scan_core deleted disk c gs e k rs"
  shows "scan_core deleted disk c gs e k (recv_sys_justify_left_parsing_buf rs)"
    "recovered_offset (recv_sys_justify_left_parsing_buf rs) = 0"
    "scanned_checkpoint_no (recv_sys_justify_left_parsing_buf rs) = scanned_checkpoint_no rs"
proof -
  let ?n = "rlen rs - recovered_offset rs"
  have "copy_in (mem_put (rbuf rs) 0 (copy_in (rbuf rs) (recovered_offset rs) ?n)) 0 ?n = copy_in (rbuf rs) (recovered_offset rs) ?n"
    using copy_in_put [of "rbuf rs" 0 "copy_in (rbuf rs) (recovered_offset rs) ?n"] by simp
  then show "scan_core deleted disk c gs e k (recv_sys_justify_left_parsing_buf rs)"
    using assms unfolding scan_core_def
    by (simp add: recv_sys_justify_left_parsing_buf_def page_recs_chain recv_hash_def hash_pending_def)
qed (simp_all add: recv_sys_justify_left_parsing_buf_def)

lemma replay_keeps:
  "parse_start_lsn (fold (replay_group deleted) gs rs) = parse_start_lsn rs"
  "scanned_checkpoint_no (fold (replay_group deleted) gs rs) = scanned_checkpoint_no rs"
  "rbuf (fold (replay_group deleted) gs rs) = rbuf rs" "rlen (fold (replay_group deleted) gs rs) = rlen rs"
  "scanned_lsn (fold (replay_group deleted) gs rs) = scanned_lsn rs"
  "found_corrupt_log (fold (replay_group deleted) gs rs) = found_corrupt_log rs"
proof -
  have add: "parse_start_lsn (recv_add_to_hash_table deleted type s p body start fin rs) = parse_start_lsn rs"
    "scanned_checkpoint_no (recv_add_to_hash_table deleted type s p body start fin rs) = scanned_checkpoint_no rs"
    for type s p body start fin and rs
    unfolding recv_add_to_hash_table_def by (simp_all add: Let_def split: option.split)
  have st: "parse_start_lsn (store_rec deleted fin r rs) = parse_start_lsn rs"
    "scanned_checkpoint_no (store_rec deleted fin r rs) = scanned_checkpoint_no rs" for fin r rs
    by (cases r, simp add: add skipped_def)+
  have sts: "parse_start_lsn (fold (store_rec deleted fin) rl rs) = parse_start_lsn rs"
    "scanned_checkpoint_no (fold (store_rec deleted fin) rl rs) = scanned_checkpoint_no rs" for fin rl rs
    by (induction rl arbitrary: rs) (simp_all add: st)
  have g: "parse_start_lsn (replay_group deleted g rs) = parse_start_lsn rs"
    "scanned_checkpoint_no (replay_group deleted g rs) = scanned_checkpoint_no rs" for g rs
    by (cases g, simp_all add: st sts skipped_def)+
  show "parse_start_lsn (fold (replay_group deleted) gs rs) = parse_start_lsn rs"
    "scanned_checkpoint_no (fold (replay_group deleted) gs rs) = scanned_checkpoint_no rs"
    "rbuf (fold (replay_group deleted) gs rs) = rbuf rs" "rlen (fold (replay_group deleted) gs rs) = rlen rs"
    "scanned_lsn (fold (replay_group deleted) gs rs) = scanned_lsn rs"
    "found_corrupt_log (fold (replay_group deleted) gs rs) = found_corrupt_log rs"
    by (induction gs arbitrary: rs) (simp_all add: g)
qed

text \<open>Parsing after a scan from \<open>e\<close> to \<open>e'\<close>.\<close>

lemma parse_after_scan:
  assumes h: "log_holds other disk c E gs" and s: "scan_state_ok deleted disk c gs e k rs"
    and sc: "scanned_up_to disk e e' rs rs1" and e: "e \<le> e'" "e' \<le> E"
  shows "\<exists>j rs2. recv_parse_log_recs other deleted True rs1 = Some rs2 \<and> k \<le> j \<and>
    scan_state_ok deleted disk c gs e' j
      (if recovered_offset rs2 > RECV_PARSING_BUF_SIZE div 4 then recv_sys_justify_left_parsing_buf rs2 else rs2) \<and>
    scanned_checkpoint_no rs2 = scanned_checkpoint_no rs1"
proof -
  note d = scan_state_okD [OF s] and f = scanned_up_to_fields [OF sc]
  have c: "lsn_in_data c" "c \<le> e'" "list_all (group_wf other) gs" using h d(1) e by (auto simp: log_holds_def)
  obtain ys where ys: "concat (map group_enc gs) = log_bytes disk c E @ ys" using h by (auto simp: log_holds_def)
  let ?off = "recovered_offset rs" and ?n = "rlen rs1 - recovered_offset rs" and ?rest = "drop k gs"
  let ?enc = "\<lambda>gs. concat (map group_enc gs)"
  have tail: "copy_in (rbuf rs1) ?off ?n = copy_in (rbuf rs) ?off (rlen rs - ?off) @ log_bytes disk e e'"
  proof -
    have "?n = (rlen rs - ?off) + length (log_bytes disk e e')" using f(2) d(5) by simp
    then have "copy_in (rbuf rs1) ?off ?n = copy_in (rbuf rs1) ?off (rlen rs - ?off) @ copy_in (rbuf rs1) (rlen rs) (length (log_bytes disk e e'))"
      using d(5) by (simp only: copy_in_add le_add_diff_inverse)
    then show ?thesis using f(1) d(5) by (simp add: copy_in_put_other copy_in_put)
  qed
  have D: "log_bytes disk c e' = ?enc (take k gs) @ copy_in (rbuf rs1) ?off ?n"
    unfolding log_bytes_append [OF d(1) e(1), of disk] d(6) tail by simp
  have "?enc (take k gs) @ ?enc ?rest = log_bytes disk c e' @ (log_bytes disk e' E @ ys)"
    using ys log_bytes_append [OF c(2) e(2), of disk] by (metis append.assoc append_take_drop_id concat_append map_append)
  then have rest: "?enc ?rest = copy_in (rbuf rs1) ?off ?n @ (log_bytes disk e' E @ ys)" unfolding D by simp
  have hold: "buffer_holds other ?rest rs1"
    using c(3) reads_prefix [of "rbuf rs1" ?off ?n "?enc ?rest"] rest f(2,5,6,7) d(5,9,10) lsn_after_in_data [OF c(1)]
    by (simp add: buffer_holds_def list_all_iff) (auto dest: in_set_dropD)
  have a: "lsn_in_data (recovered_lsn rs1)" using f(7) d(10) lsn_after_in_data [OF c(1)] by simp
  have b: "list_all (group_wf other) ?rest" "reads (rbuf rs1) (recovered_offset rs1) (rlen rs1) (?enc ?rest)"
    "recovered_offset rs1 \<le> rlen rs1" "rlen rs1 \<le> recovered_offset rs1 + length (?enc ?rest)"
    "\<not> found_corrupt_log rs1" using hold by (simp_all add: buffer_holds_def)
  from parse_groups [OF b(2,1,3-5) a, of deleted]
  obtain i where i: "i \<le> length ?rest" "recv_parse_log_recs other deleted True rs1 = Some (fold (replay_group deleted) (take i ?rest) rs1)"
    "recovered_offset rs1 + length (?enc (take i ?rest)) \<le> rlen rs1"
    "0 < i \<longrightarrow> lsn_after (recovered_lsn rs1) (take i ?rest) \<le> scanned_lsn rs1"
    "i < length ?rest \<longrightarrow> rlen rs1 < recovered_offset rs1 + length (?enc (take (Suc i) ?rest)) \<or>
      scanned_lsn rs1 < lsn_after (recovered_lsn rs1) (take (Suc i) ?rest)"
    unfolding lsn_after_def by blast
  let ?rs2 = "fold (replay_group deleted) (take i ?rest) rs1"
  have fits: "group_fits disk c e' gs m \<longleftrightarrow>
      recovered_offset rs1 + length (?enc (take (m - k) ?rest)) \<le> rlen rs1 \<and>
      lsn_after (recovered_lsn rs1) (take (m - k) ?rest) \<le> scanned_lsn rs1" if "k \<le> m" for m
  proof -
    have t: "take m gs = take k gs @ take (m - k) ?rest" using that take_add [of k "m - k" gs] by simp
    have "lsn_after c (take m gs) = lsn_after (recovered_lsn rs1) (take (m - k) ?rest)"
      unfolding t f(7) d(10) by (rule lsn_after_append [OF c(1)])
    then show ?thesis using b(3) f(3,6) unfolding group_fits_def D by (auto simp: t)
  qed
  have ki: "take (k + i) gs = take k gs @ take i ?rest" by (rule take_add)
  note rg = replay_groups [OF a, where deleted = deleted and gs = "take i ?rest"]
  have core: "scan_core deleted disk c gs e' (k + i) ?rs2"
    unfolding scan_core_def
  proof (intro conjI impI allI)
    show "k + i \<le> length gs" using i(1) d(2) by simp
    show "group_fits disk c e' gs (k + i)" if "0 < k + i"
    proof (cases "i = 0")
      case True
      then show ?thesis using that d(3) group_fits_mono [OF _ e(1) d(1)] by simp
    qed (use fits [of "k + i"] i(3,4) in simp)
    show "\<not> group_fits disk c e' gs (Suc (k + i))" if "k + i < length gs"
      using fits [of "Suc (k + i)"] i(5) that by (auto simp: Suc_diff_le)
    show "log_bytes disk c e' = ?enc (take (k + i) gs) @ copy_in (rbuf ?rs2) (recovered_offset ?rs2) (rlen ?rs2 - recovered_offset ?rs2)"
    proof -
      let ?m = "length (?enc (take i ?rest))"
      have "?n = ?m + (rlen rs1 - (?off + ?m))" using i(3) f(6) by simp
      then have sp: "copy_in (rbuf rs1) ?off ?n = copy_in (rbuf rs1) ?off ?m @ copy_in (rbuf rs1) (?off + ?m) (rlen rs1 - (?off + ?m))"
        by (simp only: copy_in_add)
      have "?enc ?rest = ?enc (take i ?rest) @ ?enc (drop i ?rest)" by (metis append_take_drop_id concat_append map_append)
      then have "take ?m (?enc ?rest) = ?enc (take i ?rest)" using append_eq_conv_conj by metis
      moreover have "take ?m (?enc ?rest) = copy_in (rbuf rs1) ?off ?m" unfolding rest sp by simp
      ultimately have "copy_in (rbuf rs1) ?off ?m = ?enc (take i ?rest)" by simp
      then show ?thesis using D sp f(6) rg(3) by (simp add: replay_keeps ki)
    qed
    show "page_recs s p ?rs2 = (if deleted s then [] else log_recs s p (take (k + i) gs) c)" for s p
      using rg(2) [of s p] f(7,8) d(10,12) log_recs_append [OF c(1), of s p "take k gs"] by (simp add: ki)
    show "recovered_lsn ?rs2 = lsn_after c (take (k + i) gs)"
      using rg(1) f(7) d(10) lsn_after_append [OF c(1), of "take k gs"] by (simp add: ki)
    have "hash_pending rs1" using d(13) f(9,10) by (simp add: hash_pending_def)
    then show "hash_pending ?rs2" by (rule hash_pending_groups)
  qed (use c(2) i(3) f d(8,9) rg(3) in \<open>simp_all add: replay_keeps\<close>)
  show ?thesis
    using i(2) core justify_core [OF core] by (intro exI [of _ "k + i"]) (simp add: scan_state_ok_def replay_keeps)
qed

end
