(* ===== verification/Spec2Isabelle.thy ===== *)
theory Spec2Isabelle
  imports UtRnd MachData ReadView LockFun SyncMutex RwSys Scan
begin

text \<open>
  A verification library for the InnoDB storage engine sources of this repository.
\<close>

end
